(* ===== verification/Conduit_Prelude.thy ===== *)
theory Conduit_Prelude
  imports Main "HOL-Library.Word"
begin

text \<open>
  Shared vocabulary of the development: the machine integer types of the C++
  sources, the 32-bit end-of-list sentinel, the packing of a 32-bit tag and a
  32-bit index into one 64-bit atomic word, and generic facts on lists and on
  modular indices that several components use.
\<close>

unbundle bit_operations_syntax

type_synonym u8 = "8 word"
type_synonym u16 = "16 word"
type_synonym u32 = "32 word"
type_synonym u64 = "64 word"

text \<open>Rewrite rules for ring indices and for tagged heads, used by the component proofs.\<close>

named_theorems ring_simps
named_theorems head_simps

section \<open>Outcomes of operations on raw memory\<close>

text \<open>
  \<open>Fault\<close>: the code leaves an array (undefined behaviour in C++). \<open>Pending\<close>: a
  compare-and-swap loop has not finished with the attempts it was given.
\<close>

datatype 'r outcome = Fault | Pending | Done 'r

fun map_outcome_result :: "('r \<Rightarrow> 's) \<Rightarrow> 'r outcome \<Rightarrow> 's outcome" where
  "map_outcome_result f Fault = Fault"
| "map_outcome_result f Pending = Pending"
| "map_outcome_result f (Done r) = Done (f r)"

fun bind_outcome :: "'r outcome \<Rightarrow> ('r \<Rightarrow> 's outcome) \<Rightarrow> 's outcome" where
  "bind_outcome Fault f = Fault"
| "bind_outcome Pending f = Pending"
| "bind_outcome (Done r) f = f r"

lemma map_outcome_result_Done: "map_outcome_result f x = Done y \<longleftrightarrow> (\<exists>r. x = Done r \<and> y = f r)"
  by (cases x) auto

lemma bind_outcome_Done: "bind_outcome x f = Done y \<longleftrightarrow> (\<exists>r. x = Done r \<and> f r = Done y)"
  by (cases x) auto

lemma bind_outcome_assoc: "bind_outcome (bind_outcome x f) g = bind_outcome x (\<lambda>r. bind_outcome (f r) g)"
  by (cases x) auto

section \<open>Tagged heads: 32-bit tag and 32-bit index in one word\<close>

abbreviation low_mask :: u64 where
  "low_mask \<equiv> 0xFFFFFFFF"

abbreviation end_of_list :: u32 where
  "end_of_list \<equiv> 0xFFFFFFFF"

definition head_idx :: "u64 \<Rightarrow> u32" where
  "head_idx h = ucast (h AND low_mask)"

definition head_tag :: "u64 \<Rightarrow> u64" where
  "head_tag h = drop_bit 32 h"

definition mk_head :: "u64 \<Rightarrow> u64 \<Rightarrow> u64" where
  "mk_head t i = push_bit 32 t OR (i AND low_mask)"

lemma low_mask_eq: "low_mask = mask 32"
  by (simp add: mask_eq_exp_minus_1)

lemma head_idx_alt: "head_idx h = ucast h"
  by (rule bit_word_eqI) (simp add: head_idx_def low_mask_eq bit_simps)

lemma head_idx_mk_head [head_simps]: "head_idx (mk_head t i) = ucast i"
  by (rule bit_word_eqI) (auto simp: head_idx_alt mk_head_def low_mask_eq bit_simps)

lemma head_tag_mk_head [head_simps]: "head_tag (mk_head t i) = take_bit 32 t"
  by (rule bit_word_eqI)
     (auto simp: head_tag_def mk_head_def low_mask_eq bit_simps add.commute)

lemma head_tag_less: "unat (head_tag h) < 2 ^ 32"
proof -
  have "head_tag h = take_bit 32 (head_tag h)"
    by (rule bit_word_eqI) (auto simp: head_tag_def bit_simps dest: bit_imp_le_length)
  then have "unat (head_tag h) = take_bit 32 (unat (head_tag h))"
    by (metis unsigned_take_bit_eq)
  then show ?thesis
    by (metis take_bit_nat_less_exp)
qed

lemma head_eqI: "head_tag a = head_tag b \<Longrightarrow> head_idx a = head_idx b \<Longrightarrow> a = b"
proof (rule bit_word_eqI)
  fix n :: nat
  assume tags: "head_tag a = head_tag b" and idxs: "head_idx a = head_idx b"
    and n: "n < LENGTH(64)"
  show "bit a n \<longleftrightarrow> bit b n"
  proof (cases "n < 32")
    case True
    have "bit (head_idx a) n \<longleftrightarrow> bit (head_idx b) n" by (simp add: idxs)
    with True show ?thesis by (simp add: head_idx_alt bit_simps)
  next
    case False
    then obtain k where k: "n = 32 + k" using le_Suc_ex linorder_not_less by blast
    have "bit (head_tag a) k \<longleftrightarrow> bit (head_tag b) k" by (simp add: tags)
    with k n show ?thesis by (simp add: head_tag_def bit_simps)
  qed
qed

text \<open>Bumping the tag adds one modulo \<open>2 ^ 32\<close>.\<close>

lemma unat_tag_bump:
  "unat (take_bit 32 (head_tag h + 1)) = Suc (unat (head_tag h)) mod 2 ^ 32"
proof -
  have "unat (take_bit 32 (head_tag h + 1)) = take_bit 32 (unat (head_tag h + 1))"
    by (simp add: unsigned_take_bit_eq)
  also have "unat (head_tag h + 1) = Suc (unat (head_tag h))"
    using head_tag_less [of h] by (simp add: unat_word_ariths)
  finally show ?thesis by (simp add: take_bit_eq_mod)
qed

section \<open>Reading words as numbers\<close>

lemma unat_inject: "unat a = unat b \<longleftrightarrow> a = b"
  by (auto intro: unsigned_word_eqI)

section \<open>Arithmetic on \<open>size_t\<close>\<close>

text \<open>Addition and subtraction of 64-bit indices, wrapping.\<close>

definition size_add :: "nat \<Rightarrow> nat \<Rightarrow> nat" where
  "size_add a b = (a + b) mod 2 ^ 64"

definition size_sub :: "nat \<Rightarrow> nat \<Rightarrow> nat" where
  "size_sub a b = (a + 2 ^ 64 - b) mod 2 ^ 64"

lemma size_add_below: "a + b < 2 ^ 64 \<Longrightarrow> size_add a b = a + b"
  by (simp add: size_add_def)

lemma size_sub_below: "b \<le> a \<Longrightarrow> a < 2 ^ 64 \<Longrightarrow> size_sub a b = a - b"
  by (simp add: size_sub_def) (metis Nat.add_diff_assoc2 mod_add_self2 mod_less less_imp_diff_less)

end
