(* ===== verification/Event_Ptr.thy ===== *)
theory Event_Ptr
  imports Conduit_Prelude "HOL-Library.Multiset"
begin

text \<open>
  The ownership pointer \<open>event_ptr\<close> of \<open>include/conduit/core.hpp\<close>: a raw
  pointer, the function that gives its cell back and the pool that function is
  called on. A null pointer, a null function and a null context are \<open>None\<close>.
  The operations that may run the deleter return the list of deleter calls they
  make, in order; who executes a call is the pool's matter (theory \<open>Pool\<close>).
\<close>

section \<open>The pointer and its operations\<close>

record ('p, 'd, 'c) event_ptr =
  ep_ptr :: "'p option"
  ep_deleter :: "'d option"
  ep_pool_ctx :: "'c option"

type_synonym ('p, 'd, 'c) deleter_call = "'d \<times> 'c option \<times> 'p"

definition event_ptr_default :: "('p, 'd, 'c) event_ptr" where
  "event_ptr_default = \<lparr>ep_ptr = None, ep_deleter = None, ep_pool_ctx = None\<rparr>"

definition event_ptr_of :: "'p option \<Rightarrow> 'd option \<Rightarrow> 'c option \<Rightarrow> ('p, 'd, 'c) event_ptr" where
  "event_ptr_of p del ctx = \<lparr>ep_ptr = p, ep_deleter = del, ep_pool_ctx = ctx\<rparr>"

definition event_ptr_reset ::
  "('p, 'd, 'c) event_ptr \<Rightarrow> ('p, 'd, 'c) event_ptr \<times> ('p, 'd, 'c) deleter_call list" where
  "event_ptr_reset ev =
     (ev\<lparr>ep_ptr := None, ep_deleter := None\<rparr>,
      (case (ep_ptr ev, ep_deleter ev) of (Some p, Some d) \<Rightarrow> [(d, ep_pool_ctx ev, p)] | _ \<Rightarrow> []))"

definition event_ptr_dtor :: "('p, 'd, 'c) event_ptr \<Rightarrow> ('p, 'd, 'c) deleter_call list" where
  "event_ptr_dtor ev = snd (event_ptr_reset ev)"

text \<open>Move construction: the new pointer and what is left of the source.\<close>

definition event_ptr_move ::
  "('p, 'd, 'c) event_ptr \<Rightarrow> ('p, 'd, 'c) event_ptr \<times> ('p, 'd, 'c) event_ptr" where
  "event_ptr_move other =
     (\<lparr>ep_ptr = ep_ptr other, ep_deleter = ep_deleter other, ep_pool_ctx = ep_pool_ctx other\<rparr>,
      other\<lparr>ep_ptr := None, ep_deleter := None\<rparr>)"

text \<open>Move assignment between two distinct objects; the self-assignment guard is the
  caller's case distinction on the two addresses.\<close>

definition event_ptr_assign ::
  "('p, 'd, 'c) event_ptr \<Rightarrow> ('p, 'd, 'c) event_ptr \<Rightarrow>
   ('p, 'd, 'c) event_ptr \<times> ('p, 'd, 'c) event_ptr \<times> ('p, 'd, 'c) deleter_call list" where
  "event_ptr_assign this other =
     (let (this1, calls) = event_ptr_reset this
      in (this1\<lparr>ep_ptr := ep_ptr other, ep_deleter := ep_deleter other, ep_pool_ctx := ep_pool_ctx other\<rparr>,
          other\<lparr>ep_ptr := None, ep_deleter := None\<rparr>, calls))"

definition event_ptr_view :: "('p, 'd, 'c) event_ptr \<Rightarrow> ('p, 'd, 'c) event_ptr" where
  "event_ptr_view other = \<lparr>ep_ptr = ep_ptr other, ep_deleter = None, ep_pool_ctx = None\<rparr>"

definition event_ptr_release ::
  "('p, 'd, 'c) event_ptr \<Rightarrow> 'p option \<times> ('p, 'd, 'c) event_ptr" where
  "event_ptr_release ev = (ep_ptr ev, ev\<lparr>ep_ptr := None, ep_deleter := None\<rparr>)"

definition event_ptr_get :: "('p, 'd, 'c) event_ptr \<Rightarrow> 'p option" where
  "event_ptr_get ev = ep_ptr ev"

definition event_ptr_bool :: "('p, 'd, 'c) event_ptr \<Rightarrow> bool" where
  "event_ptr_bool ev \<longleftrightarrow> ep_ptr ev \<noteq> None"

definition event_ptr_is_null :: "('p, 'd, 'c) event_ptr \<Rightarrow> bool" where
  "event_ptr_is_null ev \<longleftrightarrow> ep_ptr ev = None"

lemmas event_ptr_defs = event_ptr_default_def event_ptr_of_def event_ptr_reset_def
  event_ptr_dtor_def event_ptr_move_def event_ptr_assign_def event_ptr_view_def
  event_ptr_release_def event_ptr_get_def event_ptr_bool_def event_ptr_is_null_def

section \<open>Programs over pointers\<close>

text \<open>
  A scope holds pointer variables; a program acquires cells, moves, views,
  resets and releases pointers and ends the life of variables in any order. The
  scope records every deleter call and every raw pointer that \<open>release\<close> returned
  for a pointer that owned its cell.
\<close>

datatype ('p, 'd, 'c) ptr_op =
    Acquire 'p 'd 'c
  | Move_Construct nat
  | Move_Assign nat nat
  | Make_View nat
  | Reset nat
  | Release nat
  | Destroy nat

record ('p, 'd, 'c) scope =
  vars :: "('p, 'd, 'c) event_ptr list"
  calls :: "('p, 'd, 'c) deleter_call list"
  raws :: "'p list"

definition empty_scope :: "('p, 'd, 'c) scope" where
  "empty_scope = \<lparr>vars = [], calls = [], raws = []\<rparr>"

fun owned_cell :: "('p, 'd, 'c) event_ptr \<Rightarrow> 'p list" where
  "owned_cell ev = (case (ep_ptr ev, ep_deleter ev) of (Some p, Some d) \<Rightarrow> [p] | _ \<Rightarrow> [])"

fun ptr_step :: "('p, 'd, 'c) ptr_op \<Rightarrow> ('p, 'd, 'c) scope \<Rightarrow> ('p, 'd, 'c) scope" where
  "ptr_step (Acquire p d c) s =
     s\<lparr>vars := vars s @ [event_ptr_of (Some p) (Some d) (Some c)]\<rparr>"
| "ptr_step (Move_Construct i) s =
     (if i < length (vars s)
      then let (new, old) = event_ptr_move (vars s ! i) in s\<lparr>vars := (vars s)[i := old] @ [new]\<rparr>
      else s)"
| "ptr_step (Move_Assign i j) s =
     (if i < length (vars s) \<and> j < length (vars s) \<and> i \<noteq> j
      then let (this, other, cs) = event_ptr_assign (vars s ! i) (vars s ! j)
           in s\<lparr>vars := (vars s)[i := this, j := other], calls := calls s @ cs\<rparr>
      else s)"
| "ptr_step (Make_View i) s =
     (if i < length (vars s) then s\<lparr>vars := vars s @ [event_ptr_view (vars s ! i)]\<rparr> else s)"
| "ptr_step (Reset i) s =
     (if i < length (vars s)
      then let (ev, cs) = event_ptr_reset (vars s ! i)
           in s\<lparr>vars := (vars s)[i := ev], calls := calls s @ cs\<rparr>
      else s)"
| "ptr_step (Release i) s =
     (if i < length (vars s)
      then let (raw, ev) = event_ptr_release (vars s ! i)
           in s\<lparr>vars := (vars s)[i := ev],
                raws := raws s @ (if ep_deleter (vars s ! i) = None then [] else case raw of None \<Rightarrow> [] | Some p \<Rightarrow> [p])\<rparr>
      else s)"
| "ptr_step (Destroy i) s =
     (if i < length (vars s)
      then s\<lparr>vars := take i (vars s) @ drop (Suc i) (vars s),
              calls := calls s @ event_ptr_dtor (vars s ! i)\<rparr>
      else s)"

definition ptr_run :: "('p, 'd, 'c) ptr_op list \<Rightarrow> ('p, 'd, 'c) scope \<Rightarrow> ('p, 'd, 'c) scope" where
  "ptr_run ops s = fold ptr_step ops s"

fun acquired_by :: "('p, 'd, 'c) ptr_op \<Rightarrow> 'p list" where
  "acquired_by (Acquire p d c) = [p]"
| "acquired_by _ = []"

definition acquired :: "('p, 'd, 'c) ptr_op list \<Rightarrow> 'p list" where
  "acquired ops = concat (map acquired_by ops)"

text \<open>A program takes only cells that no pointer of the scope owns at that time: from the pool, or out of a conduit. A cell
  that was given back may be taken again.\<close>

fun takes_free :: "('p, 'd, 'c) ptr_op list \<Rightarrow> ('p, 'd, 'c) scope \<Rightarrow> bool" where
  "takes_free [] s \<longleftrightarrow> True"
| "takes_free (op # ops) s \<longleftrightarrow>
     list_all (\<lambda>p. list_all (\<lambda>ev. p \<notin> set (owned_cell ev)) (vars s)) (acquired_by op) \<and> takes_free ops (ptr_step op s)"

definition called_cells :: "('p, 'd, 'c) deleter_call list \<Rightarrow> 'p list" where
  "called_cells cs = map (snd \<circ> snd) cs"

definition owned :: "('p, 'd, 'c) event_ptr list \<Rightarrow> 'p multiset" where
  "owned evs = (\<Sum>ev\<leftarrow>evs. mset (owned_cell ev))"

definition ledger :: "('p, 'd, 'c) scope \<Rightarrow> 'p multiset" where
  "ledger s = owned (vars s) + mset (called_cells (calls s)) + mset (raws s)"

section \<open>Ownership is linear\<close>

lemma owned_append [simp]: "owned (xs @ ys) = owned xs + owned ys"
  by (simp add: owned_def)

lemma owned_Nil [simp]: "owned [] = {#}"
  by (simp add: owned_def)

lemma owned_Cons [simp]: "owned (x # xs) = mset (owned_cell x) + owned xs"
  by (simp add: owned_def)

lemma called_cells_append [simp]: "called_cells (xs @ ys) = called_cells xs @ called_cells ys"
  by (simp add: called_cells_def)

lemma owned_split: "i < length xs \<Longrightarrow> owned xs = owned (take i xs) + mset (owned_cell (xs ! i)) + owned (drop (Suc i) xs)"
  by (metis add.assoc id_take_nth_drop owned_Cons owned_append)

lemma owned_update:
  "i < length xs \<Longrightarrow> owned (xs[i := x]) + mset (owned_cell (xs ! i)) = owned xs + mset (owned_cell x)"
  by (simp add: upd_conv_take_nth_drop owned_split [of i xs])

text \<open>What each operation does to the cell its operands own.\<close>

lemma owned_cell_cleared [simp]: "owned_cell (ev\<lparr>ep_ptr := None, ep_deleter := None\<rparr>) = []"
  by simp

lemma owned_cell_view [simp]: "owned_cell (event_ptr_view ev) = []"
  by (simp add: event_ptr_view_def split: option.split)

lemma reset_calls: "called_cells (snd (event_ptr_reset ev)) = owned_cell ev"
  by (simp add: event_ptr_reset_def called_cells_def split: option.split)

lemma reset_owned: "owned_cell (fst (event_ptr_reset ev)) = []"
  by (simp add: event_ptr_reset_def)

lemma move_owned:
  "owned_cell (fst (event_ptr_move ev)) = owned_cell ev" "owned_cell (snd (event_ptr_move ev)) = []"
  by (simp_all add: event_ptr_move_def)

lemma assign_owned:
  assumes "event_ptr_assign a b = (a', b', cs)"
  shows "owned_cell a' = owned_cell b" "owned_cell b' = []" "called_cells cs = owned_cell a"
  using assms
  by (auto simp: event_ptr_assign_def event_ptr_reset_def called_cells_def split: option.split)

declare owned_cell.simps [simp del]

lemma assign_ledger:
  assumes "i < length xs" "j < length xs" "i \<noteq> j" "event_ptr_assign (xs ! i) (xs ! j) = (a, b, cs)"
  shows "owned (xs[i := a, j := b]) + mset (called_cells cs) = owned xs"
proof -
  note o = assign_owned [OF assms(4)]
  have "owned (xs[i := a, j := b]) + mset (owned_cell (xs ! j)) = owned (xs[i := a])"
    using owned_update [of j "xs[i := a]" b] assms o by simp
  then have "owned (xs[i := a, j := b]) + mset (owned_cell (xs ! j)) + mset (owned_cell (xs ! i)) =
      owned xs + mset (owned_cell (xs ! j))"
    using owned_update [of i xs a] assms(1) o by simp
  then show ?thesis using o by (simp add: ac_simps)
qed

lemma ptr_step_ledger: "ledger (ptr_step op s) = ledger s + mset (acquired_by op)"
proof (cases op)
  case (Acquire p d c)
  then show ?thesis by (simp add: ledger_def event_ptr_of_def owned_cell.simps)
next
  case (Move_Construct i)
  then show ?thesis
    using owned_update [of i "vars s" "snd (event_ptr_move (vars s ! i))"]
    by (auto simp: ledger_def split_beta move_owned)
next
  case (Move_Assign i j)
  then show ?thesis
    using assign_ledger [of i "vars s" j]
    by (cases "event_ptr_assign (vars s ! i) (vars s ! j)") (auto simp: ledger_def ac_simps)
next
  case (Make_View i)
  then show ?thesis by (simp add: ledger_def)
next
  case (Reset i)
  then show ?thesis
    using owned_update [of i "vars s" "fst (event_ptr_reset (vars s ! i))"]
    by (auto simp: ledger_def split_beta reset_owned reset_calls ac_simps)
next
  case (Release i)
  then show ?thesis
    using owned_update [of i "vars s" "snd (event_ptr_release (vars s ! i))"]
    by (auto simp: ledger_def event_ptr_release_def owned_cell.simps ac_simps split: option.splits)
next
  case (Destroy i)
  then show ?thesis
    using owned_split [of i "vars s"]
    by (auto simp: ledger_def event_ptr_dtor_def reset_calls ac_simps)
qed

lemma ptr_run_ledger: "ledger (ptr_run ops s) = ledger s + mset (acquired ops)"
  unfolding ptr_run_def acquired_def
  by (induction ops arbitrary: s) (simp_all add: ptr_step_ledger)

text \<open>No operation takes a deleter call or a released pointer back, so what is owned grows by acquisition only.\<close>

lemma ptr_step_records:
  "mset (called_cells (calls s)) + mset (raws s) \<subseteq># mset (called_cells (calls (ptr_step op s))) + mset (raws (ptr_step op s))"
  by (cases op) (auto simp: split_beta Let_def)

lemma ptr_step_owned: "owned (vars (ptr_step op s)) \<subseteq># owned (vars s) + mset (acquired_by op)"
proof -
  have "owned (vars (ptr_step op s)) + (mset (called_cells (calls (ptr_step op s))) + mset (raws (ptr_step op s))) =
      owned (vars s) + mset (acquired_by op) + (mset (called_cells (calls s)) + mset (raws s))"
    using ptr_step_ledger [of op s] by (simp add: ledger_def ac_simps)
  with ptr_step_records [of s op] show ?thesis
    by (metis mset_subset_eq_mono_add_left_cancel subset_mset.add_mono subset_mset.add_le_cancel_right subset_mset.order_refl)
qed

lemma owned_count_list: "p \<in># owned evs \<longleftrightarrow> \<not> list_all (\<lambda>ev. p \<notin> set (owned_cell ev)) evs"
  by (induction evs) auto

lemma ptr_step_once:
  assumes "\<And>x. count (owned (vars s)) x \<le> 1" "takes_free [op] s"
  shows "count (owned (vars (ptr_step op s))) x \<le> 1"
proof -
  have le: "count (owned (vars (ptr_step op s))) x \<le> count (owned (vars s)) x + count (mset (acquired_by op)) x"
    using mset_subset_eq_count [OF ptr_step_owned [of op s], of x] by simp
  show ?thesis
  proof (cases "x \<in> set (acquired_by op)")
    case True
    then obtain d c where "op = Acquire x d c" by (cases op) auto
    moreover from this have "x \<notin># owned (vars s)" using assms(2) by (simp add: owned_count_list)
    ultimately show ?thesis using le by (simp add: not_in_iff)
  next
    case False
    then have "count (mset (acquired_by op)) x = 0" by (simp add: count_eq_zero_iff)
    then show ?thesis using le assms(1) [of x] by linarith
  qed
qed

lemma ptr_run_once:
  assumes "\<And>x. count (owned (vars s)) x \<le> 1" "takes_free ops s"
  shows "count (owned (vars (ptr_run ops s))) x \<le> 1"
  using assms
proof (induction ops arbitrary: s)
  case (Cons op ops)
  then have "count (owned (vars (ptr_step op s))) y \<le> 1" for y using ptr_step_once [of s op] by simp
  with Cons show ?case by (simp add: ptr_run_def)
qed (simp add: ptr_run_def)

section \<open>Properties\<close>

text \<open>C9: However a program moves, views, resets, releases and destroys pointers, and takes cells that no pointer owns at
  that time, once or again after they were given back: a cell has at most one owner, and every
  acquisition of a cell is matched by its present owner, by exactly one deleter call, or by exactly one
  raw pointer that \<open>release\<close> returned. So no cell is given back twice for one acquisition, none is lost, and
  once every variable is gone each acquired cell was given back or left through \<open>release\<close>.\<close>

theorem event_ptr_linear:
  assumes "takes_free ops empty_scope"
  shows "let s = ptr_run ops empty_scope in
    (\<forall>x. count (owned (vars s)) x \<le> 1) \<and>
    owned (vars s) + mset (called_cells (calls s)) + mset (raws s) = mset (acquired ops) \<and>
    (vars s = [] \<longrightarrow> mset (called_cells (calls s)) + mset (raws s) = mset (acquired ops))"
proof -
  let ?s = "ptr_run ops empty_scope"
  have "ledger ?s = mset (acquired ops)"
    by (simp add: ptr_run_ledger) (simp add: ledger_def empty_scope_def called_cells_def)
  moreover have "count (owned (vars ?s)) x \<le> 1" for x
    by (rule ptr_run_once [OF _ assms]) (simp add: empty_scope_def)
  ultimately show ?thesis by (auto simp: Let_def ledger_def)
qed

theorem event_ptr_linear_witness:
  "let ops = [Acquire 3 () (), Move_Construct 0, Reset 0, Destroy 1, Acquire 3 () (), Release 1, Destroy 1, Destroy 0 :: (nat, unit, unit) ptr_op];
       s = ptr_run ops empty_scope in
    takes_free ops empty_scope \<and> vars s = [] \<and> called_cells (calls s) = [3] \<and> raws s = [3] \<and>
    mset (called_cells (calls s)) + mset (raws s) = mset (acquired ops)"
proof -
  let ?ops = "[Acquire 3 () (), Move_Construct 0, Reset 0, Destroy 1, Acquire 3 () (), Release 1, Destroy 1, Destroy 0 :: (nat, unit, unit) ptr_op]"
  have d: "takes_free ?ops empty_scope"
    by (simp add: empty_scope_def event_ptr_defs owned_cell.simps)
  have v: "vars (ptr_run ?ops empty_scope) = []" "called_cells (calls (ptr_run ?ops empty_scope)) = [3]" "raws (ptr_run ?ops empty_scope) = [3]"
    by (simp_all add: ptr_run_def empty_scope_def event_ptr_defs called_cells_def)
  show ?thesis using event_ptr_linear [OF d] d v by (simp add: Let_def)
qed

end
