(* ===== verification/Free_List.thy ===== *)
theory Free_List
  imports Conduit_Prelude
begin

text \<open>
  Free lists threaded through an array: \<open>chain\<close> says that following the
  32-bit \<open>next\<close> fields from an index visits the given cells and ends at the
  sentinel. The three allocators of the sources (\<open>pool\<close>, \<open>slab_allocator\<close>,
  \<open>pinned_slab_allocator\<close>) keep their free cells this way. The locale \<open>slab\<close>
  is the contract they share, with what its clients may rely on.
\<close>

section \<open>Chains\<close>

primrec chain :: "(nat \<Rightarrow> u32) \<Rightarrow> nat \<Rightarrow> u32 \<Rightarrow> nat list \<Rightarrow> bool" where
  "chain nxt n i [] \<longleftrightarrow> i = end_of_list"
| "chain nxt n i (x # xs) \<longleftrightarrow> i \<noteq> end_of_list \<and> unat i = x \<and> x < n \<and> chain nxt n (nxt x) xs"

text \<open>Walking a chain, with a bound on the number of steps.\<close>

primrec walk :: "nat \<Rightarrow> (nat \<Rightarrow> u32) \<Rightarrow> u32 \<Rightarrow> nat list" where
  "walk 0 nxt i = []"
| "walk (Suc k) nxt i = (if i = end_of_list then [] else unat i # walk k nxt (nxt (unat i)))"

lemma chain_end [simp]: "chain nxt n end_of_list xs \<longleftrightarrow> xs = []"
  by (cases xs) auto

lemma chain_cons_iff:
  "i \<noteq> end_of_list \<Longrightarrow>
   chain nxt n i xs \<longleftrightarrow> (\<exists>ys. xs = unat i # ys \<and> unat i < n \<and> chain nxt n (nxt (unat i)) ys)"
  by (cases xs) auto

lemma chain_unique: "chain nxt n i xs \<Longrightarrow> chain nxt n i ys \<Longrightarrow> xs = ys"
proof (induction xs arbitrary: i ys)
  case Nil
  then show ?case by simp
next
  case (Cons x xs)
  then show ?case by (cases ys) auto
qed

lemma chain_bounded: "chain nxt n i xs \<Longrightarrow> set xs \<subseteq> {..<n}"
  by (induction xs arbitrary: i) auto

lemma chain_cong: "(\<And>x. x \<in> set xs \<Longrightarrow> f x = g x) \<Longrightarrow> chain f n i xs \<longleftrightarrow> chain g n i xs"
  by (induction xs arbitrary: i) auto

lemma chain_update [simp]: "x \<notin> set xs \<Longrightarrow> chain (nxt(x := v)) n i xs \<longleftrightarrow> chain nxt n i xs"
  by (rule chain_cong) auto

lemma chain_suffix: "chain nxt n i (xs @ y # ys) \<Longrightarrow> chain nxt n (nxt y) ys"
  by (induction xs arbitrary: i) auto

lemma chain_distinct: "chain nxt n i xs \<Longrightarrow> distinct xs"
proof (induction xs arbitrary: i)
  case Nil
  then show ?case by simp
next
  case (Cons x xs)
  have "x \<notin> set xs"
  proof
    assume "x \<in> set xs"
    then obtain as bs where xs: "xs = as @ x # bs" by (auto simp: in_set_conv_decomp)
    with Cons.prems have "chain nxt n (nxt x) bs" by (auto dest: chain_suffix)
    moreover from Cons.prems have "chain nxt n (nxt x) xs" by simp
    ultimately have "bs = xs" by (rule chain_unique)
    with xs show False by simp
  qed
  with Cons show ?case by auto
qed

lemma chain_length: "chain nxt n i xs \<Longrightarrow> length xs \<le> n"
proof -
  assume c: "chain nxt n i xs"
  have "length xs = card (set xs)"
    using chain_distinct [OF c] by (simp add: distinct_card)
  also have "\<dots> \<le> card {..<n}"
    using chain_bounded [OF c] by (rule card_mono [OF finite_lessThan])
  finally show "length xs \<le> n" by simp
qed

lemma walk_chain: "chain nxt n i xs \<Longrightarrow> length xs \<le> k \<Longrightarrow> walk k nxt i = xs"
proof (induction xs arbitrary: i k)
  case Nil
  then show ?case by (cases k) auto
next
  case (Cons x xs)
  then show ?case by (cases k) auto
qed

lemma walk_chain_n: "chain nxt n i xs \<Longrightarrow> walk n nxt i = xs"
  by (rule walk_chain) (auto dest: chain_length)

lemma unat_word_of_nat_below: "i < 0xFFFFFFFF \<Longrightarrow> unat (word_of_nat i :: u32) = i"
  by (simp add: unsigned_of_nat take_bit_nat_eq_self)

lemma word_of_nat_not_end:
  assumes "i < 0xFFFFFFFF"
  shows "(word_of_nat i :: u32) \<noteq> end_of_list"
proof
  assume "(word_of_nat i :: u32) = end_of_list"
  then have "unat (word_of_nat i :: u32) = unat end_of_list" by (rule arg_cong)
  then have "i = 0xFFFFFFFF" unfolding unat_word_of_nat_below [OF assms] by simp
  with assms show False by linarith
qed

text \<open>The chain every constructor builds: each cell to the next one, the last to the sentinel.\<close>

lemma chain_fresh:
  assumes "n \<le> 0xFFFFFFFF" "i \<le> n"
    and "\<And>j. j < n \<Longrightarrow> nxt j = (if Suc j < n then word_of_nat (Suc j) else end_of_list)"
  shows "chain nxt n (if i < n then word_of_nat i else end_of_list) [i..<n]"
  using assms(2)
proof (induction rule: inc_induct)
  case base
  then show ?case by simp
next
  case (step i)
  have "i < 0xFFFFFFFF" using step(2) assms(1) by linarith
  then have u: "unat (word_of_nat i :: u32) = i" and ne: "(word_of_nat i :: u32) \<noteq> end_of_list"
    by (rule unat_word_of_nat_below, rule word_of_nat_not_end)
  have "nxt i = (if Suc i < n then word_of_nat (Suc i) else end_of_list)"
    using step(2) by (rule assms(3))
  with step(3) have "chain nxt n (nxt i) [Suc i..<n]" by (simp only:)
  with u ne step(2) have "chain nxt n (word_of_nat i) (i # [Suc i..<n])"
    by (simp only: chain.simps simp_thms)
  with step(2) show ?case by (simp only: upt_conv_Cons if_True)
qed

section \<open>Sequences of allocator operations\<close>

datatype 'v slab_op = Alloc 'v | Dealloc nat

text \<open>
  A run of a client that frees only cells it holds: a state of the allocator
  and the cells held, newest first. A \<open>Dealloc k\<close> gives back the \<open>k\<close>-th held
  cell; every operation gets the weak compare-and-swap outcomes \<open>ws\<close>.
\<close>

fun slab_run :: "(bool list \<Rightarrow> 'v \<Rightarrow> 's \<Rightarrow> (nat option \<times> 's) outcome) \<Rightarrow>
    (bool list \<Rightarrow> nat \<Rightarrow> 's \<Rightarrow> 's outcome) \<Rightarrow> bool list \<Rightarrow> 'v slab_op list \<Rightarrow>
    nat list \<Rightarrow> 's \<Rightarrow> (nat list \<times> 's) outcome" where
  "slab_run al de ws [] hs s = Done (hs, s)"
| "slab_run al de ws (Alloc v # ops) hs s =
     bind_outcome (al ws v s)
       (\<lambda>(r, s1). slab_run al de ws ops (case r of None \<Rightarrow> hs | Some x \<Rightarrow> x # hs) s1)"
| "slab_run al de ws (Dealloc k # ops) hs s =
     (if k < length hs
      then bind_outcome (de ws (hs ! k) s) (\<lambda>s1. slab_run al de ws ops (take k hs @ drop (Suc k) hs) s1)
      else slab_run al de ws ops hs s)"

section \<open>The contract of a slab allocator\<close>

locale slab =
  fixes alloc :: "bool list \<Rightarrow> 'v \<Rightarrow> 's \<Rightarrow> (nat option \<times> 's) outcome"
    and dealloc :: "bool list \<Rightarrow> nat \<Rightarrow> 's \<Rightarrow> 's outcome"
    and free_cells :: "'s \<Rightarrow> nat list"
    and cells :: "'s \<Rightarrow> nat"
    and object :: "'s \<Rightarrow> nat \<Rightarrow> 'v option"
    and invar :: "'s \<Rightarrow> bool"
  assumes free_distinct: "invar s \<Longrightarrow> distinct (free_cells s)"
    and free_bounded: "invar s \<Longrightarrow> set (free_cells s) \<subseteq> {..<cells s}"
    and object_dom: "invar s \<Longrightarrow> dom (object s) = {..<cells s} - set (free_cells s)"
    and alloc_some: "invar s \<Longrightarrow> free_cells s = x # xs \<Longrightarrow> False \<in> set ws \<Longrightarrow>
      \<exists>s'. alloc ws v s = Done (Some x, s') \<and> invar s' \<and> free_cells s' = xs \<and>
        cells s' = cells s \<and> object s' = (object s)(x \<mapsto> v)"
    and alloc_none: "invar s \<Longrightarrow> free_cells s = [] \<Longrightarrow> ws \<noteq> [] \<Longrightarrow> alloc ws v s = Done (None, s)"
    and dealloc_some: "invar s \<Longrightarrow> x < cells s \<Longrightarrow> x \<notin> set (free_cells s) \<Longrightarrow> False \<in> set ws \<Longrightarrow>
      \<exists>s'. dealloc ws x s = Done s' \<and> invar s' \<and> free_cells s' = x # free_cells s \<and>
        cells s' = cells s \<and> object s' = (object s)(x := None)"
begin

text \<open>The cells a client holds are exactly the cells that are not free, each held once.\<close>

definition consistent :: "nat list \<Rightarrow> 's \<Rightarrow> bool" where
  "consistent hs s \<longleftrightarrow> invar s \<and> distinct hs \<and> set hs = {..<cells s} - set (free_cells s)"

lemma consistent_alloc:
  assumes "consistent hs s" "False \<in> set ws"
  shows "\<exists>r s'. alloc ws v s = Done (r, s') \<and> cells s' = cells s \<and>
    consistent (case r of None \<Rightarrow> hs | Some x \<Rightarrow> x # hs) s' \<and>
    (r = None \<longleftrightarrow> free_cells s = [])"
proof (cases "free_cells s")
  case Nil
  from assms(2) have "ws \<noteq> []" by auto
  moreover from assms(1) have "invar s" by (simp add: consistent_def)
  ultimately have "alloc ws v s = Done (None, s)" using Nil alloc_none by blast
  with Nil assms(1) show ?thesis by simp
next
  case (Cons x xs)
  from assms(1) have s: "invar s" "distinct hs" "set hs = {..<cells s} - set (free_cells s)"
    by (simp_all add: consistent_def)
  obtain s' where s': "alloc ws v s = Done (Some x, s')" "invar s'" "free_cells s' = xs"
      "cells s' = cells s"
    using alloc_some [OF s(1) Cons assms(2), of v] by blast
  have "distinct (x # xs)" "set (x # xs) \<subseteq> {..<cells s}"
    using free_distinct [OF s(1)] free_bounded [OF s(1)] Cons by simp_all
  with s s' Cons have "consistent (x # hs) s'" by (auto simp: consistent_def)
  with s' Cons show ?thesis by simp
qed

lemma consistent_dealloc:
  assumes "consistent hs s" "k < length hs" "False \<in> set ws"
  shows "\<exists>s'. dealloc ws (hs ! k) s = Done s' \<and> cells s' = cells s \<and>
    consistent (take k hs @ drop (Suc k) hs) s'"
proof -
  let ?x = "hs ! k" and ?hs = "take k hs @ drop (Suc k) hs"
  have hs: "distinct hs" "set hs = {..<cells s} - set (free_cells s)" "invar s"
    using assms(1) by (auto simp: consistent_def)
  have split: "hs = take k hs @ ?x # drop (Suc k) hs"
    using assms(2) by (rule id_take_nth_drop)
  have d: "distinct (take k hs @ ?x # drop (Suc k) hs)"
    by (subst split [symmetric]) (rule hs(1))
  have "set hs = set (take k hs @ ?x # drop (Suc k) hs)"
    by (subst split [symmetric]) (rule refl)
  with d have dist: "distinct ?hs" "?x \<notin> set ?hs" "set hs = insert ?x (set ?hs)"
    by auto
  have x: "?x < cells s" "?x \<notin> set (free_cells s)"
    using hs(2) assms(2) nth_mem [of k hs] by auto
  obtain s' where s': "dealloc ws ?x s = Done s'" "invar s'" "free_cells s' = ?x # free_cells s"
      "cells s' = cells s"
    using dealloc_some [OF hs(3) x assms(3)] by auto
  have "set ?hs = {..<cells s'} - set (free_cells s')"
    using dist(2,3) hs(2) s'(3,4) by auto
  with s' dist(1) show ?thesis by (auto simp: consistent_def)
qed

lemma run_consistent:
  assumes "consistent hs s" "False \<in> set ws"
  shows "\<exists>hs' s'. slab_run alloc dealloc ws ops hs s = Done (hs', s') \<and> consistent hs' s' \<and>
    cells s' = cells s"
  using assms(1)
proof (induction ops arbitrary: hs s)
  case Nil
  then show ?case by simp
next
  case (Cons op ops)
  show ?case
  proof (cases op)
    case (Alloc v)
    obtain r s1 where s1: "alloc ws v s = Done (r, s1)" "cells s1 = cells s"
        "consistent (case r of None \<Rightarrow> hs | Some x \<Rightarrow> x # hs) s1"
      using consistent_alloc [OF Cons.prems assms(2)] by blast
    with Cons.IH [OF s1(3)] Alloc show ?thesis by simp
  next
    case (Dealloc k)
    show ?thesis
    proof (cases "k < length hs")
      case True
      obtain s1 where s1: "dealloc ws (hs ! k) s = Done s1" "cells s1 = cells s"
          "consistent (take k hs @ drop (Suc k) hs) s1"
        using consistent_dealloc [OF Cons.prems True assms(2)] by blast
      with Cons.IH [OF s1(3)] Dealloc True show ?thesis by simp
    next
      case False
      with Cons.IH [OF Cons.prems] Dealloc show ?thesis by simp
    qed
  qed
qed

lemma consistent_fresh: "invar s \<Longrightarrow> set (free_cells s) = {..<cells s} \<Longrightarrow> consistent [] s"
  by (simp add: consistent_def)

text \<open>From a state where all cells are free, the held cells and the free list always partition them.\<close>

lemma run_partitioned:
  assumes "invar s" "set (free_cells s) = {..<cells s}" "False \<in> set ws"
  shows "\<exists>held s'. slab_run alloc dealloc ws ops [] s = Done (held, s') \<and>
    distinct (held @ free_cells s') \<and> set (held @ free_cells s') = {..<cells s} \<and>
    dom (object s') = set held"
proof -
  obtain held s' where run: "slab_run alloc dealloc ws ops [] s = Done (held, s')"
      and c: "consistent held s'" "cells s' = cells s"
    using run_consistent [OF consistent_fresh [OF assms(1,2)] assms(3)] by blast
  then have inv: "invar s'" and held: "distinct held" "set held = {..<cells s} - set (free_cells s')"
    by (simp_all add: consistent_def)
  have "set (free_cells s') \<subseteq> {..<cells s}"
    using free_bounded [OF inv] c(2) by simp
  then have "distinct (held @ free_cells s') \<and> set (held @ free_cells s') = {..<cells s}"
    using held free_distinct [OF inv] by auto
  with run object_dom [OF inv] held c(2) show ?thesis by auto
qed

text \<open>A cell that is given back is the next one handed out.\<close>

lemma dealloc_alloc:
  assumes "invar s" "x < cells s" "x \<notin> set (free_cells s)" "False \<in> set ws" "False \<in> set ws'"
  shows "\<exists>s1 s2. dealloc ws x s = Done s1 \<and> alloc ws' v s1 = Done (Some x, s2) \<and>
    free_cells s2 = free_cells s \<and> object s2 = (object s)(x \<mapsto> v)"
proof -
  obtain s1 where s1: "dealloc ws x s = Done s1" "invar s1" "free_cells s1 = x # free_cells s"
      "object s1 = (object s)(x := None)"
    using dealloc_some assms by blast
  obtain s2 where "alloc ws' v s1 = Done (Some x, s2)" "free_cells s2 = free_cells s"
      "object s2 = (object s1)(x \<mapsto> v)"
    using alloc_some [OF s1(2,3) assms(5)] by blast
  with s1 show ?thesis by auto
qed

end

end
