(* ===== verification/Pool.thy ===== *)
theory Pool
  imports Event_Ptr Free_List
begin

text \<open>
  The lock-free memory pool of \<open>include/conduit/core.hpp\<close>. A cell is a union of
  an object and a 64-bit \<open>next\<close> field; the head of the free list is one 64-bit
  word, a 32-bit tag above a 32-bit index. \<open>make\<close> and \<open>free\<close> are
  compare-and-swap loops: their first argument lists, attempt by attempt,
  whether the weak compare-and-swap fails spuriously. Here one thread works on
  the pool; theory \<open>Pool_Concurrent\<close> interleaves many.
\<close>

section \<open>Memory\<close>

datatype 'a cell = Data 'a | Next u64

record 'a pool =
  memory :: "'a cell list"
  free_head :: u64

text \<open>Reading \<open>next\<close> of a cell that holds an object reads the object's first eight bytes;
  \<open>bits\<close> is that part of the object representation of the event type.\<close>

fun read_next :: "('a \<Rightarrow> u64) \<Rightarrow> 'a cell \<Rightarrow> u64" where
  "read_next bits (Next n) = n"
| "read_next bits (Data d) = bits d"

section \<open>Construction, allocation, reclamation\<close>

datatype deleter = Release_To_Pool

type_synonym 'c cell_ptr = "(nat, deleter, 'c) event_ptr"

text \<open>With capacity 0 the loop bound \<open>capacity - 1\<close> wraps around and the first write is
  outside the vector.\<close>

definition pool_ctor :: "nat \<Rightarrow> 'a pool outcome" where
  "pool_ctor capacity =
     (if capacity = 0 then Fault
      else let m0 = replicate capacity (Next 0);
               m1 = fold (\<lambda>i m. m[i := Next (word_of_nat (i + 1))]) [0..<capacity - 1] m0;
               m2 = m1[capacity - 1 := Next 0xFFFFFFFF]
           in Done \<lparr>memory = m2, free_head = 0\<rparr>)"

definition pool_move :: "'a pool \<Rightarrow> 'a pool \<times> 'a pool" where
  "pool_move other =
     (\<lparr>memory = memory other, free_head = free_head other\<rparr>, other\<lparr>memory := []\<rparr>)"

fun make_loop :: "('a \<Rightarrow> u64) \<Rightarrow> bool list \<Rightarrow> u64 \<Rightarrow> 'a \<Rightarrow> 'a pool \<Rightarrow>
    (nat option \<times> 'a pool) outcome" where
  "make_loop bits [] head v p = Pending"
| "make_loop bits (weak # ws) head v p =
     (let idx = head_idx head
      in if idx = 0xFFFFFFFF then Done (None, p)
         else if unat idx \<ge> length (memory p) then Fault
         else let nxt = read_next bits (memory p ! unat idx);
                  new_head = mk_head (head_tag head + 1) (nxt AND 0xFFFFFFFF)
              in if free_head p = head \<and> \<not> weak
                 then Done (Some (unat idx),
                   p\<lparr>memory := (memory p)[unat idx := Data v], free_head := new_head\<rparr>)
                 else make_loop bits ws (free_head p) v p)"

definition make_cell :: "('a \<Rightarrow> u64) \<Rightarrow> bool list \<Rightarrow> 'a \<Rightarrow> 'a pool \<Rightarrow> (nat option \<times> 'a pool) outcome" where
  "make_cell bits ws v p = make_loop bits ws (free_head p) v p"

definition pool_make :: "('a \<Rightarrow> u64) \<Rightarrow> 'c \<Rightarrow> bool list \<Rightarrow> 'a \<Rightarrow> 'a pool \<Rightarrow>
    ('c cell_ptr \<times> 'a pool) outcome" where
  "pool_make bits this ws v p =
     map_outcome_result
       (\<lambda>(r, p'). (case r of None \<Rightarrow> event_ptr_default
                   | Some i \<Rightarrow> event_ptr_of (Some i) (Some Release_To_Pool) (Some this), p'))
       (make_cell bits ws v p)"

fun free_loop :: "bool list \<Rightarrow> u64 \<Rightarrow> nat \<Rightarrow> 'a pool \<Rightarrow> 'a pool outcome" where
  "free_loop [] head idx p = Pending"
| "free_loop (weak # ws) head idx p =
     (let p1 = p\<lparr>memory := (memory p)[idx := Next (head AND 0xFFFFFFFF)]\<rparr>;
          new_head = mk_head (head_tag head + 1) (word_of_nat idx AND 0xFFFFFFFF)
      in if free_head p1 = head \<and> \<not> weak then Done (p1\<lparr>free_head := new_head\<rparr>)
         else free_loop ws (free_head p1) idx p1)"

definition pool_free :: "bool list \<Rightarrow> nat option \<Rightarrow> 'a pool \<Rightarrow> 'a pool outcome" where
  "pool_free ws q p =
     (case q of None \<Rightarrow> Done p
      | Some idx \<Rightarrow> if idx \<ge> length (memory p) then Fault else free_loop ws (free_head p) idx p)"

definition release_to_pool :: "bool list \<Rightarrow> (nat, deleter, 'c) deleter_call \<Rightarrow> 'a pool \<Rightarrow> 'a pool outcome" where
  "release_to_pool ws call p = (case call of (Release_To_Pool, ctx, q) \<Rightarrow> pool_free ws (Some q) p)"

section \<open>The free list and the invariant\<close>

definition pool_next :: "('a \<Rightarrow> u64) \<Rightarrow> 'a pool \<Rightarrow> nat \<Rightarrow> u32" where
  "pool_next bits p i = ucast (read_next bits (memory p ! i))"

definition pool_free_cells :: "('a \<Rightarrow> u64) \<Rightarrow> 'a pool \<Rightarrow> nat list" where
  "pool_free_cells bits p = walk (length (memory p)) (pool_next bits p) (head_idx (free_head p))"

definition pool_object :: "'a pool \<Rightarrow> nat \<Rightarrow> 'a option" where
  "pool_object p i =
     (if i < length (memory p) then (case memory p ! i of Data v \<Rightarrow> Some v | Next _ \<Rightarrow> None) else None)"

text \<open>The free list is a chain that ends at the sentinel; the cells on it hold \<open>next\<close> fields and
  the others hold objects.\<close>

definition pool_inv :: "('a \<Rightarrow> u64) \<Rightarrow> 'a pool \<Rightarrow> bool" where
  "pool_inv bits p \<longleftrightarrow>
     length (memory p) \<le> 0xFFFFFFFF \<and>
     chain (pool_next bits p) (length (memory p)) (head_idx (free_head p)) (pool_free_cells bits p) \<and>
     (\<forall>i < length (memory p). i \<in> set (pool_free_cells bits p) \<longleftrightarrow> pool_object p i = None)"

lemma pool_invI:
  assumes "length (memory p) \<le> 0xFFFFFFFF"
    and c: "chain (pool_next bits p) (length (memory p)) (head_idx (free_head p)) xs"
    and "\<And>i. i < length (memory p) \<Longrightarrow> i \<in> set xs \<longleftrightarrow> pool_object p i = None"
  shows "pool_inv bits p \<and> pool_free_cells bits p = xs"
proof -
  have "pool_free_cells bits p = xs"
    unfolding pool_free_cells_def by (rule walk_chain_n [OF c])
  with assms show ?thesis by (simp add: pool_inv_def)
qed

lemma pool_invD:
  assumes "pool_inv bits p"
  shows "chain (pool_next bits p) (length (memory p)) (head_idx (free_head p)) (pool_free_cells bits p)"
    and "length (memory p) \<le> 0xFFFFFFFF"
    and "i < length (memory p) \<Longrightarrow> i \<in> set (pool_free_cells bits p) \<longleftrightarrow> pool_object p i = None"
  using assms by (auto simp: pool_inv_def)

lemma ucast_low_mask [head_simps]: "(ucast (x AND 0xFFFFFFFF :: u64) :: u32) = ucast x"
  using head_idx_alt [of x] by (simp add: head_idx_def)

lemma ucast_of_nat_u32 [head_simps]: "(ucast (word_of_nat i :: u64) :: u32) = word_of_nat i"
  by (simp add: unsigned_of_nat word_of_nat_eq_iff)

section \<open>One thread on the pool\<close>

lemma pool_object_update:
  "i < length (memory p) \<Longrightarrow> pool_object (p\<lparr>memory := (memory p)[i := c], free_head := h\<rparr>) =
     (pool_object p)(i := (case c of Data v \<Rightarrow> Some v | Next _ \<Rightarrow> None))"
  by (rule ext) (simp add: pool_object_def)

lemma pool_next_update:
  "i < length (memory p) \<Longrightarrow> pool_next bits (p\<lparr>memory := (memory p)[i := c], free_head := h\<rparr>) =
     (\<lambda>j. if j = i then ucast (read_next bits c) else pool_next bits p j)"
  by (rule ext) (simp add: pool_next_def)

text \<open>The pool after cell \<open>x\<close> was taken and after it was given back.\<close>

definition pool_taken :: "('a \<Rightarrow> u64) \<Rightarrow> 'a \<Rightarrow> nat \<Rightarrow> 'a pool \<Rightarrow> 'a pool" where
  "pool_taken bits v x p =
     p\<lparr>memory := (memory p)[x := Data v],
        free_head := mk_head (head_tag (free_head p) + 1) (read_next bits (memory p ! x) AND 0xFFFFFFFF)\<rparr>"

definition pool_given :: "nat \<Rightarrow> 'a pool \<Rightarrow> 'a pool" where
  "pool_given x p =
     p\<lparr>memory := (memory p)[x := Next (free_head p AND 0xFFFFFFFF)],
        free_head := mk_head (head_tag (free_head p) + 1) (word_of_nat x AND 0xFFFFFFFF)\<rparr>"

lemma length_pool_taken [simp]: "length (memory (pool_taken bits v x p)) = length (memory p)"
  and length_pool_given [simp]: "length (memory (pool_given x p)) = length (memory p)"
  by (simp_all add: pool_taken_def pool_given_def)

lemma pool_inv_taken:
  assumes inv: "pool_inv bits p" and fc: "pool_free_cells bits p = x # xs"
  shows "pool_inv bits (pool_taken bits v x p) \<and> pool_free_cells bits (pool_taken bits v x p) = xs"
proof (rule pool_invI)
  note c = pool_invD(1) [OF inv, unfolded fc]
  have x: "x < length (memory p)" "x \<notin> set xs"
    using c chain_distinct [OF c] by simp_all
  show "length (memory (pool_taken bits v x p)) \<le> 0xFFFFFFFF"
    using pool_invD(2) [OF inv] by simp
  have "chain (pool_next bits p) (length (memory p)) (pool_next bits p x) xs" using c by simp
  then have "chain (pool_next bits (pool_taken bits v x p)) (length (memory p)) (pool_next bits p x) xs"
    by (rule iffD1 [OF chain_cong, rotated]) (use x in \<open>auto simp: pool_taken_def pool_next_update\<close>)
  then show "chain (pool_next bits (pool_taken bits v x p)) (length (memory (pool_taken bits v x p)))
      (head_idx (free_head (pool_taken bits v x p))) xs"
    by (simp add: pool_taken_def head_simps pool_next_def)
next
  note c = pool_invD(1) [OF inv, unfolded fc]
  fix i assume i: "i < length (memory (pool_taken bits v x p))"
  show "i \<in> set xs \<longleftrightarrow> pool_object (pool_taken bits v x p) i = None"
    using pool_invD(3) [OF inv, of i] i c chain_distinct [OF c] fc
    by (auto simp: pool_taken_def pool_object_update)
qed

lemma pool_inv_given:
  assumes inv: "pool_inv bits p" and x: "x < length (memory p)" "x \<notin> set (pool_free_cells bits p)"
  shows "pool_inv bits (pool_given x p) \<and>
    pool_free_cells bits (pool_given x p) = x # pool_free_cells bits p"
proof (rule pool_invI)
  show "length (memory (pool_given x p)) \<le> 0xFFFFFFFF"
    using pool_invD(2) [OF inv] by simp
  have below: "x < 0xFFFFFFFF" using x(1) pool_invD(2) [OF inv] by linarith
  have "chain (pool_next bits (pool_given x p)) (length (memory p)) (head_idx (free_head p))
      (pool_free_cells bits p)"
    by (rule iffD1 [OF chain_cong, OF _ pool_invD(1) [OF inv]])
       (use x in \<open>auto simp: pool_given_def pool_next_update\<close>)
  moreover have "pool_next bits (pool_given x p) x = head_idx (free_head p)"
    using x(1) by (simp add: pool_given_def pool_next_update head_simps head_idx_alt)
  moreover have "head_idx (free_head (pool_given x p)) = word_of_nat x"
    by (simp add: pool_given_def head_simps)
  ultimately show "chain (pool_next bits (pool_given x p)) (length (memory (pool_given x p)))
      (head_idx (free_head (pool_given x p))) (x # pool_free_cells bits p)"
    using x(1) unat_word_of_nat_below [OF below] word_of_nat_not_end [OF below]
    by (simp only: chain.simps length_pool_given simp_thms)
next
  fix i assume i: "i < length (memory (pool_given x p))"
  show "i \<in> set (x # pool_free_cells bits p) \<longleftrightarrow> pool_object (pool_given x p) i = None"
    using pool_invD(3) [OF inv, of i] i x by (auto simp: pool_given_def pool_object_update)
qed

text \<open>Spurious failures of the compare-and-swap only repeat an attempt.\<close>

lemma make_cell_taken:
  assumes "pool_inv bits p" "pool_free_cells bits p = x # xs" "False \<in> set ws"
  shows "make_cell bits ws v p = Done (Some x, pool_taken bits v x p)"
proof -
  have "head_idx (free_head p) \<noteq> end_of_list" "unat (head_idx (free_head p)) = x" "x < length (memory p)"
    using pool_invD(1) [OF assms(1)] by (simp_all add: assms(2))
  then show ?thesis
    using assms(3) unfolding make_cell_def
    by (induction ws) (auto simp: pool_taken_def Let_def)
qed

lemma make_cell_exhausted:
  assumes "pool_inv bits p" "pool_free_cells bits p = []" "ws \<noteq> []"
  shows "make_cell bits ws v p = Done (None, p)"
proof -
  have "head_idx (free_head p) = end_of_list"
    using pool_invD(1) [OF assms(1)] by (simp add: assms(2))
  then show ?thesis using assms(3) by (cases ws) (simp_all add: make_cell_def)
qed

lemma free_loop_given:
  "False \<in> set ws \<Longrightarrow> head = free_head p \<Longrightarrow> free_loop ws head x p = Done (pool_given x p)"
  by (induction ws head x p rule: free_loop.induct) (auto simp: pool_given_def Let_def)

lemma pool_ctor_memory:
  assumes "0 < n"
  shows "\<exists>p. pool_ctor n = Done p \<and> length (memory p) = n \<and> free_head p = 0 \<and>
    (\<forall>i < n. memory p ! i = Next (if Suc i < n then word_of_nat (Suc i) else 0xFFFFFFFF))"
proof -
  have fold: "length (fold (\<lambda>i m. m[i := Next (word_of_nat (i + 1))]) [0..<k] m) = length m \<and>
      (\<forall>i < length m. fold (\<lambda>i m. m[i := Next (word_of_nat (i + 1))]) [0..<k] m ! i =
        (if i < k then Next (word_of_nat (Suc i)) else m ! i))" for k and m :: "'a cell list"
    by (induction k) (auto simp: nth_list_update less_Suc_eq)
  show ?thesis
    using assms fold [of "n - 1" "replicate n (Next 0)"]
    by (auto simp: pool_ctor_def Let_def nth_list_update)
qed

lemma pool_ctor_inv:
  fixes bits :: "'a \<Rightarrow> u64"
  assumes "0 < n" "n \<le> 0xFFFFFFFF"
  shows "\<exists>p. pool_ctor n = Done p \<and> pool_inv bits p \<and> pool_free_cells bits p = [0..<n] \<and>
    length (memory p) = n"
proof -
  obtain p :: "'a pool" where p: "pool_ctor n = Done p" "length (memory p) = n" "free_head p = 0"
      "\<And>i. i < n \<Longrightarrow> memory p ! i = Next (if Suc i < n then word_of_nat (Suc i) else 0xFFFFFFFF)"
    using pool_ctor_memory [OF assms(1)] by blast
  have nxt: "pool_next bits p i = (if Suc i < n then word_of_nat (Suc i) else end_of_list)" if "i < n" for i
    using p(4) [OF that] by (simp add: pool_next_def ucast_of_nat_u32 del: of_nat_Suc)
  have "chain (pool_next bits p) n (if 0 < n then word_of_nat 0 else end_of_list) [0..<n]"
    using assms(2) by (rule chain_fresh) (simp_all add: nxt)
  then have "chain (pool_next bits p) (length (memory p)) (head_idx (free_head p)) [0..<n]"
    using assms(1) p(2,3) by (simp add: head_idx_alt)
  then have "pool_inv bits p \<and> pool_free_cells bits p = [0..<n]"
    using p assms(2) by (intro pool_invI) (auto simp: pool_object_def)
  with p(1,2) show ?thesis by blast
qed

section \<open>The pool implements the allocator contract\<close>

interpretation pl: slab "make_cell bits" "\<lambda>ws x. pool_free ws (Some x)" "pool_free_cells bits"
  "\<lambda>p. length (memory p)" pool_object "pool_inv bits"
  for bits :: "'a \<Rightarrow> u64"
proof unfold_locales
  fix p :: "'a pool" and x xs ws v
  assume inv: "pool_inv bits p"
  show "distinct (pool_free_cells bits p)"
    using pool_invD(1) [OF inv] by (rule chain_distinct)
  show "set (pool_free_cells bits p) \<subseteq> {..<length (memory p)}"
    using pool_invD(1) [OF inv] by (rule chain_bounded)
  show "dom (pool_object p) = {..<length (memory p)} - set (pool_free_cells bits p)"
    using pool_invD(3) [OF inv] by (auto simp: pool_object_def split: if_splits)
  show "make_cell bits ws v p = Done (None, p)" if "pool_free_cells bits p = []" "ws \<noteq> []"
    using inv that by (rule make_cell_exhausted)
  show "\<exists>p'. make_cell bits ws v p = Done (Some x, p') \<and> pool_inv bits p' \<and>
      pool_free_cells bits p' = xs \<and> length (memory p') = length (memory p) \<and>
      pool_object p' = (pool_object p)(x \<mapsto> v)"
    if fc: "pool_free_cells bits p = x # xs" and ws: "False \<in> set ws"
  proof -
    have "x < length (memory p)" using pool_invD(1) [OF inv] fc by simp
    then have "pool_object (pool_taken bits v x p) = (pool_object p)(x \<mapsto> v)"
      by (simp add: pool_taken_def pool_object_update)
    with make_cell_taken [OF inv fc ws] pool_inv_taken [OF inv fc, of v] show ?thesis by auto
  qed
  show "\<exists>p'. pool_free ws (Some x) p = Done p' \<and> pool_inv bits p' \<and>
      pool_free_cells bits p' = x # pool_free_cells bits p \<and>
      length (memory p') = length (memory p) \<and> pool_object p' = (pool_object p)(x := None)"
    if x: "x < length (memory p)" "x \<notin> set (pool_free_cells bits p)" and ws: "False \<in> set ws"
  proof -
    have "pool_object (pool_given x p) = (pool_object p)(x := None)"
      using x(1) by (simp add: pool_given_def pool_object_update)
    moreover have "pool_free ws (Some x) p = Done (pool_given x p)"
      using x(1) free_loop_given [OF ws refl] by (simp add: pool_free_def)
    ultimately show ?thesis using pool_inv_given [OF inv x] by auto
  qed
qed

section \<open>Properties\<close>

text \<open>C1: On a new pool of \<open>n\<close> cells, for \<open>n\<close> from 1 to \<open>2 ^ 32 - 1\<close> (every index but the sentinel), for every sequence of allocations and reclamations of held
  cells and every pattern of spurious compare-and-swap failures that lets an attempt succeed,
  the pool never leaves its memory, never loses a cell and never hands a cell out twice: the
  held cells and the free list are disjoint, free of duplicates and together all \<open>n\<close> cells.\<close>

theorem pool_cells_partitioned:
  fixes bits :: "'a \<Rightarrow> u64"
  assumes "0 < n" "n \<le> 0xFFFFFFFF" "pool_ctor n = Done p" "False \<in> set ws"
  shows "\<exists>held p'. slab_run (make_cell bits) (\<lambda>ws x. pool_free ws (Some x)) ws ops [] p = Done (held, p') \<and>
    distinct (held @ pool_free_cells bits p') \<and> set (held @ pool_free_cells bits p') = {..<n} \<and>
    dom (pool_object p') = set held"
proof -
  have p: "pool_inv bits p" "pool_free_cells bits p = [0..<n]" "length (memory p) = n"
    using pool_ctor_inv [OF assms(1,2), of bits] assms(3) by auto
  then have "set (pool_free_cells bits p) = {..<length (memory p)}" by auto
  from pl.run_partitioned [OF p(1) this assms(4), of ops] p(3) show ?thesis by simp
qed

theorem pool_cells_partitioned_witness:
  "\<exists>p held p'. pool_ctor 3 = Done (p :: u64 pool) \<and>
    slab_run (make_cell id) (\<lambda>ws x. pool_free ws (Some x)) [True, False]
      [Alloc 7, Alloc 8, Dealloc 1, Alloc 9] [] p = Done (held, p') \<and>
    distinct (held @ pool_free_cells id p') \<and> set (held @ pool_free_cells id p') = {..<3} \<and>
    dom (pool_object p') = set held"
proof -
  obtain p :: "u64 pool" where p: "pool_ctor 3 = Done p" using pool_ctor_memory [of 3] by auto
  show ?thesis
    using pool_cells_partitioned [of 3 p "[True, False]" id "[Alloc 7, Alloc 8, Dealloc 1, Alloc 9]"] p
    by auto
qed

text \<open>\<open>make\<close> reports exhaustion with a null pointer exactly when every cell is held, and a
  pointer it does return owns the first free cell, which then holds the new object while every
  other object is untouched.\<close>

theorem pool_make_result:
  fixes bits :: "'a \<Rightarrow> u64"
  assumes "pool_inv bits p" "False \<in> set ws"
  shows "\<exists>ev p'. pool_make bits this ws v p = Done (ev, p') \<and> pool_inv bits p' \<and>
    (event_ptr_is_null ev \<longleftrightarrow> dom (pool_object p) = {..<length (memory p)}) \<and>
    (event_ptr_is_null ev \<longrightarrow> p' = p) \<and>
    (\<forall>x. event_ptr_get ev = Some x \<longrightarrow>
       pool_free_cells bits p = x # pool_free_cells bits p' \<and>
       pool_object p' = (pool_object p)(x \<mapsto> v))"
proof -
  have dom: "dom (pool_object p) = {..<length (memory p)} - set (pool_free_cells bits p)"
    "set (pool_free_cells bits p) \<subseteq> {..<length (memory p)}"
    using pl.object_dom [OF assms(1)] pl.free_bounded [OF assms(1)] by auto
  show ?thesis
  proof (cases "pool_free_cells bits p")
    case Nil
    then have "make_cell bits ws v p = Done (None, p)"
      using assms by (intro make_cell_exhausted) auto
    with Nil dom assms(1) show ?thesis by (simp add: pool_make_def event_ptr_defs)
  next
    case (Cons x xs)
    obtain p' where p': "make_cell bits ws v p = Done (Some x, p')" "pool_inv bits p'"
        "pool_free_cells bits p' = xs" "pool_object p' = (pool_object p)(x \<mapsto> v)"
      using pl.alloc_some [OF assms(1) Cons assms(2)] by blast
    have "dom (pool_object p) \<noteq> {..<length (memory p)}" using dom Cons by auto
    with p' Cons show ?thesis by (simp add: pool_make_def event_ptr_defs)
  qed
qed

theorem pool_make_result_witness:
  "\<exists>p ev p'. pool_inv id (p :: u64 pool) \<and> pool_make id () [False] 5 p = Done (ev, p') \<and>
    event_ptr_get ev = Some 0 \<and> pool_object p' 0 = Some 5"
proof -
  obtain p :: "u64 pool" where p: "pool_ctor 2 = Done p" "pool_inv id p" "pool_free_cells id p = [0..<2]"
    using pool_ctor_inv [of 2 id] by auto
  obtain ev p' where ev: "pool_make id () [False] 5 p = Done (ev, p')"
      "event_ptr_is_null ev \<longleftrightarrow> dom (pool_object p) = {..<length (memory p)}"
      "\<forall>x. event_ptr_get ev = Some x \<longrightarrow>
         pool_free_cells id p = x # pool_free_cells id p' \<and> pool_object p' = (pool_object p)(x \<mapsto> 5)"
    using pool_make_result [OF p(2), of "[False]" "()" 5] by auto
  have "0 \<notin> dom (pool_object p)" "0 < length (memory p)"
    using pl.object_dom [OF p(2)] pl.free_bounded [OF p(2)] p(3) by auto
  then obtain x where "event_ptr_get ev = Some x"
    using ev(2) by (cases "event_ptr_get ev") (auto simp: event_ptr_is_null_def event_ptr_get_def)
  with ev p show ?thesis by (fastforce simp: upt_rec)
qed

text \<open>Scope exit is a round trip: when the pointer that \<open>make\<close> returned is destroyed, its single
  deleter call puts the cell back, and the pool again has the free list and the objects it had.\<close>

theorem pool_make_destroy_roundtrip:
  fixes bits :: "'a \<Rightarrow> u64"
  assumes "pool_inv bits p" "False \<in> set ws" "False \<in> set ws'"
    and "pool_make bits this ws v p = Done (ev, p1)" "\<not> event_ptr_is_null ev"
  shows "\<exists>call p2. event_ptr_dtor ev = [call] \<and> fst (snd call) = Some this \<and>
    release_to_pool ws' call p1 = Done p2 \<and> pool_inv bits p2 \<and>
    pool_free_cells bits p2 = pool_free_cells bits p \<and> pool_object p2 = pool_object p"
proof -
  have "ws \<noteq> []" using assms(2) by auto
  then have "pool_free_cells bits p \<noteq> []"
    using assms(4,5) make_cell_exhausted [OF assms(1), of ws v] by (auto simp: pool_make_def event_ptr_defs)
  then obtain x xs where fc: "pool_free_cells bits p = x # xs"
    by (cases "pool_free_cells bits p") auto
  obtain p' where p': "make_cell bits ws v p = Done (Some x, p')" "pool_inv bits p'"
      "pool_free_cells bits p' = xs" "length (memory p') = length (memory p)"
      "pool_object p' = (pool_object p)(x \<mapsto> v)"
    using pl.alloc_some [OF assms(1) fc assms(2)] by blast
  have ev: "ev = event_ptr_of (Some x) (Some Release_To_Pool) (Some this)" "p1 = p'"
    using assms(4) p'(1) by (simp_all add: pool_make_def)
  have x: "x < length (memory p')" "x \<notin> set (pool_free_cells bits p')" "pool_object p x = None"
    using pl.free_bounded [OF assms(1)] pl.free_distinct [OF assms(1)] pl.object_dom [OF assms(1)] fc p'
    by auto
  obtain p2 where "pool_free ws' (Some x) p' = Done p2" "pool_inv bits p2"
      "pool_free_cells bits p2 = x # xs" "pool_object p2 = (pool_object p')(x := None)"
    using pl.dealloc_some [OF p'(2) x(1,2) assms(3)] p'(3) by auto
  with ev fc p'(5) x(3) show ?thesis
    by (auto simp: event_ptr_defs release_to_pool_def)
qed

theorem pool_make_destroy_roundtrip_witness:
  "\<exists>p ev p1 call p2. pool_inv id (p :: u64 pool) \<and> pool_make id () [False] 5 p = Done (ev, p1) \<and>
    \<not> event_ptr_is_null ev \<and> event_ptr_dtor ev = [call] \<and> release_to_pool [True, False] call p1 = Done p2 \<and>
    pool_free_cells id p2 = [0, 1]"
proof -
  obtain p :: "u64 pool" where p: "pool_inv id p" "pool_free_cells id p = [0..<2]"
    using pool_ctor_inv [of 2 id] by auto
  then have mk: "pool_make id () [False] 5 p =
      Done (event_ptr_of (Some 0) (Some Release_To_Pool) (Some ()), pool_taken id 5 0 p)"
    using make_cell_taken [OF p(1), of 0 "[1]" "[False]" 5] by (simp add: pool_make_def upt_rec)
  have nn: "\<not> event_ptr_is_null (event_ptr_of (Some 0) (Some Release_To_Pool) (Some ()) :: unit cell_ptr)"
    by (simp add: event_ptr_defs)
  show ?thesis
    using pool_make_destroy_roundtrip [OF p(1) _ _ mk nn, of "[True, False]"] mk nn p
    by (auto simp: upt_rec)
qed

end
