(* ===== verification/Pool_Concurrent.thy ===== *)
theory Pool_Concurrent
  imports Pool
begin

text \<open>
  Any number of threads run \<open>pool::make\<close> and \<open>pool::free\<close> of
  \<open>include/conduit/core.hpp\<close> at once. Every access to the shared head or to a
  cell is one step, and steps of different threads interleave freely, on
  sequentially consistent memory. A thread between two accesses is described by
  its program counter. The count \<open>swaps\<close> of successful compare-and-swaps and the
  stamps that program counters carry (the count when the thread last loaded the
  head) are ghosts: no step's effect on the pool depends on them.
\<close>

section \<open>Threads and steps\<close>

datatype 'a pc =
    Idle
  | Make_Top 'a u64 nat
  | Make_Cas 'a u64 u64 nat
  | Make_New 'a nat
  | Free_Load nat
  | Free_Top nat u64 nat
  | Free_Cas nat u64 nat

record 'a pool_sys =
  shared :: "'a pool"
  pcs :: "nat \<Rightarrow> 'a pc"
  held :: "nat \<Rightarrow> nat set"
  swaps :: nat

text \<open>\<open>make\<close>: load the head; leave on the sentinel; read \<open>next\<close> of the head cell; swap the head or
  reload it; construct the object. \<open>free\<close>: end the object's life; load the head; link the cell to
  it; swap the head or reload it. A thread may also write its own objects and hand an event to
  another thread. The \<open>retry\<close> rules cover lost races and spurious failures alike.\<close>

inductive pool_step :: "('a \<Rightarrow> u64) \<Rightarrow> 'a pool_sys \<Rightarrow> 'a pool_sys \<Rightarrow> bool" for bits where
  make_begin: "pcs s t = Idle \<Longrightarrow>
    pool_step bits s (s\<lparr>pcs := (pcs s)(t := Make_Top v (free_head (shared s)) (swaps s))\<rparr>)"
| make_empty: "pcs s t = Make_Top v h c \<Longrightarrow> head_idx h = 0xFFFFFFFF \<Longrightarrow>
    pool_step bits s (s\<lparr>pcs := (pcs s)(t := Idle)\<rparr>)"
| make_read: "pcs s t = Make_Top v h c \<Longrightarrow> head_idx h \<noteq> 0xFFFFFFFF \<Longrightarrow>
    pool_step bits s (s\<lparr>pcs := (pcs s)(t :=
      Make_Cas v h (read_next bits (memory (shared s) ! unat (head_idx h))) c)\<rparr>)"
| make_swap: "pcs s t = Make_Cas v h k c \<Longrightarrow> free_head (shared s) = h \<Longrightarrow>
    pool_step bits s (s\<lparr>shared := (shared s)\<lparr>free_head := mk_head (head_tag h + 1) (k AND 0xFFFFFFFF)\<rparr>,
      pcs := (pcs s)(t := Make_New v (unat (head_idx h))), swaps := Suc (swaps s)\<rparr>)"
| make_retry: "pcs s t = Make_Cas v h k c \<Longrightarrow>
    pool_step bits s (s\<lparr>pcs := (pcs s)(t := Make_Top v (free_head (shared s)) (swaps s))\<rparr>)"
| make_construct: "pcs s t = Make_New v x \<Longrightarrow>
    pool_step bits s (s\<lparr>shared := (shared s)\<lparr>memory := (memory (shared s))[x := Data v]\<rparr>,
      pcs := (pcs s)(t := Idle), held := (held s)(t := insert x (held s t))\<rparr>)"
| free_begin: "pcs s t = Idle \<Longrightarrow> x \<in> held s t \<Longrightarrow>
    pool_step bits s (s\<lparr>pcs := (pcs s)(t := Free_Load x), held := (held s)(t := held s t - {x})\<rparr>)"
| free_load: "pcs s t = Free_Load x \<Longrightarrow>
    pool_step bits s (s\<lparr>pcs := (pcs s)(t := Free_Top x (free_head (shared s)) (swaps s))\<rparr>)"
| free_link: "pcs s t = Free_Top x h c \<Longrightarrow>
    pool_step bits s (s\<lparr>shared := (shared s)\<lparr>memory := (memory (shared s))[x := Next (h AND 0xFFFFFFFF)]\<rparr>,
      pcs := (pcs s)(t := Free_Cas x h c)\<rparr>)"
| free_swap: "pcs s t = Free_Cas x h c \<Longrightarrow> free_head (shared s) = h \<Longrightarrow>
    pool_step bits s (s\<lparr>shared := (shared s)\<lparr>free_head := mk_head (head_tag h + 1) (word_of_nat x AND 0xFFFFFFFF)\<rparr>,
      pcs := (pcs s)(t := Idle), swaps := Suc (swaps s)\<rparr>)"
| free_retry: "pcs s t = Free_Cas x h c \<Longrightarrow>
    pool_step bits s (s\<lparr>pcs := (pcs s)(t := Free_Top x (free_head (shared s)) (swaps s))\<rparr>)"
| write_object: "pcs s t = Idle \<Longrightarrow> x \<in> held s t \<Longrightarrow>
    pool_step bits s (s\<lparr>shared := (shared s)\<lparr>memory := (memory (shared s))[x := Data v]\<rparr>\<rparr>)"
| hand_over: "x \<in> held s t \<Longrightarrow> t \<noteq> u \<Longrightarrow>
    pool_step bits s (s\<lparr>held := (held s)(t := held s t - {x}, u := insert x (held s u))\<rparr>)"

text \<open>The tag distinguishes heads as long as fewer than \<open>2 ^ 32\<close> swaps succeed between a thread's
  load of the head and its own compare-and-swap.\<close>

fun stamp :: "'a pc \<Rightarrow> nat option" where
  "stamp (Make_Top v h c) = Some c"
| "stamp (Make_Cas v h k c) = Some c"
| "stamp (Free_Top x h c) = Some c"
| "stamp (Free_Cas x h c) = Some c"
| "stamp _ = None"

definition tags_fresh :: "'a pool_sys \<Rightarrow> bool" where
  "tags_fresh s \<longleftrightarrow> (\<forall>t c. stamp (pcs s t) = Some c \<longrightarrow> swaps s < c + 2 ^ 32)"

definition pool_start :: "'a pool \<Rightarrow> 'a pool_sys" where
  "pool_start p = \<lparr>shared = p, pcs = (\<lambda>_. Idle), held = (\<lambda>_. {}), swaps = 0\<rparr>"

inductive pool_reach :: "('a \<Rightarrow> u64) \<Rightarrow> nat \<Rightarrow> 'a pool_sys \<Rightarrow> bool" for bits n where
  reach_start: "pool_ctor n = Done p \<Longrightarrow> pool_reach bits n (pool_start p)"
| reach_step: "pool_reach bits n s \<Longrightarrow> tags_fresh s \<Longrightarrow> pool_step bits s s' \<Longrightarrow> pool_reach bits n s'"

section \<open>The invariant\<close>

text \<open>The cells a thread has in its hands: those it holds and the one its operation works on.\<close>

fun working_on :: "'a pc \<Rightarrow> nat set" where
  "working_on (Make_New v x) = {x}"
| "working_on (Free_Load x) = {x}"
| "working_on (Free_Top x h c) = {x}"
| "working_on (Free_Cas x h c) = {x}"
| "working_on _ = {}"

definition claimed :: "'a pool_sys \<Rightarrow> nat \<Rightarrow> nat set" where
  "claimed s t = held s t \<union> working_on (pcs s t)"

definition list_ok :: "('a \<Rightarrow> u64) \<Rightarrow> nat \<Rightarrow> nat list \<Rightarrow> 'a pool_sys \<Rightarrow> bool" where
  "list_ok bits n fl s \<longleftrightarrow>
     length (memory (shared s)) = n \<and> n \<le> 0xFFFFFFFF \<and>
     chain (pool_next bits (shared s)) n (head_idx (free_head (shared s))) fl \<and>
     unat (head_tag (free_head (shared s))) = swaps s mod 2 ^ 32"

definition claims_ok :: "nat \<Rightarrow> nat list \<Rightarrow> 'a pool_sys \<Rightarrow> bool" where
  "claims_ok n fl s \<longleftrightarrow>
     (\<forall>t. held s t \<inter> working_on (pcs s t) = {}) \<and>
     (\<forall>t u x. x \<in> claimed s t \<longrightarrow> x \<in> claimed s u \<longrightarrow> t = u) \<and>
     (\<forall>t. claimed s t \<inter> set fl = {}) \<and>
     set fl \<union> (\<Union>t. claimed s t) = {..<n}"

definition loaded_ok :: "nat \<Rightarrow> 'a pool_sys \<Rightarrow> u64 \<Rightarrow> nat \<Rightarrow> bool" where
  "loaded_ok n s h c \<longleftrightarrow>
     c \<le> swaps s \<and> unat (head_tag h) = c mod 2 ^ 32 \<and>
     (c = swaps s \<longrightarrow> h = free_head (shared s)) \<and>
     (head_idx h = end_of_list \<or> unat (head_idx h) < n)"

fun pc_ok :: "('a \<Rightarrow> u64) \<Rightarrow> nat \<Rightarrow> 'a pool_sys \<Rightarrow> 'a pc \<Rightarrow> bool" where
  "pc_ok bits n s (Make_Top v h c) \<longleftrightarrow> loaded_ok n s h c"
| "pc_ok bits n s (Make_Cas v h k c) \<longleftrightarrow> loaded_ok n s h c \<and> head_idx h \<noteq> end_of_list \<and>
     (c = swaps s \<longrightarrow> ucast k = pool_next bits (shared s) (unat (head_idx h)))"
| "pc_ok bits n s (Free_Top x h c) \<longleftrightarrow> loaded_ok n s h c"
| "pc_ok bits n s (Free_Cas x h c) \<longleftrightarrow> loaded_ok n s h c \<and>
     memory (shared s) ! x = Next (h AND 0xFFFFFFFF)"
| "pc_ok bits n s _ \<longleftrightarrow> True"

definition conc_inv :: "('a \<Rightarrow> u64) \<Rightarrow> nat \<Rightarrow> nat list \<Rightarrow> 'a pool_sys \<Rightarrow> bool" where
  "conc_inv bits n fl s \<longleftrightarrow> list_ok bits n fl s \<and> claims_ok n fl s \<and> (\<forall>t. pc_ok bits n s (pcs s t))"

lemma conc_invD:
  assumes "conc_inv bits n fl s"
  shows "length (memory (shared s)) = n" "n \<le> 0xFFFFFFFF"
    "chain (pool_next bits (shared s)) n (head_idx (free_head (shared s))) fl"
    "unat (head_tag (free_head (shared s))) = swaps s mod 2 ^ 32"
    "claims_ok n fl s" "pc_ok bits n s (pcs s t)"
  using assms by (auto simp: conc_inv_def list_ok_def)

lemma head_bounded:
  "chain nxt n i fl \<Longrightarrow> i = end_of_list \<or> unat i < n"
  by (cases fl) auto

lemma loaded_now: "conc_inv bits n fl s \<Longrightarrow> loaded_ok n s (free_head (shared s)) (swaps s)"
  using conc_invD [of bits n fl s] head_bounded by (auto simp: loaded_ok_def)

text \<open>A fresh tag identifies the load: if the head is still the one that was loaded, no swap
  happened in between.\<close>

lemma stamp_current:
  assumes "conc_inv bits n fl s" "loaded_ok n s (free_head (shared s)) c" "swaps s < c + 2 ^ 32"
  shows "c = swaps s"
proof -
  have "c mod 2 ^ 32 = swaps s mod 2 ^ 32" "c \<le> swaps s"
    using assms(2) conc_invD(4) [OF assms(1)] by (auto simp: loaded_ok_def)
  then have "(2::nat) ^ 32 dvd swaps s - c" by (metis mod_eq_dvd_iff_nat)
  with assms(3) \<open>c \<le> swaps s\<close> show ?thesis by (auto dest: dvd_imp_le)
qed

section \<open>Every step keeps the invariant\<close>

lemma pc_ok_frame [simp]:
  "pc_ok bits n (s\<lparr>pcs := f\<rparr>) pc = pc_ok bits n s pc"
  "pc_ok bits n (s\<lparr>held := g\<rparr>) pc = pc_ok bits n s pc"
  by (cases pc; simp add: loaded_ok_def)+

lemma claims_okD:
  assumes "claims_ok n fl s"
  shows "held s t \<inter> working_on (pcs s t) = {}"
    and "x \<in> claimed s t \<Longrightarrow> x \<in> claimed s u \<Longrightarrow> t = u"
    and "claimed s t \<inter> set fl = {}"
    and "set fl \<union> (\<Union>t. claimed s t) = {..<n}"
  using assms by (simp_all add: claims_ok_def)

lemma claimed_cell_bounded: "claims_ok n fl s \<Longrightarrow> x \<in> claimed s t \<Longrightarrow> x < n \<and> x \<notin> set fl"
  by (auto simp: claims_ok_def)

text \<open>A thread moves its program counter and touches nothing shared.\<close>

lemma inv_local:
  assumes "conc_inv bits n fl s" "working_on pc' = working_on (pcs s t)" "pc_ok bits n s pc'"
  shows "conc_inv bits n fl (s\<lparr>pcs := (pcs s)(t := pc')\<rparr>)"
proof -
  have "claimed (s\<lparr>pcs := (pcs s)(t := pc')\<rparr>) = claimed s"
    using assms(2) by (auto simp: claimed_def fun_eq_iff)
  with assms show ?thesis by (auto simp: conc_inv_def list_ok_def claims_ok_def)
qed

text \<open>A thread writes a cell it has in its hands.\<close>

lemma pool_next_write:
  "j \<noteq> x \<Longrightarrow> pool_next bits (p\<lparr>memory := (memory p)[x := cl]\<rparr>) j = pool_next bits p j"
  by (simp add: pool_next_def)

lemma pc_ok_write:
  assumes inv: "conc_inv bits n fl s" and x: "x \<in> claimed s t" and ut: "u \<noteq> t"
  shows "pc_ok bits n (s\<lparr>shared := (shared s)\<lparr>memory := (memory (shared s))[x := cl]\<rparr>\<rparr>) (pcs s u)"
proof -
  let ?s = "s\<lparr>shared := (shared s)\<lparr>memory := (memory (shared s))[x := cl]\<rparr>\<rparr>"
  note claims = conc_invD(5) [OF inv]
  have xfl: "x \<notin> set fl" using claimed_cell_bounded [OF claims x] by blast
  have xu: "x \<notin> working_on (pcs s u)" using claims x ut by (auto simp: claims_ok_def claimed_def)
  have load: "loaded_ok n ?s h c \<longleftrightarrow> loaded_ok n s h c" for h c by (simp add: loaded_ok_def)
  note old = conc_invD(6) [OF inv, of u]
  show ?thesis
  proof (cases "pcs s u")
    case (Make_Cas v h k c)
    have "unat (head_idx h) \<noteq> x" if "c = swaps s"
    proof -
      have "h = free_head (shared s)" "head_idx h \<noteq> end_of_list"
        using old Make_Cas that by (auto simp: loaded_ok_def)
      then have "unat (head_idx h) \<in> set fl"
        using conc_invD(3) [OF inv] by (auto simp: chain_cons_iff)
      with xfl show ?thesis by auto
    qed
    with old Make_Cas show ?thesis by (auto simp: load pool_next_write)
  next
    case (Free_Cas y h c)
    with old xu show ?thesis by (auto simp: load)
  qed (use old in \<open>auto simp: load\<close>)
qed

lemma inv_own:
  assumes inv: "conc_inv bits n fl s" and x: "x \<in> claimed s t"
    and H: "H \<union> working_on pc' = claimed s t" "H \<inter> working_on pc' = {}"
    and ok: "pc_ok bits n (s\<lparr>shared := (shared s)\<lparr>memory := (memory (shared s))[x := cl]\<rparr>\<rparr>) pc'"
  shows "conc_inv bits n fl (s\<lparr>shared := (shared s)\<lparr>memory := (memory (shared s))[x := cl]\<rparr>,
    pcs := (pcs s)(t := pc'), held := (held s)(t := H)\<rparr>)" (is "conc_inv bits n fl ?s'")
proof -
  note claims = conc_invD(5) [OF inv]
  have xfl: "x \<notin> set fl" using claimed_cell_bounded [OF claims x] by blast
  have "claimed ?s' = claimed s" using H(1) by (auto simp: claimed_def fun_eq_iff)
  then have "claims_ok n fl ?s'" using claims H(2) by (auto simp: claims_ok_def)
  moreover have "pool_next bits (shared s) y = pool_next bits (shared ?s') y" if "y \<in> set fl" for y
  proof -
    from that xfl have "y \<noteq> x" by auto
    then show ?thesis by (simp add: pool_next_write)
  qed
  then have "chain (pool_next bits (shared s)) n i fl \<longleftrightarrow> chain (pool_next bits (shared ?s')) n i fl" for i
    by (rule chain_cong)
  then have "list_ok bits n fl ?s'"
    using conc_invD(1-4) [OF inv] by (simp add: list_ok_def)
  moreover have "pc_ok bits n ?s' (pcs ?s' u)" for u
    using pc_ok_write [OF inv x, of u cl] ok by simp
  ultimately show ?thesis by (simp add: conc_inv_def)
qed

text \<open>A successful compare-and-swap makes every other loaded head stale.\<close>

lemma pc_ok_swap:
  assumes "conc_inv bits n fl s"
  shows "pc_ok bits n (s\<lparr>shared := (shared s)\<lparr>free_head := h\<rparr>, pcs := f, swaps := Suc (swaps s)\<rparr>) (pcs s u)"
  using conc_invD(6) [OF assms, of u] by (cases "pcs s u") (auto simp: loaded_ok_def)

lemma tag_after_swap:
  "unat (head_tag h) = k mod 2 ^ 32 \<Longrightarrow> unat (head_tag (mk_head (head_tag h + 1) i)) = Suc k mod 2 ^ 32"
  by (simp add: head_simps unat_tag_bump mod_Suc_eq)

lemma inv_make_swap:
  assumes inv: "conc_inv bits n fl s" and pc: "pcs s t = Make_Cas v (free_head (shared s)) k c"
    and fresh: "swaps s < c + 2 ^ 32"
  shows "\<exists>fl'. conc_inv bits n fl' (s\<lparr>shared := (shared s)\<lparr>free_head :=
      mk_head (head_tag (free_head (shared s)) + 1) (k AND 0xFFFFFFFF)\<rparr>,
    pcs := (pcs s)(t := Make_New v (unat (head_idx (free_head (shared s))))), swaps := Suc (swaps s)\<rparr>) \<and>
    fl = unat (head_idx (free_head (shared s))) # fl'"
    (is "\<exists>fl'. conc_inv bits n fl' ?s' \<and> _")
proof -
  let ?h = "free_head (shared s)" and ?x = "unat (head_idx (free_head (shared s)))"
  note D = conc_invD [OF inv] and claims = conc_invD(5) [OF inv]
  have ok: "loaded_ok n s ?h c" "head_idx ?h \<noteq> end_of_list"
      "c = swaps s \<longrightarrow> ucast k = pool_next bits (shared s) ?x"
    using D(6) [of t] pc by simp_all
  then have k: "ucast k = pool_next bits (shared s) ?x"
    using stamp_current [OF inv ok(1) fresh] by simp
  obtain xs where fl: "fl = ?x # xs" and xs: "?x < n" "chain (pool_next bits (shared s)) n (pool_next bits (shared s) ?x) xs"
    using D(3) ok(2) by (auto simp: chain_cons_iff)
  have "pool_next bits (shared ?s') = pool_next bits (shared s)"
    by (simp add: fun_eq_iff pool_next_def)
  then have "list_ok bits n xs ?s'"
    using D(1,2) xs(2) k tag_after_swap [OF D(4)] by (simp add: list_ok_def head_simps)
  moreover have "claims_ok n xs ?s'"
  proof -
    have free: "?x \<notin> set xs" using chain_distinct [OF D(3)] fl by simp
    have c': "claimed ?s' u = (if u = t then insert ?x (claimed s t) else claimed s u)" for u
      using pc by (auto simp: claimed_def)
    have "?x \<notin> claimed s u" for u using claims fl by (auto simp: claims_ok_def)
    moreover have "set xs \<union> (\<Union>u. claimed ?s' u) = set fl \<union> (\<Union>u. claimed s u)"
      unfolding c' fl by auto
    ultimately show ?thesis
      using claims free fl pc unfolding claims_ok_def c'
      by (auto simp: claimed_def split: if_splits)
  qed
  moreover have "pc_ok bits n ?s' (pcs ?s' u)" for u
    using pc_ok_swap [OF inv, of _ _ u] by simp
  ultimately show ?thesis using fl by (auto simp: conc_inv_def)
qed

lemma inv_free_swap:
  assumes inv: "conc_inv bits n fl s" and pc: "pcs s t = Free_Cas x (free_head (shared s)) c"
  shows "conc_inv bits n (x # fl) (s\<lparr>shared := (shared s)\<lparr>free_head :=
      mk_head (head_tag (free_head (shared s)) + 1) (word_of_nat x AND 0xFFFFFFFF)\<rparr>,
    pcs := (pcs s)(t := Idle), swaps := Suc (swaps s)\<rparr>)" (is "conc_inv bits n _ ?s'")
proof -
  note D = conc_invD [OF inv] and claims = conc_invD(5) [OF inv]
  have "held s t \<inter> working_on (pcs s t) = {}" by (rule claims_okD(1) [OF claims])
  then have held: "x \<notin> held s t" using pc by simp
  have x: "x < n" "x \<notin> set fl" "x \<notin> held s t"
    using claimed_cell_bounded [OF claims, of x t] held by (simp_all add: claimed_def pc)
  then have below: "x < 0xFFFFFFFF" using D(2) by linarith
  have next_x: "pool_next bits (shared s) x = head_idx (free_head (shared s))"
    using D(6) [of t] pc by (simp add: pool_next_def head_simps head_idx_alt)
  have "pool_next bits (shared ?s') = pool_next bits (shared s)"
    by (simp add: fun_eq_iff pool_next_def)
  moreover have "head_idx (free_head (shared ?s')) = word_of_nat x" by (simp add: head_simps)
  ultimately have "chain (pool_next bits (shared ?s')) n (head_idx (free_head (shared ?s'))) (x # fl)"
    using D(3) next_x x(1) unat_word_of_nat_below [OF below] word_of_nat_not_end [OF below]
    by (simp only: chain.simps simp_thms)
  then have "list_ok bits n (x # fl) ?s'"
    using D(1,2) tag_after_swap [OF D(4)] by (simp add: list_ok_def)
  moreover have "claims_ok n (x # fl) ?s'"
  proof -
    have c': "claimed ?s' u = (if u = t then claimed s t - {x} else claimed s u)" for u
      using pc x(3) by (auto simp: claimed_def)
    have "x \<in> claimed s t" using pc by (simp add: claimed_def)
    moreover have "set (x # fl) \<union> (\<Union>u. claimed ?s' u) = set fl \<union> (\<Union>u. claimed s u)"
      unfolding c' using \<open>x \<in> claimed s t\<close> by auto
    ultimately show ?thesis
      using claims x unfolding claims_ok_def c' by (auto simp: claimed_def split: if_splits)
  qed
  moreover have "pc_ok bits n ?s' (pcs ?s' u)" for u
    using pc_ok_swap [OF inv, of _ _ u] by simp
  ultimately show ?thesis by (simp add: conc_inv_def)
qed

lemma inv_hand_over:
  assumes inv: "conc_inv bits n fl s" and x: "x \<in> held s t" and tu: "t \<noteq> u"
  shows "conc_inv bits n fl (s\<lparr>held := (held s)(t := held s t - {x}, u := insert x (held s u))\<rparr>)"
    (is "conc_inv bits n fl ?s'")
proof -
  note claims = conc_invD(5) [OF inv]
  have xt: "x \<in> claimed s t" using x by (simp add: claimed_def)
  have x_only: "x \<notin> claimed s v" if "v \<noteq> t" for v
    using claims_okD(2) [OF claims xt, of v] that by auto
  have x_not: "x \<notin> working_on (pcs s t)" using claims_okD(1) [OF claims, of t] x by auto
  have c': "claimed ?s' v = (if v = t then claimed s t - {x} else if v = u then insert x (claimed s u) else claimed s v)" for v
    using tu x_not by (auto simp: claimed_def)
  have "claims_ok n fl ?s'"
    unfolding claims_ok_def
  proof (intro conjI allI impI)
    fix v
    show "held ?s' v \<inter> working_on (pcs ?s' v) = {}"
      using claims_okD(1) [OF claims, of v] x_only [of u] tu by (auto simp: claimed_def)
    show "claimed ?s' v \<inter> set fl = {}"
      using claims_okD(3) [OF claims, of v] claims_okD(3) [OF claims, of t] xt unfolding c' by auto
    fix w y
    assume "y \<in> claimed ?s' v" "y \<in> claimed ?s' w"
    then show "v = w"
      using claims_okD(2) [OF claims, of y v w] x_only [of v] x_only [of w] tu unfolding c'
      by (auto split: if_splits)
  next
    have "(\<Union>v. claimed ?s' v) = (\<Union>v. claimed s v)"
      unfolding c' using xt tu by (auto split: if_splits)
    then show "set fl \<union> (\<Union>v. claimed ?s' v) = {..<n}" using claims_okD(4) [OF claims] by simp
  qed
  with inv show ?thesis by (simp add: conc_inv_def list_ok_def)
qed

section \<open>The pool as a stack whose operations happen at once\<close>

text \<open>What the callers of \<open>make\<close> and \<open>free\<close> see: calls and returns.\<close>

datatype 'a pool_event = Call_Make nat 'a | Ret_Make nat "nat option" | Call_Free nat nat | Ret_Free nat

fun observed :: "nat \<Rightarrow> 'a pc \<Rightarrow> 'a pc \<Rightarrow> 'a pool_event list" where
  "observed t Idle (Make_Top v h c) = [Call_Make t v]"
| "observed t (Make_Top v h c) Idle = [Ret_Make t None]"
| "observed t (Make_New v x) Idle = [Ret_Make t (Some x)]"
| "observed t Idle (Free_Load x) = [Call_Free t x]"
| "observed t (Free_Cas x h c) Idle = [Ret_Free t]"
| "observed t _ _ = []"


text \<open>The specification: a stack of cells on which each operation takes effect in one step between its call and its
  return. \<open>make\<close> takes the first cell and returns that one, or returns null if the stack is empty then;
  \<open>free\<close> puts its cell in front.\<close>

datatype 'a call = Quiet | Making 'a | Made "nat option" | Freeing nat | Freed

record 'a stack_sys =
  stack :: "nat list"
  call_of :: "nat \<Rightarrow> 'a call"

inductive stack_step :: "'a stack_sys \<Rightarrow> 'a pool_event list \<Rightarrow> 'a stack_sys \<Rightarrow> bool" where
  stack_call_make: "call_of a t = Quiet \<Longrightarrow> stack_step a [Call_Make t v] (a\<lparr>call_of := (call_of a)(t := Making v)\<rparr>)"
| stack_take: "call_of a t = Making v \<Longrightarrow> stack a = x # xs \<Longrightarrow>
    stack_step a [] (a\<lparr>stack := xs, call_of := (call_of a)(t := Made (Some x))\<rparr>)"
| stack_fail: "call_of a t = Making v \<Longrightarrow> stack a = [] \<Longrightarrow> stack_step a [] (a\<lparr>call_of := (call_of a)(t := Made None)\<rparr>)"
| stack_ret_make: "call_of a t = Made r \<Longrightarrow> stack_step a [Ret_Make t r] (a\<lparr>call_of := (call_of a)(t := Quiet)\<rparr>)"
| stack_call_free: "call_of a t = Quiet \<Longrightarrow> stack_step a [Call_Free t x] (a\<lparr>call_of := (call_of a)(t := Freeing x)\<rparr>)"
| stack_put: "call_of a t = Freeing x \<Longrightarrow> stack_step a [] (a\<lparr>stack := x # stack a, call_of := (call_of a)(t := Freed)\<rparr>)"
| stack_ret_free: "call_of a t = Freed \<Longrightarrow> stack_step a [Ret_Free t] (a\<lparr>call_of := (call_of a)(t := Quiet)\<rparr>)"

inductive stack_run :: "'a stack_sys \<Rightarrow> 'a pool_event list \<Rightarrow> 'a stack_sys \<Rightarrow> bool" for a where
  stack_run_none: "stack_run a [] a"
| stack_run_step: "stack_run a es b \<Longrightarrow> stack_step b es' c \<Longrightarrow> stack_run a (es @ es') c"



lemma stack_run_one: "stack_step a es b \<Longrightarrow> stack_run a es b"
  using stack_run_step [OF stack_run_none] by fastforce

lemma stack_run_two: "stack_step a es b \<Longrightarrow> stack_step b es' c \<Longrightarrow> stack_run a (es @ es') c"
  by (rule stack_run_step [OF stack_run_one])

text \<open>Where an operation of the specification is, for each program point: a \<open>make\<close> that has loaded the sentinel has
  found the stack empty.\<close>

fun phase :: "'a pc \<Rightarrow> 'a call" where
  "phase Idle = Quiet"
| "phase (Make_Top v h c) = (if head_idx h = 0xFFFFFFFF then Made None else Making v)"
| "phase (Make_Cas v h k c) = Making v"
| "phase (Make_New v x) = Made (Some x)"
| "phase (Free_Load x) = Freeing x"
| "phase (Free_Top x h c) = Freeing x"
| "phase (Free_Cas x h c) = Freeing x"

definition as_stack :: "nat list \<Rightarrow> 'a pool_sys \<Rightarrow> 'a stack_sys" where
  "as_stack fl s = \<lparr>stack = fl, call_of = (\<lambda>t. phase (pcs s t))\<rparr>"

lemma as_stack_simps [simp]: "stack (as_stack fl s) = fl" "call_of (as_stack fl s) t = phase (pcs s t)"
  by (simp_all add: as_stack_def)

lemma as_stack_same [simp]: "(as_stack fl s)\<lparr>stack := fl, call_of := f\<rparr> = (as_stack fl s)\<lparr>call_of := f\<rparr>"
  by (simp add: as_stack_def)

lemma as_stack_move:
  "pcs s' = (pcs s)(t := pc') \<Longrightarrow> as_stack fl' s' = (as_stack fl s)\<lparr>stack := fl', call_of := (call_of (as_stack fl s))(t := phase pc')\<rparr>"
  by (auto simp: as_stack_def fun_eq_iff)

lemma observed_same: "observed t pc pc = []"
  by (cases pc) auto

definition linearizes :: "'a pool_sys \<Rightarrow> nat list \<Rightarrow> 'a pool_sys \<Rightarrow> nat list \<Rightarrow> bool" where
  "linearizes s fl s' fl' \<longleftrightarrow> (\<exists>t. (\<forall>u. u \<noteq> t \<longrightarrow> pcs s' u = pcs s u) \<and>
     stack_run (as_stack fl s) (observed t (pcs s t) (pcs s' t)) (as_stack fl' s'))"

lemma linearizesI:
  assumes "pcs s' = (pcs s)(t := pc')" "stack_run (as_stack fl s) (observed t (pcs s t) pc') (as_stack fl' s')"
  shows "linearizes s fl s' fl'"
  unfolding linearizes_def using assms by (intro exI [of _ t]) simp

lemma linearizes_quietly:
  assumes "pcs s' = (pcs s)(t := pc')" "phase pc' = phase (pcs s t)" "observed t (pcs s t) pc' = []"
  shows "linearizes s fl s' fl"
proof (rule linearizesI [OF assms(1)])
  have "as_stack fl s' = as_stack fl s" using assms(1,2) by (auto simp: as_stack_def fun_eq_iff)
  then show "stack_run (as_stack fl s) (observed t (pcs s t) pc') (as_stack fl s')"
    using assms(3) stack_run_none by simp
qed

lemma linearizes_once:
  assumes "pcs s' = (pcs s)(t := pc')" "stack_step (as_stack fl s) (observed t (pcs s t) pc')
    ((as_stack fl s)\<lparr>stack := fl', call_of := (call_of (as_stack fl s))(t := phase pc')\<rparr>)"
  shows "linearizes s fl s' fl'"
  using linearizesI [OF assms(1)] stack_run_one [OF assms(2)] by (simp add: as_stack_move [OF assms(1), of fl' fl])

text \<open>A thread that loads the head finds the sentinel only if the stack is empty; then its \<open>make\<close> takes effect at once.\<close>

lemma linearizes_load:
  assumes pc: "pcs s' = (pcs s)(t := Make_Top v (free_head (shared s)) c)"
    and chain: "chain nxt n (head_idx (free_head (shared s))) fl"
    and call: "stack_run (as_stack fl s) (observed t (pcs s t) (Make_Top v (free_head (shared s)) c))
      ((as_stack fl s)\<lparr>call_of := (call_of (as_stack fl s))(t := Making v)\<rparr>)" (is "stack_run _ ?es ?b")
  shows "linearizes s fl s' fl"
proof (rule linearizesI [OF pc])
  show "stack_run (as_stack fl s) ?es (as_stack fl s')"
  proof (cases "head_idx (free_head (shared s)) = 0xFFFFFFFF")
    case True
    then have "fl = []" using chain by (cases fl) auto
    then have "stack_step ?b [] (as_stack fl s')"
      using stack_fail [of ?b t v] True as_stack_move [OF pc, of fl fl] by (simp add: as_stack_def)
    then show ?thesis using stack_run_step [OF call, of "[]" "as_stack fl s'"] by simp
  next
    case False
    then show ?thesis using call as_stack_move [OF pc, of fl fl] by (simp add: as_stack_def)
  qed
qed

section \<open>The invariant holds, and each step is a step of the stack\<close>

lemma as_stack_idle: "call_of (as_stack fl s) t = q \<Longrightarrow> (as_stack fl s)\<lparr>call_of := (call_of (as_stack fl s))(t := q)\<rparr> = as_stack fl s"
  by (auto simp: as_stack_def fun_eq_iff)

lemma linearizes_same: "pcs s' = pcs s \<Longrightarrow> linearizes s fl s' fl"
  by (rule linearizes_quietly [of _ _ 0 "pcs s 0"]) (auto simp: observed_same)

lemma linearizes_take:
  assumes "pcs s t = Make_Cas v h k c" "pcs s' = (pcs s)(t := Make_New v x)"
  shows "linearizes s (x # fl) s' fl"
  using stack_take [of "as_stack (x # fl) s" t v x fl] assms(1) by (intro linearizes_once [OF assms(2)]) simp

lemma linearizes_put:
  assumes "pcs s t = Free_Cas x h c" "pcs s' = (pcs s)(t := Idle)"
  shows "linearizes s fl s' (x # fl)"
proof (rule linearizesI [OF assms(2)])
  let ?b = "(as_stack fl s)\<lparr>stack := x # fl, call_of := (call_of (as_stack fl s))(t := Freed)\<rparr>"
  have "stack_step (as_stack fl s) [] ?b" using stack_put [of "as_stack fl s" t x] assms(1) by simp
  moreover have "stack_step ?b [Ret_Free t] (as_stack (x # fl) s')"
    using stack_ret_free [of ?b t] as_stack_move [OF assms(2), of "x # fl" fl] by (simp add: as_stack_def)
  ultimately show "stack_run (as_stack fl s) (observed t (pcs s t) Idle) (as_stack (x # fl) s')"
    using stack_run_two assms(1) by fastforce
qed

lemma pool_step_inv:
  assumes "pool_step bits s s'" "conc_inv bits n fl s" "tags_fresh s"
  shows "\<exists>fl'. conc_inv bits n fl' s' \<and> linearizes s fl s' fl'"
  using assms
proof (induction rule: pool_step.induct)
  case (make_begin s t v)
  have "linearizes s fl (s\<lparr>pcs := (pcs s)(t := Make_Top v (free_head (shared s)) (swaps s))\<rparr>) fl"
    using make_begin stack_call_make [of "as_stack fl s" t v]
    by (intro linearizes_load [OF _ conc_invD(3)]) (auto intro: stack_run_one)
  with make_begin show ?case by (intro exI [of _ fl] conjI inv_local) (simp_all add: loaded_now)
next
  case (make_empty s t v h c)
  have "linearizes s fl (s\<lparr>pcs := (pcs s)(t := Idle)\<rparr>) fl"
    using make_empty stack_ret_make [of "as_stack fl s" t None] by (intro linearizes_once) auto
  with make_empty show ?case by (intro exI [of _ fl] conjI inv_local) simp_all
next
  case (make_read s t v h c)
  have "loaded_ok n s h c" using conc_invD(6) [OF make_read.prems(1), of t] make_read.hyps(1) by simp
  with make_read show ?case
    by (intro exI [of _ fl] conjI inv_local linearizes_quietly [where t = t and
        pc' = "Make_Cas v h (read_next bits (memory (shared s) ! unat (head_idx h))) c"]) (simp_all add: pool_next_def)
next
  case (make_swap s t v h k c)
  then have "stamp (pcs s t) = Some c" by simp
  with make_swap.prems(2) have "swaps s < c + 2 ^ 32" unfolding tags_fresh_def by blast
  moreover have "pcs s t = Make_Cas v (free_head (shared s)) k c" using make_swap.hyps by simp
  ultimately obtain fl' where "conc_inv bits n fl' (s\<lparr>shared := (shared s)\<lparr>free_head := mk_head (head_tag h + 1) (k AND 0xFFFFFFFF)\<rparr>,
      pcs := (pcs s)(t := Make_New v (unat (head_idx h))), swaps := Suc (swaps s)\<rparr>)" "fl = unat (head_idx h) # fl'"
    using inv_make_swap [OF make_swap.prems(1), of t v k c] unfolding make_swap.hyps(2) by blast
  then show ?case using linearizes_take [OF make_swap.hyps(1), of _ "unat (head_idx h)" fl'] by auto
next
  case (make_retry s t v h k c)
  have "linearizes s fl (s\<lparr>pcs := (pcs s)(t := Make_Top v (free_head (shared s)) (swaps s))\<rparr>) fl"
    using make_retry by (intro linearizes_load [OF _ conc_invD(3)]) (auto simp: as_stack_idle intro: stack_run_none)
  with make_retry show ?case by (intro exI [of _ fl] conjI inv_local) (simp_all add: loaded_now)
next
  case (make_construct s t v x)
  show ?case
    using make_construct claims_okD(1) [OF conc_invD(5) [OF make_construct.prems(1)], of t]
      stack_ret_make [of "as_stack fl s" t "Some x"]
    by (intro exI [of _ fl] conjI inv_own linearizes_once [where t = t]) (auto simp: claimed_def)
next
  case (free_begin s t x)
  have "conc_inv bits n fl (s\<lparr>shared := (shared s)\<lparr>memory := (memory (shared s))[x := memory (shared s) ! x]\<rparr>,
      pcs := (pcs s)(t := Free_Load x), held := (held s)(t := held s t - {x})\<rparr>)"
    using free_begin by (intro inv_own) (auto simp: claimed_def)
  moreover have "linearizes s fl (s\<lparr>pcs := (pcs s)(t := Free_Load x), held := (held s)(t := held s t - {x})\<rparr>) fl"
    using free_begin stack_call_free [of "as_stack fl s" t x] by (intro linearizes_once [where t = t]) auto
  ultimately show ?case by (auto intro!: exI [of _ fl])
next
  case (free_load s t x)
  then show ?case
    by (intro exI [of _ fl] conjI inv_local linearizes_quietly [where t = t and pc' = "Free_Top x (free_head (shared s)) (swaps s)"])
       (simp_all add: loaded_now)
next
  case (free_link s t x h c)
  note D = conc_invD [OF free_link.prems(1)]
  have x: "x < length (memory (shared s))"
    using claimed_cell_bounded [OF D(5), of x t] free_link.hyps D(1) by (simp add: claimed_def)
  have "loaded_ok n s h c" using D(6) [of t] free_link.hyps by simp
  then have "conc_inv bits n fl (s\<lparr>shared := (shared s)\<lparr>memory := (memory (shared s))[x := Next (h AND 0xFFFFFFFF)]\<rparr>,
      pcs := (pcs s)(t := Free_Cas x h c), held := (held s)(t := held s t)\<rparr>)"
    using free_link x claims_okD(1) [OF D(5), of t]
    by (intro inv_own) (auto simp: claimed_def loaded_ok_def)
  moreover have "linearizes s fl (s\<lparr>shared := (shared s)\<lparr>memory := (memory (shared s))[x := Next (h AND 0xFFFFFFFF)]\<rparr>,
      pcs := (pcs s)(t := Free_Cas x h c)\<rparr>) fl"
    using free_link by (intro linearizes_quietly [where t = t and pc' = "Free_Cas x h c"]) simp_all
  ultimately show ?case by (auto intro!: exI [of _ fl])
next
  case (free_swap s t x h c)
  then have "pcs s t = Free_Cas x (free_head (shared s)) c" by simp
  then show ?case
    using inv_free_swap [OF free_swap.prems(1), of t x c] free_swap.hyps
    by (auto intro!: exI [of _ "x # fl"] linearizes_put)
next
  case (free_retry s t x h c)
  then show ?case
    by (intro exI [of _ fl] conjI inv_local linearizes_quietly [where t = t and pc' = "Free_Top x (free_head (shared s)) (swaps s)"])
       (simp_all add: loaded_now)
next
  case (write_object s t x v)
  have "conc_inv bits n fl (s\<lparr>shared := (shared s)\<lparr>memory := (memory (shared s))[x := Data v]\<rparr>,
      pcs := (pcs s)(t := Idle), held := (held s)(t := held s t)\<rparr>)"
    using write_object by (intro inv_own) (auto simp: claimed_def)
  moreover have "(pcs s)(t := Idle) = pcs s" using write_object.hyps(1) by (rule fun_upd_idem)
  ultimately show ?case by (auto intro!: exI [of _ fl] linearizes_same)
next
  case (hand_over x s t u)
  then have "conc_inv bits n fl (s\<lparr>held := (held s)(t := held s t - {x}, u := insert x (held s u))\<rparr>)"
    by (intro inv_hand_over)
  then show ?case by (intro exI [of _ fl] conjI linearizes_same) simp_all
qed

lemma pool_start_inv:
  assumes "0 < n" "n \<le> 0xFFFFFFFF" "pool_ctor n = Done p"
  shows "conc_inv bits n [0..<n] (pool_start p)"
proof -
  have p: "pool_inv bits p" "pool_free_cells bits p = [0..<n]" "length (memory p) = n"
    using pool_ctor_inv [OF assms(1,2), of bits] assms(3) by auto
  have "free_head p = 0"
    using assms(1,3) by (auto simp: pool_ctor_def Let_def)
  note p = p this
  have "chain (pool_next bits p) n (head_idx (free_head p)) [0..<n]"
    using pool_invD(1) [OF p(1)] p(2,3) by simp
  with assms(2) p(3,4) show ?thesis
    by (auto simp: conc_inv_def list_ok_def claims_ok_def claimed_def pool_start_def head_tag_def)
qed

lemma pool_reach_inv:
  assumes "0 < n" "n \<le> 0xFFFFFFFF" "pool_reach bits n s"
  shows "\<exists>fl. conc_inv bits n fl s"
  using assms(3)
proof (induction rule: pool_reach.induct)
  case (reach_start p)
  with assms(1,2) show ?case using pool_start_inv by blast
next
  case (reach_step s s')
  then show ?case using pool_step_inv by blast
qed




text \<open>A run of one thread: its \<open>make\<close> has read the head and its \<open>next\<close> field, then swaps.\<close>

lemma reach_unswapped: "pool_reach bits n s \<Longrightarrow> pool_step bits s s' \<Longrightarrow> swaps s = 0 \<Longrightarrow> pool_reach bits n s'"
  by (rule reach_step) (simp_all add: tags_fresh_def)

lemma pool_example:
  "\<exists>s :: u64 pool_sys. pool_reach id 2 s \<and> pcs s 0 = Make_Cas 5 0 1 0 \<and> free_head (shared s) = 0 \<and> swaps s = 0"
proof -
  obtain p :: "u64 pool" where p: "pool_ctor 2 = Done p" "free_head p = 0" "memory p ! 0 = Next 1"
  proof -
    obtain p :: "u64 pool" where p: "pool_ctor 2 = Done p" "free_head p = 0"
        "\<forall>i < 2. memory p ! i = Next (if Suc i < 2 then word_of_nat (Suc i) else 0xFFFFFFFF)"
      using pool_ctor_memory [of 2] by auto
    have "memory p ! 0 = Next 1" using p(3) [rule_format, of 0] by simp
    with p(1,2) show ?thesis by (rule that)
  qed
  let ?s1 = "(pool_start p)\<lparr>pcs := (pcs (pool_start p))(0 := Make_Top 5 (free_head (shared (pool_start p))) (swaps (pool_start p)))\<rparr>"
  have r0: "pool_reach id 2 (pool_start p)" using p(1) by (rule reach_start)
  have "pool_step id (pool_start p) ?s1" by (rule make_begin) (simp add: pool_start_def)
  with r0 have r1: "pool_reach id 2 ?s1" by (rule reach_unswapped) (simp add: pool_start_def)
  let ?s2 = "?s1\<lparr>pcs := (pcs ?s1)(0 := Make_Cas 5 0 (read_next id (memory (shared ?s1) ! unat (head_idx 0))) 0)\<rparr>"
  have "pool_step id ?s1 ?s2"
    by (rule make_read) (simp_all add: pool_start_def p(2) head_idx_alt)
  with r1 have "pool_reach id 2 ?s2" by (rule reach_unswapped) (simp add: pool_start_def)
  then show ?thesis
    by (rule exI [of _ ?s2, OF conjI]) (simp add: pool_start_def p head_idx_alt)
qed

lemma pool_example_swapped:
  "\<exists>s :: u64 pool_sys. pool_reach id 2 s \<and> pcs s 0 = Make_New 5 0 \<and> swaps s = 1"
proof -
  obtain s :: "u64 pool_sys" where s: "pool_reach id 2 s" "pcs s 0 = Make_Cas 5 0 1 0"
      "free_head (shared s) = 0" "swaps s = 0"
    using pool_example by blast
  note step = make_swap [OF s(2,3), of id]
  have "pcs (s\<lparr>shared := (shared s)\<lparr>free_head := mk_head (head_tag 0 + 1) (1 AND 0xFFFFFFFF)\<rparr>,
      pcs := (pcs s)(0 := Make_New 5 (unat (head_idx 0))), swaps := Suc (swaps s)\<rparr>) 0 = Make_New 5 0"
    by (simp add: head_idx_alt)
  with reach_unswapped [OF s(1) step s(4)] s(4) show ?thesis by fastforce
qed

section \<open>Properties\<close>

text \<open>C3: However the threads' loads, reads, swaps and writes interleave, two threads never have the
  same cell in their hands, no cell in a thread's hands is on the free list, the free list is
  well formed, and free and claimed cells together are all cells. The tag gives this as long as
  no thread sleeps through \<open>2 ^ 32\<close> swaps between its load and its compare-and-swap.\<close>

theorem pool_threads_exclusive:
  assumes "0 < n" "n \<le> 0xFFFFFFFF" "pool_reach bits n s"
  shows "\<exists>fl. chain (pool_next bits (shared s)) n (head_idx (free_head (shared s))) fl \<and>
    (\<forall>t u. t \<noteq> u \<longrightarrow> claimed s t \<inter> claimed s u = {}) \<and>
    (\<forall>t. claimed s t \<inter> set fl = {}) \<and>
    set fl \<union> (\<Union>t. claimed s t) = {..<n}"
proof -
  obtain fl where inv: "conc_inv bits n fl s" using pool_reach_inv [OF assms] by blast
  note claims = conc_invD(5) [OF inv]
  have "claimed s t \<inter> claimed s u = {}" if "t \<noteq> u" for t u
    using claims_okD(2) [OF claims, of _ t u] that by auto
  with conc_invD(3) [OF inv] claims_okD(3,4) [OF claims] show ?thesis by blast
qed

theorem pool_threads_exclusive_witness:
  "\<exists>s :: u64 pool_sys. pool_reach id 2 s \<and> 0 \<in> claimed s 0 \<and> 0 \<notin> claimed s 1"
proof -
  obtain s :: "u64 pool_sys" where s: "pool_reach id 2 s" "pcs s 0 = Make_New 5 0"
    using pool_example_swapped by blast
  then have "0 \<in> claimed s 0" by (simp add: claimed_def)
  moreover obtain fl where "\<forall>t u. t \<noteq> u \<longrightarrow> claimed s t \<inter> claimed s u = {}"
    using pool_threads_exclusive [of 2 id s] s(1) by auto
  then have "claimed s 0 \<inter> claimed s 1 = {}" by simp
  ultimately show ?thesis using s(1) by blast
qed





end
