(* ===== verification/Ring_Index.thy ===== *)
theory Ring_Index
  imports Conduit_Prelude
begin

text \<open>
  Ring buffers keep their elements in a fixed array and move two indices
  through it modulo its size. This theory has the arithmetic of such indices,
  in the two styles of the sources (\<open>% Size\<close> with indices below the size, and
  \<open>& (Capacity - 1)\<close> for a power of two), and the list of elements that the
  slots between the two indices hold.
\<close>

section \<open>Indices\<close>

text \<open>The number of slots from \<open>r\<close> up to \<open>w\<close>, going round a ring of \<open>n\<close> slots.\<close>

definition ring_dist :: "nat \<Rightarrow> nat \<Rightarrow> nat \<Rightarrow> nat" where
  "ring_dist n r w = (w + n - r) mod n"

lemma ring_dist_less [ring_simps]: "0 < n \<Longrightarrow> ring_dist n r w < n"
  by (simp add: ring_dist_def)

lemma ring_dist_split: "r < n \<Longrightarrow> w < n \<Longrightarrow> ring_dist n r w = (if r \<le> w then w - r else w + n - r)"
  by (simp add: ring_dist_def mod_if)

lemma ring_dist_0_iff [ring_simps]: "r < n \<Longrightarrow> w < n \<Longrightarrow> ring_dist n r w = 0 \<longleftrightarrow> r = w"
  by (auto simp: ring_dist_split)

lemma ring_dist_self [ring_simps]: "r < n \<Longrightarrow> ring_dist n r r = 0"
  by (simp add: ring_dist_split)

lemma mod_Suc_below: "i < n \<Longrightarrow> Suc i mod n = (if Suc i = n then 0 else Suc i)"
  by auto

lemma ring_dist_full_iff [ring_simps]:
  "r < n \<Longrightarrow> w < n \<Longrightarrow> Suc w mod n = r \<longleftrightarrow> ring_dist n r w = n - 1"
  by (auto simp: ring_dist_split mod_Suc_below)

lemma ring_dist_advance_write [ring_simps]:
  "r < n \<Longrightarrow> w < n \<Longrightarrow> Suc w mod n \<noteq> r \<Longrightarrow> ring_dist n r (Suc w mod n) = Suc (ring_dist n r w)"
  by (auto simp: ring_dist_split mod_Suc_below)

lemma ring_dist_advance_read [ring_simps]:
  "r < n \<Longrightarrow> w < n \<Longrightarrow> r \<noteq> w \<Longrightarrow> ring_dist n (Suc r mod n) w = ring_dist n r w - 1"
  by (auto simp: ring_dist_split mod_Suc_below)

lemma ring_dist_add [ring_simps]: "r < n \<Longrightarrow> w < n \<Longrightarrow> (r + ring_dist n r w) mod n = w"
  by (auto simp: ring_dist_split)

lemma ring_index_inj:
  assumes "i < n" "j < n" "(r + i) mod n = (r + j) mod (n::nat)"
  shows "i = j"
proof -
  have "i mod n = j mod n"
    using assms(3) by (simp add: nat_mod_eq_iff)
  with assms(1,2) show ?thesis by simp
qed

text \<open>The mask style: for a power of two the bitwise conjunction is the remainder.\<close>

lemma pow2_mask_mod:
  fixes i :: "'a::len word"
  assumes "2 ^ k < (2::nat) ^ LENGTH('a)"
  shows "unat (i AND (2 ^ k - 1)) = unat i mod 2 ^ k"
proof -
  have "i AND (2 ^ k - 1) = take_bit k i"
    by (metis mask_eq_exp_minus_1 take_bit_eq_mask)
  then have "unat (i AND (2 ^ k - 1)) = take_bit k (unat i)"
    by (simp add: unsigned_take_bit_eq)
  then show ?thesis by (simp add: take_bit_eq_mod)
qed

section \<open>The elements between two indices\<close>

definition ring_slice :: "nat \<Rightarrow> 'a list \<Rightarrow> nat \<Rightarrow> nat \<Rightarrow> 'a list" where
  "ring_slice n buf r k = map (\<lambda>i. buf ! ((r + i) mod n)) [0..<k]"

lemma length_ring_slice [simp]: "length (ring_slice n buf r k) = k"
  by (simp add: ring_slice_def)

lemma ring_slice_0 [simp]: "ring_slice n buf r 0 = []"
  by (simp add: ring_slice_def)

lemma nth_ring_slice: "i < k \<Longrightarrow> ring_slice n buf r k ! i = buf ! ((r + i) mod n)"
  by (simp add: ring_slice_def)

lemma ring_slice_Suc [ring_simps]:
  "ring_slice n buf r (Suc k) = ring_slice n buf r k @ [buf ! ((r + k) mod n)]"
  by (simp add: ring_slice_def)

lemma ring_slice_Cons [ring_simps]:
  "ring_slice n buf r (Suc k) = buf ! (r mod n) # ring_slice n buf (Suc r mod n) k"
proof (rule nth_equalityI)
  show "length (ring_slice n buf r (Suc k)) = length (buf ! (r mod n) # ring_slice n buf (Suc r mod n) k)"
    by simp
next
  fix i
  assume i: "i < length (ring_slice n buf r (Suc k))"
  show "ring_slice n buf r (Suc k) ! i = (buf ! (r mod n) # ring_slice n buf (Suc r mod n) k) ! i"
    using i by (cases i) (auto simp: nth_ring_slice mod_simps)
qed

text \<open>A write to the slot after the slice does not touch the slice.\<close>

lemma ring_slice_update_outside:
  assumes "k \<le> j" "j < n" "length buf = n"
  shows "ring_slice n (buf[(r + j) mod n := x]) r k = ring_slice n buf r k"
proof (rule nth_equalityI)
  fix i
  assume "i < length (ring_slice n (buf[(r + j) mod n := x]) r k)"
  then have i: "i < k" by simp
  have "(r + j) mod n \<noteq> (r + i) mod n"
    using ring_index_inj [of j n i r] i assms by auto
  then show "ring_slice n (buf[(r + j) mod n := x]) r k ! i = ring_slice n buf r k ! i"
    using i by (simp add: nth_ring_slice)
qed simp

lemma ring_slice_push:
  assumes "k < n" "length buf = n"
  shows "ring_slice n (buf[(r + k) mod n := x]) r (Suc k) = ring_slice n buf r k @ [x]"
proof -
  have "(r + k) mod n < n" using assms by simp
  then show ?thesis
    using assms by (simp add: ring_slice_Suc ring_slice_update_outside)
qed

end
