(* ===== verification/Queue_Interface.thy ===== *)
theory Queue_Interface
  imports Conduit_Prelude
begin

text \<open>
  The contract of a bounded first-in first-out queue, as every channel of the
  runtime promises it to its clients: a push appends or, on a full queue,
  reports failure and leaves the queue alone; a pop takes the oldest element
  or, on an empty queue, reports that. What clients may conclude of whole
  sequences of operations is proved once, inside the locale.
\<close>

section \<open>Sequences of operations and their specification on lists\<close>

datatype 'a fifo_op = Push_Op 'a | Pop_Op

datatype 'a fifo_result = Pushed bool | Popped "'a option"

fun fifo_run :: "('a \<Rightarrow> 'q \<Rightarrow> bool \<times> 'q) \<Rightarrow> ('q \<Rightarrow> 'a option \<times> 'q) \<Rightarrow> 'a fifo_op list \<Rightarrow> 'q \<Rightarrow>
    'a fifo_result list \<times> 'q" where
  "fifo_run push pop [] q = ([], q)"
| "fifo_run push pop (Push_Op x # ops) q =
     (let (b, q1) = push x q; (rs, q2) = fifo_run push pop ops q1 in (Pushed b # rs, q2))"
| "fifo_run push pop (Pop_Op # ops) q =
     (let (r, q1) = pop q; (rs, q2) = fifo_run push pop ops q1 in (Popped r # rs, q2))"

definition spec_push :: "nat \<Rightarrow> 'a \<Rightarrow> 'a list \<Rightarrow> bool \<times> 'a list" where
  "spec_push c x xs = (if length xs < c then (True, xs @ [x]) else (False, xs))"

definition spec_pop :: "'a list \<Rightarrow> 'a option \<times> 'a list" where
  "spec_pop xs = (case xs of [] \<Rightarrow> (None, []) | y # ys \<Rightarrow> (Some y, ys))"

text \<open>The elements that the pushes of a run handed over, and those that its pops returned.\<close>

fun accepted :: "'a fifo_op list \<Rightarrow> 'a fifo_result list \<Rightarrow> 'a list" where
  "accepted (Push_Op x # ops) (Pushed True # rs) = x # accepted ops rs"
| "accepted (_ # ops) (_ # rs) = accepted ops rs"
| "accepted _ _ = []"

fun returned :: "'a fifo_result list \<Rightarrow> 'a list" where
  "returned [] = []"
| "returned (Popped (Some x) # rs) = x # returned rs"
| "returned (_ # rs) = returned rs"

section \<open>The interface\<close>

locale bounded_fifo =
  fixes push :: "'a \<Rightarrow> 'q \<Rightarrow> bool \<times> 'q"
    and pop :: "'q \<Rightarrow> 'a option \<times> 'q"
    and items :: "'q \<Rightarrow> 'a list"
    and capacity :: "'q \<Rightarrow> nat"
    and invar :: "'q \<Rightarrow> bool"
  assumes bounded: "invar q \<Longrightarrow> length (items q) \<le> capacity q"
    and push_room: "invar q \<Longrightarrow> length (items q) < capacity q \<Longrightarrow>
      fst (push x q) \<and> items (snd (push x q)) = items q @ [x]"
    and push_full: "invar q \<Longrightarrow> length (items q) = capacity q \<Longrightarrow> push x q = (False, q)"
    and pop_some: "invar q \<Longrightarrow> items q = y # ys \<Longrightarrow>
      fst (pop q) = Some y \<and> items (snd (pop q)) = ys"
    and pop_none: "invar q \<Longrightarrow> items q = [] \<Longrightarrow> pop q = (None, q)"
    and invar_push: "invar q \<Longrightarrow> invar (snd (push x q))"
    and invar_pop: "invar q \<Longrightarrow> invar (snd (pop q))"
    and capacity_push: "invar q \<Longrightarrow> capacity (snd (push x q)) = capacity q"
    and capacity_pop: "invar q \<Longrightarrow> capacity (snd (pop q)) = capacity q"
begin

lemma push_refines:
  assumes "invar q"
  shows "fst (push x q) = fst (spec_push (capacity q) x (items q)) \<and>
    items (snd (push x q)) = snd (spec_push (capacity q) x (items q))"
proof (cases "length (items q) < capacity q")
  case True
  with assms show ?thesis by (simp add: spec_push_def push_room)
next
  case False
  with assms bounded have "length (items q) = capacity q" by fastforce
  with assms show ?thesis by (simp add: spec_push_def push_full)
qed

lemma pop_refines:
  assumes "invar q"
  shows "fst (pop q) = fst (spec_pop (items q)) \<and> items (snd (pop q)) = snd (spec_pop (items q))"
proof (cases "items q")
  case Nil
  with assms show ?thesis by (simp add: spec_pop_def pop_none)
next
  case (Cons y ys)
  with assms show ?thesis by (simp add: spec_pop_def pop_some)
qed

lemma run_refines:
  assumes "invar q"
  shows "fst (fifo_run push pop ops q) = fst (fifo_run (spec_push (capacity q)) spec_pop ops (items q)) \<and>
    items (snd (fifo_run push pop ops q)) = snd (fifo_run (spec_push (capacity q)) spec_pop ops (items q)) \<and>
    invar (snd (fifo_run push pop ops q)) \<and>
    capacity (snd (fifo_run push pop ops q)) = capacity q"
  using assms
proof (induction ops arbitrary: q)
  case Nil
  then show ?case by simp
next
  case (Cons op ops)
  show ?case
  proof (cases op)
    case (Push_Op x)
    note IH = Cons.IH [OF invar_push [OF Cons.prems, of x]]
    show ?thesis
      using IH push_refines [OF Cons.prems, of x] capacity_push [OF Cons.prems, of x] Push_Op
      by (auto simp: split_beta)
  next
    case Pop_Op
    note IH = Cons.IH [OF invar_pop [OF Cons.prems]]
    show ?thesis
      using IH pop_refines [OF Cons.prems] capacity_pop [OF Cons.prems] Pop_Op
      by (auto simp: split_beta)
  qed
qed

text \<open>Nothing is lost, duplicated or reordered: what came out, followed by what is still
  inside, is what was inside followed by what went in.\<close>

lemma run_conserves:
  assumes "invar q"
  shows "returned (fst (fifo_run push pop ops q)) @ items (snd (fifo_run push pop ops q)) =
    items q @ accepted ops (fst (fifo_run push pop ops q))"
  using assms
proof (induction ops arbitrary: q)
  case Nil
  then show ?case by simp
next
  case (Cons op ops)
  show ?case
  proof (cases op)
    case (Push_Op x)
    note IH = Cons.IH [OF invar_push [OF Cons.prems, of x]]
    show ?thesis
      using IH push_refines [OF Cons.prems, of x] Push_Op
      by (cases "fst (push x q)") (auto simp: split_beta spec_push_def split: if_splits)
  next
    case Pop_Op
    note IH = Cons.IH [OF invar_pop [OF Cons.prems]]
    show ?thesis
      using IH pop_refines [OF Cons.prems] Pop_Op
      by (cases "items q") (auto simp: split_beta spec_pop_def)
  qed
qed

end

end
