(* ===== verification/Conduit.thy ===== *)
theory Conduit
  imports Pool Ring_Index Queue_Interface
begin

text \<open>
  The single-producer single-consumer ring buffer \<open>conduit\<close> of
  \<open>include/conduit/core.hpp\<close>. The template parameter \<open>Size\<close> is the length of
  the array; indices are 64-bit and stay below it. One slot always stays empty,
  so a conduit holds at most \<open>Size - 1\<close> events. Here the operations run one at
  a time; theory \<open>Conduit_Concurrent\<close> interleaves the two threads.
\<close>

section \<open>The ring buffer\<close>

record 'p conduit =
  ring :: "'p option list"
  write_idx :: nat
  read_idx :: nat

definition conduit_size :: "'p conduit \<Rightarrow> nat" where
  "conduit_size q = length (ring q)"

definition conduit_init :: "'p option list \<Rightarrow> 'p conduit" where
  "conduit_init garbage = \<lparr>ring = garbage, write_idx = 0, read_idx = 0\<rparr>"

text \<open>\<open>(i + 1) % Size\<close> on \<open>size_t\<close>.\<close>

definition next_index :: "nat \<Rightarrow> nat \<Rightarrow> nat" where
  "next_index n i = (i + 1) mod 2 ^ 64 mod n"

definition conduit_push :: "'p option \<Rightarrow> 'p conduit \<Rightarrow> bool \<times> 'p conduit" where
  "conduit_push q_ptr q =
     (let current_write = write_idx q;
          next_write = next_index (conduit_size q) current_write
      in if next_write = read_idx q then (False, q)
         else (True, q\<lparr>ring := (ring q)[current_write := q_ptr], write_idx := next_write\<rparr>))"

definition conduit_pop :: "'c \<Rightarrow> 'p conduit \<Rightarrow> ('p, deleter, 'c) event_ptr \<times> 'p conduit" where
  "conduit_pop p q =
     (let current_read = read_idx q
      in if current_read = write_idx q then (event_ptr_default, q)
         else (event_ptr_of (ring q ! current_read) (Some Release_To_Pool) (Some p),
               q\<lparr>read_idx := next_index (conduit_size q) current_read\<rparr>))"

section \<open>Abstraction to a list\<close>

definition conduit_wf :: "'p conduit \<Rightarrow> bool" where
  "conduit_wf q \<longleftrightarrow> conduit_size q < 2 ^ 64 \<and> write_idx q < conduit_size q \<and> read_idx q < conduit_size q"

definition conduit_ptrs :: "'p conduit \<Rightarrow> 'p option list" where
  "conduit_ptrs q =
     ring_slice (conduit_size q) (ring q) (read_idx q)
       (ring_dist (conduit_size q) (read_idx q) (write_idx q))"

text \<open>Producers hand over events, never null pointers; then every pointer in flight is an event.\<close>

definition conduit_inv :: "'p conduit \<Rightarrow> bool" where
  "conduit_inv q \<longleftrightarrow> conduit_wf q \<and> None \<notin> set (conduit_ptrs q)"

definition conduit_items :: "'p conduit \<Rightarrow> 'p list" where
  "conduit_items q = map the (conduit_ptrs q)"

definition conduit_room :: "'p conduit \<Rightarrow> nat" where
  "conduit_room q = conduit_size q - 1"

lemma next_index_mod: "n < 2 ^ 64 \<Longrightarrow> i < n \<Longrightarrow> next_index n i = Suc i mod n"
  by (simp add: next_index_def)

lemma next_index_less: "0 < n \<Longrightarrow> next_index n i < n"
  by (simp add: next_index_def)

lemma conduit_wfD:
  assumes "conduit_wf q"
  shows "write_idx q < conduit_size q" "read_idx q < conduit_size q" "0 < conduit_size q"
    "next_index (conduit_size q) (write_idx q) = Suc (write_idx q) mod conduit_size q"
    "next_index (conduit_size q) (read_idx q) = Suc (read_idx q) mod conduit_size q"
  using assms by (auto simp: conduit_wf_def next_index_mod)

lemma conduit_wf_init: "0 < length g \<Longrightarrow> length g < 2 ^ 64 \<Longrightarrow> conduit_wf (conduit_init g)"
  by (simp add: conduit_wf_def conduit_init_def conduit_size_def)

lemma conduit_ptrs_init: "0 < length g \<Longrightarrow> conduit_ptrs (conduit_init g) = []"
  by (simp add: conduit_ptrs_def conduit_init_def conduit_size_def ring_simps)

lemma length_conduit_ptrs: "conduit_wf q \<Longrightarrow> length (conduit_ptrs q) \<le> conduit_room q"
  using ring_dist_less [of "conduit_size q" "read_idx q" "write_idx q"] conduit_wfD(3) [of q]
  by (simp add: conduit_ptrs_def conduit_room_def)

text \<open>The four outcomes of the two operations on the list of pointers in flight.\<close>

lemma conduit_push_full:
  assumes "conduit_wf q" "length (conduit_ptrs q) = conduit_room q"
  shows "conduit_push x q = (False, q)"
proof -
  have "Suc (write_idx q) mod conduit_size q = read_idx q"
    using assms conduit_wfD [OF assms(1)] ring_dist_full_iff [of "read_idx q" "conduit_size q" "write_idx q"]
    by (simp add: conduit_ptrs_def conduit_room_def)
  then show ?thesis by (simp add: conduit_push_def conduit_wfD [OF assms(1)])
qed

lemma conduit_push_room:
  assumes wf: "conduit_wf q" and room: "length (conduit_ptrs q) < conduit_room q"
  shows "\<exists>q'. conduit_push x q = (True, q') \<and> conduit_wf q' \<and> conduit_size q' = conduit_size q \<and>
    conduit_ptrs q' = conduit_ptrs q @ [x]"
proof -
  let ?n = "conduit_size q" and ?w = "write_idx q" and ?r = "read_idx q"
  let ?q' = "q\<lparr>ring := (ring q)[?w := x], write_idx := Suc ?w mod ?n\<rparr>"
  note D = conduit_wfD [OF wf]
  have ne: "Suc ?w mod ?n \<noteq> ?r"
    using room D ring_dist_full_iff [of ?r ?n ?w] by (simp add: conduit_ptrs_def conduit_room_def)
  then have push: "conduit_push x q = (True, ?q')"
    by (simp add: conduit_push_def Let_def D)
  have size: "conduit_size ?q' = ?n" by (simp add: conduit_size_def)
  have dist: "ring_dist ?n ?r ?w < ?n" using D by (simp add: ring_simps)
  have w: "?w = (?r + ring_dist ?n ?r ?w) mod ?n" using D by (simp add: ring_simps)
  have "conduit_ptrs ?q' = ring_slice ?n ((ring q)[?w := x]) ?r (Suc (ring_dist ?n ?r ?w))"
    using D ne by (simp add: conduit_ptrs_def size ring_dist_advance_write)
  also have "\<dots> = ring_slice ?n (ring q) ?r (ring_dist ?n ?r ?w) @ [x]"
    using ring_slice_push [OF dist, of "ring q" ?r x] w by (simp add: conduit_size_def)
  finally have "conduit_ptrs ?q' = conduit_ptrs q @ [x]" by (simp add: conduit_ptrs_def)
  moreover have "conduit_wf ?q'" using wf D by (simp add: conduit_wf_def size)
  ultimately show ?thesis using push size by blast
qed

lemma conduit_pop_empty:
  assumes "conduit_wf q" "conduit_ptrs q = []"
  shows "conduit_pop p q = (event_ptr_default, q)"
proof -
  have "length (conduit_ptrs q) = 0" using assms(2) by simp
  then have "read_idx q = write_idx q"
    using conduit_wfD [OF assms(1)] by (simp add: conduit_ptrs_def ring_simps)
  then show ?thesis by (simp add: conduit_pop_def)
qed

lemma conduit_pop_some:
  assumes wf: "conduit_wf q" and ptrs: "conduit_ptrs q = x # xs"
  shows "\<exists>q'. conduit_pop p q = (event_ptr_of x (Some Release_To_Pool) (Some p), q') \<and>
    conduit_wf q' \<and> conduit_size q' = conduit_size q \<and> conduit_ptrs q' = xs"
proof -
  let ?n = "conduit_size q" and ?w = "write_idx q" and ?r = "read_idx q"
  let ?q' = "q\<lparr>read_idx := Suc ?r mod ?n\<rparr>"
  note D = conduit_wfD [OF wf]
  obtain k where k: "ring_dist ?n ?r ?w = Suc k"
    using ptrs by (cases "ring_dist ?n ?r ?w") (simp_all add: conduit_ptrs_def)
  then have ne: "?r \<noteq> ?w" using D by (metis ring_dist_self nat.distinct(1))
  have size: "conduit_size ?q' = ?n" by (simp add: conduit_size_def)
  have "conduit_ptrs q = ring q ! ?r # ring_slice ?n (ring q) (Suc ?r mod ?n) k"
    using D by (simp add: conduit_ptrs_def k ring_slice_Cons)
  then have x: "ring q ! ?r = x" and xs: "ring_slice ?n (ring q) (Suc ?r mod ?n) k = xs"
    using ptrs by simp_all
  have "conduit_ptrs ?q' = xs"
    using D ne k xs by (simp add: conduit_ptrs_def size ring_dist_advance_read)
  moreover have "conduit_pop p q = (event_ptr_of x (Some Release_To_Pool) (Some p), ?q')"
    using ne x D by (simp add: conduit_pop_def)
  moreover have "conduit_wf ?q'" using wf D by (simp add: conduit_wf_def size)
  ultimately show ?thesis using size by blast
qed

lemma conduit_fresh:
  assumes "0 < length g" "length g < 2 ^ 64"
  shows "conduit_inv (conduit_init g)" "conduit_items (conduit_init g) = []"
    "conduit_room (conduit_init g) = length g - 1"
proof -
  show "conduit_inv (conduit_init g)"
    using conduit_wf_init [OF assms] conduit_ptrs_init [OF assms(1)] by (simp add: conduit_inv_def)
  show "conduit_items (conduit_init g) = []"
    using conduit_ptrs_init [OF assms(1)] by (simp add: conduit_items_def)
  show "conduit_room (conduit_init g) = length g - 1"
    by (simp add: conduit_room_def conduit_size_def conduit_init_def)
qed

section \<open>The conduit implements the queue contract\<close>

text \<open>The client's view: events go in by \<open>push\<close>, and \<open>pop\<close> returns an event or none.\<close>

definition push_event :: "'p \<Rightarrow> 'p conduit \<Rightarrow> bool \<times> 'p conduit" where
  "push_event x q = conduit_push (Some x) q"

definition pop_event :: "'c \<Rightarrow> 'p conduit \<Rightarrow> 'p option \<times> 'p conduit" where
  "pop_event p q = (let (ev, q') = conduit_pop p q in (event_ptr_get ev, q'))"

lemma conduit_items_Cons:
  assumes "conduit_inv q" "conduit_items q = y # ys"
  shows "\<exists>zs. conduit_ptrs q = Some y # zs \<and> map the zs = ys \<and> None \<notin> set zs"
proof (cases "conduit_ptrs q")
  case Nil
  with assms(2) show ?thesis by (simp add: conduit_items_def)
next
  case (Cons z zs)
  with assms show ?thesis by (cases z) (auto simp: conduit_items_def conduit_inv_def)
qed

interpretation cq: bounded_fifo push_event "pop_event p" conduit_items conduit_room conduit_inv
  for p :: 'c
proof unfold_locales
  fix q :: "'p conduit" and x :: 'p and y ys
  assume inv: "conduit_inv q"
  then have wf: "conduit_wf q" and nn: "None \<notin> set (conduit_ptrs q)"
    by (simp_all add: conduit_inv_def)
  show "length (conduit_items q) \<le> conduit_room q"
    using length_conduit_ptrs [OF wf] by (simp add: conduit_items_def)
  show full: "push_event x q = (False, q)" if "length (conduit_items q) = conduit_room q"
    using conduit_push_full [OF wf] that by (simp add: push_event_def conduit_items_def)
  have push: "fst (push_event x q) \<and> conduit_items (snd (push_event x q)) = conduit_items q @ [x] \<and>
      conduit_inv (snd (push_event x q)) \<and> conduit_room (snd (push_event x q)) = conduit_room q"
    if "length (conduit_items q) < conduit_room q"
    using conduit_push_room [OF wf, of "Some x"] that nn
    by (auto simp: push_event_def conduit_items_def conduit_inv_def conduit_room_def)
  then show "fst (push_event x q) \<and> conduit_items (snd (push_event x q)) = conduit_items q @ [x]"
    if "length (conduit_items q) < conduit_room q"
    using that by blast
  have "length (conduit_items q) < conduit_room q \<or> length (conduit_items q) = conduit_room q"
    using length_conduit_ptrs [OF wf] by (auto simp: conduit_items_def)
  then show "conduit_inv (snd (push_event x q))" "conduit_room (snd (push_event x q)) = conduit_room q"
    using push full inv by auto
  show none: "pop_event p q = (None, q)" if "conduit_items q = []"
    using conduit_pop_empty [OF wf, of p] that
    by (simp add: pop_event_def conduit_items_def event_ptr_defs)
  have some: "fst (pop_event p q) = Some a \<and> conduit_items (snd (pop_event p q)) = as \<and>
      conduit_inv (snd (pop_event p q)) \<and> conduit_room (snd (pop_event p q)) = conduit_room q"
    if items: "conduit_items q = a # as" for a as
  proof -
    obtain zs where zs: "conduit_ptrs q = Some a # zs" "map the zs = as" "None \<notin> set zs"
      using conduit_items_Cons [OF inv items] by blast
    show ?thesis
      using conduit_pop_some [OF wf zs(1), of p] zs(2,3)
      by (auto simp: pop_event_def conduit_items_def conduit_inv_def conduit_room_def event_ptr_defs)
  qed
  then show "fst (pop_event p q) = Some y \<and> conduit_items (snd (pop_event p q)) = ys"
    if "conduit_items q = y # ys"
    using that by blast
  show "conduit_inv (snd (pop_event p q))" "conduit_room (snd (pop_event p q)) = conduit_room q"
    using none some inv by (cases "conduit_items q"; auto)+
qed

section \<open>Properties\<close>

text \<open>C8: Whatever garbage its array starts with, a conduit of \<open>Size\<close> slots answers every
  sequence of pushes and pops exactly as a first-in first-out queue of capacity \<open>Size - 1\<close>
  does, and nothing is lost, duplicated or reordered between the two ends.\<close>

theorem conduit_is_fifo:
  assumes "0 < length g" "length g < 2 ^ 64"
  shows "let (rs, q) = fifo_run push_event (pop_event p) ops (conduit_init g);
      (rs', xs) = fifo_run (spec_push (length g - 1)) spec_pop ops []
    in rs = rs' \<and> conduit_items q = xs \<and> returned rs @ conduit_items q = accepted ops rs"
proof -
  note init = conduit_fresh [OF assms]
  show ?thesis
    using cq.run_refines [OF init(1), of p ops] cq.run_conserves [OF init(1), of p ops]
    by (auto simp: init(2,3) split_beta)
qed

theorem conduit_is_fifo_witness:
  "let (rs, q) = fifo_run push_event (pop_event ()) [Push_Op 1, Push_Op 2, Push_Op (3::nat), Pop_Op]
      (conduit_init [None, None, None])
   in rs = [Pushed True, Pushed True, Pushed False, Popped (Some 1)] \<and> conduit_items q = [2]"
  using conduit_is_fifo [of "[None, None, None]" "()" "[Push_Op 1, Push_Op 2, Push_Op (3::nat), Pop_Op]"]
  by (simp add: spec_push_def spec_pop_def split_beta)

end
