(* ===== verification/Conduit_Concurrent.thy ===== *)
theory Conduit_Concurrent
  imports Conduit
begin

text \<open>
  One producer thread in \<open>conduit::push\<close> and one consumer thread in
  \<open>conduit::pop\<close> of \<open>include/conduit/core.hpp\<close>, each load and store one step, in
  any interleaving. \<open>sent\<close> lists the events of the pushes that returned true and
  \<open>received\<close> the pointers of the pops that returned one; both are ghosts.
\<close>

section \<open>The two threads\<close>

datatype 'p producer =
    P_Idle
  | P_Start 'p nat
  | P_Room 'p nat
  | P_Written 'p nat

datatype 'p consumer =
    C_Idle
  | C_Start nat
  | C_Some nat
  | C_Got nat "'p option"

record 'p spsc =
  chan :: "'p conduit"
  prod :: "'p producer"
  cons :: "'p consumer"
  sent :: "'p list"
  received :: "'p option list"

text \<open>\<open>push\<close>: load the write index; load the read index and give up if the ring is full; write the
  slot; store the new write index. \<open>pop\<close>: load the read index; load the write index and give up if
  the ring is empty; read the slot; store the new read index.\<close>

inductive spsc_step :: "'p spsc \<Rightarrow> 'p spsc \<Rightarrow> bool" where
  push_begin: "prod s = P_Idle \<Longrightarrow> spsc_step s (s\<lparr>prod := P_Start x (write_idx (chan s))\<rparr>)"
| push_full: "prod s = P_Start x w \<Longrightarrow> next_index (conduit_size (chan s)) w = read_idx (chan s) \<Longrightarrow>
    spsc_step s (s\<lparr>prod := P_Idle\<rparr>)"
| push_room: "prod s = P_Start x w \<Longrightarrow> next_index (conduit_size (chan s)) w \<noteq> read_idx (chan s) \<Longrightarrow>
    spsc_step s (s\<lparr>prod := P_Room x w\<rparr>)"
| push_write: "prod s = P_Room x w \<Longrightarrow>
    spsc_step s (s\<lparr>chan := (chan s)\<lparr>ring := (ring (chan s))[w := Some x]\<rparr>, prod := P_Written x w\<rparr>)"
| push_publish: "prod s = P_Written x w \<Longrightarrow>
    spsc_step s (s\<lparr>chan := (chan s)\<lparr>write_idx := next_index (conduit_size (chan s)) w\<rparr>,
      prod := P_Idle, sent := sent s @ [x]\<rparr>)"
| pop_begin: "cons s = C_Idle \<Longrightarrow> spsc_step s (s\<lparr>cons := C_Start (read_idx (chan s))\<rparr>)"
| pop_empty: "cons s = C_Start r \<Longrightarrow> r = write_idx (chan s) \<Longrightarrow> spsc_step s (s\<lparr>cons := C_Idle\<rparr>)"
| pop_some: "cons s = C_Start r \<Longrightarrow> r \<noteq> write_idx (chan s) \<Longrightarrow> spsc_step s (s\<lparr>cons := C_Some r\<rparr>)"
| pop_read: "cons s = C_Some r \<Longrightarrow> spsc_step s (s\<lparr>cons := C_Got r (ring (chan s) ! r)\<rparr>)"
| pop_publish: "cons s = C_Got r v \<Longrightarrow>
    spsc_step s (s\<lparr>chan := (chan s)\<lparr>read_idx := next_index (conduit_size (chan s)) r\<rparr>,
      cons := C_Idle, received := received s @ [v]\<rparr>)"

definition spsc_start :: "'p option list \<Rightarrow> 'p spsc" where
  "spsc_start g = \<lparr>chan = conduit_init g, prod = P_Idle, cons = C_Idle, sent = [], received = []\<rparr>"

inductive spsc_reach :: "nat \<Rightarrow> 'p spsc \<Rightarrow> bool" for n where
  spsc_init: "length g = n \<Longrightarrow> spsc_reach n (spsc_start g)"
| spsc_next: "spsc_reach n s \<Longrightarrow> spsc_step s s' \<Longrightarrow> spsc_reach n s'"

section \<open>The invariant\<close>

fun prod_ok :: "'p conduit \<Rightarrow> 'p producer \<Rightarrow> bool" where
  "prod_ok q P_Idle \<longleftrightarrow> True"
| "prod_ok q (P_Start x w) \<longleftrightarrow> w = write_idx q"
| "prod_ok q (P_Room x w) \<longleftrightarrow> w = write_idx q \<and> length (conduit_ptrs q) < conduit_room q"
| "prod_ok q (P_Written x w) \<longleftrightarrow> w = write_idx q \<and> length (conduit_ptrs q) < conduit_room q \<and> ring q ! w = Some x"

fun cons_ok :: "'p conduit \<Rightarrow> 'p consumer \<Rightarrow> bool" where
  "cons_ok q C_Idle \<longleftrightarrow> True"
| "cons_ok q (C_Start r) \<longleftrightarrow> r = read_idx q"
| "cons_ok q (C_Some r) \<longleftrightarrow> r = read_idx q \<and> conduit_ptrs q \<noteq> []"
| "cons_ok q (C_Got r v) \<longleftrightarrow> r = read_idx q \<and> conduit_ptrs q \<noteq> [] \<and> v = hd (conduit_ptrs q)"

definition spsc_inv :: "nat \<Rightarrow> 'p spsc \<Rightarrow> bool" where
  "spsc_inv n s \<longleftrightarrow>
     conduit_wf (chan s) \<and> conduit_size (chan s) = n \<and>
     received s @ conduit_ptrs (chan s) = map Some (sent s) \<and>
     prod_ok (chan s) (prod s) \<and> cons_ok (chan s) (cons s)"

lemma conduit_size_frame [simp]:
  "conduit_size (q\<lparr>write_idx := w\<rparr>) = conduit_size q" "conduit_size (q\<lparr>read_idx := r\<rparr>) = conduit_size q"
  by (simp_all add: conduit_size_def)

text \<open>The room test, the emptiness test, the slot to be read, in terms of the pointers in flight.\<close>

lemma room_iff:
  "conduit_wf q \<Longrightarrow> next_index (conduit_size q) (write_idx q) \<noteq> read_idx q \<longleftrightarrow>
     length (conduit_ptrs q) < conduit_room q"
  using ring_dist_less [of "conduit_size q" "read_idx q" "write_idx q"]
  by (auto simp: conduit_wfD conduit_ptrs_def conduit_room_def ring_dist_full_iff)

lemma empty_iff: "conduit_wf q \<Longrightarrow> read_idx q = write_idx q \<longleftrightarrow> conduit_ptrs q = []"
  using ring_dist_0_iff [of "read_idx q" "conduit_size q" "write_idx q"] conduit_wfD [of q]
  by (metis conduit_ptrs_def length_0_conv length_ring_slice)

lemma hd_conduit_ptrs: "conduit_wf q \<Longrightarrow> conduit_ptrs q \<noteq> [] \<Longrightarrow> hd (conduit_ptrs q) = ring q ! read_idx q"
proof -
  assume wf: "conduit_wf q" and ne: "conduit_ptrs q \<noteq> []"
  obtain k where "ring_dist (conduit_size q) (read_idx q) (write_idx q) = Suc k"
    using ne by (cases "ring_dist (conduit_size q) (read_idx q) (write_idx q)") (simp_all add: conduit_ptrs_def)
  then show ?thesis using conduit_wfD [OF wf] by (simp add: conduit_ptrs_def ring_slice_Cons)
qed

text \<open>The three stores to shared memory: the slot at the write index, the write index, the read index.\<close>

lemma write_slot:
  fixes x :: "'p option" and q :: "'p conduit"
  assumes "conduit_wf q"
  defines "q' \<equiv> q\<lparr>ring := (ring q)[write_idx q := x]\<rparr>"
  shows "conduit_wf q'" "conduit_size q' = conduit_size q" "conduit_ptrs q' = conduit_ptrs q"
    "conduit_room q' = conduit_room q"
proof -
  let ?n = "conduit_size q" and ?d = "ring_dist (conduit_size q) (read_idx q) (write_idx q)"
  note D = conduit_wfD [OF assms(1)]
  show size: "conduit_size q' = ?n" by (simp add: q'_def conduit_size_def)
  then show "conduit_wf q'" "conduit_room q' = conduit_room q"
    using assms(1) by (simp_all add: conduit_wf_def conduit_room_def q'_def)
  have "ring_slice ?n ((ring q)[(read_idx q + ?d) mod ?n := x]) (read_idx q) ?d = ring_slice ?n (ring q) (read_idx q) ?d"
    using D by (intro ring_slice_update_outside) (simp_all add: ring_simps conduit_size_def)
  then show "conduit_ptrs q' = conduit_ptrs q"
    using D by (simp add: conduit_ptrs_def q'_def size ring_simps) (simp add: conduit_size_def)
qed

lemma publish_write:
  assumes wf: "conduit_wf q" and room: "length (conduit_ptrs q) < conduit_room q"
  defines "q' \<equiv> q\<lparr>write_idx := next_index (conduit_size q) (write_idx q)\<rparr>"
  shows "conduit_wf q'" "conduit_size q' = conduit_size q" "conduit_room q' = conduit_room q"
    "conduit_ptrs q' = conduit_ptrs q @ [ring q ! write_idx q]"
proof -
  let ?n = "conduit_size q" and ?d = "ring_dist (conduit_size q) (read_idx q) (write_idx q)"
  note D = conduit_wfD [OF wf]
  show size: "conduit_size q' = ?n" by (simp add: q'_def conduit_size_def)
  then show "conduit_wf q'" "conduit_room q' = conduit_room q"
    using wf D by (simp_all add: conduit_wf_def conduit_room_def q'_def)
  have "Suc (write_idx q) mod ?n \<noteq> read_idx q" using room_iff [OF wf] room D by simp
  then show "conduit_ptrs q' = conduit_ptrs q @ [ring q ! write_idx q]"
    using D by (simp add: conduit_ptrs_def q'_def ring_dist_advance_write ring_slice_Suc ring_dist_add)
qed

lemma publish_read:
  assumes wf: "conduit_wf q" and ne: "conduit_ptrs q \<noteq> []"
  defines "q' \<equiv> q\<lparr>read_idx := next_index (conduit_size q) (read_idx q)\<rparr>"
  shows "conduit_wf q'" "conduit_size q' = conduit_size q" "conduit_room q' = conduit_room q"
    "conduit_ptrs q' = tl (conduit_ptrs q)"
proof -
  obtain x xs where xs: "conduit_ptrs q = x # xs" using ne by (cases "conduit_ptrs q") auto
  have "snd (conduit_pop () q) = q'"
    using empty_iff [OF wf] ne by (auto simp: conduit_pop_def q'_def Let_def)
  with conduit_pop_some [OF wf xs, of "()"] xs
  show "conduit_wf q'" "conduit_size q' = conduit_size q" "conduit_room q' = conduit_room q"
      "conduit_ptrs q' = tl (conduit_ptrs q)"
    by (auto simp: conduit_room_def)
qed


section \<open>Every step keeps the invariant\<close>

lemma prod_ok_mono:
  "prod_ok q p \<Longrightarrow> write_idx q' = write_idx q \<Longrightarrow> ring q' = ring q \<Longrightarrow> conduit_room q' = conduit_room q \<Longrightarrow>
   length (conduit_ptrs q') \<le> length (conduit_ptrs q) \<Longrightarrow> prod_ok q' p"
  by (cases p) auto

lemma cons_ok_mono:
  "cons_ok q c \<Longrightarrow> read_idx q' = read_idx q \<Longrightarrow> conduit_ptrs q' = conduit_ptrs q @ ys \<Longrightarrow> cons_ok q' c"
  by (cases c) auto

lemma spsc_step_inv:
  assumes "spsc_step s s'" "spsc_inv n s"
  shows "spsc_inv n s'"
  using assms
proof (induction rule: spsc_step.induct)
  case (push_write s x w)
  then have inv: "conduit_wf (chan s)" "conduit_size (chan s) = n" "cons_ok (chan s) (cons s)"
      "received s @ conduit_ptrs (chan s) = map Some (sent s)"
      "w = write_idx (chan s)" "length (conduit_ptrs (chan s)) < conduit_room (chan s)"
    by (auto simp: spsc_inv_def)
  let ?q = "(chan s)\<lparr>ring := (ring (chan s))[w := Some x]\<rparr>"
  have W: "conduit_wf ?q" "conduit_size ?q = conduit_size (chan s)" "conduit_ptrs ?q = conduit_ptrs (chan s)"
      "conduit_room ?q = conduit_room (chan s)"
    unfolding inv(5) by (rule write_slot [OF inv(1)])+
  have "cons_ok ?q (cons s)"
    by (rule cons_ok_mono [OF inv(3), of _ "[]"]) (simp_all add: W(3))
  moreover have "w < length (ring (chan s))"
    using conduit_wfD(1) [OF inv(1)] inv(5) by (simp add: conduit_size_def)
  ultimately show ?case
    using W inv by (simp add: spsc_inv_def)
next
  case (push_publish s x w)
  then have inv: "conduit_wf (chan s)" "conduit_size (chan s) = n" "cons_ok (chan s) (cons s)"
      "received s @ conduit_ptrs (chan s) = map Some (sent s)"
      "w = write_idx (chan s)" "length (conduit_ptrs (chan s)) < conduit_room (chan s)"
      "ring (chan s) ! w = Some x"
    by (auto simp: spsc_inv_def)
  let ?q = "(chan s)\<lparr>write_idx := next_index (conduit_size (chan s)) w\<rparr>"
  have W: "conduit_wf ?q" "conduit_size ?q = conduit_size (chan s)"
      "conduit_ptrs ?q = conduit_ptrs (chan s) @ [ring (chan s) ! w]"
    unfolding inv(5) by (rule publish_write [OF inv(1,6)])+
  have "cons_ok ?q (cons s)"
    by (rule cons_ok_mono [OF inv(3) _ W(3)]) simp
  moreover have "received s @ conduit_ptrs ?q = map Some (sent s @ [x])"
    unfolding W(3) inv(7) by (simp flip: append_assoc add: inv(4))
  ultimately show ?case
    using W(1,2) inv(2) by (simp add: spsc_inv_def)
next
  case (pop_read s r)
  then show ?case by (auto simp: spsc_inv_def hd_conduit_ptrs)
next
  case (pop_publish s r v)
  then have inv: "conduit_wf (chan s)" "conduit_size (chan s) = n" "prod_ok (chan s) (prod s)"
      "received s @ conduit_ptrs (chan s) = map Some (sent s)"
      "r = read_idx (chan s)" "conduit_ptrs (chan s) \<noteq> []" "v = hd (conduit_ptrs (chan s))"
    by (auto simp: spsc_inv_def)
  let ?q = "(chan s)\<lparr>read_idx := next_index (conduit_size (chan s)) r\<rparr>"
  have R: "conduit_wf ?q" "conduit_size ?q = conduit_size (chan s)" "conduit_room ?q = conduit_room (chan s)"
      "conduit_ptrs ?q = tl (conduit_ptrs (chan s))"
    unfolding inv(5) by (rule publish_read [OF inv(1,6)])+
  have "prod_ok ?q (prod s)"
    by (rule prod_ok_mono [OF inv(3)]) (simp_all add: R)
  moreover have "(received s @ [v]) @ conduit_ptrs ?q = map Some (sent s)"
    using inv(4,6,7) by (simp add: R(4))
  ultimately show ?case
    using R(1,2) inv(2) by (simp add: spsc_inv_def)
next
  case (push_room s x w)
  then show ?case using room_iff [of "chan s"] by (auto simp: spsc_inv_def)
next
  case (pop_some s r)
  then show ?case using empty_iff [of "chan s"] by (auto simp: spsc_inv_def)
qed (auto simp: spsc_inv_def)

lemma spsc_reach_inv:
  assumes "0 < n" "n < 2 ^ 64" "spsc_reach n s"
  shows "spsc_inv n s"
  using assms(3)
proof (induction rule: spsc_reach.induct)
  case (spsc_init g)
  then show ?case
    using assms(1,2) conduit_wf_init [of g] conduit_ptrs_init [of g]
    by (simp add: spsc_inv_def spsc_start_def) (simp add: conduit_size_def conduit_init_def)
next
  case (spsc_next s s')
  then show ?case using spsc_step_inv by blast
qed

section \<open>A run in which both threads are inside the ring\<close>

definition spsc_mid :: "nat spsc" where
  "spsc_mid = \<lparr>chan = \<lparr>ring = [Some 7, None, None], write_idx = 1, read_idx = 0\<rparr>,
     prod = P_Room 8 1, cons = C_Some 0, sent = [7], received = []\<rparr>"

lemma spsc_mid_reach: "spsc_reach 3 spsc_mid"
proof -
  let ?q = "\<lparr>ring = [None, None, None], write_idx = 0, read_idx = 0\<rparr> :: nat conduit"
  let ?q1 = "\<lparr>ring = [Some 7, None, None], write_idx = 0, read_idx = 0\<rparr> :: nat conduit"
  let ?q2 = "\<lparr>ring = [Some 7, None, None], write_idx = 1, read_idx = 0\<rparr> :: nat conduit"
  note size = conduit_size_def next_index_def
  have "spsc_reach 3 \<lparr>chan = ?q, prod = P_Idle, cons = C_Idle, sent = [], received = []\<rparr>"
    using spsc_init [of "[None, None, None :: nat option]" 3] by (simp add: spsc_start_def conduit_init_def)
  then have "spsc_reach 3 \<lparr>chan = ?q, prod = P_Start 7 0, cons = C_Idle, sent = [], received = []\<rparr>"
    by (rule spsc_next) (use push_begin [of "\<lparr>chan = ?q, prod = P_Idle, cons = C_Idle, sent = [], received = []\<rparr>" 7] in simp)
  then have "spsc_reach 3 \<lparr>chan = ?q, prod = P_Room 7 0, cons = C_Idle, sent = [], received = []\<rparr>"
    by (rule spsc_next) (use push_room [of "\<lparr>chan = ?q, prod = P_Start 7 0, cons = C_Idle, sent = [], received = []\<rparr>" 7 0] in \<open>simp add: size\<close>)
  then have "spsc_reach 3 \<lparr>chan = ?q1, prod = P_Written 7 0, cons = C_Idle, sent = [], received = []\<rparr>"
    by (rule spsc_next) (use push_write [of "\<lparr>chan = ?q, prod = P_Room 7 0, cons = C_Idle, sent = [], received = []\<rparr>" 7 0] in simp)
  then have "spsc_reach 3 \<lparr>chan = ?q2, prod = P_Idle, cons = C_Idle, sent = [7], received = []\<rparr>"
    by (rule spsc_next) (use push_publish [of "\<lparr>chan = ?q1, prod = P_Written 7 0, cons = C_Idle, sent = [], received = []\<rparr>" 7 0] in \<open>simp add: size\<close>)
  then have "spsc_reach 3 \<lparr>chan = ?q2, prod = P_Start 8 1, cons = C_Idle, sent = [7], received = []\<rparr>"
    by (rule spsc_next) (use push_begin [of "\<lparr>chan = ?q2, prod = P_Idle, cons = C_Idle, sent = [7], received = []\<rparr>" 8] in simp)
  then have "spsc_reach 3 \<lparr>chan = ?q2, prod = P_Room 8 1, cons = C_Idle, sent = [7], received = []\<rparr>"
    by (rule spsc_next) (use push_room [of "\<lparr>chan = ?q2, prod = P_Start 8 1, cons = C_Idle, sent = [7], received = []\<rparr>" 8 1] in \<open>simp add: size\<close>)
  then have "spsc_reach 3 \<lparr>chan = ?q2, prod = P_Room 8 1, cons = C_Start 0, sent = [7], received = []\<rparr>"
    by (rule spsc_next) (use pop_begin [of "\<lparr>chan = ?q2, prod = P_Room 8 1, cons = C_Idle, sent = [7], received = []\<rparr>"] in simp)
  then show ?thesis unfolding spsc_mid_def
    by (rule spsc_next) (use pop_some [of "\<lparr>chan = ?q2, prod = P_Room 8 1, cons = C_Start 0, sent = [7], received = []\<rparr>" 0] in simp)
qed

section \<open>Properties\<close>

text \<open>C2: In every interleaving of one producer and one consumer, the pointers received so far,
  followed by those in flight, are exactly the events sent, in order; and never more than
  \<open>Size - 1\<close> are in flight.\<close>

theorem spsc_interleaved_fifo:
  assumes "0 < n" "n < 2 ^ 64" "spsc_reach n s"
  shows "received s @ conduit_ptrs (chan s) = map Some (sent s) \<and>
    length (sent s) - length (received s) \<le> n - 1"
proof -
  have inv: "spsc_inv n s" using assms by (rule spsc_reach_inv)
  then have eq: "received s @ conduit_ptrs (chan s) = map Some (sent s)"
    and wf: "conduit_wf (chan s)" "conduit_size (chan s) = n"
    by (simp_all add: spsc_inv_def)
  have "length (received s) + length (conduit_ptrs (chan s)) = length (sent s)"
    using arg_cong [OF eq, of length] by simp
  with eq length_conduit_ptrs [OF wf(1)] wf(2) show ?thesis by (simp add: conduit_room_def)
qed

theorem spsc_interleaved_fifo_witness:
  "received spsc_mid @ conduit_ptrs (chan spsc_mid) = [Some 7] \<and> length (sent spsc_mid) = 1"
  using spsc_interleaved_fifo [OF _ _ spsc_mid_reach] by (simp add: spsc_mid_def)

text \<open>The two threads never touch the same slot: while the producer is about to write a slot and
  the consumer about to read one, the slots differ, and both are slots of the ring.\<close>

theorem spsc_no_slot_race:
  assumes "0 < n" "n < 2 ^ 64" "spsc_reach n s" "prod s = P_Room x w" "cons s = C_Some r"
  shows "w \<noteq> r \<and> w < length (ring (chan s)) \<and> r < length (ring (chan s))"
proof -
  have inv: "spsc_inv n s" using assms(1-3) by (rule spsc_reach_inv)
  then have wf: "conduit_wf (chan s)" "w = write_idx (chan s)" "r = read_idx (chan s)"
      "conduit_ptrs (chan s) \<noteq> []"
    using assms(4,5) by (simp_all add: spsc_inv_def)
  with empty_iff [OF wf(1)] conduit_wfD(1,2) [OF wf(1)] show ?thesis by (auto simp: conduit_size_def)
qed

theorem spsc_no_slot_race_witness:
  "prod spsc_mid = P_Room 8 1 \<and> cons spsc_mid = C_Some 0 \<and> 1 < length (ring (chan spsc_mid))"
  using spsc_no_slot_race [OF _ _ spsc_mid_reach, of 8 1 0] by (simp add: spsc_mid_def)

end
