(* ===== verification/Pipeline.thy ===== *)
theory Pipeline
  imports Pool
begin

text \<open>
  The dispatch pipeline of \<open>include/conduit/core.hpp\<close> (layers 2, 6 and 7): the type
  hierarchy that \<open>extends\<close> and \<open>base_types\<close> declare, handlers with their \<open>on\<close>
  overloads, \<open>dispatch\<close>, \<open>traverse_and_call\<close>, \<open>call_on_if_exists\<close> and
  \<open>bound_sink\<close>. A pointer to a base subobject stands for the object it is part of.
  What a handler does to the pointer it is given and to the rest of the program is
  its own function; deleter calls go into the log of the world.
\<close>

section \<open>Event types, handlers and the world\<close>

text \<open>\<open>base_types\<close> is empty where the C++ type has none.\<close>

datatype event_type = Event_Type (type_name: string) (base_types: "event_type list")

record ('p, 'd, 'c, 's) world =
  world_calls :: "('p, 'd, 'c) deleter_call list"
  world_user :: 's

text \<open>An \<open>on\<close> overload returns \<open>bool\<close>, or anything else, which \<open>dispatch\<close> ignores.\<close>

datatype ('p, 'd, 'c, 's) on =
    On_Bool "('p, 'd, 'c) event_ptr \<Rightarrow> ('p, 'd, 'c, 's) world \<Rightarrow>
      bool \<times> ('p, 'd, 'c) event_ptr \<times> ('p, 'd, 'c, 's) world"
  | On_Void "('p, 'd, 'c) event_ptr \<Rightarrow> ('p, 'd, 'c, 's) world \<Rightarrow>
      ('p, 'd, 'c) event_ptr \<times> ('p, 'd, 'c, 's) world"

text \<open>The overload a handler has for \<open>event_ptr\<close> of a type, if \<open>h.on(ev)\<close> is well-formed.\<close>

type_synonym ('p, 'd, 'c, 's) handler = "string \<Rightarrow> ('p, 'd, 'c, 's) on option"

definition call_on_if_exists ::
  "('p, 'd, 'c, 's) handler \<Rightarrow> string \<Rightarrow> ('p, 'd, 'c) event_ptr \<Rightarrow> ('p, 'd, 'c, 's) world \<Rightarrow>
   bool \<times> ('p, 'd, 'c) event_ptr \<times> ('p, 'd, 'c, 's) world" where
  "call_on_if_exists h e ev w =
     (case h e of
        Some (On_Bool f) \<Rightarrow> f ev w
      | Some (On_Void f) \<Rightarrow> (True, f ev w)
      | None \<Rightarrow> (True, ev, w))"

section \<open>Dispatch\<close>

text \<open>The call for one type of the hierarchy: on the event itself for its own type, on a
  non-owning view for a base, whose destruction ends the block. A view that comes back
  null takes the event with it.\<close>

definition call_as ::
  "('p, 'd, 'c, 's) handler \<Rightarrow> string \<Rightarrow> string \<Rightarrow> ('p, 'd, 'c) event_ptr \<Rightarrow> ('p, 'd, 'c, 's) world \<Rightarrow>
   bool \<times> ('p, 'd, 'c) event_ptr \<times> ('p, 'd, 'c, 's) world" where
  "call_as h event current ev w =
     (if current = event then call_on_if_exists h current ev w
      else
        let (proceed, base_view, w1) = call_on_if_exists h current (event_ptr_view ev) w;
            (proceed, ev) = (if event_ptr_bool base_view then (proceed, ev)
                             else (False, snd (event_ptr_release ev)))
        in (proceed, ev, w1\<lparr>world_calls := world_calls w1 @ event_ptr_dtor base_view\<rparr>))"

fun traverse_and_call ::
  "('p, 'd, 'c, 's) handler \<Rightarrow> string \<Rightarrow> event_type \<Rightarrow> ('p, 'd, 'c) event_ptr \<Rightarrow>
   ('p, 'd, 'c, 's) world \<Rightarrow> bool \<times> ('p, 'd, 'c) event_ptr \<times> ('p, 'd, 'c, 's) world"
  and traverse_bases ::
  "('p, 'd, 'c, 's) handler \<Rightarrow> string \<Rightarrow> event_type list \<Rightarrow> ('p, 'd, 'c) event_ptr \<Rightarrow>
   ('p, 'd, 'c, 's) world \<Rightarrow> bool \<times> ('p, 'd, 'c) event_ptr \<times> ('p, 'd, 'c, 's) world"
where
  "traverse_and_call h event (Event_Type current bases) ev w =
     (let (proceed, ev1, w1) = traverse_bases h event bases ev w;
          (proceed, ev2, w2) =
            (if proceed \<and> event_ptr_bool ev1 then call_as h event current ev1 w1
             else (proceed, ev1, w1))
      in (proceed \<and> event_ptr_bool ev2, ev2, w2))"
| "traverse_bases h event [] ev w = (True, ev, w)"
| "traverse_bases h event (b # bs) ev w =
     (let (r, ev1, w1) = traverse_and_call h event b ev w
      in if r \<and> event_ptr_bool ev1 then traverse_bases h event bs ev1 w1 else (False, ev1, w1))"

definition inner_dispatch where
  "inner_dispatch h t ev w = traverse_and_call h (type_name t) t ev w"

fun dispatch_fold ::
  "('p, 'd, 'c, 's) handler list \<Rightarrow> event_type \<Rightarrow> ('p, 'd, 'c) event_ptr \<Rightarrow>
   ('p, 'd, 'c, 's) world \<Rightarrow> ('p, 'd, 'c) event_ptr \<times> ('p, 'd, 'c, 's) world" where
  "dispatch_fold [] t ev w = (ev, w)"
| "dispatch_fold (h # hs) t ev w =
     (let (r, ev1, w1) = inner_dispatch h t ev w
      in if r then dispatch_fold hs t ev1 w1 else (ev1, w1))"

definition dispatch ::
  "('p, 'd, 'c, 's) handler list \<Rightarrow> event_type \<Rightarrow> ('p, 'd, 'c) event_ptr \<Rightarrow>
   ('p, 'd, 'c, 's) world \<Rightarrow> ('p, 'd, 'c) event_ptr \<times> ('p, 'd, 'c, 's) world" where
  "dispatch hs t ev w = (if \<not> event_ptr_bool ev then (ev, w) else dispatch_fold hs t ev w)"

text \<open>The overload for an rvalue: the event is moved into a local, which is destroyed at the end.\<close>

definition dispatch_rvalue ::
  "('p, 'd, 'c, 's) handler list \<Rightarrow> event_type \<Rightarrow> ('p, 'd, 'c) event_ptr \<Rightarrow>
   ('p, 'd, 'c, 's) world \<Rightarrow> ('p, 'd, 'c) event_ptr \<times> ('p, 'd, 'c, 's) world" where
  "dispatch_rvalue hs t ev w =
     (let (local_ev, ev) = event_ptr_move ev;
          (local_ev, w1) = dispatch hs t local_ev w
      in (ev, w1\<lparr>world_calls := world_calls w1 @ event_ptr_dtor local_ev\<rparr>))"

text \<open>\<open>bound_sink::handle\<close> takes its event by value, so it destroys what is left of it.\<close>

definition bound_sink_handle ::
  "('p, 'd, 'c, 's) handler list \<Rightarrow> event_type \<Rightarrow> ('p, 'd, 'c) event_ptr \<Rightarrow>
   ('p, 'd, 'c, 's) world \<Rightarrow> ('p, 'd, 'c, 's) world" where
  "bound_sink_handle pipe t ev w =
     (let (ev, w1) = (if event_ptr_bool ev then dispatch pipe t ev w else (ev, w))
      in w1\<lparr>world_calls := world_calls w1 @ event_ptr_dtor ev\<rparr>)"

section \<open>The order of the calls\<close>

text \<open>Bases before the type that extends them, left to right; and the calls made one after
  another until one stops the event or takes it.\<close>

fun call_order :: "event_type \<Rightarrow> string list" where
  "call_order (Event_Type n bs) = concat (map call_order bs) @ [n]"

fun run_calls ::
  "string \<Rightarrow> (('p, 'd, 'c, 's) handler \<times> string) list \<Rightarrow> ('p, 'd, 'c) event_ptr \<Rightarrow>
   ('p, 'd, 'c, 's) world \<Rightarrow> bool \<times> ('p, 'd, 'c) event_ptr \<times> ('p, 'd, 'c, 's) world" where
  "run_calls event [] ev w = (True, ev, w)"
| "run_calls event ((h, n) # cs) ev w =
     (let (r, ev1, w1) = call_as h event n ev w
      in if r \<and> event_ptr_bool ev1 then run_calls event cs ev1 w1 else (False, ev1, w1))"

lemma run_calls_alive:
  "run_calls e cs ev w = (True, ev', w') \<Longrightarrow> event_ptr_bool ev \<Longrightarrow> event_ptr_bool ev'"
  by (induction e cs ev w rule: run_calls.induct) (auto split: prod.splits if_splits)

lemma run_calls_append:
  "run_calls e (cs @ ds) ev w =
     (let (r, ev1, w1) = run_calls e cs ev w in if r then run_calls e ds ev1 w1 else (False, ev1, w1))"
  by (induction e cs ev w rule: run_calls.induct) (auto split: prod.splits)

lemma traverse_run_calls:
  "event_ptr_bool ev \<Longrightarrow>
     traverse_and_call h e t ev w = run_calls e (map (Pair h) (call_order t)) ev w"
  "event_ptr_bool ev \<Longrightarrow>
     traverse_bases h e ts ev w = run_calls e (map (Pair h) (concat (map call_order ts))) ev w"
proof (induction h e t ev w and h e ts ev w rule: traverse_and_call_traverse_bases.induct)
  case (1 h e n bs ev w)
  obtain r ev1 w1 where bs: "run_calls e (map (Pair h) (concat (map call_order bs))) ev w = (r, ev1, w1)"
    by (cases "run_calls e (map (Pair h) (concat (map call_order bs))) ev w")
  then have "r \<Longrightarrow> event_ptr_bool ev1"
    using run_calls_alive 1(2) by (metis (full_types))
  with bs 1 show ?case
    by (cases "call_as h e n ev1 w1") (auto simp: run_calls_append split_beta)
next
  case (3 h e b bs ev w)
  obtain r ev1 w1 where b: "run_calls e (map (Pair h) (call_order b)) ev w = (r, ev1, w1)"
    by (cases "run_calls e (map (Pair h) (call_order b)) ev w")
  then have "r \<Longrightarrow> event_ptr_bool ev1"
    using run_calls_alive 3(3) by (metis (full_types))
  with b 3 show ?case
    by (auto simp: run_calls_append)
qed simp_all

definition pipeline_calls where
  "pipeline_calls hs t = concat (map (\<lambda>h. map (Pair h) (call_order t)) hs)"

lemma dispatch_fold_run_calls:
  "event_ptr_bool ev \<Longrightarrow>
     dispatch_fold hs t ev w = snd (run_calls (type_name t) (pipeline_calls hs t) ev w)"
proof (induction hs t ev w rule: dispatch_fold.induct)
  case (2 h hs t ev w)
  obtain r ev1 w1 where h: "run_calls (type_name t) (map (Pair h) (call_order t)) ev w = (r, ev1, w1)"
    by (cases "run_calls (type_name t) (map (Pair h) (call_order t)) ev w")
  then have "r \<Longrightarrow> event_ptr_bool ev1"
    using run_calls_alive 2(2) by (metis (full_types))
  with h 2 show ?case
    by (auto simp: inner_dispatch_def traverse_run_calls pipeline_calls_def run_calls_append)
qed (simp add: pipeline_calls_def)

section \<open>Ownership through the pipeline\<close>

text \<open>Where a cell can be: in the event, given to a deleter, or kept by the program (\<open>held\<close>).\<close>

definition opt_cell :: "'p option \<Rightarrow> 'p multiset" where
  "opt_cell q = (case q of None \<Rightarrow> {#} | Some p \<Rightarrow> {#p#})"

definition tally ::
  "('s \<Rightarrow> 'p multiset) \<Rightarrow> ('p, 'd, 'c) event_ptr \<Rightarrow> ('p, 'd, 'c, 's) world \<Rightarrow> 'p multiset" where
  "tally held ev w = opt_cell (ep_ptr ev) + mset (called_cells (world_calls w)) + held (world_user w)"

definition owning :: "('p, 'd, 'c) event_ptr \<Rightarrow> bool" where
  "owning ev \<longleftrightarrow> ep_ptr ev = None \<or> ep_deleter ev \<noteq> None"

text \<open>What a handler owes the pipeline: for the event's own type it keeps the tally and leaves an
  owning pointer; for a base it is given a view, and leaves it as it is or takes the event.\<close>

definition linear_handler ::
  "('s \<Rightarrow> 'p multiset) \<Rightarrow> string \<Rightarrow> ('p, 'd, 'c, 's) handler \<Rightarrow> bool" where
  "linear_handler held e h \<longleftrightarrow>
     (\<forall>n ev w r ev' w'. event_ptr_bool ev \<longrightarrow> call_on_if_exists h n ev w = (r, ev', w') \<longrightarrow>
        (n = e \<longrightarrow> ep_deleter ev \<noteq> None \<longrightarrow> tally held ev' w' = tally held ev w \<and> owning ev') \<and>
        (n \<noteq> e \<longrightarrow> ep_deleter ev = None \<longrightarrow>
           tally held ev' w' = tally held ev w \<and> (ev' = ev \<or> ep_ptr ev' = None)))"

lemma call_as_conserves:
  assumes "linear_handler held e h" "event_ptr_bool ev" "owning ev" "call_as h e n ev w = (r, ev', w')"
  shows "tally held ev' w' = tally held ev w \<and> owning ev'"
proof (cases "n = e")
  case True
  with assms have "call_on_if_exists h e ev w = (r, ev', w')" "ep_deleter ev \<noteq> None"
    by (auto simp: call_as_def owning_def event_ptr_bool_def)
  with assms(1,2) show ?thesis unfolding linear_handler_def by blast
next
  case False
  obtain r1 v w1 where call: "call_on_if_exists h n (event_ptr_view ev) w = (r1, v, w1)"
    by (cases "call_on_if_exists h n (event_ptr_view ev) w")
  have "event_ptr_bool (event_ptr_view ev)" "ep_deleter (event_ptr_view ev) = None"
    using assms(2) by (simp_all add: event_ptr_view_def event_ptr_bool_def)
  with assms(1) False call
  have "tally held v w1 = tally held (event_ptr_view ev) w \<and> (v = event_ptr_view ev \<or> ep_ptr v = None)"
    unfolding linear_handler_def by meson
  with False call assms(3,4) show ?thesis
    by (auto simp: call_as_def tally_def owning_def event_ptr_defs called_cells_def opt_cell_def
        split: if_splits)
qed

lemma run_calls_conserves:
  "run_calls e cs ev w = (r, ev', w') \<Longrightarrow> event_ptr_bool ev \<Longrightarrow> owning ev \<Longrightarrow>
   \<forall>(h, n) \<in> set cs. linear_handler held e h \<Longrightarrow>
   tally held ev' w' = tally held ev w \<and> owning ev'"
proof (induction e cs ev w rule: run_calls.induct)
  case (2 e h n cs ev w)
  obtain r1 ev1 w1 where call: "call_as h e n ev w = (r1, ev1, w1)"
    by (cases "call_as h e n ev w")
  have "tally held ev1 w1 = tally held ev w \<and> owning ev1"
    using call_as_conserves [OF _ "2.prems"(2,3) call, of held] "2.prems"(4) by auto
  with 2 call show ?case by (auto split: if_splits)
qed simp

lemma dispatch_keeps_tally:
  assumes "\<forall>h \<in> set hs. linear_handler held (type_name t) h" "owning ev" "dispatch hs t ev w = (ev', w')"
  shows "tally held ev' w' = tally held ev w \<and> owning ev'"
proof (cases "event_ptr_bool ev")
  case True
  obtain r where "run_calls (type_name t) (pipeline_calls hs t) ev w = (r, ev', w')"
    using assms(3) True dispatch_fold_run_calls [of ev hs t w]
    by (metis dispatch_def prod.collapse)
  moreover have "\<forall>(h, n) \<in> set (pipeline_calls hs t). linear_handler held (type_name t) h"
    using assms(1) by (auto simp: pipeline_calls_def)
  ultimately show ?thesis using run_calls_conserves True assms(2) by blast
qed (use assms in \<open>simp add: dispatch_def\<close>)

section \<open>Properties\<close>

text \<open>C16: Dispatching makes the calls of all handlers for all types of the event's hierarchy in one
  fixed order: handler by handler, for each the bases before the types that extend them, until
  an \<open>on\<close> returns false or leaves no event; a null event reaches no handler.\<close>

theorem dispatch_order:
  "dispatch hs t ev w =
     (if event_ptr_bool ev then snd (run_calls (type_name t) (pipeline_calls hs t) ev w) else (ev, w))"
  by (simp add: dispatch_def dispatch_fold_run_calls)

text \<open>C22: Dispatching an event as a temporary, through handlers that keep account of the cells they are
  given, neither loses nor duplicates a cell: each cell is afterwards given to its deleter once or
  kept by a handler, and the source pointer is null.\<close>

theorem dispatch_rvalue_conserves:
  assumes "\<forall>h \<in> set hs. linear_handler held (type_name t) h" "owning ev"
    "dispatch_rvalue hs t ev w = (ev', w')"
  shows "event_ptr_is_null ev' \<and>
    mset (called_cells (world_calls w')) + held (world_user w') = tally held ev w"
proof -
  obtain l l' where move: "event_ptr_move ev = (l, l')" by (cases "event_ptr_move ev")
  obtain l1 w1 where disp: "dispatch hs t l w = (l1, w1)" by (cases "dispatch hs t l w")
  have l: "owning l" "tally held l w = tally held ev w" "ep_ptr l' = None"
    using move assms(2) by (auto simp: event_ptr_move_def owning_def tally_def)
  have keep: "tally held l1 w1 = tally held ev w" "owning l1"
    using dispatch_keeps_tally [OF assms(1) l(1) disp] l(2) by simp_all
  have "event_ptr_dtor l1 = (case ep_ptr l1 of None \<Rightarrow> [] | Some p \<Rightarrow> [(the (ep_deleter l1), ep_pool_ctx l1, p)])"
    using keep(2) by (auto simp: event_ptr_defs owning_def split: option.split)
  then have "mset (called_cells (event_ptr_dtor l1)) = opt_cell (ep_ptr l1)"
    by (simp add: opt_cell_def called_cells_def split: option.split)
  moreover have "ev' = l'" "w' = w1\<lparr>world_calls := world_calls w1 @ event_ptr_dtor l1\<rparr>"
    using assms(3) by (simp_all add: dispatch_rvalue_def move disp)
  ultimately show ?thesis
    using keep(1) l(3) by (simp add: tally_def event_ptr_is_null_def add.assoc add.commute)
qed

text \<open>A gate that stops orders above a limit, and an engine that counts the others.\<close>

definition gate_handler :: "string \<Rightarrow> (nat \<Rightarrow> bool) \<Rightarrow> (nat, 'd, 'c, 's) handler" where
  "gate_handler n ok = (\<lambda>e. if e = n then Some (On_Bool (\<lambda>ev w. (ok (the (ep_ptr ev)), ev, w))) else None)"

definition count_handler :: "string \<Rightarrow> (nat, 'd, 'c, nat) handler" where
  "count_handler n = (\<lambda>e. if e = n then Some (On_Void (\<lambda>ev w. (ev, w\<lparr>world_user := Suc (world_user w)\<rparr>))) else None)"

lemma gate_linear: "linear_handler (\<lambda>_. {#}) e (gate_handler n ok)"
  by (auto simp: linear_handler_def gate_handler_def call_on_if_exists_def owning_def)

lemma count_linear: "linear_handler (\<lambda>_. {#}) e (count_handler n)"
  by (auto simp: linear_handler_def count_handler_def call_on_if_exists_def owning_def tally_def)

abbreviation order_type :: event_type where
  "order_type \<equiv> Event_Type ''order'' [Event_Type ''base'' []]"

theorem dispatch_rvalue_conserves_witness:
  "called_cells (world_calls (snd (dispatch_rvalue [gate_handler ''base'' (\<lambda>q. q < 100), count_handler ''order'']
      order_type (event_ptr_of (Some 200) (Some Release_To_Pool) (Some ())) \<lparr>world_calls = [], world_user = 0\<rparr>))) = [200]"
proof -
  let ?hs = "[gate_handler ''base'' (\<lambda>q. q < 100), count_handler ''order''] :: (nat, deleter, unit, nat) handler list"
  let ?ev = "event_ptr_of (Some 200) (Some Release_To_Pool) (Some ())"
  let ?w = "\<lparr>world_calls = [], world_user = 0\<rparr>"
  obtain ev' w' where r: "dispatch_rvalue ?hs order_type ?ev ?w = (ev', w')"
    by (cases "dispatch_rvalue ?hs order_type ?ev ?w")
  have "mset (called_cells (world_calls w')) = {#200#}"
    using dispatch_rvalue_conserves [OF _ _ r, of "\<lambda>_. {#}"]
    by (simp add: gate_linear count_linear owning_def event_ptr_of_def tally_def opt_cell_def called_cells_def)
  then show ?thesis by (simp add: r)
qed



end
