(* ===== verification/Round_Robin.thy ===== *)
theory Round_Robin
  imports Conduit "HOL-Library.Sublist"
begin

text \<open>
  \<open>round_robin_switch\<close> and \<open>round_robin_poller\<close> of \<open>include/conduit/core.hpp\<close>: fan-out to and
  fan-in from an array of conduit pointers. The conduits live in a store indexed by their
  address, so the same conduit may be bound twice. Indices are \<open>size_t\<close>, and \<open>next_ + i\<close>
  wraps at \<open>2 ^ 64\<close>.
\<close>

section \<open>The switch and the poller\<close>

type_synonym 'p conduits = "nat \<Rightarrow> 'p conduit"

record round_robin =
  tracks :: "nat option list"
  next_track :: nat

definition round_robin_init :: "nat \<Rightarrow> round_robin" where
  "round_robin_init n = \<lparr>tracks = replicate n None, next_track = 0\<rparr>"

definition bind_track :: "nat \<Rightarrow> nat \<Rightarrow> round_robin \<Rightarrow> round_robin" where
  "bind_track index track s =
     (if index < length (tracks s) then s\<lparr>tracks := (tracks s)[index := Some track]\<rparr> else s)"

function switch_loop ::
  "nat \<Rightarrow> round_robin \<Rightarrow> 'p conduits \<Rightarrow> ('p, 'd, 'c) event_ptr \<Rightarrow>
   round_robin \<times> 'p conduits \<times> ('p, 'd, 'c) event_ptr" where
  "switch_loop i s qs ev =
     (if i < length (tracks s) then
        let idx = size_add (next_track s) i mod length (tracks s) in
        case tracks s ! idx of
          Some t \<Rightarrow>
            let (pushed, q) = conduit_push (event_ptr_get ev) (qs t) in
            if pushed
            then (s\<lparr>next_track := size_add idx 1 mod length (tracks s)\<rparr>, qs(t := q), snd (event_ptr_release ev))
            else switch_loop (i + 1) s (qs(t := q)) ev
        | None \<Rightarrow> switch_loop (i + 1) s qs ev
      else (s, qs, ev))"
  by pat_completeness auto
termination
  by (relation "measure (\<lambda>(i, s, _). length (tracks s) - i)") auto

definition switch_on ::
  "round_robin \<Rightarrow> 'p conduits \<Rightarrow> ('p, 'd, 'c) event_ptr \<Rightarrow>
   round_robin \<times> 'p conduits \<times> ('p, 'd, 'c) event_ptr" where
  "switch_on s qs ev = (if \<not> event_ptr_bool ev then (s, qs, ev) else switch_loop 0 s qs ev)"

text \<open>A pointer popped from a track but null is dropped, and the loop goes on to the next track.\<close>

function poll_loop ::
  "'c \<Rightarrow> nat \<Rightarrow> round_robin \<Rightarrow> 'p conduits \<Rightarrow>
   round_robin \<times> 'p conduits \<times> ('p, deleter, 'c) event_ptr" where
  "poll_loop p i s qs =
     (if i < length (tracks s) then
        let idx = size_add (next_track s) i mod length (tracks s) in
        case tracks s ! idx of
          Some t \<Rightarrow>
            let (ev, q) = conduit_pop p (qs t) in
            if event_ptr_bool ev
            then (s\<lparr>next_track := size_add idx 1 mod length (tracks s)\<rparr>, qs(t := q), ev)
            else poll_loop p (i + 1) s (qs(t := q))
        | None \<Rightarrow> poll_loop p (i + 1) s qs
      else (s, qs, event_ptr_default))"
  by pat_completeness auto
termination
  by (relation "measure (\<lambda>(p, i, s, _). length (tracks s) - i)") auto

definition poll ::
  "'c \<Rightarrow> round_robin \<Rightarrow> 'p conduits \<Rightarrow> round_robin \<times> 'p conduits \<times> ('p, deleter, 'c) event_ptr" where
  "poll p s qs = poll_loop p 0 s qs"

declare switch_loop.simps [simp del] poll_loop.simps [simp del]

section \<open>Both serve the first ready track in cyclic order\<close>

definition rr_inv :: "round_robin \<Rightarrow> 'p conduits \<Rightarrow> bool" where
  "rr_inv s qs \<longleftrightarrow>
     length (tracks s) < 2 ^ 63 \<and> (tracks s \<noteq> [] \<longrightarrow> next_track s < length (tracks s)) \<and>
     (\<forall>t. Some t \<in> set (tracks s) \<longrightarrow> conduit_inv (qs t))"

definition cyclic_order :: "round_robin \<Rightarrow> nat \<Rightarrow> nat list" where
  "cyclic_order s i = map (\<lambda>j. (next_track s + j) mod length (tracks s)) [i..<length (tracks s)]"

definition has_room :: "round_robin \<Rightarrow> 'p conduits \<Rightarrow> nat \<Rightarrow> bool" where
  "has_room s qs k =
     (case tracks s ! k of None \<Rightarrow> False | Some t \<Rightarrow> length (conduit_items (qs t)) < conduit_room (qs t))"

definition has_event :: "round_robin \<Rightarrow> 'p conduits \<Rightarrow> nat \<Rightarrow> bool" where
  "has_event s qs k = (case tracks s ! k of None \<Rightarrow> False | Some t \<Rightarrow> conduit_items (qs t) \<noteq> [])"

lemma rr_inv_index:
  assumes "rr_inv s qs" "i < length (tracks s)"
  shows "size_add (next_track s) i mod length (tracks s) = (next_track s + i) mod length (tracks s)"
proof -
  have "next_track s < length (tracks s)" using assms by (cases "tracks s") (auto simp: rr_inv_def)
  then have "next_track s + i < 2 ^ 64" using assms by (simp add: rr_inv_def)
  then show ?thesis by (simp add: size_add_below)
qed

lemma rr_inv_track:
  "rr_inv s qs \<Longrightarrow> k < length (tracks s) \<Longrightarrow> tracks s ! k = Some t \<Longrightarrow> conduit_inv (qs t)"
  by (metis nth_mem rr_inv_def)

lemma rr_inv_next: "rr_inv s qs \<Longrightarrow> k < length (tracks s) \<Longrightarrow> size_add k 1 mod length (tracks s) = Suc k mod length (tracks s)"
  by (simp add: rr_inv_def size_add_below)

lemma cyclic_order_unfold:
  "cyclic_order s i =
     (if i < length (tracks s) then (next_track s + i) mod length (tracks s) # cyclic_order s (i + 1) else [])"
  by (simp add: cyclic_order_def upt_conv_Cons)

lemma switch_loop_spec:
  assumes "rr_inv s qs" "ep_ptr ev = Some x"
  shows "switch_loop i s qs ev =
    (case find (has_room s qs) (cyclic_order s i) of
       None \<Rightarrow> (s, qs, ev)
     | Some k \<Rightarrow>
         let t = the (tracks s ! k)
         in (s\<lparr>next_track := Suc k mod length (tracks s)\<rparr>, qs(t := snd (push_event x (qs t))),
             snd (event_ptr_release ev)))"
  using assms
proof (induction i s qs ev rule: switch_loop.induct)
  case (1 i s qs ev)
  let ?k = "(next_track s + i) mod length (tracks s)"
  show ?case
  proof (cases "i < length (tracks s)")
    case i: True
    then have k: "?k < length (tracks s)" by (cases "tracks s") auto
    note idx = rr_inv_index [OF "1.prems"(1) i]
    show ?thesis
    proof (cases "tracks s ! ?k")
      case None
      then have "switch_loop i s qs ev = switch_loop (i + 1) s qs ev"
        using i by (subst switch_loop.simps) (simp add: idx)
      then show ?thesis
        using None i "1.IH"(1) [OF i refl] "1.prems" cyclic_order_unfold [of s i]
        by (simp add: idx has_room_def)
    next
      case (Some t)
      have inv: "conduit_inv (qs t)" using rr_inv_track [OF "1.prems"(1) k Some] .
      show ?thesis
      proof (cases "has_room s qs ?k")
        case room: True
        then have "fst (push_event x (qs t))"
          using cq.push_room [OF inv] Some by (simp add: has_room_def)
        with Some i room "1.prems" show ?thesis
          using rr_inv_next [OF "1.prems"(1) k] cyclic_order_unfold [of s i]
          by (subst switch_loop.simps) (simp add: idx push_event_def event_ptr_get_def split_beta)
      next
        case full: False
        then have "push_event x (qs t) = (False, qs t)"
          using cq.push_full [OF inv] cq.bounded [OF inv] Some by (simp add: has_room_def)
        then have p: "conduit_push (event_ptr_get ev) (qs t) = (False, qs t)"
          using "1.prems"(2) by (simp add: push_event_def event_ptr_get_def)
        then have "switch_loop i s qs ev = switch_loop (i + 1) s qs ev"
          using i Some by (subst switch_loop.simps) (simp add: idx)
        then show ?thesis
          using full i "1.IH"(2) [OF i refl _ p [symmetric] refl, unfolded fun_upd_triv] "1.prems" Some cyclic_order_unfold [of s i]
          by (simp add: idx)
      qed
    qed
  next
    case False
    then show ?thesis
      by (subst switch_loop.simps) (simp add: cyclic_order_unfold [of s i])
  qed
qed

lemma poll_loop_spec:
  assumes "rr_inv s qs"
  shows "poll_loop p i s qs =
    (case find (has_event s qs) (cyclic_order s i) of
       None \<Rightarrow> (s, qs, event_ptr_default)
     | Some k \<Rightarrow>
         let t = the (tracks s ! k)
         in (s\<lparr>next_track := Suc k mod length (tracks s)\<rparr>, qs(t := snd (pop_event p (qs t))),
             event_ptr_of (Some (hd (conduit_items (qs t)))) (Some Release_To_Pool) (Some p)))"
  using assms
proof (induction p i s qs rule: poll_loop.induct)
  case (1 p i s qs)
  let ?k = "(next_track s + i) mod length (tracks s)"
  show ?case
  proof (cases "i < length (tracks s)")
    case i: True
    then have k: "?k < length (tracks s)" by (cases "tracks s") auto
    note idx = rr_inv_index [OF "1.prems" i]
    show ?thesis
    proof (cases "tracks s ! ?k")
      case None
      then have "poll_loop p i s qs = poll_loop p (i + 1) s qs"
        using i by (subst poll_loop.simps) (simp add: idx)
      then show ?thesis
        using None i "1.IH"(1) [OF i refl] "1.prems" cyclic_order_unfold [of s i]
        by (simp add: idx has_event_def)
    next
      case (Some t)
      have inv: "conduit_inv (qs t)" using rr_inv_track [OF "1.prems" k Some] .
      show ?thesis
      proof (cases "conduit_items (qs t)")
        case (Cons y ys)
        then obtain zs where zs: "conduit_ptrs (qs t) = Some y # zs"
          using conduit_items_Cons [OF inv Cons] by blast
        obtain q where "conduit_pop p (qs t) = (event_ptr_of (Some y) (Some Release_To_Pool) (Some p), q)"
          using conduit_pop_some [OF _ zs, of p] inv by (auto simp: conduit_inv_def)
        with Some i Cons show ?thesis
          using rr_inv_next [OF "1.prems" k] cyclic_order_unfold [of s i]
          by (subst poll_loop.simps)
             (simp add: idx has_event_def pop_event_def event_ptr_bool_def event_ptr_of_def)
      next
        case Nil
        then have p: "conduit_pop p (qs t) = (event_ptr_default, qs t)"
          using conduit_pop_empty inv by (simp add: conduit_inv_def conduit_items_def)
        have b: "\<not> event_ptr_bool (event_ptr_default :: ('a, deleter, 'b) event_ptr)"
          by (simp add: event_ptr_defs)
        have "poll_loop p i s qs = poll_loop p (i + 1) s qs"
          using i Some p by (subst poll_loop.simps) (simp add: idx b)
        then show ?thesis
          using Nil i "1.IH"(2) [OF i refl _ refl p [symmetric] b, unfolded fun_upd_triv] "1.prems" Some
            cyclic_order_unfold [of s i]
          by (simp add: idx has_event_def)
      qed
    qed
  next
    case False
    then show ?thesis
      by (subst poll_loop.simps) (simp add: cyclic_order_unfold [of s i])
  qed
qed

section \<open>Fairness\<close>

lemma ring_dist_shift:
  assumes "i \<le> d" "d < n"
  shows "ring_dist n ((r + i) mod n) ((r + d) mod n) = d - i"
proof -
  let ?e = "ring_dist n ((r + i) mod n) ((r + d) mod n)"
  have "0 < n" using assms by simp
  then have "((r + i) mod n + ?e) mod n = (r + d) mod n" by (simp add: ring_dist_add)
  also have "\<dots> = (r + i + (d - i)) mod n" using assms by simp
  also have "\<dots> = ((r + i) mod n + (d - i)) mod n" by (simp only: mod_add_left_eq)
  finally show ?thesis using ring_index_inj [of ?e n "d - i"] assms \<open>0 < n\<close> ring_dist_less by auto
qed

text \<open>A scan in cyclic order stops at a wanted track or before it, and then gets closer to it.\<close>

lemma find_cyclic:
  assumes "next_track s < length (tracks s)" "k < length (tracks s)" "P k"
  shows "\<exists>k'. find P (cyclic_order s 0) = Some k' \<and> k' < length (tracks s) \<and> P k' \<and>
    (k' = k \<or> ring_dist (length (tracks s)) (Suc k' mod length (tracks s)) k <
       ring_dist (length (tracks s)) (next_track s) k)"
proof -
  let ?n = "length (tracks s)" and ?r = "next_track s"
  let ?d = "ring_dist ?n ?r k"
  have n: "0 < ?n" using assms(1) by linarith
  have d: "?d < ?n" "(?r + ?d) mod ?n = k" using n assms by (simp_all add: ring_dist_less ring_dist_add)
  have "k \<in> set (cyclic_order s 0)" using d by (auto simp: cyclic_order_def intro!: image_eqI [of _ _ ?d])
  then obtain k' where k': "find P (cyclic_order s 0) = Some k'"
    using assms(3) by (metis find_None_iff not_None_eq)
  then obtain j where j: "j < ?n" "P k'" "k' = (?r + j) mod ?n" "\<forall>i<j. \<not> P ((?r + i) mod ?n)"
    by (auto simp: find_Some_iff cyclic_order_def)
  have "j \<le> ?d" using j(4) d(2) assms(3) by (metis not_le)
  moreover have "ring_dist ?n (Suc k' mod ?n) k = ?d - Suc j" if "j < ?d"
    using ring_dist_shift [of "Suc j" ?d ?n ?r] that d by (simp add: j(3) mod_Suc_eq)
  moreover have "k' = k" if "j = ?d" using j(3) d(2) that by simp
  moreover have "k' < ?n" using n j(3) by simp
  ultimately show ?thesis using k' j(2) by (cases "j = ?d") auto
qed

text \<open>Dealing events over the bound tracks: event \<open>i\<close> from now goes to the track whose turn it is, counting from
  the first bound track that the switch meets.\<close>

definition bound_tracks :: "round_robin \<Rightarrow> nat list" where
  "bound_tracks s = filter (\<lambda>k. tracks s ! k \<noteq> None) [0..<length (tracks s)]"

definition turn :: "round_robin \<Rightarrow> nat \<Rightarrow> nat" where
  "turn s i = bound_tracks s !
     ((length (filter (\<lambda>k. k < next_track s) (bound_tracks s)) + i) mod length (bound_tracks s))"

lemma find_hd_filter: "filter Q xs = k # ys \<Longrightarrow> \<forall>x. P x \<longrightarrow> Q x \<Longrightarrow> P k \<Longrightarrow> find P xs = Some k"
  by (induction xs) (auto split: if_splits)

lemma cyclic_order_eq:
  assumes "next_track s < length (tracks s)"
  shows "cyclic_order s 0 = [next_track s..<length (tracks s)] @ [0..<next_track s]"
proof (rule nth_equalityI)
  fix i
  assume "i < length (cyclic_order s 0)"
  then show "cyclic_order s 0 ! i = ([next_track s..<length (tracks s)] @ [0..<next_track s]) ! i"
    using assms
    by (cases "i < length (tracks s) - next_track s") (auto simp: cyclic_order_def nth_append le_mod_geq)
qed (use assms in \<open>simp add: cyclic_order_def\<close>)

lemma turn_bound:
  assumes "bound_tracks s \<noteq> []"
  shows "turn s i < length (tracks s)" "tracks s ! turn s i \<noteq> None"
proof -
  have "turn s i \<in> set (bound_tracks s)" using assms by (simp add: turn_def)
  then show "turn s i < length (tracks s)" "tracks s ! turn s i \<noteq> None" by (simp_all add: bound_tracks_def)
qed

lemma find_turn:
  assumes "bound_tracks s \<noteq> []" "next_track s < length (tracks s)" "has_room s qs (turn s 0)"
  shows "find (has_room s qs) (cyclic_order s 0) = Some (turn s 0)"
proof -
  let ?Q = "\<lambda>k. tracks s ! k \<noteq> None" and ?r = "next_track s"
  let ?A = "filter ?Q [0..<?r]" and ?B = "filter ?Q [?r..<length (tracks s)]"
  have split: "[0..<length (tracks s)] = [0..<?r] @ [?r..<length (tracks s)]"
    using assms(2) upt_add_eq_append [of 0 ?r "length (tracks s) - ?r"] by simp
  have bs: "bound_tracks s = ?A @ ?B" by (simp only: bound_tracks_def split filter_append)
  have before: "filter (\<lambda>k. k < ?r) (bound_tracks s) = ?A"
    unfolding bs filter_append
    using filter_True [of ?A "\<lambda>k. k < ?r"] filter_False [of ?B "\<lambda>k. k < ?r"] by (auto simp del: filter_filter)
  have "turn s 0 = hd (?B @ ?A)"
    using assms(1) unfolding turn_def before by (cases "?B = []") (auto simp: bs nth_append hd_conv_nth)
  moreover have "?B @ ?A \<noteq> []" using assms(1) bs by auto
  ultimately have "filter ?Q (cyclic_order s 0) = turn s 0 # tl (?B @ ?A)"
    by (simp only: cyclic_order_eq [OF assms(2)] filter_append list.collapse not_False_eq_True)
  then show ?thesis using find_hd_filter assms(3) by (force simp: has_room_def split: option.splits)
qed

lemma filter_upto_nth:
  assumes "sorted_wrt (<) (bs :: nat list)" "i < length bs"
  shows "filter (\<lambda>j. j < Suc (bs ! i)) bs = take (Suc i) bs"
  using assms
proof (induction bs arbitrary: i)
  case (Cons b bs)
  show ?case
  proof (cases i)
    case 0
    then show ?thesis using Cons.prems(1) by (auto simp: filter_empty_conv not_less_eq)
  next
    case (Suc j)
    then have "b < bs ! j" using Cons.prems by auto
    then show ?thesis using Suc Cons by (auto intro: less_SucI)
  qed
qed simp

lemma turn_next:
  assumes "bound_tracks s \<noteq> []"
  shows "turn (s\<lparr>next_track := Suc (turn s 0) mod length (tracks s)\<rparr>) i = turn s (Suc i)"
proof -
  define bs where "bs = bound_tracks s"
  define p where "p = length (filter (\<lambda>k. k < next_track s) bs)"
  let ?m = "length bs" and ?n = "length (tracks s)" and ?r = "Suc (turn s 0) mod length (tracks s)"
  define i0 where "i0 = p mod ?m"
  have i0: "i0 < ?m" "turn s 0 = bs ! i0" using assms by (simp_all add: i0_def bs_def p_def turn_def)
  have sorted: "sorted_wrt (<) bs" unfolding bs_def bound_tracks_def by (intro sorted_wrt_filter) simp
  have below: "x < ?n" if "x \<in> set bs" for x using that by (simp add: bs_def bound_tracks_def)
  have "length (filter (\<lambda>k. k < ?r) bs) mod ?m = Suc i0 mod ?m"
  proof (cases "Suc (bs ! i0) < ?n")
    case True
    then show ?thesis using filter_upto_nth [OF sorted i0(1)] i0 by simp
  next
    case False
    then have "Suc (bs ! i0) = ?n" using below [of "bs ! i0"] i0(1) by simp
    moreover have "\<not> Suc i0 < ?m"
      using sorted_wrt_nth_less [OF sorted, of i0 "Suc i0"] below [of "bs ! Suc i0"] calculation by auto
    then have "Suc i0 = ?m" using i0(1) by linarith
    ultimately show ?thesis using i0(2) by simp
  qed
  then have "(length (filter (\<lambda>k. k < ?r) bs) + i) mod ?m = (Suc i0 + i) mod ?m"
    by (rule mod_add_cong) simp
  also have "\<dots> = (p + Suc i) mod ?m" using mod_add_left_eq [of p ?m "Suc i"] by (simp add: i0_def)
  finally have "(length (filter (\<lambda>k. k < ?r) bs) + i) mod ?m = (p + Suc i) mod ?m" .
  moreover have "bound_tracks (s\<lparr>next_track := r\<rparr>) = bs" for r by (simp add: bs_def bound_tracks_def)
  ultimately show ?thesis by (simp add: turn_def p_def flip: bs_def)
qed

fun switch_run :: "round_robin \<Rightarrow> 'p conduits \<Rightarrow> ('p, 'd, 'c) event_ptr list \<Rightarrow> round_robin \<times> 'p conduits" where
  "switch_run s qs [] = (s, qs)"
| "switch_run s qs (ev # evs) = (let (s1, qs1, _) = switch_on s qs ev in switch_run s1 qs1 evs)"

text \<open>With room at its next track the switch takes that one.\<close>

lemma switch_on_room:
  assumes "rr_inv s qs" "ep_ptr ev = Some x" "tracks s \<noteq> []" "has_room s qs (next_track s)"
  shows "\<exists>qs'. switch_on s qs ev =
      (s\<lparr>next_track := Suc (next_track s) mod length (tracks s)\<rparr>, qs', snd (event_ptr_release ev)) \<and>
    qs' = qs(the (tracks s ! next_track s) := snd (push_event x (qs (the (tracks s ! next_track s)))))"
proof -
  have "next_track s < length (tracks s)" using assms(1,3) by (simp add: rr_inv_def)
  then have "find (has_room s qs) (cyclic_order s 0) = Some (next_track s)"
    using assms(3,4) cyclic_order_unfold [of s 0] by simp
  then show ?thesis
    using assms(2) switch_loop_spec [OF assms(1,2), of 0] by (simp add: switch_on_def event_ptr_bool_def Let_def)
qed

lemma switch_on_turn:
  assumes "rr_inv s qs" "ep_ptr ev = Some x" "bound_tracks s \<noteq> []" "tracks s ! turn s 0 = Some t"
    "length (conduit_items (qs t)) < conduit_room (qs t)"
  shows "switch_on s qs ev =
    (s\<lparr>next_track := Suc (turn s 0) mod length (tracks s)\<rparr>, qs(t := snd (push_event x (qs t))),
     snd (event_ptr_release ev))"
proof -
  have "tracks s \<noteq> []" using assms(3) by (auto simp: bound_tracks_def)
  then have "next_track s < length (tracks s)" using assms(1) by (simp add: rr_inv_def)
  then have "find (has_room s qs) (cyclic_order s 0) = Some (turn s 0)"
    using find_turn [OF assms(3)] assms(4,5) by (simp add: has_room_def)
  then show ?thesis
    using assms(2,4) switch_loop_spec [OF assms(1,2), of 0] by (simp add: switch_on_def event_ptr_bool_def)
qed

lemma switch_run_deals:
  assumes "rr_inv s qs" "bound_tracks s \<noteq> []" "map ep_ptr evs = map Some xs"
    and "\<forall>t. Some t \<in> set (tracks s) \<longrightarrow>
      length (conduit_items (qs t)) + length (nths xs {i. tracks s ! turn s i = Some t}) \<le> conduit_room (qs t)"
  shows "conduit_items (snd (switch_run s qs evs) t) =
    conduit_items (qs t) @ nths xs {i. tracks s ! turn s i = Some t}"
  using assms
proof (induction evs arbitrary: s qs xs)
  case Nil
  then show ?case by simp
next
  case (Cons ev evs)
  then obtain x xs' where xs: "xs = x # xs'" "ep_ptr ev = Some x" "map ep_ptr evs = map Some xs'"
    by (cases xs) auto
  let ?s = "s\<lparr>next_track := Suc (turn s 0) mod length (tracks s)\<rparr>"
  obtain u where u: "tracks s ! turn s 0 = Some u" using turn_bound(2) [OF Cons.prems(2)] by blast
  then have mem: "Some u \<in> set (tracks s)" using turn_bound(1) [OF Cons.prems(2), of 0] by (metis nth_mem)
  define qs1 where "qs1 = qs(u := snd (push_event x (qs u)))"
  have inv: "conduit_inv (qs u)" using Cons.prems(1) mem by (simp add: rr_inv_def)
  have deal: "nths xs {i. tracks s ! turn s i = Some v} =
      (if v = u then [x] else []) @ nths xs' {i. tracks ?s ! turn ?s i = Some v}" for v
    using u by (simp add: xs(1) nths_Cons turn_next [OF Cons.prems(2)])
  have room: "length (conduit_items (qs u)) < conduit_room (qs u)" using Cons.prems(4) mem by (fastforce simp: deal)
  have step: "switch_on s qs ev = (?s, qs1, snd (event_ptr_release ev))"
    using switch_on_turn [OF Cons.prems(1) xs(2) Cons.prems(2) u room] by (simp add: qs1_def)
  have items: "conduit_items (qs1 v) = conduit_items (qs v) @ (if v = u then [x] else [])" for v
    using cq.push_room [OF inv room] by (simp add: qs1_def)
  have room': "conduit_room (qs1 v) = conduit_room (qs v)" for v
    using cq.capacity_push [OF inv] by (simp add: qs1_def)
  have "rr_inv ?s qs1"
    using Cons.prems(1) mem cq.invar_push [OF inv] by (auto simp: rr_inv_def qs1_def)
  moreover have "bound_tracks ?s \<noteq> []" using Cons.prems(2) by (simp add: bound_tracks_def)
  moreover have "\<forall>v. Some v \<in> set (tracks ?s) \<longrightarrow>
      length (conduit_items (qs1 v)) + length (nths xs' {i. tracks ?s ! turn ?s i = Some v}) \<le> conduit_room (qs1 v)"
    using Cons.prems(4) unfolding deal items room' by auto
  ultimately have "conduit_items (snd (switch_run ?s qs1 evs) t) =
      conduit_items (qs1 t) @ nths xs' {i. tracks ?s ! turn ?s i = Some t}"
    using Cons.IH [of ?s qs1 xs'] xs(3) by blast
  then show ?case using step by (simp only: deal items switch_run.simps) simp
qed

text \<open>The poller runs while producers append to the tracks: \<open>es\<close> are their actions before each poll.\<close>

fun poller_run ::
  "'c \<Rightarrow> ('p conduits \<Rightarrow> 'p conduits) list \<Rightarrow> round_robin \<Rightarrow> 'p conduits \<Rightarrow> ('p, deleter, 'c) event_ptr list" where
  "poller_run p [] s qs = []"
| "poller_run p (e # es) s qs = (let (s1, qs1, ev) = poll p s (e qs) in ev # poller_run p es s1 qs1)"

definition appends :: "nat set \<Rightarrow> ('p conduits \<Rightarrow> 'p conduits) \<Rightarrow> bool" where
  "appends T e \<longleftrightarrow>
     (\<forall>qs. (\<forall>t \<in> T. conduit_inv (qs t)) \<longrightarrow>
        (\<forall>t \<in> T. conduit_inv (e qs t) \<and> prefix (conduit_items (qs t)) (conduit_items (e qs t))))"

abbreviation bound :: "round_robin \<Rightarrow> nat set" where
  "bound s \<equiv> {t. Some t \<in> set (tracks s)}"

lemma appends_inv: "appends (bound s) e \<Longrightarrow> rr_inv s qs \<Longrightarrow> rr_inv s (e qs)"
  by (simp add: appends_def rr_inv_def)

lemma appends_hd:
  assumes "appends T e" "\<forall>t \<in> T. conduit_inv (qs t)" "t \<in> T" "conduit_items (qs t) = y # ys"
  shows "\<exists>zs. conduit_items (e qs t) = y # zs"
proof -
  have "prefix (y # ys) (conduit_items (e qs t))" using assms unfolding appends_def by metis
  then show ?thesis by (cases "conduit_items (e qs t)") auto
qed

lemma poll_step:
  assumes inv: "rr_inv s qs" and k: "k < length (tracks s)" "tracks s ! k = Some t"
    and y: "conduit_items (qs t) = y # ys"
  shows "\<exists>s1 qs1 ev. poll p s qs = (s1, qs1, ev) \<and> rr_inv s1 qs1 \<and> tracks s1 = tracks s \<and>
    (ep_ptr ev = Some y \<or>
     conduit_items (qs1 t) = y # ys \<and>
     ring_dist (length (tracks s)) (next_track s1) k < ring_dist (length (tracks s)) (next_track s) k)"
proof -
  have n: "next_track s < length (tracks s)" using inv k(1) by (cases "tracks s") (auto simp: rr_inv_def)
  obtain k' where find: "find (has_event s qs) (cyclic_order s 0) = Some k'"
      and k': "k' < length (tracks s)" "has_event s qs k'"
      and d: "k' = k \<or> ring_dist (length (tracks s)) (Suc k' mod length (tracks s)) k <
        ring_dist (length (tracks s)) (next_track s) k"
    using find_cyclic [OF n k(1), of "has_event s qs"] k(2) y by (auto simp: has_event_def)
  obtain u where u: "tracks s ! k' = Some u" "conduit_items (qs u) \<noteq> []"
    using k'(2) by (auto simp: has_event_def split: option.splits)
  let ?s1 = "s\<lparr>next_track := Suc k' mod length (tracks s)\<rparr>" and ?qs1 = "qs(u := snd (pop_event p (qs u)))"
  have "poll p s qs = (?s1, ?qs1, event_ptr_of (Some (hd (conduit_items (qs u)))) (Some Release_To_Pool) (Some p))"
    using find u(1) poll_loop_spec [OF inv, of p 0] by (simp add: poll_def)
  moreover have "rr_inv ?s1 ?qs1"
    using inv cq.invar_pop [OF rr_inv_track [OF inv k'(1) u(1)], of p] by (auto simp: rr_inv_def)
  moreover have "u = t \<Longrightarrow> hd (conduit_items (qs u)) = y" using y by simp
  moreover have "u \<noteq> t \<Longrightarrow> k' \<noteq> k" using u(1) k(2) by auto
  ultimately show ?thesis using d y by (cases "u = t") (auto simp: event_ptr_of_def)
qed

lemma poller_serves:
  assumes "rr_inv s qs" "k < length (tracks s)" "tracks s ! k = Some t" "conduit_items (qs t) = y # ys"
    and "\<forall>e \<in> set es. appends (bound s) e"
    and "ring_dist (length (tracks s)) (next_track s) k < length es"
  shows "Some y \<in> ep_ptr ` set (poller_run p es s qs)"
  using assms
proof (induction es arbitrary: s qs ys)
  case Nil
  then show ?case by simp
next
  case (Cons e es)
  have e: "appends (bound s) e" using Cons.prems(5) by simp
  have t: "t \<in> bound s" using Cons.prems(2,3) by (metis mem_Collect_eq nth_mem)
  obtain zs where zs: "conduit_items (e qs t) = y # zs"
    using appends_hd [of "bound s" e qs t y ys] e t Cons.prems(1,4) by (auto simp: rr_inv_def)
  obtain s1 qs1 ev where step: "poll p s (e qs) = (s1, qs1, ev)" "rr_inv s1 qs1" "tracks s1 = tracks s"
      "ep_ptr ev = Some y \<or> conduit_items (qs1 t) = y # zs \<and>
       ring_dist (length (tracks s)) (next_track s1) k < ring_dist (length (tracks s)) (next_track s) k"
    using poll_step [OF appends_inv [OF e Cons.prems(1)] Cons.prems(2,3) zs, of p] by blast
  show ?case
  proof (cases "ep_ptr ev = Some y")
    case True
    then show ?thesis using step(1) by simp
  next
    case False
    with step have "Some y \<in> ep_ptr ` set (poller_run p es s1 qs1)"
      using Cons.prems by (intro Cons.IH [of s1 qs1 zs]) auto
    then show ?thesis using step(1) by simp
  qed
qed

section \<open>Properties\<close>

text \<open>The switch gives an event to the first bound track with room, in cyclic order from where it
  last stopped, releases the caller's pointer and moves on to the track after it; if no track
  has room, nothing changes and the caller keeps the event.\<close>

theorem switch_serves_first_room:
  assumes "rr_inv s qs" "ep_ptr ev = Some x"
  shows "switch_on s qs ev =
    (case find (has_room s qs) (cyclic_order s 0) of
       None \<Rightarrow> (s, qs, ev)
     | Some k \<Rightarrow>
         let t = the (tracks s ! k)
         in (s\<lparr>next_track := Suc k mod length (tracks s)\<rparr>, qs(t := snd (push_event x (qs t))),
             snd (event_ptr_release ev)))"
  using switch_loop_spec [OF assms, of 0] assms(2) by (simp add: switch_on_def event_ptr_bool_def)

definition two_tracks :: round_robin where
  "two_tracks = bind_track 1 11 (bind_track 0 10 (round_robin_init 2))"

definition two_conduits :: "nat conduits" where
  "two_conduits = (\<lambda>t. if t = 10 then conduit_init [None] else conduit_init [None, None, None])"

lemma two_tracks_inv: "rr_inv two_tracks two_conduits"
  using conduit_fresh(1) [of "[None]"] conduit_fresh(1) [of "[None, None, None]"]
  by (auto simp: rr_inv_def two_tracks_def two_conduits_def bind_track_def round_robin_init_def)

lemma two_conduits_items: "conduit_items (two_conduits t) = []" "conduit_room (two_conduits t) = (if t = 10 then 0 else 2)"
  by (simp_all add: two_conduits_def conduit_fresh)

theorem switch_serves_first_room_witness:
  "let (s, qs, ev) = switch_on two_tracks two_conduits (event_ptr_of (Some 7) (Some Release_To_Pool) (Some ()))
   in next_track s = 0 \<and> event_ptr_is_null ev"
  using switch_serves_first_room [OF two_tracks_inv, of "event_ptr_of (Some 7) (Some Release_To_Pool) (Some ())" 7]
  by (simp add: event_ptr_defs cyclic_order_def two_tracks_def bind_track_def round_robin_init_def has_room_def
      two_conduits_items upt_rec numeral_2_eq_2)

text \<open>C24: The switch deals events like cards, whatever is bound where: with \<open>m\<close> tracks bound, each of them takes every
  \<open>m\<close>-th event, starting at the first one the switch meets; unbound tracks are passed over and a conduit
  bound to several tracks takes the share of each. So after any number of events a conduit has, behind what it held,
  exactly the events of its turns in order. All that is needed is that some track is bound and that
  each bound conduit has room for its own share.\<close>

theorem switch_deals_round_robin:
  assumes "rr_inv s qs" "bound_tracks s \<noteq> []" "map ep_ptr evs = map Some xs"
    and "\<forall>t. Some t \<in> set (tracks s) \<longrightarrow>
      length (conduit_items (qs t)) + length (nths xs {i. tracks s ! turn s i = Some t}) \<le> conduit_room (qs t)"
  shows "conduit_items (snd (switch_run s qs evs) t) =
    conduit_items (qs t) @ nths xs {i. tracks s ! turn s i = Some t}"
  using assms by (rule switch_run_deals)

definition roomy :: "nat conduits" where
  "roomy = (\<lambda>t. conduit_init [None, None, None, None])"

lemma roomy_props: "conduit_inv (roomy t)" "conduit_items (roomy t) = []" "conduit_room (roomy t) = 3"
  by (simp_all add: roomy_def conduit_fresh)

lemma roomy_inv: "rr_inv two_tracks roomy"
  by (auto simp: rr_inv_def two_tracks_def roomy_props bind_track_def round_robin_init_def)

text \<open>Three tracks, the middle one unbound: the two bound ones take turns.\<close>

definition gap_tracks :: round_robin where
  "gap_tracks = bind_track 2 11 (bind_track 0 10 (round_robin_init 3))"

lemma gap_tracks_turn: "bound_tracks gap_tracks = [0, 2]" "tracks gap_tracks = [Some 10, None, Some 11]"
    "next_track gap_tracks = 0"
  by (simp_all add: bound_tracks_def gap_tracks_def bind_track_def round_robin_init_def numeral_3_eq_3)

lemma gap_tracks_turns: "turn gap_tracks i = [0, 2] ! (i mod 2)"
  by (simp add: turn_def gap_tracks_turn numeral_2_eq_2)

lemma length_nths_le: "length (nths xs A) \<le> length xs"
  by (induction xs arbitrary: A) (auto simp: nths_Cons intro: le_SucI)

theorem switch_deals_round_robin_witness:
  "conduit_items (snd (switch_run gap_tracks roomy
     (map (\<lambda>x. event_ptr_of (Some x) (Some Release_To_Pool) (Some ())) [5, 6, 7])) 10) = [5, 7]"
proof -
  let ?evs = "map (\<lambda>x. event_ptr_of (Some x) (Some Release_To_Pool) (Some ())) [5, 6, 7 :: nat]"
  have "rr_inv gap_tracks roomy" by (simp add: rr_inv_def gap_tracks_turn roomy_props)
  moreover have "map ep_ptr ?evs = map Some [5, 6, 7]" by (simp add: event_ptr_of_def)
  moreover have "\<forall>t. Some t \<in> set (tracks gap_tracks) \<longrightarrow> length (conduit_items (roomy t)) +
      length (nths [5, 6, 7 :: nat] {i. tracks gap_tracks ! turn gap_tracks i = Some t}) \<le> conduit_room (roomy t)"
    using length_nths_le [of "[5, 6, 7 :: nat]"] by (simp add: roomy_props numeral_3_eq_3)
  ultimately have "conduit_items (snd (switch_run gap_tracks roomy ?evs) 10) =
      conduit_items (roomy 10) @ nths [5, 6, 7] {i. tracks gap_tracks ! turn gap_tracks i = Some 10}"
    using gap_tracks_turn(1) by (intro switch_deals_round_robin) simp_all
  then show ?thesis by (simp add: roomy_props gap_tracks_turn gap_tracks_turns nths_Cons)
qed

text \<open>C23: No track starves: an event waiting at the front of a bound track is returned by one of the next
  \<open>NumInputs\<close> polls, whatever producers append to the tracks in between.\<close>

theorem poller_no_starvation:
  assumes "rr_inv s qs" "k < length (tracks s)" "tracks s ! k = Some t" "conduit_items (qs t) = y # ys"
    and "\<forall>e \<in> set es. appends {t. Some t \<in> set (tracks s)} e" "length (tracks s) \<le> length es"
  shows "Some y \<in> ep_ptr ` set (poller_run p es s qs)"
proof -
  have "ring_dist (length (tracks s)) (next_track s) k < length (tracks s)"
    using assms(2) by (intro ring_dist_less) linarith
  then show ?thesis using poller_serves [OF assms(1-5)] assms(6) by simp
qed

definition one_event :: "nat conduits" where
  "one_event = roomy(11 := snd (push_event 42 (roomy 11)))"

lemma one_event_props: "rr_inv two_tracks one_event" "conduit_items (one_event 11) = [42]"
  using roomy_inv cq.invar_push [of "roomy 11" 42] cq.push_room [of "roomy 11" 42]
  by (auto simp: one_event_def roomy_props rr_inv_def)

theorem poller_no_starvation_witness:
  "Some 42 \<in> ep_ptr ` set (poller_run () [id, id] two_tracks one_event)"
  by (rule poller_no_starvation [OF one_event_props(1), of 1 11])
     (simp_all add: one_event_props(2) two_tracks_def bind_track_def round_robin_init_def appends_def)

end
