(* ===== verification/Net_Conduit.thy ===== *)
theory Net_Conduit
  imports Event_Ptr Ring_Index "HOL-Library.Sublist"
begin

text \<open>
  \<open>networked_conduit\<close> of \<open>include/conduit/net/networked_conduit.hpp\<close>: a ring of wire frames
  on the sending side, a staging frame on the receiving side, one non-blocking socket. Frames
  are lists of bytes in memory order; a trivially copyable event is its object representation,
  a list of \<open>sizeof(T)\<close> bytes. The kernel's answers to \<open>send\<close> and \<open>recv\<close> are inputs. An answer that
  moves more bytes than asked for breaks the contract of the system call and is a \<open>Fault\<close>; a loop
  that would need another answer is \<open>Pending\<close>.
\<close>

section \<open>Wire frames\<close>

text \<open>\<open>alignas(64) struct { uint32_t type_id; std::byte payload[sizeof(T)]; }\<close>, little-endian; the
  bytes after the payload are padding.\<close>

definition frame_size :: "nat \<Rightarrow> nat" where
  "frame_size sz = (4 + sz + 63) div 64 * 64"

definition u32_bytes :: "u32 \<Rightarrow> u8 list" where
  "u32_bytes x = [ucast x, ucast (drop_bit 8 x), ucast (drop_bit 16 x), ucast (drop_bit 24 x)]"

definition frame_type_id :: "u8 list \<Rightarrow> u32" where
  "frame_type_id frame =
     ucast (frame ! 0) OR push_bit 8 (ucast (frame ! 1)) OR push_bit 16 (ucast (frame ! 2)) OR
     push_bit 24 (ucast (frame ! 3))"

definition frame_payload :: "nat \<Rightarrow> u8 list \<Rightarrow> u8 list" where
  "frame_payload sz frame = take sz (drop 4 frame)"

text \<open>Writing the two fields keeps the padding.\<close>

definition write_frame :: "u32 \<Rightarrow> u8 list \<Rightarrow> u8 list \<Rightarrow> u8 list" where
  "write_frame tid object frame = u32_bytes tid @ object @ drop (4 + length object) frame"

section \<open>The conduit\<close>

record net_conduit =
  sock_fd :: int
  is_dead :: bool
  tx_ring :: "u8 list list"
  tx_head :: u64
  tx_tail :: u64
  tx_inflight_offset :: nat
  rx_staging :: "u8 list"
  rx_bytes_read :: nat

definition net_init :: "u8 list list \<Rightarrow> u8 list \<Rightarrow> net_conduit" where
  "net_init ring staging =
     \<lparr>sock_fd = -1, is_dead = True, tx_ring = ring, tx_head = 0, tx_tail = 0, tx_inflight_offset = 0,
      rx_staging = staging, rx_bytes_read = 0\<rparr>"

definition bind_socket :: "int \<Rightarrow> net_conduit \<Rightarrow> net_conduit" where
  "bind_socket fd nc = nc\<lparr>sock_fd := fd, is_dead := False\<rparr>"

definition is_alive :: "net_conduit \<Rightarrow> bool" where
  "is_alive nc \<longleftrightarrow> \<not> is_dead nc"

definition mark_dead :: "net_conduit \<Rightarrow> net_conduit" where
  "mark_dead nc = (if is_dead nc then nc else nc\<lparr>is_dead := True, rx_bytes_read := 0, tx_inflight_offset := 0\<rparr>)"

definition capacity :: "net_conduit \<Rightarrow> u64" where
  "capacity nc = of_nat (length (tx_ring nc))"

definition slot :: "net_conduit \<Rightarrow> u64 \<Rightarrow> nat" where
  "slot nc i = unat (i AND (capacity nc - 1))"

text \<open>\<open>push\<close>: \<open>deref\<close> reads the object an event pointer points to.\<close>

definition net_push ::
  "u32 \<Rightarrow> ('p \<Rightarrow> u8 list) \<Rightarrow> ('p, 'd, 'c) event_ptr \<Rightarrow> net_conduit \<Rightarrow>
   bool \<times> ('p, 'd, 'c) event_ptr \<times> ('p, 'd, 'c) deleter_call list \<times> net_conduit" where
  "net_push tid deref ev nc =
     (case event_ptr_get ev of
        None \<Rightarrow> (False, ev, [], nc)
      | Some p \<Rightarrow>
          if is_dead nc then (False, ev, [], nc)
          else if tx_head nc - tx_tail nc \<ge> capacity nc then (False, ev, [], nc)
          else
            let i = slot nc (tx_head nc);
                nc1 = nc\<lparr>tx_ring := (tx_ring nc)[i := write_frame tid (deref p) (tx_ring nc ! i)],
                         tx_head := tx_head nc + 1\<rparr>;
                (ev1, calls) = event_ptr_reset ev
            in (True, ev1, calls, nc1))"

text \<open>The loop of \<open>poll_tx\<close>, on the kernel's answers (result and \<open>errno\<close>) and the bytes handed to it so far.\<close>

fun poll_tx_loop ::
  "int \<Rightarrow> nat \<Rightarrow> u64 \<Rightarrow> (int \<times> int) list \<Rightarrow> u64 \<Rightarrow> net_conduit \<Rightarrow> u8 list \<Rightarrow>
   (u64 \<times> net_conduit \<times> u8 list) outcome" where
  "poll_tx_loop ewb fs head [] tail nc wire = (if tail < head then Pending else Done (tail, nc, wire))"
| "poll_tx_loop ewb fs head ((bytes_sent, errno) # answers) tail nc wire =
     (if tail < head then
        let data = drop (tx_inflight_offset nc) (tx_ring nc ! slot nc tail);
            bytes_to_send = fs - tx_inflight_offset nc
        in if bytes_sent > 0 then
             if nat bytes_sent > bytes_to_send then Fault
             else
               let offset = tx_inflight_offset nc + nat bytes_sent;
                   wire1 = wire @ take (nat bytes_sent) data
               in if offset = fs
                  then poll_tx_loop ewb fs head answers (tail + 1) (nc\<lparr>tx_inflight_offset := 0\<rparr>) wire1
                  else poll_tx_loop ewb fs head answers tail (nc\<lparr>tx_inflight_offset := offset\<rparr>) wire1
           else if errno = ewb then Done (tail, nc, wire)
           else Done (tail, mark_dead nc, wire)
      else Done (tail, nc, wire))"

definition poll_tx ::
  "int \<Rightarrow> nat \<Rightarrow> (int \<times> int) list \<Rightarrow> net_conduit \<Rightarrow> u8 list \<Rightarrow> (net_conduit \<times> u8 list) outcome" where
  "poll_tx ewb sz answers nc wire =
     (if is_dead nc then Done (nc, wire)
      else map_outcome_result (\<lambda>(tail, nc1, wire1). (nc1\<lparr>tx_tail := tail\<rparr>, wire1))
             (poll_tx_loop ewb (frame_size sz) (tx_head nc) answers (tx_tail nc) nc wire))"

section \<open>Receiving\<close>

text \<open>The domain and the sink are template parameters of \<open>poll_rx\<close>: \<open>make_event\<close> creates an event, \<open>copy_object\<close> is
  \<open>memcpy\<close> into the object, \<open>on_sink\<close> the sink, \<open>give_back\<close> runs the deleter calls that end the event's
  scope. All work on the rest of the program, a value of type \<open>'w\<close>.\<close>

record ('p, 'd, 'c, 'w) rx_env =
  make_event :: "'w \<Rightarrow> ('p, 'd, 'c) event_ptr \<times> 'w"
  copy_object :: "'p \<Rightarrow> u8 list \<Rightarrow> 'w \<Rightarrow> 'w"
  on_sink :: "('p, 'd, 'c) event_ptr \<Rightarrow> 'w \<Rightarrow> ('p, 'd, 'c) event_ptr \<times> 'w"
  give_back :: "('p, 'd, 'c) deleter_call list \<Rightarrow> 'w \<Rightarrow> 'w"

datatype recv_answer = Recv_Data "u8 list" | Recv_Fail int

definition deliver :: "('p, 'd, 'c, 'w) rx_env \<Rightarrow> u8 list \<Rightarrow> 'w \<Rightarrow> 'w" where
  "deliver env payload w =
     (let (ev, w1) = make_event env w
      in case event_ptr_get ev of
           None \<Rightarrow> give_back env (event_ptr_dtor ev) w1
         | Some p \<Rightarrow>
             let w2 = copy_object env p payload w1;
                 (ev1, w3) = on_sink env ev w2
             in give_back env (event_ptr_dtor ev1) w3)"

fun poll_rx_loop ::
  "('p, 'd, 'c, 'w) rx_env \<Rightarrow> int \<Rightarrow> u32 \<Rightarrow> nat \<Rightarrow> recv_answer list \<Rightarrow> net_conduit \<Rightarrow> 'w \<Rightarrow>
   (net_conduit \<times> 'w) outcome" where
  "poll_rx_loop env ewb tid sz [] nc w = Pending"
| "poll_rx_loop env ewb tid sz (Recv_Data data # answers) nc w =
     (let r = rx_bytes_read nc; bytes_to_read = frame_size sz - r
      in if length data > bytes_to_read then Fault
         else if length data > 0 then
           let nc1 = nc\<lparr>rx_staging := take r (rx_staging nc) @ data @ drop (r + length data) (rx_staging nc),
                        rx_bytes_read := r + length data\<rparr>
           in if rx_bytes_read nc1 = frame_size sz then
                if frame_type_id (rx_staging nc1) \<noteq> tid then Done (mark_dead nc1, w)
                else poll_rx_loop env ewb tid sz answers (nc1\<lparr>rx_bytes_read := 0\<rparr>)
                       (deliver env (frame_payload sz (rx_staging nc1)) w)
              else poll_rx_loop env ewb tid sz answers nc1 w
         else Done (mark_dead nc, w))"
| "poll_rx_loop env ewb tid sz (Recv_Fail errno # answers) nc w =
     (if errno = ewb then Done (nc, w) else Done (mark_dead nc, w))"

definition poll_rx ::
  "('p, 'd, 'c, 'w) rx_env \<Rightarrow> int \<Rightarrow> u32 \<Rightarrow> nat \<Rightarrow> recv_answer list \<Rightarrow> net_conduit \<Rightarrow> 'w \<Rightarrow>
   (net_conduit \<times> 'w) outcome" where
  "poll_rx env ewb tid sz answers nc w =
     (if is_dead nc then Done (nc, w) else poll_rx_loop env ewb tid sz answers nc w)"

section \<open>Frames: layout and round trip\<close>

lemma frame_size_ge: "4 + sz \<le> frame_size sz"
  by (simp add: frame_size_def)

lemma frame_size_pos: "0 < frame_size sz"
  using frame_size_ge [of sz] by simp

lemma length_u32_bytes [simp]: "length (u32_bytes x) = 4"
  by (simp add: u32_bytes_def)

lemma frame_type_id_u32_bytes: "frame_type_id (u32_bytes x @ ys) = x"
proof (rule bit_word_eqI)
  fix n
  assume "n < LENGTH(32)"
  then show "bit (frame_type_id (u32_bytes x @ ys)) n = bit x n"
    by (cases "n < 24"; cases "n < 16") (auto simp: frame_type_id_def u32_bytes_def bit_simps)
qed

lemma length_write_frame:
  "length object = sz \<Longrightarrow> length frame = frame_size sz \<Longrightarrow> length (write_frame tid object frame) = frame_size sz"
  using frame_size_ge [of sz] by (simp add: write_frame_def)

lemma frame_type_id_write [simp]: "frame_type_id (write_frame tid object frame) = tid"
  by (simp add: write_frame_def frame_type_id_u32_bytes)

lemma frame_payload_write [simp]: "length object = sz \<Longrightarrow> frame_payload sz (write_frame tid object frame) = object"
  by (simp add: write_frame_def frame_payload_def)

section \<open>The sending side is a queue of bytes\<close>

text \<open>The frames between tail and head, and the bytes of them that are not sent yet.\<close>

definition tx_frames :: "net_conduit \<Rightarrow> u8 list list" where
  "tx_frames nc = map (\<lambda>i. tx_ring nc ! (i mod length (tx_ring nc))) [unat (tx_tail nc)..<unat (tx_head nc)]"

definition tx_pending :: "net_conduit \<Rightarrow> u8 list" where
  "tx_pending nc = drop (tx_inflight_offset nc) (concat (tx_frames nc))"

definition tx_inv :: "nat \<Rightarrow> nat \<Rightarrow> net_conduit \<Rightarrow> bool" where
  "tx_inv k sz nc \<longleftrightarrow>
     k < 64 \<and> length (tx_ring nc) = 2 ^ k \<and> (\<forall>f \<in> set (tx_ring nc). length f = frame_size sz) \<and>
     unat (tx_tail nc) \<le> unat (tx_head nc) \<and> unat (tx_head nc) - unat (tx_tail nc) \<le> 2 ^ k \<and>
     tx_inflight_offset nc < frame_size sz \<and>
     (tx_inflight_offset nc > 0 \<longrightarrow> tx_tail nc < tx_head nc)"

lemma slot_mod:
  assumes "tx_inv k sz nc"
  shows "slot nc i = unat i mod length (tx_ring nc)"
proof -
  have k: "k < 64" "length (tx_ring nc) = 2 ^ k" using assms by (simp_all add: tx_inv_def)
  have "(2::nat) ^ k < 2 ^ 64" using k(1) by (intro power_strict_increasing) simp_all
  then show ?thesis using pow2_mask_mod [of k i] k(2) by (simp add: slot_def capacity_def)
qed

lemma unat_capacity:
  assumes "tx_inv k sz nc"
  shows "unat (capacity nc) = length (tx_ring nc)"
proof -
  have "(2::nat) ^ k < 2 ^ 64" using assms by (intro power_strict_increasing) (simp_all add: tx_inv_def)
  then have "length (tx_ring nc) < 2 ^ 64" using assms by (simp add: tx_inv_def)
  then show ?thesis by (simp add: capacity_def unsigned_of_nat take_bit_nat_eq_self)
qed

lemma full_iff:
  assumes "tx_inv k sz nc"
  shows "capacity nc \<le> tx_head nc - tx_tail nc \<longleftrightarrow> length (tx_ring nc) \<le> length (tx_frames nc)"
proof -
  have "unat (tx_head nc - tx_tail nc) = unat (tx_head nc) - unat (tx_tail nc)"
    using assms by (intro unat_sub) (simp add: tx_inv_def word_le_nat_alt)
  then show ?thesis using unat_capacity [OF assms] by (simp add: word_le_nat_alt tx_frames_def)
qed

lemma length_tx_frame:
  assumes "tx_inv k sz nc" "f \<in> set (tx_frames nc)"
  shows "length f = frame_size sz"
proof -
  have "i mod length (tx_ring nc) < length (tx_ring nc)" for i
    using assms(1) by (intro mod_less_divisor) (simp add: tx_inv_def)
  then show ?thesis using assms by (auto simp: tx_frames_def tx_inv_def)
qed

text \<open>\<open>push\<close> appends one frame.\<close>

lemma net_push_appends:
  assumes inv: "tx_inv k sz nc" and room: "length (tx_frames nc) < length (tx_ring nc)"
    and no_wrap: "unat (tx_head nc) < 2 ^ 64 - 1" and alive: "\<not> is_dead nc"
    and ev: "event_ptr_get ev = Some p" and sz: "length (deref p) = sz"
  shows "\<exists>nc' frame. net_push tid deref ev nc = (True, fst (event_ptr_reset ev), snd (event_ptr_reset ev), nc') \<and>
    tx_inv k sz nc' \<and> \<not> is_dead nc' \<and> tx_frames nc' = tx_frames nc @ [write_frame tid (deref p) frame] \<and>
    length frame = frame_size sz \<and> tx_inflight_offset nc' = tx_inflight_offset nc \<and>
    tx_head nc' = tx_head nc + 1 \<and> tx_tail nc' = tx_tail nc"
proof -
  let ?C = "length (tx_ring nc)" and ?h = "unat (tx_head nc)" and ?t = "unat (tx_tail nc)"
  let ?frame = "tx_ring nc ! (?h mod ?C)"
  let ?ring = "(tx_ring nc)[?h mod ?C := write_frame tid (deref p) ?frame]"
  let ?nc = "nc\<lparr>tx_ring := ?ring, tx_head := tx_head nc + 1\<rparr>"
  have C: "0 < ?C" using inv by (simp add: tx_inv_def)
  then have h: "?h mod ?C < ?C" by simp
  have frame: "length ?frame = frame_size sz" using inv h by (auto simp: tx_inv_def)
  have head: "unat (tx_head nc + 1) = Suc ?h" using no_wrap by (simp add: unat_word_ariths)
  have range: "?t \<le> ?h" "?h - ?t < ?C" using inv room by (auto simp: tx_inv_def tx_frames_def)
  have "?ring ! (i mod ?C) = tx_ring nc ! (i mod ?C)" if "i \<in> set [?t..<?h]" for i
  proof -
    have i: "?t \<le> i" "i < ?h" using that by auto
    have "i - ?t < ?C" using i range by linarith
    then have "i mod ?C \<noteq> ?h mod ?C"
      using ring_index_inj [OF _ range(2), of "i - ?t" ?t] i range(1) by auto
    then show ?thesis by simp
  qed
  then have "tx_frames ?nc = tx_frames nc @ [write_frame tid (deref p) ?frame]"
    using range(1) h by (simp add: tx_frames_def head)
  moreover have "tx_inv k sz ?nc"
    using inv range head frame sz length_write_frame [of "deref p" sz ?frame tid]
    by (auto simp: tx_inv_def word_less_nat_alt dest: set_update_subset_insert [THEN subsetD])
  moreover have "net_push tid deref ev nc = (True, fst (event_ptr_reset ev), snd (event_ptr_reset ev), ?nc)"
    using alive ev room full_iff [OF inv] slot_mod [OF inv] by (simp add: net_push_def split_beta Let_def)
  ultimately show ?thesis using alive frame by auto
qed

lemma tx_tail_inside [simp]:
  "nc\<lparr>tx_inflight_offset := x, tx_tail := t\<rparr> = nc\<lparr>tx_tail := t, tx_inflight_offset := x\<rparr>"
  "nc\<lparr>rx_bytes_read := r, tx_tail := t\<rparr> = nc\<lparr>tx_tail := t, rx_bytes_read := r\<rparr>"
  "nc\<lparr>is_dead := d, tx_tail := t\<rparr> = nc\<lparr>tx_tail := t, is_dead := d\<rparr>"
  by (cases nc; simp)+

text \<open>One frame leaves the ring.\<close>

lemma tx_frames_Cons:
  assumes "tx_inv k sz nc" "tx_tail nc < tx_head nc"
  shows "tx_frames nc = tx_ring nc ! slot nc (tx_tail nc) # tx_frames (nc\<lparr>tx_tail := tx_tail nc + 1\<rparr>)"
    and "tx_inv k sz (nc\<lparr>tx_tail := tx_tail nc + 1, tx_inflight_offset := 0\<rparr>)"
proof -
  have lt: "unat (tx_tail nc) < unat (tx_head nc)" using assms(2) by (simp add: word_less_nat_alt)
  moreover have "unat (tx_head nc) < 2 ^ 64" by (rule order_less_le_trans [OF unsigned_less]) simp
  ultimately have tail: "unat (tx_tail nc + 1) = Suc (unat (tx_tail nc))" by (simp add: unat_word_ariths)
  show "tx_frames nc = tx_ring nc ! slot nc (tx_tail nc) # tx_frames (nc\<lparr>tx_tail := tx_tail nc + 1\<rparr>)"
    using lt tail slot_mod [OF assms(1)] by (simp add: tx_frames_def upt_conv_Cons)
  show "tx_inv k sz (nc\<lparr>tx_tail := tx_tail nc + 1, tx_inflight_offset := 0\<rparr>)"
    using assms(1) lt tail frame_size_pos [of sz] by (auto simp: tx_inv_def)
qed

lemma tx_pending_Cons:
  assumes "tx_inv k sz nc" "tx_tail nc < tx_head nc"
  shows "tx_pending nc = drop (tx_inflight_offset nc) (tx_ring nc ! slot nc (tx_tail nc)) @
      concat (tx_frames (nc\<lparr>tx_tail := tx_tail nc + 1\<rparr>))"
    and "length (tx_ring nc ! slot nc (tx_tail nc)) = frame_size sz"
proof -
  note C = tx_frames_Cons(1) [OF assms]
  show len: "length (tx_ring nc ! slot nc (tx_tail nc)) = frame_size sz"
    using length_tx_frame [OF assms(1)] C by simp
  have "tx_inflight_offset nc \<le> frame_size sz" using assms(1) by (simp add: tx_inv_def)
  then show "tx_pending nc = drop (tx_inflight_offset nc) (tx_ring nc ! slot nc (tx_tail nc)) @
      concat (tx_frames (nc\<lparr>tx_tail := tx_tail nc + 1\<rparr>))"
    by (simp add: tx_pending_def C len)
qed

lemma tx_frames_offset [simp]: "tx_frames (nc\<lparr>tx_inflight_offset := x\<rparr>) = tx_frames nc"
  by (simp add: tx_frames_def)

lemma tx_frames_dead [simp]: "tx_frames (mark_dead nc) = tx_frames nc"
  by (simp add: tx_frames_def mark_dead_def)

text \<open>What the loop hands to the kernel is the front of the pending bytes. When the connection dies, the
  partly sent frame is kept whole.\<close>

definition sent_from :: "nat \<Rightarrow> nat \<Rightarrow> net_conduit \<Rightarrow> u8 list \<Rightarrow> net_conduit \<Rightarrow> bool" where
  "sent_from k sz nc sent nc' \<longleftrightarrow>
     tx_inv k sz nc' \<and> tx_head nc' = tx_head nc \<and>
     (\<exists>done. done < frame_size sz \<and> sent @ drop done (concat (tx_frames nc')) = tx_pending nc \<and>
        tx_inflight_offset nc' = (if is_dead nc' then 0 else done))"

lemma sent_from_refl: "tx_inv k sz nc \<Longrightarrow> \<not> is_dead nc \<Longrightarrow> sent_from k sz nc [] nc"
  by (auto simp: sent_from_def tx_pending_def tx_inv_def)

lemma sent_from_dead: "tx_inv k sz nc \<Longrightarrow> \<not> is_dead nc \<Longrightarrow> sent_from k sz nc [] (mark_dead nc)"
  by (auto simp: sent_from_def tx_pending_def tx_inv_def mark_dead_def tx_frames_def)

lemma sent_from_trans:
  "sent_from k sz nc1 ys nc2 \<Longrightarrow> xs @ tx_pending nc1 = tx_pending nc \<Longrightarrow> tx_head nc1 = tx_head nc \<Longrightarrow>
   sent_from k sz nc (xs @ ys) nc2"
  by (auto simp: sent_from_def)

lemma tx_chunk:
  assumes inv: "tx_inv k sz nc" and lt: "tx_tail nc < tx_head nc"
    and b: "0 < b" "b \<le> frame_size sz - tx_inflight_offset nc"
  defines "off \<equiv> tx_inflight_offset nc + b"
  defines "nc' \<equiv> (if off = frame_size sz then nc\<lparr>tx_tail := tx_tail nc + 1, tx_inflight_offset := 0\<rparr>
                  else nc\<lparr>tx_inflight_offset := off\<rparr>)"
  shows "tx_inv k sz nc' \<and>
    take b (drop (tx_inflight_offset nc) (tx_ring nc ! slot nc (tx_tail nc))) @ tx_pending nc' = tx_pending nc"
proof (cases "off = frame_size sz")
  case True
  then have "length (drop (tx_inflight_offset nc) (tx_ring nc ! slot nc (tx_tail nc))) = b"
    using tx_pending_Cons(2) [OF inv lt] by (simp add: off_def)
  then show ?thesis
    using True tx_frames_Cons(2) [OF inv lt] tx_pending_Cons(1) [OF inv lt]
    by (simp add: nc'_def tx_pending_def tx_frames_def)
next
  case False
  then have off: "off < frame_size sz" using b(2) inv unfolding tx_inv_def off_def by linarith
  then have inv': "tx_inv k sz nc'" and lt': "tx_tail nc' < tx_head nc'"
    using False inv lt by (auto simp: nc'_def tx_inv_def)
  have slot: "slot nc' = slot nc" using False by (simp add: nc'_def slot_def capacity_def fun_eq_iff)
  have "take b (drop (tx_inflight_offset nc) f) @ drop off f = drop (tx_inflight_offset nc) f" for f :: "u8 list"
    by (metis add.commute append_take_drop_id drop_drop off_def)
  then show ?thesis
    using inv' tx_pending_Cons(1) [OF inv lt] tx_pending_Cons(1) [OF inv' lt'] False
    by (simp add: slot) (simp add: nc'_def tx_frames_def flip: append_assoc)
qed

lemma poll_tx_loop_sends:
  assumes "poll_tx_loop ewb (frame_size sz) (tx_head nc) answers tail nc wire = Done (tail', nc', wire')"
    and "tx_inv k sz (nc\<lparr>tx_tail := tail\<rparr>)" "\<not> is_dead nc"
  shows "\<exists>sent. wire' = wire @ sent \<and> sent_from k sz (nc\<lparr>tx_tail := tail\<rparr>) sent (nc'\<lparr>tx_tail := tail'\<rparr>)"
  using assms
proof (induction answers arbitrary: tail nc wire)
  case Nil
  then show ?case using sent_from_refl by (force split: if_splits)
next
  case (Cons a answers)
  obtain b errno where a: "a = (b, errno)" by (cases a)
  let ?m = "nc\<lparr>tx_tail := tail\<rparr>"
  consider (stop) "\<not> tail < tx_head nc" | (err) "tail < tx_head nc" "b \<le> 0"
    | (sent) "tail < tx_head nc" "0 < b" "nat b \<le> frame_size sz - tx_inflight_offset nc"
    using Cons.prems(1) by (force simp: a not_le not_less split: if_splits)
  then show ?case
  proof cases
    case stop
    then show ?thesis using Cons.prems sent_from_refl [of k sz ?m] by (auto simp: a)
  next
    case err
    then show ?thesis
      using Cons.prems sent_from_refl [of k sz ?m] sent_from_dead [of k sz ?m]
      by (auto simp: a mark_dead_def split: if_splits)
  next
    case sent
    define off where "off = tx_inflight_offset nc + nat b"
    define chunk where "chunk = take (nat b) (drop (tx_inflight_offset nc) (tx_ring nc ! slot nc tail))"
    define tail1 where "tail1 = (if off = frame_size sz then tail + 1 else tail)"
    define nc1 where "nc1 = nc\<lparr>tx_inflight_offset := if off = frame_size sz then 0 else off\<rparr>"
    have "slot ?m = slot nc" by (simp add: slot_def capacity_def fun_eq_iff)
    then have step: "tx_inv k sz (nc1\<lparr>tx_tail := tail1\<rparr>)"
        "chunk @ tx_pending (nc1\<lparr>tx_tail := tail1\<rparr>) = tx_pending ?m"
      using tx_chunk [OF Cons.prems(2), of "nat b"] sent
      by (auto simp: off_def chunk_def tail1_def nc1_def split: if_splits)
    have "poll_tx_loop ewb (frame_size sz) (tx_head nc1) answers tail1 nc1 (wire @ chunk) = Done (tail', nc', wire')"
      using Cons.prems(1) sent
      by (auto simp: a off_def chunk_def tail1_def nc1_def Let_def split: if_splits)
    moreover have "\<not> is_dead nc1" using Cons.prems(3) by (simp add: nc1_def)
    ultimately obtain ys where ys: "wire' = (wire @ chunk) @ ys"
        "sent_from k sz (nc1\<lparr>tx_tail := tail1\<rparr>) ys (nc'\<lparr>tx_tail := tail'\<rparr>)"
      using Cons.IH step(1) by blast
    have "sent_from k sz ?m (chunk @ ys) (nc'\<lparr>tx_tail := tail'\<rparr>)"
      by (rule sent_from_trans [OF ys(2) step(2)]) (simp add: nc1_def)
    then show ?thesis using ys(1) by auto
  qed
qed

text \<open>Every answer that moves bytes takes at least one of the pending bytes, so as many answers as
  there are pending bytes are enough.\<close>

lemma poll_tx_loop_finishes:
  assumes "poll_tx_loop ewb (frame_size sz) (tx_head nc) answers tail nc wire \<noteq> Fault"
    and "tx_inv k sz (nc\<lparr>tx_tail := tail\<rparr>)" "length (tx_pending (nc\<lparr>tx_tail := tail\<rparr>)) \<le> length answers"
  shows "\<exists>r. poll_tx_loop ewb (frame_size sz) (tx_head nc) answers tail nc wire = Done r"
  using assms
proof (induction answers arbitrary: tail nc wire)
  case Nil
  let ?m = "nc\<lparr>tx_tail := tail\<rparr>"
  have "\<not> tail < tx_head nc"
  proof
    assume "tail < tx_head nc"
    then have "0 < length (tx_pending ?m)"
      using tx_pending_Cons [OF Nil.prems(2)] Nil.prems(2) by (auto simp: tx_inv_def)
    then show False using Nil.prems(3) by simp
  qed
  then show ?case by simp
next
  case (Cons a answers)
  obtain b errno where a: "a = (b, errno)" by (cases a)
  let ?m = "nc\<lparr>tx_tail := tail\<rparr>"
  show ?case
  proof (cases "tail < tx_head nc \<and> 0 < b")
    case True
    define off where "off = tx_inflight_offset nc + nat b"
    define chunk where "chunk = take (nat b) (drop (tx_inflight_offset nc) (tx_ring nc ! slot nc tail))"
    define tail1 where "tail1 = (if off = frame_size sz then tail + 1 else tail)"
    define nc1 where "nc1 = nc\<lparr>tx_inflight_offset := if off = frame_size sz then 0 else off\<rparr>"
    have b: "nat b \<le> frame_size sz - tx_inflight_offset nc"
      using Cons.prems(1) True by (auto simp: a Let_def split: if_splits)
    have slot: "slot ?m = slot nc" by (simp add: slot_def capacity_def fun_eq_iff)
    then have step: "tx_inv k sz (nc1\<lparr>tx_tail := tail1\<rparr>)"
        "chunk @ tx_pending (nc1\<lparr>tx_tail := tail1\<rparr>) = tx_pending ?m"
      using tx_chunk [OF Cons.prems(2), of "nat b"] True b
      by (auto simp: off_def chunk_def tail1_def nc1_def split: if_splits)
    have "chunk \<noteq> []"
      using tx_pending_Cons(2) [OF Cons.prems(2)] Cons.prems(2) True slot
      by (auto simp: chunk_def tx_inv_def)
    then have "length (tx_pending (nc1\<lparr>tx_tail := tail1\<rparr>)) \<le> length answers"
      using Cons.prems(3) step(2) by (cases chunk) (auto dest!: arg_cong [of _ _ length])
    moreover have eq: "poll_tx_loop ewb (frame_size sz) (tx_head nc) (a # answers) tail nc wire =
        poll_tx_loop ewb (frame_size sz) (tx_head nc1) answers tail1 nc1 (wire @ chunk)"
      using True b by (auto simp: a off_def chunk_def tail1_def nc1_def Let_def)
    ultimately show ?thesis using Cons.IH [of nc1 tail1 "wire @ chunk"] Cons.prems(1) step(1) by auto
  next
    case False
    then show ?thesis by (auto simp: a Let_def)
  qed
qed

section \<open>The receiving side reassembles frames\<close>

text \<open>The complete frames at the front of a stream of bytes, and what is left.\<close>

function frames_of :: "nat \<Rightarrow> 'b list \<Rightarrow> 'b list list" where
  "frames_of fs bs = (if 0 < fs \<and> fs \<le> length bs then take fs bs # frames_of fs (drop fs bs) else [])"
  by pat_completeness auto
termination
  by (relation "measure (\<lambda>(fs, bs). length bs)") auto

definition leftover :: "nat \<Rightarrow> 'b list \<Rightarrow> 'b list" where
  "leftover fs bs = drop (length bs div fs * fs) bs"

declare frames_of.simps [simp del]

lemma frames_of_short: "length bs < fs \<Longrightarrow> frames_of fs bs = []"
  by (simp add: frames_of.simps)

lemma frames_of_frame: "0 < fs \<Longrightarrow> length f = fs \<Longrightarrow> frames_of fs (f @ bs) = f # frames_of fs bs"
  by (subst frames_of.simps) simp

lemma leftover_short: "length bs < fs \<Longrightarrow> leftover fs bs = bs"
  by (simp add: leftover_def)

lemma leftover_frame: "0 < fs \<Longrightarrow> length f = fs \<Longrightarrow> leftover fs (f @ bs) = leftover fs bs"
  using div_add_self1 [of fs "length bs"] by (auto simp: leftover_def)

text \<open>The kernel returns between one byte and as many as \<open>recv\<close> asked for.\<close>

fun fits :: "nat \<Rightarrow> nat \<Rightarrow> u8 list list \<Rightarrow> bool" where
  "fits fs r [] = True"
| "fits fs r (c # cs) = (c \<noteq> [] \<and> length c \<le> fs - r \<and> fits fs ((r + length c) mod fs) cs)"

definition rx_inv :: "nat \<Rightarrow> net_conduit \<Rightarrow> bool" where
  "rx_inv sz nc \<longleftrightarrow> length (rx_staging nc) = frame_size sz \<and> rx_bytes_read nc < frame_size sz"

definition rx_staged :: "net_conduit \<Rightarrow> u8 list" where
  "rx_staged nc = take (rx_bytes_read nc) (rx_staging nc)"

text \<open>The frames before the first one of another type.\<close>

definition good_frames :: "u32 \<Rightarrow> u8 list list \<Rightarrow> u8 list list" where
  "good_frames tid frames = takeWhile (\<lambda>f. frame_type_id f = tid) frames"

text \<open>The outcome for a stream \<open>bs\<close>: the payloads of those frames delivered in order; and the conduit dead and
  its staging reset if there was a frame of another type, else alive with the unfinished frame staged.\<close>

definition rx_result ::
  "('p, 'd, 'c, 'w) rx_env \<Rightarrow> u32 \<Rightarrow> nat \<Rightarrow> u8 list \<Rightarrow> 'w \<Rightarrow> (net_conduit \<times> 'w) outcome \<Rightarrow> bool" where
  "rx_result env tid sz bs w out \<longleftrightarrow>
     (\<exists>nc'. out = Done (nc', fold (deliver env) (map (frame_payload sz)
         (good_frames tid (frames_of (frame_size sz) bs))) w) \<and> rx_inv sz nc' \<and>
       (if good_frames tid (frames_of (frame_size sz) bs) = frames_of (frame_size sz) bs
        then \<not> is_dead nc' \<and> rx_staged nc' = leftover (frame_size sz) bs
        else is_dead nc' \<and> rx_bytes_read nc' = 0))"

lemma good_frames_Cons:
  "good_frames tid (f # fs) = (if frame_type_id f = tid then f # good_frames tid fs else [])"
  by (simp add: good_frames_def)

lemma rx_result_right:
  "length f = frame_size sz \<Longrightarrow> frame_type_id f = tid \<Longrightarrow>
   rx_result env tid sz bs (deliver env (frame_payload sz f) w) out \<Longrightarrow> rx_result env tid sz (f @ bs) w out"
  by (simp add: rx_result_def frames_of_frame leftover_frame good_frames_Cons frame_size_pos split del: if_split cong: if_cong)

lemma rx_result_wrong:
  "length f = frame_size sz \<Longrightarrow> frame_type_id f \<noteq> tid \<Longrightarrow> rx_inv sz nc \<Longrightarrow> is_dead nc \<Longrightarrow> rx_bytes_read nc = 0 \<Longrightarrow>
   rx_result env tid sz (f @ bs) w (Done (nc, w))"
  by (simp add: rx_result_def frames_of_frame good_frames_def frame_size_pos)

lemma poll_rx_loop_reassembles:
  assumes "rx_inv sz nc" "\<not> is_dead nc" "fits (frame_size sz) (rx_bytes_read nc) chunks"
  shows "rx_result env tid sz (rx_staged nc @ concat chunks) w
    (poll_rx_loop env ewb tid sz (map Recv_Data chunks @ [Recv_Fail ewb]) nc w)"
  using assms
proof (induction chunks arbitrary: nc w)
  case Nil
  then have "length (rx_staged nc) < frame_size sz" by (auto simp: rx_inv_def rx_staged_def)
  with Nil show ?case
    by (simp add: rx_result_def frames_of_short leftover_short good_frames_def)
next
  case (Cons c chunks)
  let ?fs = "frame_size sz" and ?r = "rx_bytes_read nc"
  define nc1 where "nc1 = nc\<lparr>rx_staging := take ?r (rx_staging nc) @ c @ drop (?r + length c) (rx_staging nc),
    rx_bytes_read := ?r + length c\<rparr>"
  have c: "c \<noteq> []" "length c \<le> ?fs - ?r" "?r < ?fs" "length (rx_staging nc) = ?fs"
    and cs: "fits ?fs ((?r + length c) mod ?fs) chunks"
    using Cons.prems by (auto simp: rx_inv_def)
  have nc1: "rx_bytes_read nc1 = ?r + length c" "length (rx_staging nc1) = ?fs" "is_dead nc1 = is_dead nc"
      "rx_staged nc1 = rx_staged nc @ c"
    using c by (auto simp: nc1_def rx_staged_def)
  show ?case
  proof (cases "?r + length c = ?fs")
    case False
    then have "rx_inv sz nc1" using c nc1 by (auto simp: rx_inv_def)
    moreover have "fits ?fs (rx_bytes_read nc1) chunks" using cs False c nc1(1) by (simp add: mod_less)
    moreover have "poll_rx_loop env ewb tid sz (map Recv_Data (c # chunks) @ [Recv_Fail ewb]) nc w =
        poll_rx_loop env ewb tid sz (map Recv_Data chunks @ [Recv_Fail ewb]) nc1 w"
      using c False by (simp add: nc1_def Let_def)
    ultimately show ?thesis using Cons.IH [of nc1 w] Cons.prems(2) nc1(3,4) by simp
  next
    case True
    let ?f = "rx_staged nc @ c"
    have f: "length ?f = ?fs" "rx_staging nc1 = ?f" using True c by (auto simp: rx_staged_def nc1_def)
    show ?thesis
    proof (cases "frame_type_id ?f = tid")
      case wrong: False
      then have "poll_rx_loop env ewb tid sz (map Recv_Data (c # chunks) @ [Recv_Fail ewb]) nc w =
          Done (mark_dead nc1, w)"
        using c True f(2) by (simp add: nc1_def Let_def)
      moreover have "is_dead (mark_dead nc1)" "rx_bytes_read (mark_dead nc1) = 0" "rx_inv sz (mark_dead nc1)"
        using Cons.prems(2) nc1 frame_size_pos by (auto simp: mark_dead_def rx_inv_def)
      ultimately show ?thesis using rx_result_wrong [OF f(1) wrong] by simp
    next
      case right: True
      define nc2 where "nc2 = nc1\<lparr>rx_bytes_read := 0\<rparr>"
      have "poll_rx_loop env ewb tid sz (map Recv_Data (c # chunks) @ [Recv_Fail ewb]) nc w =
          poll_rx_loop env ewb tid sz (map Recv_Data chunks @ [Recv_Fail ewb]) nc2 (deliver env (frame_payload sz ?f) w)"
        using c True f(2) right by (simp add: nc1_def nc2_def Let_def)
      moreover have "rx_inv sz nc2" "\<not> is_dead nc2" "fits ?fs (rx_bytes_read nc2) chunks" "rx_staged nc2 = []"
        using nc1 Cons.prems(2) cs True frame_size_pos by (auto simp: nc2_def rx_inv_def rx_staged_def)
      ultimately show ?thesis
        using Cons.IH [of nc2 "deliver env (frame_payload sz ?f) w"] rx_result_right [OF f(1) right] by simp
    qed
  qed
qed

section \<open>From one end to the other\<close>

text \<open>A sender: pushes and polls in any order, with the objects whose push was accepted.\<close>

datatype ('p, 'd, 'c) tx_op = Tx_Push "('p, 'd, 'c) event_ptr" | Tx_Poll "(int \<times> int) list"

fun tx_run ::
  "int \<Rightarrow> u32 \<Rightarrow> nat \<Rightarrow> ('p \<Rightarrow> u8 list) \<Rightarrow> ('p, 'd, 'c) tx_op list \<Rightarrow> net_conduit \<Rightarrow> u8 list \<Rightarrow> u8 list list \<Rightarrow>
   (net_conduit \<times> u8 list \<times> u8 list list) outcome" where
  "tx_run ewb tid sz deref [] nc wire acc = Done (nc, wire, acc)"
| "tx_run ewb tid sz deref (Tx_Push ev # ops) nc wire acc =
     (let (ok, _, _, nc1) = net_push tid deref ev nc
      in tx_run ewb tid sz deref ops nc1 wire (if ok then acc @ [deref (the (event_ptr_get ev))] else acc))"
| "tx_run ewb tid sz deref (Tx_Poll answers # ops) nc wire acc =
     bind_outcome (poll_tx ewb sz answers nc wire) (\<lambda>(nc1, wire1). tx_run ewb tid sz deref ops nc1 wire1 acc)"

definition is_frame :: "u32 \<Rightarrow> nat \<Rightarrow> u8 list \<Rightarrow> u8 list \<Rightarrow> bool" where
  "is_frame tid sz f object \<longleftrightarrow>
     length f = frame_size sz \<and> frame_type_id f = tid \<and> frame_payload sz f = object"

text \<open>The bytes handed to the kernel, followed by those to come, are frames of the accepted objects.\<close>

definition tx_session :: "nat \<Rightarrow> u32 \<Rightarrow> nat \<Rightarrow> net_conduit \<Rightarrow> u8 list \<Rightarrow> u8 list list \<Rightarrow> bool" where
  "tx_session k tid sz nc wire acc \<longleftrightarrow>
     tx_inv k sz nc \<and>
     (\<exists>frames done. list_all2 (is_frame tid sz) frames acc \<and>
        wire @ drop done (concat (tx_frames nc)) = concat frames \<and>
        done \<le> length (concat (tx_frames nc)) \<and>
        (\<not> is_dead nc \<longrightarrow> done = tx_inflight_offset nc))"

lemma tx_offset_le: "tx_inv k sz nc \<Longrightarrow> tx_inflight_offset nc \<le> length (concat (tx_frames nc))"
  using tx_pending_Cons(2) [of k sz nc] tx_frames_Cons(1) [of k sz nc]
  by (cases "tx_tail nc < tx_head nc") (auto simp: tx_inv_def)

lemma net_push_cases:
  assumes "tx_inv k sz nc" "unat (tx_head nc) < 2 ^ 64 - 1" "\<forall>p. length (deref p) = sz"
    "net_push tid deref ev nc = (ok, ev', cs, nc')"
  shows "(\<not> ok \<and> nc' = nc) \<or>
    (ok \<and> \<not> is_dead nc \<and> tx_inv k sz nc' \<and> \<not> is_dead nc' \<and> tx_inflight_offset nc' = tx_inflight_offset nc \<and>
     tx_head nc' = tx_head nc + 1 \<and>
     (\<exists>frame. tx_frames nc' = tx_frames nc @ [frame] \<and> is_frame tid sz frame (deref (the (event_ptr_get ev)))))"
proof (cases "\<not> is_dead nc \<and> event_ptr_get ev \<noteq> None \<and> length (tx_frames nc) < length (tx_ring nc)")
  case True
  then obtain p where "event_ptr_get ev = Some p" by auto
  then show ?thesis
    using net_push_appends [OF assms(1) _ assms(2), of ev p deref tid] True assms(3,4)
    by (auto simp: is_frame_def length_write_frame)
next
  case False
  then show ?thesis
    using full_iff [OF assms(1)] assms(4) by (auto simp: net_push_def not_less split: option.splits if_splits)
qed

lemma tx_session_push:
  assumes "tx_session k tid sz nc wire acc" "unat (tx_head nc) < 2 ^ 64 - 1" "\<forall>p. length (deref p) = sz"
    "net_push tid deref ev nc = (ok, ev', cs, nc')"
  shows "tx_session k tid sz nc' wire (if ok then acc @ [deref (the (event_ptr_get ev))] else acc)"
proof (cases ok)
  case False
  then show ?thesis using net_push_cases [OF _ assms(2-4)] assms(1) by (auto simp: tx_session_def)
next
  case True
  have inv: "tx_inv k sz nc" using assms(1) by (simp add: tx_session_def)
  obtain frame where alive: "\<not> is_dead nc" and nc': "tx_inv k sz nc'" "\<not> is_dead nc'"
      "tx_inflight_offset nc' = tx_inflight_offset nc" "tx_frames nc' = tx_frames nc @ [frame]"
      and frame: "is_frame tid sz frame (deref (the (event_ptr_get ev)))"
    using net_push_cases [OF inv assms(2-4)] True by auto
  obtain frames where frames: "list_all2 (is_frame tid sz) frames acc"
      "wire @ drop (tx_inflight_offset nc) (concat (tx_frames nc)) = concat frames"
    using assms(1) alive by (auto simp: tx_session_def)
  have "list_all2 (is_frame tid sz) (frames @ [frame]) (acc @ [deref (the (event_ptr_get ev))])"
    using frames(1) frame by (simp add: list_all2_appendI)
  moreover have "wire @ drop (tx_inflight_offset nc') (concat (tx_frames nc')) = concat (frames @ [frame])"
    using frames(2) tx_offset_le [OF inv] by (simp add: nc'(3,4) flip: append_assoc)
  ultimately show ?thesis
    using True nc'(1,2) tx_offset_le [OF nc'(1)] unfolding tx_session_def by auto
qed

lemma tx_session_poll:
  assumes "tx_session k tid sz nc wire acc" "poll_tx ewb sz answers nc wire = Done (nc', wire')"
  shows "tx_session k tid sz nc' wire' acc \<and> tx_head nc' = tx_head nc"
proof (cases "is_dead nc")
  case True
  then show ?thesis using assms by (auto simp: poll_tx_def)
next
  case False
  have inv: "tx_inv k sz nc" using assms(1) by (simp add: tx_session_def)
  obtain tail n1 where loop:
      "poll_tx_loop ewb (frame_size sz) (tx_head nc) answers (tx_tail nc) nc wire = Done (tail, n1, wire')"
      "nc' = n1\<lparr>tx_tail := tail\<rparr>"
    using assms(2) False
    by (cases "poll_tx_loop ewb (frame_size sz) (tx_head nc) answers (tx_tail nc) nc wire")
       (auto simp: poll_tx_def)
  obtain sent where sent: "wire' = wire @ sent" "sent_from k sz nc sent nc'"
    using poll_tx_loop_sends [OF loop(1) _ False, of k] inv loop(2) by auto
  then obtain dn where dn: "sent @ drop dn (concat (tx_frames nc')) = tx_pending nc" "tx_inv k sz nc'"
      "tx_inflight_offset nc' = (if is_dead nc' then 0 else dn)" "tx_head nc' = tx_head nc"
    by (auto simp: sent_from_def)
  obtain frames where frames: "list_all2 (is_frame tid sz) frames acc"
      "wire @ tx_pending nc = concat frames"
    using assms(1) False by (auto simp: tx_session_def tx_pending_def)
  have *: "drop (min dn (length (concat (tx_frames nc')))) (concat (tx_frames nc')) = drop dn (concat (tx_frames nc'))"
    by (simp add: min_def)
  have "\<not> is_dead nc' \<longrightarrow> min dn (length (concat (tx_frames nc'))) = tx_inflight_offset nc'"
    using dn(3) tx_offset_le [OF dn(2)] by auto
  moreover have "wire' @ drop dn (concat (tx_frames nc')) = concat frames"
    using frames(2) dn(1) sent(1) by simp
  ultimately show ?thesis using dn(2,4) frames(1) * unfolding tx_session_def
    by (metis min.cobounded2)
qed

lemma tx_run_session:
  assumes "tx_run ewb tid sz deref ops nc wire acc = Done (nc', wire', acc')"
    and "tx_session k tid sz nc wire acc" "\<forall>p. length (deref p) = sz"
    and "unat (tx_head nc) + length ops < 2 ^ 64"
  shows "tx_session k tid sz nc' wire' acc'"
  using assms
proof (induction ops arbitrary: nc wire acc)
  case Nil
  then show ?case by simp
next
  case (Cons op ops)
  show ?case
  proof (cases op)
    case (Tx_Push ev)
    obtain ok ev1 cs nc1 where push: "net_push tid deref ev nc = (ok, ev1, cs, nc1)"
      by (cases "net_push tid deref ev nc")
    have head: "unat (tx_head nc) < 2 ^ 64 - 1" using Cons.prems(4) by simp
    have "tx_inv k sz nc" using Cons.prems(2) by (simp add: tx_session_def)
    then have "nc1 = nc \<or> tx_head nc1 = tx_head nc + 1"
      using net_push_cases [OF _ head Cons.prems(3) push] by blast
    then have "unat (tx_head nc1) + length ops < 2 ^ 64"
      using Cons.prems(4) by (auto simp: unat_word_ariths)
    then show ?thesis
      using Cons.IH [OF _ tx_session_push [OF Cons.prems(2) head Cons.prems(3) push] Cons.prems(3)]
        Cons.prems(1) push Tx_Push by simp
  next
    case (Tx_Poll answers)
    then obtain nc1 wire1 where poll: "poll_tx ewb sz answers nc wire = Done (nc1, wire1)"
        and rest: "tx_run ewb tid sz deref ops nc1 wire1 acc = Done (nc', wire', acc')"
      using Cons.prems(1) by (cases "poll_tx ewb sz answers nc wire") auto
    show ?thesis
      using Cons.IH [OF rest _ Cons.prems(3)] tx_session_poll [OF Cons.prems(2) poll] Cons.prems(4) by simp
  qed
qed

lemma tx_session_init:
  assumes "k < 64" "length ring = 2 ^ k" "\<forall>f \<in> set ring. length f = frame_size sz"
  shows "tx_session k tid sz (bind_socket fd (net_init ring staging)) [] []"
  using assms frame_size_pos [of sz]
  by (auto simp: tx_session_def tx_inv_def bind_socket_def net_init_def tx_frames_def)

lemma frames_of_prefix:
  assumes "0 < fs" "\<forall>f \<in> set frames. length f = fs" "prefix bs (concat frames)"
  shows "frames_of fs bs = take (length bs div fs) frames"
  using assms(2,3)
proof (induction frames arbitrary: bs)
  case Nil
  then show ?case using assms(1) by (simp add: frames_of_short)
next
  case (Cons f frames)
  show ?case
  proof (cases "length bs < fs")
    case True
    then show ?thesis by (simp add: frames_of_short)
  next
    case False
    have "take fs bs = f"
      using Cons.prems False by (auto simp: prefix_def) (metis append_eq_append_conv_if append_take_drop_id linorder_not_less)
    then have bs: "bs = f @ drop fs bs" by (metis append_take_drop_id)
    then have "prefix (drop fs bs) (concat frames)" using Cons.prems(2) by (metis concat.simps(2) same_prefix_prefix)
    then have "frames_of fs (drop fs bs) = take (length (drop fs bs) div fs) frames" using Cons by simp
    moreover have "length bs div fs = Suc (length (drop fs bs) div fs)"
      using False assms(1) by (simp add: le_div_geq)
    ultimately show ?thesis
      using frames_of_frame [OF assms(1), of f "drop fs bs"] bs Cons.prems(1) by simp
  qed
qed

lemma good_frames_all: "\<forall>f \<in> set frames. frame_type_id f = tid \<Longrightarrow> good_frames tid frames = frames"
  by (simp add: good_frames_def)

text \<open>What the domain answered and what the sink found, kept beside the rest of the program: one entry for each
  call of \<open>make\<close>, and the object behind the pointer at each call of \<open>sink.on\<close>.\<close>

definition recorded ::
  "('w \<Rightarrow> 'p \<Rightarrow> u8 list) \<Rightarrow> ('p, 'd, 'c, 'w) rx_env \<Rightarrow>
   ('p, 'd, 'c, 'w \<times> bool list \<times> u8 list list) rx_env" where
  "recorded object env =
     \<lparr>make_event = (\<lambda>(w, made, given). let (ev, w1) = make_event env w
                                      in (ev, w1, made @ [event_ptr_get ev \<noteq> None], given)),
      copy_object = (\<lambda>p b (w, log). (copy_object env p b w, log)),
      on_sink = (\<lambda>ev (w, made, given). let (ev1, w1) = on_sink env ev w
                                      in (ev1, w1, made, given @ [object w (the (event_ptr_get ev))])),
      give_back = (\<lambda>cs (w, log). (give_back env cs w, log))\<rparr>"

text \<open>The bytes that \<open>memcpy\<close> puts into an event the domain has just made are its object.\<close>

definition copies :: "('w \<Rightarrow> 'p \<Rightarrow> u8 list) \<Rightarrow> ('p, 'd, 'c, 'w) rx_env \<Rightarrow> bool" where
  "copies object env \<longleftrightarrow>
     (\<forall>w ev w1 p b. make_event env w = (ev, w1) \<longrightarrow> event_ptr_get ev = Some p \<longrightarrow>
        object (copy_object env p b w1) p = b)"

lemma deliver_recorded:
  assumes "copies object env"
  shows "\<exists>m. deliver (recorded object env) b (w, made, given) =
    (deliver env b w, made @ [m], if m then given @ [b] else given)"
  using assms by (cases "make_event env w") (auto simp: deliver_def recorded_def copies_def split: option.splits prod.splits)

lemma fold_recorded:
  assumes "copies object env"
  shows "\<exists>ms. length ms = length bs \<and> fold (deliver (recorded object env)) bs (w, made, given) =
    (fold (deliver env) bs w, made @ ms, given @ map fst (filter snd (zip bs ms)))"
proof (induction bs arbitrary: w made given)
  case (Cons b bs)
  obtain m where m: "deliver (recorded object env) b (w, made, given) =
      (deliver env b w, made @ [m], if m then given @ [b] else given)"
    using deliver_recorded [OF assms] by blast
  obtain ms where "length ms = length bs"
    "fold (deliver (recorded object env)) bs (deliver env b w, made @ [m], if m then given @ [b] else given) =
      (fold (deliver env) bs (deliver env b w), (made @ [m]) @ ms,
       (if m then given @ [b] else given) @ map fst (filter snd (zip bs ms)))"
    using Cons.IH by blast
  then show ?case using m by (intro exI [of _ "m # ms"]) auto
qed simp

lemma zip_take_made: "zip (take (length ms) xs) ms = zip xs ms"
proof (induction ms arbitrary: xs)
  case (Cons m ms)
  then show ?case by (cases xs) auto
qed simp

text \<open>What the receiving conduit does to itself does not depend on the domain and the sink.\<close>

lemma poll_rx_loop_conduit:
  assumes "poll_rx_loop env ewb tid sz answers nc w = Done (nc1, w1)"
    "poll_rx_loop env' ewb tid sz answers nc w' = Done (nc2, w2)"
  shows "nc1 = nc2"
  using assms
proof (induction answers arbitrary: nc w w')
  case (Cons a answers)
  show ?case
  proof (cases a)
    case (Recv_Data data)
    then show ?thesis using Cons by (simp add: Let_def split: if_splits)
  next
    case (Recv_Fail errno)
    then show ?thesis using Cons.prems by (simp split: if_splits)
  qed
qed simp

lemma rx_conduit_same:
  "poll_rx env ewb tid sz answers nc w = Done (nc1, w1) \<Longrightarrow>
   poll_rx env' ewb tid sz answers nc w' = Done (nc2, w2) \<Longrightarrow> nc1 = nc2"
  using poll_rx_loop_conduit [of env ewb tid sz answers nc w nc1 w1 env' w' nc2 w2]
  by (simp add: poll_rx_def split: if_splits)

text \<open>However much of the sender's bytes has arrived, it is delivered as the first objects accepted.\<close>

lemma arrived_delivered:
  assumes "k < 64" "length ring = 2 ^ k" "\<forall>f \<in> set ring. length f = frame_size sz"
    and "\<forall>p. length (deref p) = sz" "length ops < 2 ^ 64"
    and "tx_run ewb tid sz deref ops (bind_socket fd (net_init ring staging)) [] [] = Done (nc, wire, acc)"
    and "rx_inv sz rc" "rx_bytes_read rc = 0" "\<not> is_dead rc"
    and "prefix (concat chunks) wire" "fits (frame_size sz) 0 chunks"
  shows "\<exists>rc'. poll_rx env ewb tid sz (map Recv_Data chunks @ [Recv_Fail ewb]) rc w =
    Done (rc', fold (deliver env) (take (length (concat chunks) div frame_size sz) acc) w) \<and> \<not> is_dead rc' \<and>
    length (concat chunks) div frame_size sz \<le> length acc"
proof -
  have "tx_session k tid sz nc wire acc"
    using tx_run_session [OF assms(6) tx_session_init [OF assms(1-3)] assms(4)] assms(5)
    by (simp add: bind_socket_def net_init_def)
  then obtain frames where frames: "list_all2 (is_frame tid sz) frames acc" "prefix wire (concat frames)"
    unfolding tx_session_def prefix_def by metis
  let ?n = "length (concat chunks) div frame_size sz"
  have all: "\<forall>f \<in> set frames. length f = frame_size sz \<and> frame_type_id f = tid"
    and acc: "map (frame_payload sz) frames = acc"
    using frames(1) by (induction rule: list_all2_induct) (auto simp: is_frame_def)
  have fr: "frames_of (frame_size sz) (concat chunks) = take ?n frames"
    using frames_of_prefix [OF frame_size_pos] all prefix_order.trans [OF assms(10) frames(2)] by blast
  moreover have "good_frames tid (take ?n frames) = take ?n frames"
    using all by (intro good_frames_all) (auto dest: in_set_takeD)
  moreover have "rx_result env tid sz (concat chunks) w
      (poll_rx env ewb tid sz (map Recv_Data chunks @ [Recv_Fail ewb]) rc w)"
    using poll_rx_loop_reassembles [OF assms(7,9)] assms(8,9,11) by (simp add: poll_rx_def rx_staged_def)
  moreover have "?n \<le> length acc"
  proof -
    have "length (concat chunks) \<le> length (concat frames)"
      using assms(10) frames(2) by (meson prefix_length_le order_trans)
    also have "\<dots> = length frames * frame_size sz"
      using all by (induction frames) auto
    finally show ?thesis
      using div_le_mono [of _ _ "frame_size sz"] frame_size_pos [of sz] list_all2_lengthD [OF frames(1)] by fastforce
  qed
  ultimately show ?thesis by (auto simp: rx_result_def acc simp flip: take_map)
qed

section \<open>Properties\<close>

text \<open>A conduit of two frames for one-byte events, and a domain whose sink keeps the payloads.\<close>

definition tiny :: net_conduit where
  "tiny = bind_socket 3 (net_init (replicate 2 (replicate 64 0)) (replicate 64 0))"

definition log_env :: "(unit, unit, unit, u8 list list) rx_env" where
  "log_env = \<lparr>make_event = Pair (event_ptr_of (Some ()) (Some ()) (Some ())), copy_object = (\<lambda>p b w. w @ [b]),
     on_sink = Pair, give_back = (\<lambda>cs w. w)\<rparr>"

lemma deliver_log_env [simp]: "deliver log_env b w = w @ [b]"
  by (simp add: deliver_def log_env_def event_ptr_of_def event_ptr_get_def)

text \<open>A domain of one event, that comes back at the end of its scope.\<close>

definition cell_env :: "(unit, unit, unit, u8 list option) rx_env" where
  "cell_env =
     \<lparr>make_event = (\<lambda>w. if w = None then (event_ptr_of (Some ()) (Some ()) (Some ()), Some []) else (event_ptr_default, w)),
      copy_object = (\<lambda>p b w. Some b), on_sink = Pair, give_back = (\<lambda>cs w. if cs = [] then w else None)\<rparr>"

lemma copies_cell_env: "copies (\<lambda>w p. the w) cell_env"
  by (simp add: copies_def cell_env_def)

lemma deliver_cell_env: "deliver (recorded (\<lambda>w p. the w) cell_env) b (None, [], []) = (None, [True], [b])"
  by (simp add: deliver_def recorded_def cell_env_def event_ptr_defs)

lemma frame_size_1 [simp]: "frame_size 1 = 64" "frame_size (Suc 0) = 64"
  by (simp_all add: frame_size_def)

lemma tiny_inv: "tx_inv 1 1 (tiny\<lparr>tx_head := 1\<rparr>)" "rx_inv 1 tiny" "\<not> is_dead tiny" "rx_bytes_read tiny = 0"
    "rx_staged tiny = []"
  by (simp_all add: tx_inv_def rx_inv_def rx_staged_def tiny_def bind_socket_def net_init_def)

lemma tiny_slot: "slot (tiny\<lparr>tx_head := h\<rparr>) 0 = 0" "slot tiny 0 = 0"
  by (simp_all add: slot_def)

text \<open>\<open>poll_tx\<close> hands the kernel the pending bytes of the ring in order, across partial sends: as long
  as the kernel never takes more than it is offered, the poll ends, what it sent is the front of
  what was pending, and a connection that fails keeps the unfinished frame whole for the next one.\<close>

theorem poll_tx_sends_in_order:
  assumes "tx_inv k sz nc" "\<not> is_dead nc" "poll_tx ewb sz answers nc wire \<noteq> Fault"
    "length (tx_pending nc) \<le> length answers"
  shows "\<exists>nc' sent. poll_tx ewb sz answers nc wire = Done (nc', wire @ sent) \<and> tx_inv k sz nc' \<and>
    tx_head nc' = tx_head nc \<and>
    (\<not> is_dead nc' \<longrightarrow> sent @ tx_pending nc' = tx_pending nc) \<and>
    (is_dead nc' \<longrightarrow> tx_inflight_offset nc' = 0 \<and>
      (\<exists>done < frame_size sz. sent @ drop done (tx_pending nc') = tx_pending nc))"
proof -
  let ?loop = "poll_tx_loop ewb (frame_size sz) (tx_head nc) answers (tx_tail nc) nc wire"
  have "?loop \<noteq> Fault" using assms(2,3) by (auto simp: poll_tx_def)
  then obtain tail nc1 wire1 where loop: "?loop = Done (tail, nc1, wire1)"
    using poll_tx_loop_finishes [of ewb sz nc answers "tx_tail nc" wire k] assms(1,4) by auto
  obtain sent where sent: "wire1 = wire @ sent" "sent_from k sz nc sent (nc1\<lparr>tx_tail := tail\<rparr>)"
    using poll_tx_loop_sends [OF loop _ assms(2), of k] assms(1) by auto
  then have "poll_tx ewb sz answers nc wire = Done (nc1\<lparr>tx_tail := tail\<rparr>, wire @ sent)"
    using loop assms(2) by (simp add: poll_tx_def)
  moreover have "\<exists>done < frame_size sz. sent @ drop done (tx_pending (nc1\<lparr>tx_tail := tail\<rparr>)) = tx_pending nc"
    if "is_dead (nc1\<lparr>tx_tail := tail\<rparr>)"
    using sent(2) that by (auto simp: sent_from_def tx_pending_def)
  ultimately show ?thesis using sent(2) by (auto simp: sent_from_def tx_pending_def)
qed

theorem poll_tx_sends_in_order_witness:
  "\<exists>nc' sent. poll_tx 11 1 ((64, 0) # replicate 63 (0, 0)) (tiny\<lparr>tx_head := 1\<rparr>) [] = Done (nc', sent) \<and> tx_inv 1 1 nc'"
proof -
  let ?nc = "tiny\<lparr>tx_head := 1\<rparr>" and ?answers = "(64, 0) # replicate 63 (0, 0) :: (int \<times> int) list"
  have "poll_tx 11 1 ?answers ?nc [] \<noteq> Fault"
    by (simp add: poll_tx_def tiny_def bind_socket_def net_init_def eval_nat_numeral)
  moreover have "length (tx_pending ?nc) \<le> length ?answers"
    by (simp add: tx_pending_def tx_frames_def tiny_def bind_socket_def net_init_def)
  ultimately show ?thesis
    using poll_tx_sends_in_order [OF tiny_inv(1), of 11 ?answers "[]"] tiny_inv(3) by auto
qed

text \<open>However the kernel cuts the incoming bytes into chunks, \<open>poll_rx\<close> delivers to the sink exactly the
  payloads of the complete frames, in order, up to the first frame of another type; such a frame
  kills the conduit and resets its staging, otherwise the unfinished frame stays staged.\<close>

theorem poll_rx_reassembles:
  assumes "rx_inv sz nc" "\<not> is_dead nc" "fits (frame_size sz) (rx_bytes_read nc) chunks"
  shows "rx_result env tid sz (rx_staged nc @ concat chunks) w
    (poll_rx env ewb tid sz (map Recv_Data chunks @ [Recv_Fail ewb]) nc w)"
  using poll_rx_loop_reassembles [OF assms] assms(2) by (simp add: poll_rx_def)

theorem poll_rx_reassembles_witness:
  "\<exists>nc'. poll_rx log_env 11 0 1 (map Recv_Data [replicate 30 0, replicate 34 0] @ [Recv_Fail 11]) tiny [] =
     Done (nc', [[0]]) \<and> \<not> is_dead nc'"
proof -
  let ?z = "replicate 64 0 :: u8 list"
  have z: "replicate 30 0 @ replicate 34 0 = ?z" by (simp flip: replicate_add)
  have id: "frame_type_id ?z = 0" by (simp add: frame_type_id_def)
  have "frames_of 64 ?z = [?z]" using frames_of_frame [of 64 ?z "[]"] by (simp add: frames_of_short)
  then show ?thesis
    using poll_rx_reassembles [OF tiny_inv(2,3), of "[replicate 30 0, replicate 34 0]" log_env 0 "[]" 11]
    by (auto simp: rx_result_def tiny_inv z id good_frames_def frame_payload_def)
qed

text \<open>C13: End to end: whatever the sender pushes and polls, and whatever part of its bytes has arrived and in
  whatever chunks, \<open>poll_rx\<close> ends with a live conduit and has asked the domain for one event for each
  frame that has arrived completely; the sink is called once for each event the domain made, in order, and
  the object it finds behind the pointer is then exactly the one that the sender's conduit accepted in
  that place. An object is lost only where the domain had no event for it. Of the domain, it is assumed only
  that \<open>memcpy\<close> into an event it has just made can be read back.\<close>

theorem net_end_to_end:
  assumes "k < 64" "length ring = 2 ^ k" "\<forall>f \<in> set ring. length f = frame_size sz"
    and "\<forall>p. length (deref p) = sz" "length ops < 2 ^ 64"
    and "tx_run ewb tid sz deref ops (bind_socket fd (net_init ring staging)) [] [] = Done (nc, wire, acc)"
    and "rx_inv sz rc" "rx_bytes_read rc = 0" "\<not> is_dead rc"
    and "prefix (concat chunks) wire" "fits (frame_size sz) 0 chunks"
    and "copies object env"
  shows "\<exists>rc' w' made.
    poll_rx env ewb tid sz (map Recv_Data chunks @ [Recv_Fail ewb]) rc w = Done (rc', w') \<and>
    poll_rx (recorded object env) ewb tid sz (map Recv_Data chunks @ [Recv_Fail ewb]) rc (w, [], []) =
      Done (rc', w', made, map fst (filter snd (zip acc made))) \<and>
    length made = length (concat chunks) div frame_size sz \<and> length made \<le> length acc \<and> \<not> is_dead rc'"
proof -
  let ?n = "length (concat chunks) div frame_size sz"
  let ?answers = "map Recv_Data chunks @ [Recv_Fail ewb]"
  obtain rc1 where plain: "poll_rx env ewb tid sz ?answers rc w = Done (rc1, fold (deliver env) (take ?n acc) w)"
      "\<not> is_dead rc1" "?n \<le> length acc"
    using arrived_delivered [OF assms(1-11), of env w] by (elim exE conjE)
  obtain rc2 where kept: "poll_rx (recorded object env) ewb tid sz ?answers rc (w, [], []) =
      Done (rc2, fold (deliver (recorded object env)) (take ?n acc) (w, [], []))"
    using arrived_delivered [OF assms(1-11), of "recorded object env" "(w, [], [])"] by (elim exE conjE)
  obtain made where made: "length made = ?n" "fold (deliver (recorded object env)) (take ?n acc) (w, [], []) =
      (fold (deliver env) (take ?n acc) w, made, map fst (filter snd (zip (take ?n acc) made)))"
    using fold_recorded [OF assms(12), of "take ?n acc" w "[]" "[]"] plain(3) by auto
  have "rc1 = rc2" using rx_conduit_same [OF plain(1) kept] .
  then show ?thesis using plain kept made zip_take_made [of made acc] by auto
qed

theorem net_end_to_end_witness:
  "\<exists>nc wire rc'. tx_run 11 5 1 (\<lambda>_. [7]) [Tx_Push (event_ptr_of (Some ()) (Some ()) (Some ())), Tx_Poll [(64, 0)]] tiny [] [] =
       Done (nc, wire, [[7]]) \<and>
     poll_rx (recorded (\<lambda>w p. the w) cell_env) 11 5 1 (map Recv_Data [take 20 wire, drop 20 wire] @ [Recv_Fail 11]) tiny
       (None, [], []) = Done (rc', None, [True], [[7]])"
proof -
  let ?ops = "[Tx_Push (event_ptr_of (Some ()) (Some ()) (Some ())), Tx_Poll [(64, 0)]] :: (unit, unit, unit) tx_op list"
  obtain nc wire where run: "tx_run 11 5 1 (\<lambda>_. [7]) ?ops tiny [] [] = Done (nc, wire, [[7]])" "length wire = 64"
    by (simp add: tiny_def bind_socket_def net_init_def net_push_def event_ptr_defs poll_tx_def write_frame_def
        u32_bytes_def slot_def capacity_def)
  have wire: "wire \<noteq> []" using run(2) by auto
  let ?chunks = "[take 20 wire, drop 20 wire]" and ?env = "recorded (\<lambda>w p. the w) cell_env"
  note ends = tiny_inv(2-4) and run' = run(1) [unfolded tiny_def]
  obtain rc1 where "poll_rx ?env 11 5 1 (map Recv_Data ?chunks @ [Recv_Fail 11]) tiny (None, [], []) =
      Done (rc1, None, [True], [[7]])"
    using arrived_delivered [OF _ _ _ _ _ run' tiny_inv(2,4,3), of 1 ?chunks ?env "(None, [], [])"] run(2) wire
    by (auto simp: deliver_cell_env)
  then show ?thesis
    using net_end_to_end [OF _ _ _ _ _ run' tiny_inv(2,4,3), of 1 ?chunks "\<lambda>w p. the w" cell_env None]
      run wire copies_cell_env by auto
qed

end
