(* ===== verification/Cpu_Affinity.thy ===== *)
theory Cpu_Affinity
  imports Conduit_Prelude
begin

text \<open>
  The set of processors a thread is allowed to run on, as \<open>node_runtime\<close> and \<open>environment\<close> build it for
  \<open>pthread_setaffinity_np\<close>. The answer of that call to a set is a parameter, zero for success.
\<close>

type_synonym setaffinity = "nat set \<Rightarrow> int"

text \<open>\<open>CPU_ZERO\<close> and \<open>CPU_SET\<close>: a \<open>cpu_set_t\<close> has 1024 bits, and a number outside sets none.\<close>

definition cpu_set :: "int \<Rightarrow> nat set" where
  "cpu_set core_id = (if 0 \<le> core_id \<and> core_id < 1024 then {nat core_id} else {})"

definition set_affinity :: "setaffinity \<Rightarrow> int \<Rightarrow> nat set \<Rightarrow> bool \<times> nat set" where
  "set_affinity sched core_id cpus =
     (if sched (cpu_set core_id) \<noteq> 0 then (False, cpus) else (True, cpu_set core_id))"

end
