(* ===== verification/Decimal.thy ===== *)
theory Decimal
  imports Conduit_Prelude
begin

text \<open>
  \<open>std::to_string\<close> on unsigned integers, which the logger, the exporters and the gateways use for their
  texts: decimal digits without leading zeros. Reading the digits back gives the number.
\<close>

definition digit :: "nat \<Rightarrow> char" where
  "digit d = char_of (48 + d)"

fun to_string :: "nat \<Rightarrow> string" where
  "to_string n = (if n < 10 then [digit n] else to_string (n div 10) @ [digit (n mod 10)])"

declare to_string.simps [simp del]

definition digit_value :: "char \<Rightarrow> nat" where
  "digit_value c = of_char c - 48"

definition read_decimal :: "string \<Rightarrow> nat" where
  "read_decimal = foldl (\<lambda>a c. 10 * a + digit_value c) 0"

definition is_digit :: "char \<Rightarrow> bool" where
  "is_digit c \<longleftrightarrow> of_char c \<in> {48..<58 :: nat}"

lemma of_char_digit: "d < 10 \<Longrightarrow> of_char (digit d) = 48 + d"
  by (simp add: digit_def of_char_of)

lemma digit_value_digit [simp]: "d < 10 \<Longrightarrow> digit_value (digit d) = d"
  by (simp add: digit_value_def of_char_digit)

lemma is_digit_digit [simp]: "d < 10 \<Longrightarrow> is_digit (digit d)"
  by (simp add: is_digit_def of_char_digit)

lemma digit_chars [simp]:
  "digit 0 = CHR ''0''" "digit (Suc 0) = CHR ''1''" "digit 1 = CHR ''1''" "digit 2 = CHR ''2''" "digit 3 = CHR ''3''" "digit 4 = CHR ''4''"
  "digit 5 = CHR ''5''" "digit 6 = CHR ''6''" "digit 7 = CHR ''7''" "digit 8 = CHR ''8''" "digit 9 = CHR ''9''"
  by code_simp+

lemma to_string_digits: "c \<in> set (to_string n) \<Longrightarrow> is_digit c"
  by (induction n rule: to_string.induct) (subst (asm) (2) to_string.simps, auto split: if_splits)

lemma to_string_nonempty [simp]: "to_string n \<noteq> []"
  by (subst to_string.simps) simp

lemma read_to_string [simp]: "read_decimal (to_string n) = n"
proof (induction n rule: to_string.induct)
  case (1 n)
  show ?case
  proof (cases "n < 10")
    case True
    then show ?thesis by (subst to_string.simps) (simp add: read_decimal_def)
  next
    case False
    then have "read_decimal (to_string n) = 10 * read_decimal (to_string (n div 10)) + n mod 10"
      by (subst to_string.simps) (simp add: read_decimal_def)
    with False 1 show ?thesis by simp
  qed
qed

lemma to_string_inject: "to_string a = to_string b \<longleftrightarrow> a = b"
  by (metis read_to_string)

lemma digit_not_special: "is_digit c \<Longrightarrow> c \<noteq> CHR ''{'' \<and> c \<noteq> CHR ''}'' \<and> c \<noteq> CHR '' '' \<and> c \<noteq> CHR 0x0A \<and> c \<noteq> CHR 0x0D"
  by (auto simp: is_digit_def)

end
