(* ===== verification/Double.thy ===== *)
theory Double
  imports Decimal
begin

text \<open>
  The C++ type \<open>double\<close> as the examples and the telemetry gateway use it: IEEE-754 binary64 with
  rounding to nearest, ties to even. A finite number is \<open>Dbl m e\<close>, standing for \<open>m * 2 ^ e\<close>; several
  pairs stand for the same number, and zero has no sign. Sums, products, quotients and literals
  are computed exactly on integers and rounded once. The comparisons are false on a NaN.
\<close>

datatype double = Dbl int int | Dbl_Inf bool | Dbl_NaN

section \<open>Rounding\<close>

fun bit_count :: "nat \<Rightarrow> nat" where
  "bit_count n = (if n = 0 then 0 else Suc (bit_count (n div 2)))"

declare bit_count.simps [simp del]

lemma bit_count_numeral [simp]:
  "bit_count 0 = 0" "bit_count (Suc 0) = 1" "bit_count 1 = 1"
  "bit_count (numeral (Num.Bit0 n)) = Suc (bit_count (numeral n))"
  "bit_count (numeral (Num.Bit1 n)) = Suc (bit_count (numeral n))"
  by (simp_all add: bit_count.simps [of 0] bit_count.simps [of 1] bit_count.simps [of "Suc 0"]
      bit_count.simps [of "numeral (Num.Bit0 n)"] bit_count.simps [of "numeral (Num.Bit1 n)"])

text \<open>\<open>m / 2 ^ k\<close> to the nearest integer, ties to even.\<close>

definition round_even :: "int \<Rightarrow> nat \<Rightarrow> int" where
  "round_even m k =
     (let q = m div 2 ^ k; r = m mod 2 ^ k
      in if 2 * r < 2 ^ k then q else if 2 ^ k < 2 * r then q + 1 else if even q then q else q + 1)"

text \<open>\<open>m * 2 ^ e\<close> to the nearest double: at most 53 bits, no unit below \<open>2 ^ -1074\<close>, and infinity from
  \<open>2 ^ 1024\<close> on.\<close>

definition round_double :: "int \<Rightarrow> int \<Rightarrow> double" where
  "round_double m e =
     (let k = max (bit_count (nat \<bar>m\<bar>) - 53) (nat (- 1074 - e));
          q = round_even m k; f = e + int k
      in if q = 0 then Dbl 0 0
         else if f \<le> 971 then
           if \<bar>q\<bar> < 2 ^ 53 then Dbl q f
           else if f = 971 then Dbl_Inf (q < 0) else Dbl (q div 2) (f + 1)
         else
           let q' = q * 2 ^ nat (f - 971)
           in if \<bar>q'\<bar> < 2 ^ 53 then Dbl q' 971 else Dbl_Inf (q < 0))"

section \<open>Operations\<close>

text \<open>The quotient \<open>a / b * 2 ^ e\<close> for positive \<open>b\<close>: enough bits of it, and one that says whether
  something is left over.\<close>

definition dbl_ratio :: "int \<Rightarrow> int \<Rightarrow> int \<Rightarrow> double" where
  "dbl_ratio a b e =
     (let s = bit_count (nat b) + 56 - bit_count (nat \<bar>a\<bar>);
          q = a * 2 ^ s div b; r = a * 2 ^ s mod b
      in round_double (2 * q + (if r = 0 then 0 else 1)) (e - int s - 1))"

definition dbl_lit :: "int \<Rightarrow> nat \<Rightarrow> double" where
  "dbl_lit digits places = dbl_ratio digits (10 ^ places) 0"

definition dbl_of_nat :: "nat \<Rightarrow> double" where
  "dbl_of_nat n = round_double (int n) 0"

fun dbl_neg :: "double \<Rightarrow> double" where
  "dbl_neg (Dbl m e) = Dbl (- m) e"
| "dbl_neg (Dbl_Inf s) = Dbl_Inf (\<not> s)"
| "dbl_neg Dbl_NaN = Dbl_NaN"

fun dbl_add :: "double \<Rightarrow> double \<Rightarrow> double" where
  "dbl_add (Dbl a e) (Dbl b f) =
     (let g = min e f in round_double (a * 2 ^ nat (e - g) + b * 2 ^ nat (f - g)) g)"
| "dbl_add (Dbl_Inf s) (Dbl_Inf t) = (if s = t then Dbl_Inf s else Dbl_NaN)"
| "dbl_add (Dbl_Inf s) (Dbl _ _) = Dbl_Inf s"
| "dbl_add (Dbl _ _) (Dbl_Inf t) = Dbl_Inf t"
| "dbl_add _ _ = Dbl_NaN"

definition dbl_sub :: "double \<Rightarrow> double \<Rightarrow> double" where
  "dbl_sub x y = dbl_add x (dbl_neg y)"

fun dbl_mul :: "double \<Rightarrow> double \<Rightarrow> double" where
  "dbl_mul (Dbl a e) (Dbl b f) = round_double (a * b) (e + f)"
| "dbl_mul (Dbl_Inf s) (Dbl_Inf t) = Dbl_Inf (s \<noteq> t)"
| "dbl_mul (Dbl_Inf s) (Dbl b _) = (if b = 0 then Dbl_NaN else Dbl_Inf (s \<noteq> (b < 0)))"
| "dbl_mul (Dbl a _) (Dbl_Inf t) = (if a = 0 then Dbl_NaN else Dbl_Inf ((a < 0) \<noteq> t))"
| "dbl_mul _ _ = Dbl_NaN"

fun dbl_div :: "double \<Rightarrow> double \<Rightarrow> double" where
  "dbl_div (Dbl a e) (Dbl b f) =
     (if b = 0 then (if a = 0 then Dbl_NaN else Dbl_Inf (a < 0))
      else dbl_ratio (if b < 0 then - a else a) \<bar>b\<bar> (e - f))"
| "dbl_div (Dbl_Inf s) (Dbl b _) = Dbl_Inf (s \<noteq> (b < 0))"
| "dbl_div (Dbl _ _) (Dbl_Inf _) = Dbl 0 0"
| "dbl_div _ _ = Dbl_NaN"

fun dbl_less :: "double \<Rightarrow> double \<Rightarrow> bool" where
  "dbl_less (Dbl a e) (Dbl b f) \<longleftrightarrow> (let g = min e f in a * 2 ^ nat (e - g) < b * 2 ^ nat (f - g))"
| "dbl_less (Dbl_Inf s) (Dbl_Inf t) \<longleftrightarrow> s \<and> \<not> t"
| "dbl_less (Dbl_Inf s) (Dbl _ _) \<longleftrightarrow> s"
| "dbl_less (Dbl _ _) (Dbl_Inf t) \<longleftrightarrow> \<not> t"
| "dbl_less _ _ \<longleftrightarrow> False"

text \<open>\<open>std::to_string\<close>: six decimals of the exact value, rounded to nearest, ties to even.\<close>

definition millionths :: "int \<Rightarrow> int \<Rightarrow> nat" where
  "millionths m e = nat (if 0 \<le> e then \<bar>m\<bar> * 1000000 * 2 ^ nat e else round_even (\<bar>m\<bar> * 1000000) (nat (- e)))"

definition six_digits :: "nat \<Rightarrow> string" where
  "six_digits n = (let s = to_string n in replicate (6 - length s) (CHR ''0'') @ s)"

fun dbl_to_string :: "double \<Rightarrow> string" where
  "dbl_to_string (Dbl m e) =
     (let n = millionths m e
      in (if m < 0 then ''-'' else []) @ to_string (n div 1000000) @ ''.'' @ six_digits (n mod 1000000))"
| "dbl_to_string (Dbl_Inf s) = (if s then ''-inf'' else ''inf'')"
| "dbl_to_string Dbl_NaN = ''nan''"

section \<open>Rounding is to the nearest representable number\<close>

fun dbl_ok :: "double \<Rightarrow> bool" where
  "dbl_ok (Dbl m e) \<longleftrightarrow> \<bar>m\<bar> < 2 ^ 53 \<and> - 1074 \<le> e \<and> e \<le> 971"
| "dbl_ok _ \<longleftrightarrow> True"

lemma bit_count_bound: "n < 2 ^ bit_count n"
proof (induction n rule: bit_count.induct)
  case (1 n)
  show ?case
  proof (cases "n = 0")
    case False
    then have "n div 2 < 2 ^ bit_count (n div 2)" using 1 by simp
    then show ?thesis using False by (subst bit_count.simps) auto
  qed (simp add: bit_count.simps)
qed

lemma bit_count_small: "n < 2 ^ k \<Longrightarrow> bit_count n \<le> k"
proof (induction k arbitrary: n)
  case (Suc k)
  then have "bit_count (n div 2) \<le> k" by simp
  then show ?case by (subst bit_count.simps) simp
qed (simp add: bit_count.simps)

lemma round_even_0 [simp]: "round_even m 0 = m"
  by (simp add: round_even_def)

text \<open>The error is at most half a unit.\<close>

lemma round_even_error: "2 * \<bar>round_even m k * 2 ^ k - m\<bar> \<le> 2 ^ k"
proof -
  define P :: int where "P = 2 ^ k"
  define r where "r = m mod P"
  define d where "d = round_even m k * P - m"
  have r: "0 \<le> r" "r < P" by (simp_all add: r_def P_def)
  have "m = m div P * P + r" by (simp add: r_def)
  then have "d = - r \<and> 2 * r \<le> P \<or> d = P - r \<and> P \<le> 2 * r"
    by (auto simp: d_def round_even_def Let_def r_def algebra_simps simp flip: P_def)
  then have "2 * \<bar>d\<bar> \<le> P" using r by auto
  then show ?thesis by (simp add: d_def P_def)
qed

lemma round_even_bound:
  assumes "\<bar>m\<bar> \<le> B * 2 ^ k" "0 \<le> B"
  shows "\<bar>round_even m k\<bar> \<le> B"
proof -
  define P :: int where "P = 2 ^ k"
  have P: "0 < P" by (simp add: P_def)
  have "\<bar>m\<bar> \<le> B * P" "2 * \<bar>round_even m k * P - m\<bar> \<le> P"
    using assms(1) round_even_error [of m k] by (simp_all add: P_def)
  then have "2 * \<bar>round_even m k * P\<bar> \<le> 2 * (B * P) + P"
    using abs_triangle_ineq [of m "round_even m k * P - m"] by simp
  then have "2 * \<bar>round_even m k\<bar> * P \<le> (2 * B + 1) * P" using P by (simp add: abs_mult algebra_simps)
  then have "2 * \<bar>round_even m k\<bar> \<le> 2 * B + 1" using P by (simp only: mult_le_cancel_right_pos)
  then show ?thesis by linarith
qed

theorem round_double_ok: "dbl_ok (round_double m e)"
proof -
  define k where "k = max (bit_count (nat \<bar>m\<bar>) - 53) (nat (- 1074 - e))"
  define q where "q = round_even m k"
  have "bit_count (nat \<bar>m\<bar>) \<le> 53 + k" by (auto simp: k_def)
  then have "nat \<bar>m\<bar> < 2 ^ (53 + k)"
    using bit_count_bound [of "nat \<bar>m\<bar>"] power_increasing [of "bit_count (nat \<bar>m\<bar>)" "53 + k" "2 :: nat"] by linarith
  then have "\<bar>m\<bar> < 2 ^ (53 + k)" by (simp add: nat_less_iff)
  then have "\<bar>q\<bar> \<le> 2 ^ 53" unfolding q_def by (intro round_even_bound) (simp_all add: power_add)
  moreover have "- 1074 \<le> e + int k" by (auto simp: k_def)
  ultimately show ?thesis
    by (auto simp: round_double_def Let_def simp flip: k_def q_def)
qed

text \<open>A number that fits is not changed.\<close>

lemma round_double_exact:
  assumes "\<bar>m\<bar> < 2 ^ 53" "- 1074 \<le> e" "e \<le> 971"
  shows "round_double m e = (if m = 0 then Dbl 0 0 else Dbl m e)"
proof -
  have "bit_count (nat \<bar>m\<bar>) \<le> 53" using assms(1) by (intro bit_count_small) (simp add: nat_less_iff)
  then show ?thesis using assms by (simp add: round_double_def)
qed

theorem dbl_ops_ok:
  "dbl_ok x \<Longrightarrow> dbl_ok y \<Longrightarrow> dbl_ok (dbl_add x y) \<and> dbl_ok (dbl_mul x y) \<and> dbl_ok (dbl_div x y) \<and> dbl_ok (dbl_neg x)"
  by (cases x; cases y) (auto simp: round_double_ok dbl_ratio_def Let_def)

text \<open>Evaluation on numerals.\<close>

lemmas dbl_eval = dbl_lit_def dbl_ratio_def dbl_of_nat_def dbl_sub_def round_double_def round_even_def

end
