(* ===== verification/Console.thy ===== *)
theory Console
  imports Double
begin

text \<open>\<open>std::cout\<close> as what is inserted into it, one entry for each output statement; the text a number
  is printed as is left open.\<close>

datatype put = Text string | Num int | Real double | Newline | Fixed | Precision nat

type_synonym console = "put list list"

text \<open>The numbers of the output statements of one form.\<close>

definition printed :: "(put list \<Rightarrow> 'b option) \<Rightarrow> console \<Rightarrow> 'b list" where
  "printed f out = List.map_filter f out"

lemma printed_append [simp]: "printed f (a @ b) = printed f a @ printed f b"
  by (simp add: printed_def map_filter_def)

lemma printed_Cons [simp]: "printed f (l # out) = (case f l of None \<Rightarrow> printed f out | Some x \<Rightarrow> x # printed f out)"
  by (simp add: printed_def map_filter_def split: option.split)

lemma printed_Nil [simp]: "printed f [] = []"
  by (simp add: printed_def map_filter_def)

end
