(* ===== verification/Node_Runtime.thy ===== *)
theory Node_Runtime
  imports Net_Conduit Cpu_Affinity Console
begin

text \<open>
  \<open>node_runtime\<close> of \<open>include/conduit/runtime/node_runtime.hpp\<close>: a fixed tuple of bindings of a
  networked conduit to a sink, polled in order until another thread calls \<open>stop\<close>. Each sweep is given the
  kernel's answers for every binding, and whether \<open>stop\<close> was called since the last one.
\<close>

section \<open>Bindings and the loop\<close>

text \<open>A binding: the conduit with its event type, the sink and domain it delivers to, the bytes its kernel
  has taken, and the callback for a dead link.\<close>

record ('p, 'd, 'c, 'w) binding =
  conduit_of :: net_conduit
  type_id_of :: u32
  size_of :: nat
  sink_of :: "('p, 'd, 'c, 'w) rx_env"
  wire_of :: "u8 list"
  on_dead :: "(net_conduit \<Rightarrow> 'w \<Rightarrow> net_conduit \<times> 'w) option"

definition bind_conduit :: "net_conduit \<Rightarrow> u32 \<Rightarrow> nat \<Rightarrow> ('p, 'd, 'c, 'w) rx_env \<Rightarrow> ('p, 'd, 'c, 'w) binding" where
  "bind_conduit c tid sz s =
     \<lparr>conduit_of = c, type_id_of = tid, size_of = sz, sink_of = s, wire_of = [], on_dead = None\<rparr>"

type_synonym io = "recv_answer list \<times> (int \<times> int) list"

definition poll_single ::
  "int \<Rightarrow> io \<Rightarrow> ('p, 'd, 'c, 'w) binding \<Rightarrow> 'w \<Rightarrow> (('p, 'd, 'c, 'w) binding \<times> 'w) outcome" where
  "poll_single ewb io b w =
     (if is_alive (conduit_of b) then
        bind_outcome (poll_rx (sink_of b) ewb (type_id_of b) (size_of b) (fst io) (conduit_of b) w)
          (\<lambda>(nc1, w1). bind_outcome (poll_tx ewb (size_of b) (snd io) nc1 (wire_of b))
             (\<lambda>(nc2, wire1). Done (b\<lparr>conduit_of := nc2, wire_of := wire1\<rparr>, w1)))
      else
        case on_dead b of
          None \<Rightarrow> Done (b, w)
        | Some f \<Rightarrow> let (nc1, w1) = f (conduit_of b) w in Done (b\<lparr>conduit_of := nc1, on_dead := None\<rparr>, w1))"

record ('p, 'd, 'c, 'w) node_runtime =
  bindings :: "('p, 'd, 'c, 'w) binding list"
  is_running :: bool

text \<open>One pass over the tuple, in order.\<close>

fun sweep_bindings ::
  "int \<Rightarrow> io list \<Rightarrow> ('p, 'd, 'c, 'w) binding list \<Rightarrow> 'w \<Rightarrow> (('p, 'd, 'c, 'w) binding list \<times> 'w) outcome" where
  "sweep_bindings ewb ios [] w = Done ([], w)"
| "sweep_bindings ewb [] (b # bs) w = Pending"
| "sweep_bindings ewb (io # ios) (b # bs) w =
     bind_outcome (poll_single ewb io b w) (\<lambda>(b1, w1).
       bind_outcome (sweep_bindings ewb ios bs w1) (\<lambda>(bs1, w2). Done (b1 # bs1, w2)))"

definition sweep ::
  "int \<Rightarrow> io list \<Rightarrow> ('p, 'd, 'c, 'w) node_runtime \<Rightarrow> 'w \<Rightarrow> (('p, 'd, 'c, 'w) node_runtime \<times> 'w) outcome" where
  "sweep ewb ios n w =
     map_outcome_result (\<lambda>(bs, w1). (n\<lparr>bindings := bs\<rparr>, w1)) (sweep_bindings ewb ios (bindings n) w)"

definition stop :: "('p, 'd, 'c, 'w) node_runtime \<Rightarrow> ('p, 'd, 'c, 'w) node_runtime" where
  "stop n = n\<lparr>is_running := False\<rparr>"

fun run_loop ::
  "int \<Rightarrow> (bool \<times> io list) list \<Rightarrow> ('p, 'd, 'c, 'w) node_runtime \<Rightarrow> 'w \<Rightarrow>
   (('p, 'd, 'c, 'w) node_runtime \<times> 'w) outcome" where
  "run_loop ewb [] n w = Pending"
| "run_loop ewb ((stopped, ios) # rest) n w =
     (let n1 = (if stopped then stop n else n)
      in if is_running n1
         then bind_outcome (sweep ewb ios n1 w) (\<lambda>(n2, w2). run_loop ewb rest n2 w2)
         else Done (n1, w))"

definition run ::
  "int \<Rightarrow> (bool \<times> io list) list \<Rightarrow> ('p, 'd, 'c, 'w) node_runtime \<Rightarrow> 'w \<Rightarrow>
   (('p, 'd, 'c, 'w) node_runtime \<times> 'w) outcome" where
  "run ewb schedule n w = run_loop ewb schedule (n\<lparr>is_running := True\<rparr>) w"

text \<open>The thread is pinned to its core first, if it is given one; when that fails the loop runs all the same,
  wherever it may run. The result is the warning, the processors and what the loop does.\<close>

definition pin_thread_to_core :: "setaffinity \<Rightarrow> int \<Rightarrow> nat set \<Rightarrow> bool \<times> nat set" where
  "pin_thread_to_core sched core_id cpus = set_affinity sched core_id cpus"

definition run_on ::
  "setaffinity \<Rightarrow> int \<Rightarrow> nat set \<Rightarrow> int \<Rightarrow> (bool \<times> io list) list \<Rightarrow> ('p, 'd, 'c, 'w) node_runtime \<Rightarrow> 'w \<Rightarrow>
   console \<times> nat set \<times> (('p, 'd, 'c, 'w) node_runtime \<times> 'w) outcome" where
  "run_on sched core_id cpus ewb schedule n w =
     (if 0 \<le> core_id then
        let (pinned, cpus1) = pin_thread_to_core sched core_id cpus
        in (if pinned then [] else [[Text ''[CONDUIT Warn] Failed to pin thread to core '', Num core_id, Newline]],
            cpus1, run ewb schedule n w)
      else ([], cpus, run ewb schedule n w))"

text \<open>Without a warning a node that was given a core runs there and nowhere else.\<close>

lemma run_on_core:
  assumes "run_on sched core_id cpus ewb schedule n w = (out, cpus', r)" "0 \<le> core_id" "core_id < 1024"
  shows "r = run ewb schedule n w \<and> (if out = [] then cpus' = {nat core_id} else cpus' = cpus)"
  using assms by (auto simp: run_on_def pin_thread_to_core_def set_affinity_def cpu_set_def split: if_splits)

section \<open>The loop stops when it is told to\<close>

fun sweeps ::
  "int \<Rightarrow> io list list \<Rightarrow> ('p, 'd, 'c, 'w) node_runtime \<Rightarrow> 'w \<Rightarrow>
   (('p, 'd, 'c, 'w) node_runtime \<times> 'w) outcome" where
  "sweeps ewb [] n w = Done (n, w)"
| "sweeps ewb (ios # rest) n w = bind_outcome (sweep ewb ios n w) (\<lambda>(n1, w1). sweeps ewb rest n1 w1)"

lemma sweep_running: "sweep ewb ios n w = Done (n', w') \<Longrightarrow> is_running n' = is_running n"
  by (cases "sweep_bindings ewb ios (bindings n) w") (auto simp: sweep_def)

lemma run_loop_stops:
  "is_running n \<Longrightarrow> sweeps ewb ioss n w = Done (n', w') \<Longrightarrow>
   run_loop ewb (map (Pair False) ioss @ (True, ios) # rest) n w = Done (stop n', w')"
proof (induction ioss arbitrary: n w)
  case Nil
  then show ?case by (simp add: stop_def)
next
  case (Cons ios' ioss)
  then obtain n1 w1 where "sweep ewb ios' n w = Done (n1, w1)" "sweeps ewb ioss n1 w1 = Done (n', w')"
    by (cases "sweep ewb ios' n w") auto
  with Cons sweep_running [of ewb ios' n w n1 w1] show ?case by simp
qed

section \<open>Every sweep ends\<close>

text \<open>A kernel that has no more to give says so at some point, with an error, \<open>EWOULDBLOCK\<close> or the end of the
  stream; and it answers as many sends as the ring has bytes.\<close>

fun ends_rx :: "recv_answer list \<Rightarrow> bool" where
  "ends_rx [] = False"
| "ends_rx (Recv_Data data # answers) = (data = [] \<or> ends_rx answers)"
| "ends_rx (Recv_Fail errno # answers) = True"

definition ring_of :: "('p, 'd, 'c, 'w) binding \<Rightarrow> nat \<times> nat" where
  "ring_of b = (length (tx_ring (conduit_of b)), size_of b)"

definition answers_all :: "nat \<times> nat \<Rightarrow> io \<Rightarrow> bool" where
  "answers_all ring io \<longleftrightarrow> ends_rx (fst io) \<and> fst ring * frame_size (snd ring) \<le> length (snd io)"

text \<open>A well-formed conduit, and a callback that leaves it well-formed.\<close>

definition steady :: "('p, 'd, 'c, 'w) binding \<Rightarrow> bool" where
  "steady b \<longleftrightarrow> (\<exists>k. tx_inv k (size_of b) (conduit_of b)) \<and>
     (\<forall>f k nc w. on_dead b = Some f \<longrightarrow> tx_inv k (size_of b) nc \<longrightarrow> tx_inv k (size_of b) (fst (f nc w)))"

lemma tx_inv_rx: "tx_inv k sz nc \<Longrightarrow> tx_inv k sz (nc\<lparr>rx_staging := s, rx_bytes_read := r\<rparr>)"
    "tx_inv k sz nc \<Longrightarrow> tx_inv k sz (nc\<lparr>rx_bytes_read := r\<rparr>)"
  by (simp_all add: tx_inv_def)

lemma tx_inv_mark_dead: "tx_inv k sz nc \<Longrightarrow> tx_inv k sz (mark_dead nc)"
  by (auto simp: tx_inv_def mark_dead_def)

lemma poll_rx_loop_ends:
  assumes "ends_rx answers" "tx_inv k sz nc" "poll_rx_loop env ewb tid sz' answers nc w \<noteq> Fault"
  shows "\<exists>nc' w'. poll_rx_loop env ewb tid sz' answers nc w = Done (nc', w') \<and> tx_inv k sz nc'"
  using assms
proof (induction answers arbitrary: nc w rule: ends_rx.induct)
  case (2 data answers)
  show ?case
  proof (cases "data = []")
    case True
    then show ?thesis using "2.prems" tx_inv_mark_dead by (auto simp: Let_def)
  next
    case False
    then show ?thesis
      using "2.prems" "2.IH" tx_inv_mark_dead tx_inv_rx by (simp add: Let_def split: if_splits)
  qed
next
  case (3 errno answers)
  then show ?case using tx_inv_mark_dead by auto
qed simp

lemma tx_pending_le:
  assumes "tx_inv k sz nc"
  shows "length (tx_pending nc) \<le> length (tx_ring nc) * frame_size sz"
proof -
  have "length (concat (tx_frames nc)) = length (tx_frames nc) * frame_size sz"
    using length_tx_frame [OF assms] by (simp add: length_concat sum_list_triv cong: map_cong)
  moreover have "length (tx_frames nc) \<le> length (tx_ring nc)"
    using assms by (simp add: tx_inv_def tx_frames_def)
  ultimately show ?thesis by (simp add: tx_pending_def mult_le_mono1 le_diff_conv trans_le_add1)
qed

lemma poll_tx_ends:
  assumes "tx_inv k sz nc" "length (tx_ring nc) * frame_size sz \<le> length answers"
    "poll_tx ewb sz answers nc wire \<noteq> Fault"
  shows "\<exists>nc' wire'. poll_tx ewb sz answers nc wire = Done (nc', wire') \<and> tx_inv k sz nc'"
proof (cases "is_dead nc")
  case True
  then show ?thesis using assms(1) by (simp add: poll_tx_def)
next
  case False
  let ?loop = "poll_tx_loop ewb (frame_size sz) (tx_head nc) answers (tx_tail nc) nc wire"
  have "?loop \<noteq> Fault" using False assms(3) by (auto simp: poll_tx_def)
  then obtain tail nc1 wire1 where loop: "?loop = Done (tail, nc1, wire1)"
    using poll_tx_loop_finishes [of ewb sz nc answers "tx_tail nc" wire k] assms(1,2) tx_pending_le [OF assms(1)]
    by auto
  then show ?thesis
    using poll_tx_loop_sends [OF loop _ False, of k] assms(1) False by (auto simp: poll_tx_def sent_from_def)
qed

lemma poll_single_ends:
  assumes "steady b" "answers_all (ring_of b) io" "poll_single ewb io b w \<noteq> Fault"
  shows "\<exists>b' w'. poll_single ewb io b w = Done (b', w') \<and> steady b' \<and> ring_of b' = ring_of b"
proof -
  obtain k where k: "tx_inv k (size_of b) (conduit_of b)" using assms(1) by (auto simp: steady_def)
  have ring: "length (tx_ring nc) = length (tx_ring (conduit_of b))" if "tx_inv k (size_of b) nc" for nc
    using that k by (simp add: tx_inv_def)
  show ?thesis
  proof (cases "is_alive (conduit_of b)")
    case True
    let ?rx = "poll_rx (sink_of b) ewb (type_id_of b) (size_of b) (fst io) (conduit_of b) w"
    have "?rx \<noteq> Fault" using assms(3) True by (auto simp: poll_single_def)
    then obtain nc1 w1 where rx: "?rx = Done (nc1, w1)" "tx_inv k (size_of b) nc1"
      using poll_rx_loop_ends [OF _ k, of "fst io" "sink_of b" ewb "type_id_of b" "size_of b" w] assms(2) k
      by (auto simp: poll_rx_def answers_all_def split: if_splits)
    moreover have "poll_tx ewb (size_of b) (snd io) nc1 (wire_of b) \<noteq> Fault"
      using assms(3) True rx(1) by (auto simp: poll_single_def)
    ultimately obtain nc2 wire2 where
      "poll_tx ewb (size_of b) (snd io) nc1 (wire_of b) = Done (nc2, wire2)" "tx_inv k (size_of b) nc2"
      using poll_tx_ends [of k "size_of b" nc1 "snd io" ewb "wire_of b"] assms(2) ring [of nc1]
      by (auto simp: answers_all_def ring_of_def)
    then show ?thesis using True rx(1) assms(1) ring by (auto simp: poll_single_def steady_def ring_of_def)
  next
    case False
    show ?thesis
    proof (cases "on_dead b")
      case None
      then show ?thesis using False assms(1) by (simp add: poll_single_def)
    next
      case (Some f)
      obtain nc1 w1 where f: "f (conduit_of b) w = (nc1, w1)" by fastforce
      have "tx_inv k (size_of b) (fst (f (conduit_of b) w))"
        using assms(1) k Some unfolding steady_def by blast
      then have "tx_inv k (size_of b) nc1" by (simp add: f)
      then show ?thesis using False Some f ring [of nc1] by (auto simp: poll_single_def steady_def ring_of_def)
    qed
  qed
qed

lemma sweep_bindings_ends:
  assumes "list_all steady bs" "list_all2 answers_all (map ring_of bs) ios" "sweep_bindings ewb ios bs w \<noteq> Fault"
  shows "\<exists>bs' w'. sweep_bindings ewb ios bs w = Done (bs', w') \<and> list_all steady bs' \<and> map ring_of bs' = map ring_of bs"
  using assms
proof (induction bs arbitrary: ios w)
  case (Cons b bs)
  obtain io ios' where ios: "ios = io # ios'" using Cons.prems(2) by (cases ios) auto
  have "poll_single ewb io b w \<noteq> Fault" using Cons.prems(3) ios by auto
  then obtain b' w1 where b: "poll_single ewb io b w = Done (b', w1)" "steady b'" "ring_of b' = ring_of b"
    using poll_single_ends [of b io ewb w] Cons.prems ios by auto
  have "sweep_bindings ewb ios' bs w1 \<noteq> Fault" using Cons.prems(3) ios b(1) by auto
  then show ?case using Cons.IH [of ios' w1] Cons.prems ios b by auto
qed simp

lemma sweeps_end:
  assumes "list_all steady (bindings n)" "\<forall>ios \<in> set ioss. list_all2 answers_all (map ring_of (bindings n)) ios"
    "sweeps ewb ioss n w \<noteq> Fault"
  shows "\<exists>n' w'. sweeps ewb ioss n w = Done (n', w')"
  using assms
proof (induction ioss arbitrary: n w)
  case (Cons ios ioss)
  have "sweep_bindings ewb ios (bindings n) w \<noteq> Fault" using Cons.prems(3) by (auto simp: sweep_def)
  then obtain bs w1 where bs: "sweep_bindings ewb ios (bindings n) w = Done (bs, w1)" "list_all steady bs"
      "map ring_of bs = map ring_of (bindings n)"
    using sweep_bindings_ends [of "bindings n" ios ewb w] Cons.prems by auto
  then show ?case using Cons.IH [of "n\<lparr>bindings := bs\<rparr>" w1] Cons.prems by (simp add: sweep_def)
qed simp

section \<open>Dead links\<close>

fun poll_many ::
  "int \<Rightarrow> io list \<Rightarrow> ('p, 'd, 'c, 'w) binding \<Rightarrow> 'w \<Rightarrow> (('p, 'd, 'c, 'w) binding \<times> 'w) outcome" where
  "poll_many ewb [] b w = Done (b, w)"
| "poll_many ewb (io # ios) b w = bind_outcome (poll_single ewb io b w) (\<lambda>(b1, w1). poll_many ewb ios b1 w1)"

lemma poll_many_dead: "\<not> is_alive (conduit_of b) \<Longrightarrow> on_dead b = None \<Longrightarrow> poll_many ewb ios b w = Done (b, w)"
  by (induction ios) (simp_all add: poll_single_def)

section \<open>Properties\<close>

text \<open>C26: A \<open>stop\<close> ends a running node. For well-formed conduits and a kernel whose every series of answers to
  \<open>recv\<close> comes to an end (no data now, an error, the end of the stream) and that never moves more bytes than it
  was asked to, every sweep over the bindings ends, though \<open>poll_rx\<close> drains in an endless loop; so
  the sweep in progress when \<open>stop\<close> is called ends too, the next test of the flag sees it, and \<open>run\<close>
  returns with the effects of exactly the sweeps begun before. A \<open>stop\<close> from before \<open>run\<close> has set the flag changes
  nothing at all.\<close>

theorem run_stops:
  assumes "list_all steady (bindings n)"
    and "\<forall>ios \<in> set ioss. list_all2 answers_all (map ring_of (bindings n)) ios"
    and "sweeps ewb ioss (n\<lparr>is_running := True\<rparr>) w \<noteq> Fault"
  shows "\<exists>n' w'. sweeps ewb ioss (n\<lparr>is_running := True\<rparr>) w = Done (n', w') \<and>
    run ewb (map (Pair False) ioss @ (True, ios) # rest) n w = Done (n'\<lparr>is_running := False\<rparr>, w') \<and>
    run ewb (map (Pair False) ioss @ (True, ios) # rest) (stop n) w = Done (n'\<lparr>is_running := False\<rparr>, w')"
proof -
  obtain n' w' where "sweeps ewb ioss (n\<lparr>is_running := True\<rparr>) w = Done (n', w')"
    using sweeps_end [of "n\<lparr>is_running := True\<rparr>" ioss ewb w] assms by auto
  then show ?thesis using run_loop_stops [of "n\<lparr>is_running := True\<rparr>" ewb ioss w n' w' ios rest]
    by (simp add: run_def stop_def)
qed

definition small_node :: "(unit, unit, unit, u8 list list) node_runtime" where
  "small_node = \<lparr>bindings = [bind_conduit tiny 5 1 log_env], is_running = False\<rparr>"

theorem run_stops_witness:
  "\<exists>n'. run 11 [(False, [([Recv_Fail 11], replicate 128 (0, 11))]), (True, [])] small_node [] = Done (n', []) \<and>
     \<not> is_running n'"
proof -
  let ?io = "([Recv_Fail 11], replicate 128 (0, 11)) :: io"
  have "tx_inv 1 1 tiny" using tiny_inv(1) by (simp add: tx_inv_def tiny_def bind_socket_def net_init_def)
  then have "list_all steady (bindings small_node)"
    by (auto simp: small_node_def steady_def bind_conduit_def)
  moreover have "list_all2 answers_all (map ring_of (bindings small_node)) [?io]"
    by (simp add: small_node_def answers_all_def ring_of_def bind_conduit_def tiny_def bind_socket_def net_init_def)
  moreover have "\<exists>n'. sweeps 11 [[?io]] (small_node\<lparr>is_running := True\<rparr>) [] = Done (n', [])"
    by (simp add: small_node_def sweep_def bind_conduit_def poll_single_def is_alive_def tiny_inv poll_rx_def
        poll_tx_def numeral_eq_Suc)
  ultimately show ?thesis
    using run_stops [of small_node "[[?io]]" 11 "[]" "[]" "[]"] by auto
qed

text \<open>The owner of a dead link is told exactly once: however often it is polled, a conduit that is dead and
  stays dead has its callback run at the first poll and never again, and nothing else happens.\<close>

theorem on_dead_once:
  assumes "\<not> is_alive (conduit_of b)" "on_dead b = Some f" "f (conduit_of b) w = (nc, w1)" "\<not> is_alive nc"
  shows "poll_many ewb (io # ios) b w = Done (b\<lparr>conduit_of := nc, on_dead := None\<rparr>, w1)"
  using assms poll_many_dead [of "b\<lparr>conduit_of := nc, on_dead := None\<rparr>" ewb ios w1] by (simp add: poll_single_def)

theorem on_dead_once_witness:
  "poll_many 11 [([], []), ([], []), ([], [])]
     ((bind_conduit (mark_dead tiny) 5 1 log_env)\<lparr>on_dead := Some (\<lambda>nc w. (nc, w @ [[9]]))\<rparr>) [] =
   Done (bind_conduit (mark_dead tiny) 5 1 log_env, [[9]])"
  using on_dead_once [of "(bind_conduit (mark_dead tiny) 5 1 log_env)\<lparr>on_dead := Some (\<lambda>nc w. (nc, w @ [[9]]))\<rparr>"
      "\<lambda>nc w. (nc, w @ [[9]])" "[]" "mark_dead tiny" "[[9]]" 11 "([], [])" "[([], []), ([], [])]"]
  by (simp add: bind_conduit_def is_alive_def mark_dead_def)

text \<open>A frame of a foreign type cuts the link at once: the frames before it reach the sink, nothing after
  it does, the poll sends no byte, and the conduit is dead with its partial transfers reset.\<close>

theorem foreign_frame_cuts_link:
  fixes b :: "('p, 'd, 'c, 'w) binding" and chunks :: "u8 list list"
  defines "nc \<equiv> conduit_of b" and "sz \<equiv> size_of b"
  defines "frames \<equiv> frames_of (frame_size sz) (rx_staged nc @ concat chunks)"
  assumes "rx_inv sz nc" "is_alive nc" "fits (frame_size sz) (rx_bytes_read nc) chunks"
    and "\<exists>f \<in> set frames. frame_type_id f \<noteq> type_id_of b"
  shows "\<exists>nc'. poll_single ewb (map Recv_Data chunks @ [Recv_Fail ewb], answers) b w =
      Done (b\<lparr>conduit_of := nc'\<rparr>,
        fold (deliver (sink_of b)) (map (frame_payload sz) (good_frames (type_id_of b) frames)) w) \<and>
    \<not> is_alive nc' \<and> rx_bytes_read nc' = 0"
proof -
  have "good_frames (type_id_of b) frames \<noteq> frames"
    using assms(7) takeWhile_eq_all_conv [of "\<lambda>f. frame_type_id f = type_id_of b" frames]
    by (auto simp: good_frames_def)
  moreover have "rx_result (sink_of b) (type_id_of b) sz (rx_staged nc @ concat chunks) w
      (poll_rx (sink_of b) ewb (type_id_of b) sz (map Recv_Data chunks @ [Recv_Fail ewb]) nc w)"
    using poll_rx_loop_reassembles [OF assms(4) _ assms(6)] assms(5) by (simp add: poll_rx_def is_alive_def)
  ultimately obtain nc' where "poll_rx (sink_of b) ewb (type_id_of b) sz (map Recv_Data chunks @ [Recv_Fail ewb]) nc w =
      Done (nc', fold (deliver (sink_of b)) (map (frame_payload sz) (good_frames (type_id_of b) frames)) w)"
      "is_dead nc'" "rx_bytes_read nc' = 0"
    by (auto simp: rx_result_def frames_def)
  then show ?thesis
    using assms(5) by (auto simp: poll_single_def is_alive_def poll_tx_def nc_def sz_def)
qed

theorem foreign_frame_cuts_link_witness:
  "\<exists>nc'. poll_single 11 (map Recv_Data [replicate 64 0] @ [Recv_Fail 11], [(64, 0)]) (bind_conduit tiny 5 1 log_env) [] =
     Done ((bind_conduit tiny 5 1 log_env)\<lparr>conduit_of := nc'\<rparr>, []) \<and> \<not> is_alive nc'"
proof -
  let ?z = "replicate 64 0 :: u8 list"
  have z: "frame_type_id ?z = 0" by (simp add: frame_type_id_def)
  have "frames_of 64 ?z = [?z]" using frames_of_frame [of 64 ?z "[]"] by (simp add: frames_of_short)
  then show ?thesis
    using foreign_frame_cuts_link [of "bind_conduit tiny 5 1 log_env" "[?z]" 11 "[(64, 0)]" "[]"] tiny_inv
    by (auto simp: bind_conduit_def is_alive_def good_frames_def z)
qed

end
