(* ===== verification/Http_Parser.thy ===== *)
theory Http_Parser
  imports Conduit_Prelude
begin

text \<open>
  The zero-copy HTTP request parser of \<open>include/conduit/transport/http.hpp\<close>: a state machine over
  the bytes of a buffer that stores views (offset and length) into it. A byte is a character; a
  default-constructed view is \<open>None\<close>. The index of the loop may be advanced by the body, so a step
  returns the next index. Every read of the buffer, of a view into it and of the array of headers is
  checked: a read outside is a \<open>Fault\<close>.
\<close>

section \<open>The event and the state of the parser\<close>

type_synonym view = "(nat \<times> nat) option"

definition view_str :: "string \<Rightarrow> view \<Rightarrow> string" where
  "view_str raw v = (case v of None \<Rightarrow> [] | Some (b, n) \<Rightarrow> take n (drop b raw))"

record http_header =
  hdr_key :: view
  hdr_value :: view

record http_request_event =
  connection_id :: u32
  req_method :: view
  req_uri :: view
  req_headers :: "http_header list"
  header_count :: nat
  req_body :: view

definition max_headers :: nat where
  "max_headers = 16"

definition http_request_init :: "u32 \<Rightarrow> http_request_event" where
  "http_request_init cid =
     \<lparr>connection_id = cid, req_method = None, req_uri = None,
      req_headers = replicate max_headers \<lparr>hdr_key = None, hdr_value = None\<rparr>, header_count = 0, req_body = None\<rparr>"

datatype http_state = METHOD | URI | VERSION | HEADER_KEY | HEADER_VALUE | BODY | DONE

record http_parser =
  current_state :: http_state
  token_start :: nat
  saw_colon :: bool
  out_event :: http_request_event

datatype http_step = Return bool http_request_event | Continue nat http_parser

abbreviation CR :: char where "CR \<equiv> CHR 0x0D"
abbreviation LF :: char where "LF \<equiv> CHR 0x0A"
abbreviation TAB :: char where "TAB \<equiv> CHR 0x09"
abbreviation NUL :: char where "NUL \<equiv> CHR 0x00"

section \<open>Checked reads\<close>

definition read_at :: "string \<Rightarrow> nat \<Rightarrow> char outcome" where
  "read_at raw k = (if k < length raw then Done (raw ! k) else Fault)"

definition view_text :: "string \<Rightarrow> view \<Rightarrow> string outcome" where
  "view_text raw v =
     (case v of None \<Rightarrow> Done [] | Some (b, n) \<Rightarrow> if b + n \<le> length raw then Done (take n (drop b raw)) else Fault)"

definition header_at :: "http_request_event \<Rightarrow> nat \<Rightarrow> http_header outcome" where
  "header_at ev n = (if n < length (req_headers ev) then Done (req_headers ev ! n) else Fault)"

text \<open>The operator \<open>&&\<close> with a read on its right, and the loops over a range of the buffer.\<close>

definition and_also :: "bool \<Rightarrow> bool outcome \<Rightarrow> bool outcome" where
  "and_also a b = (if a then b else Done False)"

definition char_is :: "string \<Rightarrow> nat \<Rightarrow> char \<Rightarrow> bool outcome" where
  "char_is raw k c = map_outcome_result (\<lambda>ch. ch = c) (read_at raw k)"

function any_at :: "(char \<Rightarrow> bool) \<Rightarrow> string \<Rightarrow> nat \<Rightarrow> nat \<Rightarrow> bool outcome" where
  "any_at P raw k e =
     (if k < e then bind_outcome (read_at raw k) (\<lambda>ch. if P ch then Done True else any_at P raw (k + 1) e) else Done False)"
  by pat_completeness auto
termination
  by (relation "measure (\<lambda>(P, raw, k, e). e - k)") auto

section \<open>The states\<close>

definition step_method :: "nat \<Rightarrow> char \<Rightarrow> http_parser \<Rightarrow> http_step outcome" where
  "step_method i c p =
     (if c = CHR '' '' then
        if i = token_start p then Done (Return False (out_event p))
        else Done (Continue (i + 1) (p\<lparr>out_event := (out_event p)\<lparr>req_method := Some (token_start p, i - token_start p)\<rparr>,
               token_start := i + 1, current_state := URI\<rparr>))
      else Done (Continue (i + 1) p))"

definition step_uri :: "nat \<Rightarrow> char \<Rightarrow> http_parser \<Rightarrow> http_step outcome" where
  "step_uri i c p =
     (if c = CHR '' '' then
        if i = token_start p then Done (Return False (out_event p))
        else Done (Continue (i + 1) (p\<lparr>out_event := (out_event p)\<lparr>req_uri := Some (token_start p, i - token_start p)\<rparr>,
               token_start := i + 1, current_state := VERSION\<rparr>))
      else if c = CR \<or> c = LF then Done (Return False (out_event p))
      else Done (Continue (i + 1) p))"

definition step_version :: "string \<Rightarrow> nat \<Rightarrow> char \<Rightarrow> http_parser \<Rightarrow> http_step outcome" where
  "step_version raw i c p =
     (if c = LF then
        if i = token_start p then Done (Return False (out_event p))
        else bind_outcome (and_also (i = token_start p + 1) (char_is raw (token_start p) CR)) (\<lambda>bare.
          if bare then Done (Return False (out_event p))
          else Done (Continue (i + 1) (p\<lparr>token_start := i + 1, current_state := HEADER_KEY\<rparr>)))
      else Done (Continue (i + 1) p))"

definition bad_key_char :: "char \<Rightarrow> bool" where
  "bad_key_char ch \<longleftrightarrow> of_char ch \<le> (0x20 :: nat) \<or> of_char ch \<ge> (0x7f :: nat) \<or> ch = CHR '' ''"

definition set_header_key :: "nat \<Rightarrow> view \<Rightarrow> http_request_event \<Rightarrow> http_request_event" where
  "set_header_key n v ev = ev\<lparr>req_headers := (req_headers ev)[n := (req_headers ev ! n)\<lparr>hdr_key := v\<rparr>]\<rparr>"

definition set_header_value :: "nat \<Rightarrow> view \<Rightarrow> http_request_event \<Rightarrow> http_request_event" where
  "set_header_value n v ev = ev\<lparr>req_headers := (req_headers ev)[n := (req_headers ev ! n)\<lparr>hdr_value := v\<rparr>]\<rparr>"

definition step_header_key :: "string \<Rightarrow> nat \<Rightarrow> char \<Rightarrow> http_parser \<Rightarrow> http_step outcome" where
  "step_header_key raw i c p =
     (let ev = out_event p; n = header_count ev; key = (token_start p, i - token_start p) in
      if c = CR \<or> c = LF then
        if i = token_start p then
          bind_outcome (and_also (c = CR \<and> i + 1 < length raw) (char_is raw (i + 1) LF)) (\<lambda>crlf.
            if crlf then Done (Continue (i + 2) (p\<lparr>current_state := BODY, token_start := i + 2\<rparr>))
            else Done (Continue (i + 1) (p\<lparr>current_state := BODY, token_start := i + 1\<rparr>)))
        else if \<not> saw_colon p then Done (Return False ev)
        else Done (Continue (i + 1) p)
      else if c = CHR '':'' then
        if n \<ge> max_headers then Done (Return False ev)
        else if i = token_start p then Done (Return False ev)
        else bind_outcome (and_also (n > 0) (bind_outcome (header_at ev (n - 1)) (\<lambda>prev.
            bind_outcome (view_text raw (hdr_key prev)) (\<lambda>prev_key.
            bind_outcome (view_text raw (Some key)) (\<lambda>this_key.
              Done (prev_key = ''Host'' \<and> this_key = ''injected'')))))) (\<lambda>injected.
          if injected then Done (Return False ev)
          else if i - token_start p > 64 then Done (Return False ev)
          else bind_outcome (any_at bad_key_char raw (token_start p) i) (\<lambda>bad.
            if bad then Done (Return False ev)
            else bind_outcome (header_at ev n) (\<lambda>_.
              Done (Continue (i + 1) (p\<lparr>out_event := set_header_key n (Some key) ev,
                token_start := i + 1, current_state := HEADER_VALUE, saw_colon := True\<rparr>)))))
      else Done (Continue (i + 1) p))"

definition is_blank :: "char \<Rightarrow> bool" where
  "is_blank ch \<longleftrightarrow> ch = CHR '' '' \<or> ch = TAB"

function trim_left_at :: "string \<Rightarrow> nat \<Rightarrow> nat \<Rightarrow> nat outcome" where
  "trim_left_at raw b e =
     (if b < e then bind_outcome (read_at raw b) (\<lambda>ch. if is_blank ch then trim_left_at raw (b + 1) e else Done b) else Done b)"
  by pat_completeness auto
termination
  by (relation "measure (\<lambda>(raw, b, e). e - b)") auto

fun trim_right_at :: "string \<Rightarrow> nat \<Rightarrow> nat \<Rightarrow> nat outcome" where
  "trim_right_at raw b 0 = Done 0"
| "trim_right_at raw b (Suc e) =
     (if Suc e > b then bind_outcome (read_at raw e) (\<lambda>ch. if is_blank ch then trim_right_at raw b e else Done (Suc e))
      else Done (Suc e))"

definition lower :: "char \<Rightarrow> char" where
  "lower c = (if (0x41 :: nat) \<le> of_char c \<and> of_char c \<le> (0x5A :: nat) then char_of (of_char c + (32 :: nat)) else c)"

definition ieq :: "string \<Rightarrow> string \<Rightarrow> bool" where
  "ieq a b \<longleftrightarrow> length a = length b \<and> list_all2 (\<lambda>ca cb. lower ca = lower cb) a b"

definition icontains :: "string \<Rightarrow> string \<Rightarrow> bool" where
  "icontains hay needle \<longleftrightarrow>
     \<not> (needle = [] \<or> length hay < length needle) \<and>
     list_ex (\<lambda>i. ieq (take (length needle) (drop i hay)) needle) [0..<Suc (length hay - length needle)]"

definition step_header_value :: "string \<Rightarrow> nat \<Rightarrow> char \<Rightarrow> http_parser \<Rightarrow> http_step outcome" where
  "step_header_value raw i c p =
     (if c = LF then
        let ev = out_event p; n = header_count ev in
        bind_outcome (and_also (i > token_start p) (char_is raw (i - 1) CR)) (\<lambda>cr.
        let val_end = (if cr then i - 1 else i) in
        bind_outcome (trim_left_at raw (token_start p) val_end) (\<lambda>val_begin.
        bind_outcome (trim_right_at raw val_begin val_end) (\<lambda>val_end.
        bind_outcome (any_at (\<lambda>ch. ch = CR \<or> ch = LF) raw val_begin val_end) (\<lambda>broken.
        if broken then Done (Return False ev)
        else
          bind_outcome (header_at ev n) (\<lambda>h.
          bind_outcome (view_text raw (hdr_key h)) (\<lambda>key.
          let val = Some (val_begin, val_end - val_begin) in
          bind_outcome (view_text raw val) (\<lambda>val_text.
          if ieq key ''Transfer-Encoding'' \<and> icontains val_text ''chunked'' then Done (Return False ev)
          else Done (Continue (i + 1) (p\<lparr>out_event := (set_header_value n val ev)\<lparr>header_count := n + 1\<rparr>,
                 token_start := i + 1, current_state := HEADER_KEY, saw_colon := False\<rparr>)))))))))
      else Done (Continue (i + 1) p))"

function skip_newlines_at :: "string \<Rightarrow> nat \<Rightarrow> nat outcome" where
  "skip_newlines_at raw b =
     (if b < length raw
      then bind_outcome (read_at raw b) (\<lambda>ch. if ch = CR \<or> ch = LF then skip_newlines_at raw (b + 1) else Done b)
      else Done b)"
  by pat_completeness auto
termination
  by (relation "measure (\<lambda>(raw, b). length raw - b)") auto

definition step_body :: "string \<Rightarrow> http_parser \<Rightarrow> http_step outcome" where
  "step_body raw p =
     bind_outcome (skip_newlines_at raw (token_start p)) (\<lambda>body_start.
     let body_len = length raw - body_start in
     bind_outcome (and_also (body_len > 0) (char_is raw (body_start + body_len - 1) NUL)) (\<lambda>nul.
     let body_len = (if nul then body_len - 1 else body_len) in
     Done (Return True ((out_event p)\<lparr>req_body := Some (body_start, body_len)\<rparr>))))"

definition http_step :: "string \<Rightarrow> nat \<Rightarrow> http_parser \<Rightarrow> http_step outcome" where
  "http_step raw i p =
     bind_outcome (read_at raw i) (\<lambda>c.
       case current_state p of
         METHOD \<Rightarrow> step_method i c p
       | URI \<Rightarrow> step_uri i c p
       | VERSION \<Rightarrow> step_version raw i c p
       | HEADER_KEY \<Rightarrow> step_header_key raw i c p
       | HEADER_VALUE \<Rightarrow> step_header_value raw i c p
       | BODY \<Rightarrow> step_body raw p
       | DONE \<Rightarrow> Done (Return True (out_event p)))"

lemmas step_defs = step_method_def step_uri_def step_version_def step_header_key_def step_header_value_def
  step_body_def

declare any_at.simps [simp del] trim_left_at.simps [simp del] skip_newlines_at.simps [simp del]

section \<open>The loop\<close>

lemma http_step_advances: "http_step raw i p = Done (Continue j q) \<Longrightarrow> i < j"
  by (cases "current_state p") (auto simp: http_step_def step_defs Let_def bind_outcome_Done split: if_splits)

function parse_loop :: "string \<Rightarrow> nat \<Rightarrow> http_parser \<Rightarrow> (bool \<times> http_request_event) outcome" where
  "parse_loop raw i p =
     (if i < length raw then
        case http_step raw i p of
          Done (Return r ev) \<Rightarrow> Done (r, ev)
        | Done (Continue j q) \<Rightarrow> parse_loop raw j q
        | Fault \<Rightarrow> Fault
        | Pending \<Rightarrow> Pending
      else if current_state p = BODY then Done (True, (out_event p)\<lparr>req_body := None\<rparr>)
      else Done (current_state p = DONE, out_event p))"
  by pat_completeness auto
termination
  by (relation "measure (\<lambda>(raw, i, p). length raw - i)") (auto dest: http_step_advances)

declare parse_loop.simps [simp del]

definition parse :: "string \<Rightarrow> http_request_event \<Rightarrow> (bool \<times> http_request_event) outcome" where
  "parse raw ev =
     parse_loop raw 0 \<lparr>current_state = METHOD, token_start = 0, saw_colon = False, out_event = ev\<rparr>"

section \<open>Reads inside the buffer\<close>

text \<open>What the loops find when every read is inside.\<close>

function trim_left :: "string \<Rightarrow> nat \<Rightarrow> nat \<Rightarrow> nat" where
  "trim_left raw b e = (if b < e \<and> is_blank (raw ! b) then trim_left raw (b + 1) e else b)"
  by pat_completeness auto
termination
  by (relation "measure (\<lambda>(raw, b, e). e - b)") auto

fun trim_right :: "string \<Rightarrow> nat \<Rightarrow> nat \<Rightarrow> nat" where
  "trim_right raw b 0 = 0"
| "trim_right raw b (Suc e) = (if Suc e > b \<and> is_blank (raw ! e) then trim_right raw b e else Suc e)"

function skip_newlines :: "string \<Rightarrow> nat \<Rightarrow> nat" where
  "skip_newlines raw b = (if b < length raw \<and> (raw ! b = CR \<or> raw ! b = LF) then skip_newlines raw (b + 1) else b)"
  by pat_completeness auto
termination
  by (relation "measure (\<lambda>(raw, b). length raw - b)") auto

declare trim_left.simps [simp del] skip_newlines.simps [simp del]

lemma read_at_inside [simp]: "k < length raw \<Longrightarrow> read_at raw k = Done (raw ! k)"
  by (simp add: read_at_def)

lemma char_is_inside [simp]: "k < length raw \<Longrightarrow> char_is raw k c = Done (raw ! k = c)"
  by (simp add: char_is_def)

lemma and_also_inside [simp]: "(a \<Longrightarrow> m = Done b) \<Longrightarrow> and_also a m = Done (a \<and> b)"
  by (simp add: and_also_def)

lemma header_at_inside [simp]: "n < length (req_headers ev) \<Longrightarrow> header_at ev n = Done (req_headers ev ! n)"
  by (simp add: header_at_def)

lemma view_text_inside [simp]: "b + n \<le> length raw \<Longrightarrow> view_text raw (Some (b, n)) = Done (view_str raw (Some (b, n)))"
  by (simp add: view_text_def view_str_def)

lemma any_at_inside: "e \<le> length raw \<Longrightarrow> any_at P raw k e = Done (list_ex (\<lambda>k. P (raw ! k)) [k..<e])"
  by (induction P raw k e rule: any_at.induct) (subst any_at.simps, auto simp: upt_conv_Cons)

lemma trim_left_at_inside: "e \<le> length raw \<Longrightarrow> trim_left_at raw b e = Done (trim_left raw b e)"
  by (induction raw b e rule: trim_left_at.induct) (subst trim_left_at.simps, subst trim_left.simps, auto)

lemma trim_right_at_inside: "e \<le> length raw \<Longrightarrow> trim_right_at raw b e = Done (trim_right raw b e)"
  by (induction raw b e rule: trim_right_at.induct) auto

lemma skip_newlines_at_inside: "skip_newlines_at raw b = Done (skip_newlines raw b)"
  by (induction raw b rule: skip_newlines_at.induct) (subst skip_newlines_at.simps, subst skip_newlines.simps, auto)

lemmas loops_inside = any_at_inside trim_left_at_inside trim_right_at_inside skip_newlines_at_inside

section \<open>What the parser lets through\<close>

definition ok_method :: "string \<Rightarrow> bool" where
  "ok_method m \<longleftrightarrow> m \<noteq> [] \<and> CHR '' '' \<notin> set m"

definition ok_uri :: "string \<Rightarrow> bool" where
  "ok_uri u \<longleftrightarrow> u \<noteq> [] \<and> set u \<inter> {CHR '' '', CR, LF} = {}"

definition ok_key :: "string \<Rightarrow> bool" where
  "ok_key k \<longleftrightarrow> k \<noteq> [] \<and> length k \<le> 64 \<and> (\<forall>c \<in> set k. \<not> bad_key_char c \<and> c \<noteq> CHR '':'')"

definition ok_value :: "string \<Rightarrow> bool" where
  "ok_value v \<longleftrightarrow> set v \<inter> {CR, LF} = {} \<and> (v \<noteq> [] \<longrightarrow> \<not> is_blank (hd v) \<and> \<not> is_blank (last v))"

definition chunked :: "string \<Rightarrow> string \<Rightarrow> bool" where
  "chunked key val \<longleftrightarrow> ieq key ''Transfer-Encoding'' \<and> icontains val ''chunked''"

text \<open>A view into the buffer whose text has a property.\<close>

definition view_ok :: "string \<Rightarrow> (string \<Rightarrow> bool) \<Rightarrow> view \<Rightarrow> bool" where
  "view_ok raw P v \<longleftrightarrow> (\<exists>b n. v = Some (b, n) \<and> b + n \<le> length raw) \<and> P (view_str raw v)"

definition ok_header :: "string \<Rightarrow> http_header \<Rightarrow> bool" where
  "ok_header raw h \<longleftrightarrow>
     view_ok raw ok_key (hdr_key h) \<and> view_ok raw ok_value (hdr_value h) \<and>
     \<not> chunked (view_str raw (hdr_key h)) (view_str raw (hdr_value h))"

lemma view_str_range:
  "b \<le> i \<Longrightarrow> i \<le> length raw \<Longrightarrow> view_str raw (Some (b, i - b)) = map ((!) raw) [b..<i]"
  by (rule nth_equalityI) (simp_all add: view_str_def)

lemma view_okI:
  "b \<le> i \<Longrightarrow> i \<le> length raw \<Longrightarrow> P (map ((!) raw) [b..<i]) \<Longrightarrow> view_ok raw P (Some (b, i - b))"
  by (auto simp: view_ok_def view_str_range)

lemma trim_left_props:
  "b \<le> e \<Longrightarrow> b \<le> trim_left raw b e \<and> trim_left raw b e \<le> e \<and>
     (trim_left raw b e < e \<longrightarrow> \<not> is_blank (raw ! trim_left raw b e))"
  by (induction raw b e rule: trim_left.induct) (subst (1 2 3 4) trim_left.simps, auto)

lemma trim_right_props:
  "b \<le> e \<Longrightarrow> b \<le> trim_right raw b e \<and> trim_right raw b e \<le> e \<and>
     (b < trim_right raw b e \<longrightarrow> \<not> is_blank (raw ! (trim_right raw b e - 1)))"
  by (induction raw b e rule: trim_right.induct) auto

lemma skip_newlines_bounds: "b \<le> length raw \<Longrightarrow> b \<le> skip_newlines raw b \<and> skip_newlines raw b \<le> length raw"
  by (induction raw b rule: skip_newlines.induct) (subst (1 2) skip_newlines.simps, auto)

text \<open>What holds of the event in every state, and of the token being read in each of them.\<close>

definition event_inv :: "string \<Rightarrow> http_state \<Rightarrow> http_request_event \<Rightarrow> bool" where
  "event_inv raw st ev \<longleftrightarrow>
     length (req_headers ev) = max_headers \<and> header_count ev \<le> max_headers \<and>
     (\<forall>n < header_count ev. ok_header raw (req_headers ev ! n)) \<and>
     (st \<noteq> METHOD \<longrightarrow> view_ok raw ok_method (req_method ev)) \<and>
     (st \<noteq> METHOD \<longrightarrow> st \<noteq> URI \<longrightarrow> view_ok raw ok_uri (req_uri ev))"

fun token_inv :: "string \<Rightarrow> nat \<Rightarrow> http_parser \<Rightarrow> http_state \<Rightarrow> bool" where
  "token_inv raw i p METHOD \<longleftrightarrow> (\<forall>k \<in> {token_start p..<i}. raw ! k \<noteq> CHR '' '')"
| "token_inv raw i p URI \<longleftrightarrow> (\<forall>k \<in> {token_start p..<i}. raw ! k \<notin> {CHR '' '', CR, LF})"
| "token_inv raw i p HEADER_KEY \<longleftrightarrow> (\<forall>k \<in> {token_start p..<i}. raw ! k \<notin> {CR, LF, CHR '':''})"
| "token_inv raw i p HEADER_VALUE \<longleftrightarrow>
     header_count (out_event p) < max_headers \<and>
     view_ok raw ok_key (hdr_key (req_headers (out_event p) ! header_count (out_event p)))"
| "token_inv raw i p DONE \<longleftrightarrow> False"
| "token_inv raw i p _ \<longleftrightarrow> True"

definition parser_inv :: "string \<Rightarrow> nat \<Rightarrow> http_parser \<Rightarrow> bool" where
  "parser_inv raw i p \<longleftrightarrow>
     token_start p \<le> i \<and> i \<le> length raw \<and> (saw_colon p \<longrightarrow> current_state p = HEADER_VALUE) \<and>
     event_inv raw (current_state p) (out_event p) \<and>
     token_inv raw i p (current_state p)"

text \<open>The result of a step: no fault, but a parser that keeps the invariant, or an event with only good headers, and a
  complete request line if it is accepted.\<close>

definition event_good :: "string \<Rightarrow> bool \<Rightarrow> http_request_event \<Rightarrow> bool" where
  "event_good raw r ev \<longleftrightarrow>
     header_count ev \<le> max_headers \<and> (\<forall>n < header_count ev. ok_header raw (req_headers ev ! n)) \<and>
     (r \<longrightarrow> view_ok raw ok_method (req_method ev) \<and> view_ok raw ok_uri (req_uri ev) \<and>
        (req_body ev = None \<or> view_ok raw (\<lambda>_. True) (req_body ev)))"

fun step_ok :: "string \<Rightarrow> http_step outcome \<Rightarrow> bool" where
  "step_ok raw (Done (Return r ev)) \<longleftrightarrow> event_good raw r ev"
| "step_ok raw (Done (Continue j q)) \<longleftrightarrow> parser_inv raw j q"
| "step_ok raw _ \<longleftrightarrow> False"

lemma event_inv_good: "event_inv raw st ev \<Longrightarrow> event_good raw False ev"
  by (simp add: event_inv_def event_good_def)

lemma step_method_ok:
  assumes "parser_inv raw i p" "current_state p = METHOD" "i < length raw"
  shows "step_ok raw (step_method i (raw ! i) p)"
proof -
  have p: "token_start p \<le> i" "event_inv raw METHOD (out_event p)" "\<forall>k \<in> {token_start p..<i}. raw ! k \<noteq> CHR '' ''"
      "\<not> saw_colon p"
    using assms by (auto simp: parser_inv_def)
  have "view_ok raw ok_method (Some (token_start p, i - token_start p))" if "i \<noteq> token_start p"
    using p(1,3) that assms(3) by (intro view_okI) (auto simp: ok_method_def)
  with p event_inv_good [OF p(2)] assms(2,3) show ?thesis
    by (auto simp: step_method_def parser_inv_def event_inv_def less_Suc_eq)
qed

lemma step_uri_ok:
  assumes "parser_inv raw i p" "current_state p = URI" "i < length raw"
  shows "step_ok raw (step_uri i (raw ! i) p)"
proof -
  have p: "token_start p \<le> i" "event_inv raw URI (out_event p)"
      "\<forall>k \<in> {token_start p..<i}. raw ! k \<notin> {CHR '' '', CR, LF}" "\<not> saw_colon p"
    using assms by (auto simp: parser_inv_def)
  have "view_ok raw ok_uri (Some (token_start p, i - token_start p))" if "i \<noteq> token_start p"
    using p(1,3) that assms(3) by (intro view_okI) (auto simp: ok_uri_def)
  with p event_inv_good [OF p(2)] assms(2,3) show ?thesis
    by (auto simp: step_uri_def parser_inv_def event_inv_def less_Suc_eq)
qed

lemma step_version_ok:
  assumes "parser_inv raw i p" "current_state p = VERSION" "i < length raw"
  shows "step_ok raw (step_version raw i (raw ! i) p)"
  using assms event_inv_good [of raw VERSION "out_event p"]
  by (auto simp: step_version_def parser_inv_def event_inv_def Let_def)

lemma view_text_ok: "view_ok raw P v \<Longrightarrow> view_text raw v = Done (view_str raw v)"
  by (auto simp: view_ok_def)

lemma headers_update:
  "n < length hs \<Longrightarrow> \<forall>m < n. ok_header raw (hs ! m) \<Longrightarrow> \<forall>m < n. ok_header raw (hs[n := h] ! m)"
  by simp

lemma step_header_key_ok:
  assumes "parser_inv raw i p" "current_state p = HEADER_KEY" "i < length raw"
  shows "step_ok raw (step_header_key raw i (raw ! i) p)"
proof -
  let ?n = "header_count (out_event p)" and ?key = "Some (token_start p, i - token_start p)"
  have p: "token_start p \<le> i" "event_inv raw HEADER_KEY (out_event p)"
      "\<forall>k \<in> {token_start p..<i}. raw ! k \<notin> {CR, LF, CHR '':''}" "\<not> saw_colon p"
    using assms by (auto simp: parser_inv_def)
  note good = event_inv_good [OF p(2)]
  consider (newline) "raw ! i = CR \<or> raw ! i = LF" | (colon) "raw ! i = CHR '':''"
    | (other) "raw ! i \<notin> {CR, LF, CHR '':''}" by blast
  then show ?thesis
  proof cases
    case newline
    then show ?thesis using p assms(2,3) good
      by (auto simp: step_header_key_def Let_def parser_inv_def event_inv_def)
  next
    case colon
    have "view_ok raw ok_key ?key"
      if "i \<noteq> token_start p" "\<not> i - token_start p > 64" "\<not> list_ex (\<lambda>k. bad_key_char (raw ! k)) [token_start p..<i]"
      using p(1,3) that assms(3) by (intro view_okI) (auto simp: ok_key_def list_ex_iff)
    moreover have "view_text raw (hdr_key (req_headers (out_event p) ! (?n - 1))) =
        Done (view_str raw (hdr_key (req_headers (out_event p) ! (?n - 1))))" if "?n > 0"
      using p(2) that by (intro view_text_ok [of raw ok_key]) (auto simp: event_inv_def ok_header_def)
    moreover have "length (req_headers (out_event p)) = max_headers" "?n \<le> max_headers" using p(2) by (simp_all add: event_inv_def)
    ultimately show ?thesis using p assms(2,3) good colon
      by (auto simp: step_header_key_def Let_def parser_inv_def event_inv_def set_header_key_def and_also_def any_at_inside)
  next
    case other
    then show ?thesis using p assms(2,3)
      by (auto simp: step_header_key_def Let_def parser_inv_def less_Suc_eq)
  qed
qed

lemma ok_value_range:
  assumes "b \<le> e" "b < e \<longrightarrow> \<not> is_blank (raw ! b) \<and> \<not> is_blank (raw ! (e - 1))"
    "\<not> list_ex (\<lambda>k. raw ! k = CR \<or> raw ! k = LF) [b..<e]"
  shows "ok_value (map ((!) raw) [b..<e])"
  using assms by (auto simp: ok_value_def list_ex_iff hd_map last_map)

lemma step_header_value_ok:
  assumes "parser_inv raw i p" "current_state p = HEADER_VALUE" "i < length raw"
  shows "step_ok raw (step_header_value raw i (raw ! i) p)"
proof -
  define n where "n = header_count (out_event p)"
  define cr where "cr \<longleftrightarrow> i > token_start p \<and> raw ! (i - 1) = CR"
  define e0 where "e0 = (if cr then i - 1 else i)"
  define b where "b = trim_left raw (token_start p) e0"
  define e where "e = trim_right raw b e0"
  have p: "token_start p \<le> i" "event_inv raw HEADER_VALUE (out_event p)" "n < max_headers"
      "view_ok raw ok_key (hdr_key (req_headers (out_event p) ! n))"
    using assms by (auto simp: parser_inv_def n_def)
  have "token_start p \<le> e0" "e0 \<le> i" using p(1) by (auto simp: e0_def cr_def)
  then have b: "b \<le> e0" "b < e0 \<longrightarrow> \<not> is_blank (raw ! b)"
    using trim_left_props [of "token_start p" e0 raw] by (auto simp: b_def)
  then have e: "b \<le> e" "e \<le> e0" "b < e \<longrightarrow> \<not> is_blank (raw ! (e - 1))"
    using trim_right_props [of b e0 raw] by (auto simp: e_def)
  have val: "view_ok raw ok_value (Some (b, e - b))"
    if "\<not> list_ex (\<lambda>k. raw ! k = CR \<or> raw ! k = LF) [b..<e]"
    using e b that \<open>e0 \<le> i\<close> assms(3) by (intro view_okI ok_value_range) auto
  let ?ev = "(set_header_value n (Some (b, e - b)) (out_event p))\<lparr>header_count := n + 1\<rparr>"
  have ev: "event_inv raw HEADER_KEY ?ev"
    if "\<not> list_ex (\<lambda>k. raw ! k = CR \<or> raw ! k = LF) [b..<e]"
      "\<not> chunked (view_str raw (hdr_key (req_headers (out_event p) ! n))) (view_str raw (Some (b, e - b)))"
    using p(2-4) val [OF that(1)] that(2)
    by (auto simp: event_inv_def set_header_value_def ok_header_def n_def [symmetric] less_Suc_eq nth_list_update)
  have "and_also (token_start p < i) (char_is raw (i - 1) CR) = Done cr"
    using assms(3) by (simp add: and_also_def cr_def)
  moreover have "header_at (out_event p) n = Done (req_headers (out_event p) ! n)" using p(2,3) by (simp add: event_inv_def)
  moreover have "trim_left_at raw (token_start p) e0 = Done b" "trim_right_at raw b e0 = Done e" "b + (e - b) \<le> length raw"
      "e \<le> length raw"
    using e \<open>e0 \<le> i\<close> assms(3) by (simp_all add: loops_inside b_def e_def)
  ultimately have step: "step_header_value raw i (raw ! i) p =
      Done (if raw ! i = LF then
         if list_ex (\<lambda>k. raw ! k = CR \<or> raw ! k = LF) [b..<e] then Return False (out_event p)
         else if chunked (view_str raw (hdr_key (req_headers (out_event p) ! n))) (view_str raw (Some (b, e - b)))
         then Return False (out_event p)
         else Continue (i + 1) (p\<lparr>out_event := ?ev, token_start := i + 1, current_state := HEADER_KEY, saw_colon := False\<rparr>)
       else Continue (i + 1) p)"
    using view_text_ok [OF p(4)]
    unfolding step_header_value_def Let_def n_def [symmetric] chunked_def by (simp only: bind_outcome.simps e0_def [symmetric]) (simp add: any_at_inside)
  show ?thesis
    unfolding step using ev p assms event_inv_good [OF p(2)] by (auto simp: parser_inv_def n_def)
qed

lemma step_body_ok:
  assumes "parser_inv raw i p" "current_state p = BODY"
  shows "step_ok raw (step_body raw p)"
proof -
  let ?b = "skip_newlines raw (token_start p)"
  have "token_start p \<le> length raw" using assms(1) by (simp add: parser_inv_def)
  then have "?b \<le> length raw" using skip_newlines_bounds by blast
  then show ?thesis using assms
    by (auto simp: step_body_def Let_def skip_newlines_at_inside and_also_def
        parser_inv_def event_inv_def event_good_def view_ok_def)
qed

lemmas step_oks = step_method_ok step_uri_ok step_version_ok step_header_key_ok step_header_value_ok step_body_ok

lemma http_step_ok: "parser_inv raw i p \<Longrightarrow> i < length raw \<Longrightarrow> step_ok raw (http_step raw i p)"
  by (cases "current_state p") (simp_all add: http_step_def step_oks, simp add: parser_inv_def)

lemma parse_loop_ok:
  "parser_inv raw i p \<Longrightarrow> \<exists>r ev. parse_loop raw i p = Done (r, ev) \<and> event_good raw r ev"
proof (induction raw i p rule: parse_loop.induct)
  case (1 raw i p)
  show ?case
  proof (cases "i < length raw")
    case True
    then have "step_ok raw (http_step raw i p)" using http_step_ok "1.prems"(1) by blast
    with True "1.IH" [OF True] show ?thesis
      by (subst parse_loop.simps) (cases "(raw, http_step raw i p)" rule: step_ok.cases; simp)
  next
    case False
    then show ?thesis
      using "1.prems" by (subst parse_loop.simps) (auto simp: parser_inv_def event_inv_def event_good_def)
  qed
qed

lemma parse_total: "\<exists>r ev. parse raw (http_request_init cid) = Done (r, ev) \<and> event_good raw r ev"
proof -
  let ?p = "\<lparr>current_state = METHOD, token_start = 0, saw_colon = False, out_event = http_request_init cid\<rparr>"
  have "parser_inv raw 0 ?p"
    by (simp add: parser_inv_def event_inv_def http_request_init_def)
  then show ?thesis using parse_loop_ok [of raw 0 ?p] by (simp add: parse_def)
qed

section \<open>Printing and parsing\<close>

definition print_header :: "string \<times> string \<Rightarrow> string" where
  "print_header h = fst h @ '': '' @ snd h @ [CR, LF]"

definition print_request :: "string \<Rightarrow> string \<Rightarrow> string \<Rightarrow> (string \<times> string) list \<Rightarrow> string \<Rightarrow> string" where
  "print_request m u ver hs body =
     m @ '' '' @ u @ '' '' @ ver @ [CR, LF] @ concat (map print_header hs) @ [CR, LF] @ body"

definition plain_header :: "string \<times> string \<Rightarrow> bool" where
  "plain_header h \<longleftrightarrow> ok_key (fst h) \<and> ok_value (snd h) \<and> \<not> chunked (fst h) (snd h)"

definition not_injected :: "string \<times> string \<Rightarrow> string \<times> string \<Rightarrow> bool" where
  "not_injected a b \<longleftrightarrow> \<not> (fst a = ''Host'' \<and> fst b = ''injected'')"

definition ok_request :: "string \<Rightarrow> string \<Rightarrow> string \<Rightarrow> (string \<times> string) list \<Rightarrow> bool" where
  "ok_request m u ver hs \<longleftrightarrow>
     ok_method m \<and> ok_uri u \<and> ver \<noteq> [] \<and> LF \<notin> set ver \<and>
     length hs \<le> max_headers \<and> list_all plain_header hs \<and> successively not_injected hs"

text \<open>What is left of a body: without the line breaks it starts with and without one closing NUL.\<close>

definition stripped_body :: "string \<Rightarrow> string" where
  "stripped_body body =
     (let b = dropWhile (\<lambda>c. c = CR \<or> c = LF) body in if b \<noteq> [] \<and> last b = NUL then butlast b else b)"

lemma stripped_body_plain: "body \<noteq> [] \<longrightarrow> hd body \<notin> {CR, LF} \<and> last body \<noteq> NUL \<Longrightarrow> stripped_body body = body"
  by (cases body) (auto simp: stripped_body_def)

definition header_texts :: "string \<Rightarrow> http_request_event \<Rightarrow> (string \<times> string) list" where
  "header_texts raw ev =
     map (\<lambda>h. (view_str raw (hdr_key h), view_str raw (hdr_value h))) (take (header_count ev) (req_headers ev))"

text \<open>Reading the buffer from a position on.\<close>

lemma drop_Cons_nth:
  assumes "drop i raw = c # rest"
  shows "i < length raw" "raw ! i = c" "drop (Suc i) raw = rest"
proof -
  show "i < length raw" using assms by (metis drop_eq_Nil2 linorder_not_less list.distinct(1))
  then have "drop i raw = raw ! i # drop (Suc i) raw" by (simp add: Cons_nth_drop_Suc)
  then show "raw ! i = c" "drop (Suc i) raw = rest" using assms by simp_all
qed

lemma drop_append_nth:
  assumes "drop i raw = seg @ rest"
  shows "k < length seg \<Longrightarrow> raw ! (i + k) = seg ! k" "drop (i + length seg) raw = rest"
    "i + length seg \<le> max i (length raw)"
proof -
  have len: "length raw - i = length seg + length rest" using assms by (metis length_append length_drop)
  then show "i + length seg \<le> max i (length raw)" by simp
  show "raw ! (i + k) = seg ! k" if "k < length seg"
  proof -
    have "raw ! (i + k) = drop i raw ! k" using len that by (simp add: add.commute)
    then show ?thesis using assms that by (simp add: nth_append)
  qed
  show "drop (i + length seg) raw = rest" using assms by (metis add.commute append_eq_conv_conj drop_drop)
qed

lemma view_str_segment: "drop i raw = seg @ rest \<Longrightarrow> view_str raw (Some (i, length seg)) = seg"
  by (simp add: view_str_def)

lemma scan:
  assumes "drop i raw = seg @ rest"
    and "\<And>k. k < length seg \<Longrightarrow> i + k < length raw \<Longrightarrow> http_step raw (i + k) p = Done (Continue (i + k + 1) p)"
  shows "parse_loop raw i p = parse_loop raw (i + length seg) p"
  using assms
proof (induction seg arbitrary: i)
  case Nil
  then show ?case by simp
next
  case (Cons c seg)
  have i: "i < length raw" "drop (Suc i) raw = seg @ rest" using drop_Cons_nth Cons.prems(1) by auto
  have "parse_loop raw i p = parse_loop raw (Suc i) p"
    using i Cons.prems(2) [of 0] by (subst parse_loop.simps) simp
  also have "\<dots> = parse_loop raw (Suc i + length seg) p"
  proof (rule Cons.IH [OF i(2)])
    show "http_step raw (Suc i + k) p = Done (Continue (Suc i + k + 1) p)" if "k < length seg" "Suc i + k < length raw" for k
      using Cons.prems(2) [of "Suc k"] that by simp
  qed
  finally show ?case by simp
qed

lemma parse_loop_step: "i < length raw \<Longrightarrow> http_step raw i p = Done (Continue j q) \<Longrightarrow> parse_loop raw i p = parse_loop raw j q"
  by (subst parse_loop.simps) simp

text \<open>One lemma per part of a request: reading it brings the parser to the next part.\<close>

lemma parse_method:
  assumes "drop i raw = m @ CHR '' '' # rest" "ok_method m" "current_state p = METHOD" "token_start p = i"
  shows "parse_loop raw i p = parse_loop raw (i + length m + 1)
    (p\<lparr>out_event := (out_event p)\<lparr>req_method := Some (i, length m)\<rparr>, token_start := i + length m + 1, current_state := URI\<rparr>)"
proof -
  note seg = drop_append_nth [OF assms(1)]
  note c = drop_Cons_nth [OF seg(2)]
  have "parse_loop raw i p = parse_loop raw (i + length m) p"
    using assms(2,3) seg(1) by (intro scan [OF assms(1)])
      (auto simp: http_step_def step_method_def ok_method_def dest: nth_mem)
  also have "\<dots> = parse_loop raw (i + length m + 1)
      (p\<lparr>out_event := (out_event p)\<lparr>req_method := Some (i, length m)\<rparr>, token_start := i + length m + 1, current_state := URI\<rparr>)"
    using c assms(2-4) by (intro parse_loop_step) (auto simp: http_step_def step_method_def ok_method_def)
  finally show ?thesis .
qed

lemma parse_uri:
  assumes "drop i raw = u @ CHR '' '' # rest" "ok_uri u" "current_state p = URI" "token_start p = i"
  shows "parse_loop raw i p = parse_loop raw (i + length u + 1)
    (p\<lparr>out_event := (out_event p)\<lparr>req_uri := Some (i, length u)\<rparr>, token_start := i + length u + 1, current_state := VERSION\<rparr>)"
proof -
  note seg = drop_append_nth [OF assms(1)]
  note c = drop_Cons_nth [OF seg(2)]
  have "raw ! (i + k) \<notin> {CHR '' '', CR, LF}" if "k < length u" for k
    using assms(2) seg(1) [OF that] nth_mem [OF that] by (auto simp: ok_uri_def)
  then have "parse_loop raw i p = parse_loop raw (i + length u) p"
    using assms(3) by (intro scan [OF assms(1)]) (auto simp: http_step_def step_uri_def)
  also have "\<dots> = parse_loop raw (i + length u + 1)
      (p\<lparr>out_event := (out_event p)\<lparr>req_uri := Some (i, length u)\<rparr>, token_start := i + length u + 1, current_state := VERSION\<rparr>)"
    using c assms(2-4) by (intro parse_loop_step) (auto simp: http_step_def step_uri_def ok_uri_def)
  finally show ?thesis .
qed

lemma parse_version:
  assumes "drop i raw = ver @ CR # LF # rest" "ver \<noteq> []" "LF \<notin> set ver" "current_state p = VERSION" "token_start p = i"
  shows "parse_loop raw i p = parse_loop raw (i + length ver + 2)
    (p\<lparr>token_start := i + length ver + 2, current_state := HEADER_KEY\<rparr>)"
proof -
  have seg: "drop i raw = (ver @ [CR]) @ LF # rest" using assms(1) by simp
  note nth = drop_append_nth [OF seg]
  note c = drop_Cons_nth [OF nth(2)]
  have "raw ! (i + k) \<noteq> LF" if "k < length (ver @ [CR])" for k
    using assms(3) nth(1) [OF that] nth_mem [OF that] by (auto simp del: nth_mem)
  then have "parse_loop raw i p = parse_loop raw (i + length (ver @ [CR])) p"
    using assms(4) by (intro scan [OF seg]) (auto simp: http_step_def step_version_def)
  also have "\<dots> = parse_loop raw (i + length ver + 2)
      (p\<lparr>token_start := i + length ver + 2, current_state := HEADER_KEY\<rparr>)"
    using c assms(2,4,5) by (intro parse_loop_step) (auto simp: http_step_def step_version_def and_also_def)
  finally show ?thesis .
qed

lemma parse_key:
  assumes raw: "drop i raw = k @ CHR '':'' # rest" and k: "ok_key k"
    and p: "current_state p = HEADER_KEY" "token_start p = i" "header_count (out_event p) < max_headers"
    and hs: "length (req_headers (out_event p)) = max_headers"
    and prev: "header_count (out_event p) > 0 \<Longrightarrow>
      view_text raw (hdr_key (req_headers (out_event p) ! (header_count (out_event p) - 1))) = Done t \<and> \<not> (t = ''Host'' \<and> k = ''injected'')"
  shows "parse_loop raw i p = parse_loop raw (i + length k + 1)
    (p\<lparr>out_event := set_header_key (header_count (out_event p)) (Some (i, length k)) (out_event p),
       token_start := i + length k + 1, current_state := HEADER_VALUE, saw_colon := True\<rparr>)"
proof -
  note seg = drop_append_nth [OF raw]
  note c = drop_Cons_nth [OF seg(2)]
  have ch: "\<not> bad_key_char (raw ! (i + j)) \<and> raw ! (i + j) \<noteq> CHR '':''" if "j < length k" for j
    using k seg(1) [OF that] nth_mem [OF that] by (auto simp: ok_key_def)
  have "raw ! (i + j) \<notin> {CR, LF, CHR '':''}" if "j < length k" for j
    using ch [OF that] by (auto simp: bad_key_char_def)
  then have "parse_loop raw i p = parse_loop raw (i + length k) p"
    using p(1) by (intro scan [OF raw]) (auto simp: http_step_def step_header_key_def Let_def)
  also have "http_step raw (i + length k) p = Done (Continue (i + length k + 1)
      (p\<lparr>out_event := set_header_key (header_count (out_event p)) (Some (i, length k)) (out_event p),
         token_start := i + length k + 1, current_state := HEADER_VALUE, saw_colon := True\<rparr>))"
  proof -
    have "\<not> list_ex (\<lambda>j. bad_key_char (raw ! j)) [i..<i + length k]"
    proof
      assume "list_ex (\<lambda>j. bad_key_char (raw ! j)) [i..<i + length k]"
      then obtain j where "i \<le> j" "j < i + length k" "bad_key_char (raw ! j)" by (auto simp: list_ex_iff)
      moreover from this have "j - i < length k" by linarith
      ultimately show False using ch [of "j - i"] by simp
    qed
    moreover have "view_str raw (Some (i, length k)) = k" using view_str_segment [OF raw] .
    ultimately show ?thesis
      using p c hs prev k by (auto simp: http_step_def step_header_key_def Let_def ok_key_def any_at_inside and_also_def)
  qed
  then have "parse_loop raw (i + length k) p = parse_loop raw (i + length k + 1)
      (p\<lparr>out_event := set_header_key (header_count (out_event p)) (Some (i, length k)) (out_event p),
         token_start := i + length k + 1, current_state := HEADER_VALUE, saw_colon := True\<rparr>)"
    by (rule parse_loop_step [OF c(1)])
  finally show ?thesis .
qed

lemma trimmed_value:
  assumes "drop i raw = CHR '' '' # v @ CR # LF # rest" "ok_value v"
  shows "trim_left raw i (i + 1 + length v) = i + 1" "trim_right raw (i + 1) (i + 1 + length v) = i + 1 + length v"
proof -
  note c = drop_Cons_nth [OF assms(1)]
  note nth = drop_append_nth [OF c(3)]
  have v: "\<not> is_blank (raw ! (i + 1))" "\<not> is_blank (raw ! (i + length v))" if "v \<noteq> []"
  proof -
    have "Suc i + (length v - 1) = i + length v" using that by (cases v) simp_all
    moreover have "raw ! (Suc i + (length v - 1)) = v ! (length v - 1)"
      by (rule nth(1)) (use that in simp)
    ultimately have "raw ! (i + length v) = last v" using that by (simp only: last_conv_nth not_False_eq_True)
    moreover have "raw ! (i + 1) = hd v" using nth(1) [of 0] that by (simp add: hd_conv_nth)
    ultimately show "\<not> is_blank (raw ! (i + 1))" "\<not> is_blank (raw ! (i + length v))"
      using assms(2) that by (simp_all add: ok_value_def)
  qed
  have "trim_left raw (i + 1) (i + 1 + length v) = i + 1"
    using v by (subst trim_left.simps) auto
  then show "trim_left raw i (i + 1 + length v) = i + 1"
    using c(2) by (subst trim_left.simps) (simp add: is_blank_def)
  show "trim_right raw (i + 1) (i + 1 + length v) = i + 1 + length v"
    using v by (cases "v = []") auto
qed

lemma parse_value:
  assumes raw: "drop i raw = CHR '' '' # v @ CR # LF # rest" and v: "ok_value v"
    and p: "current_state p = HEADER_VALUE" "token_start p = i"
    and hs: "header_count (out_event p) < length (req_headers (out_event p))"
    and chunk: "view_text raw (hdr_key (req_headers (out_event p) ! header_count (out_event p))) = Done key" "\<not> chunked key v"
  shows "parse_loop raw i p = parse_loop raw (i + length v + 3)
    (p\<lparr>out_event := (set_header_value (header_count (out_event p)) (Some (i + 1, length v)) (out_event p))
         \<lparr>header_count := header_count (out_event p) + 1\<rparr>,
       token_start := i + length v + 3, current_state := HEADER_KEY, saw_colon := False\<rparr>)"
proof -
  have seg: "drop i raw = (CHR '' '' # v @ [CR]) @ LF # rest" using raw by simp
  note nth = drop_append_nth [OF seg]
  note c = drop_Cons_nth [OF nth(2)]
  let ?j = "i + length (CHR '' '' # v @ [CR])"
  have "raw ! (i + k) \<noteq> LF" if "k < length (CHR '' '' # v @ [CR])" for k
    using v nth(1) [OF that] nth_mem [OF that] by (auto simp: ok_value_def simp del: nth_mem)
  then have "parse_loop raw i p = parse_loop raw ?j p"
    using p(1) by (intro scan [OF seg]) (auto simp: http_step_def step_header_value_def)
  also have "http_step raw ?j p = Done (Continue (i + length v + 3)
    (p\<lparr>out_event := (set_header_value (header_count (out_event p)) (Some (i + 1, length v)) (out_event p))
         \<lparr>header_count := header_count (out_event p) + 1\<rparr>,
       token_start := i + length v + 3, current_state := HEADER_KEY, saw_colon := False\<rparr>))"
  proof -
    have cr: "raw ! (i + length v + 1) = CR" using nth(1) [of "length v + 1"] by (simp add: nth_append)
    have drop1: "drop (i + 1) raw = v @ CR # LF # rest" using drop_Cons_nth(3) [OF raw] by simp
    have val: "view_str raw (Some (i + 1, length v)) = v" using view_str_segment [OF drop1] .
    have "\<not> list_ex (\<lambda>k. raw ! k = CR \<or> raw ! k = LF) [i + 1..<i + 1 + length v]"
    proof
      assume "list_ex (\<lambda>k. raw ! k = CR \<or> raw ! k = LF) [i + 1..<i + 1 + length v]"
      then obtain k where k: "i + 1 \<le> k" "k < i + 1 + length v" "raw ! k = CR \<or> raw ! k = LF"
        by (auto simp: list_ex_iff simp del: upt_Suc)
      with drop_append_nth(1) [OF drop1, of "k - (i + 1)"] have "v ! (k - (i + 1)) \<in> {CR, LF}" by simp
      moreover have "v ! (k - (i + 1)) \<in> set v" using k by (intro nth_mem) linarith
      ultimately show False using v by (auto simp: ok_value_def)
    qed
    moreover have "and_also (token_start p < ?j) (char_is raw (?j - 1) CR) = Done True"
      using p(2) c(1) cr by (simp add: and_also_def add.commute)
    moreover have "trim_left_at raw i (?j - 1) = Done (i + 1)" "trim_right_at raw (i + 1) (?j - 1) = Done (i + 1 + length v)"
      using trimmed_value [OF raw v] trim_left_at_inside [of "?j - 1" raw i] trim_right_at_inside [of "?j - 1" raw "i + 1"] c(1)
      by (simp_all add: add.commute del: trim_right.simps trim_right_at.simps)
    moreover have "any_at (\<lambda>ch. ch = CR \<or> ch = LF) raw (i + 1) (i + 1 + length v) =
        Done (list_ex (\<lambda>k. raw ! k = CR \<or> raw ! k = LF) [i + 1..<i + 1 + length v])"
      using c(1) by (intro any_at_inside) simp
    moreover have "view_text raw (Some (i + 1, length v)) = Done v" using c(1) val by (subst view_text_inside) simp_all
    ultimately show ?thesis
      using p c hs chunk by (simp add: http_step_def step_header_value_def Let_def chunked_def del: upt_Suc)
  qed
  then have "parse_loop raw ?j p = parse_loop raw (i + length v + 3)
    (p\<lparr>out_event := (set_header_value (header_count (out_event p)) (Some (i + 1, length v)) (out_event p))
         \<lparr>header_count := header_count (out_event p) + 1\<rparr>,
       token_start := i + length v + 3, current_state := HEADER_KEY, saw_colon := False\<rparr>)"
    by (rule parse_loop_step [OF c(1)])
  finally show ?thesis .
qed

definition keys_inside :: "string \<Rightarrow> http_request_event \<Rightarrow> bool" where
  "keys_inside raw ev \<longleftrightarrow> (\<forall>n < header_count ev. view_ok raw (\<lambda>_. True) (hdr_key (req_headers ev ! n)))"

definition adds_headers :: "string \<Rightarrow> http_request_event \<Rightarrow> (string \<times> string) list \<Rightarrow> http_request_event \<Rightarrow> bool" where
  "adds_headers raw ev hs ev' \<longleftrightarrow>
     header_texts raw ev' = header_texts raw ev @ hs \<and> header_count ev' = header_count ev + length hs \<and>
     length (req_headers ev') = max_headers \<and> (keys_inside raw ev \<longrightarrow> keys_inside raw ev') \<and>
     req_method ev' = req_method ev \<and> req_uri ev' = req_uri ev"

lemma adds_headers_trans:
  "adds_headers raw ev hs ev' \<Longrightarrow> adds_headers raw ev' hs' ev'' \<Longrightarrow> adds_headers raw ev (hs @ hs') ev''"
  by (simp add: adds_headers_def)

lemma last_header_text:
  assumes "length (req_headers ev) = max_headers" "header_count ev \<le> max_headers" "0 < header_count ev"
  shows "header_texts raw ev \<noteq> []"
    "fst (last (header_texts raw ev)) = view_str raw (hdr_key (req_headers ev ! (header_count ev - 1)))"
proof -
  have ne: "take (header_count ev) (req_headers ev) \<noteq> []" using assms by (auto simp: max_headers_def)
  then show "header_texts raw ev \<noteq> []" by (simp add: header_texts_def)
  show "fst (last (header_texts raw ev)) = view_str raw (hdr_key (req_headers ev ! (header_count ev - 1)))"
    unfolding header_texts_def last_map [OF ne] last_conv_nth [OF ne] using assms by simp
qed

lemma parse_header:
  fixes ev :: http_request_event
  assumes raw: "drop i raw = print_header h @ rest" and h: "plain_header h"
    and p: "current_state p = HEADER_KEY" "token_start p = i" "saw_colon p = False" "out_event p = ev"
    and ev: "length (req_headers ev) = max_headers" "header_count ev < max_headers" "keys_inside raw ev"
    and inj: "header_texts raw ev \<noteq> [] \<Longrightarrow> not_injected (last (header_texts raw ev)) h"
  shows "\<exists>ev'. adds_headers raw ev [h] ev' \<and>
    parse_loop raw i p = parse_loop raw (i + length (print_header h))
      (p\<lparr>out_event := ev', token_start := i + length (print_header h)\<rparr>)"
proof -
  let ?n = "header_count ev"
  let ?k = "fst h" and ?v = "snd h"
  let ?i = "i + length ?k + 1"
  have raw1: "drop i raw = ?k @ CHR '':'' # CHR '' '' # ?v @ CR # LF # rest"
    using raw by (simp add: print_header_def)
  have raw2: "drop ?i raw = CHR '' '' # ?v @ CR # LF # rest"
    using drop_Cons_nth(3) [OF drop_append_nth(2) [OF raw1]] by simp
  define ev1 where "ev1 = set_header_key ?n (Some (i, length ?k)) ev"
  define p1 where "p1 = p\<lparr>out_event := ev1, token_start := ?i, current_state := HEADER_VALUE, saw_colon := True\<rparr>"
  define ev2 where "ev2 = (set_header_value ?n (Some (?i + 1, length ?v)) ev1)\<lparr>header_count := ?n + 1\<rparr>"
  let ?t = "view_str raw (hdr_key (req_headers ev ! (?n - 1)))"
  have "view_text raw (hdr_key (req_headers ev ! (?n - 1))) = Done ?t \<and> \<not> (?t = ''Host'' \<and> ?k = ''injected'')" if "?n > 0"
    using inj last_header_text [OF ev(1), of raw] ev(2,3) that view_text_ok [of raw "\<lambda>_. True"]
    unfolding not_injected_def keys_inside_def by fastforce
  then have key: "parse_loop raw i p = parse_loop raw ?i p1"
    using parse_key [OF raw1 _ p(1,2), of ?t] h p(4) ev(1,2) by (simp add: plain_header_def p1_def ev1_def)
  have p1: "current_state p1 = HEADER_VALUE" "token_start p1 = ?i" "out_event p1 = ev1" "header_count ev1 = ?n"
    by (simp_all add: p1_def ev1_def set_header_key_def)
  have inside: "i + length ?k \<le> length raw" using drop_Cons_nth(1) [OF drop_append_nth(2) [OF raw1]] by simp
  have "hdr_key (req_headers ev1 ! ?n) = Some (i, length ?k)" "?n < length (req_headers ev1)"
    using ev by (simp_all add: ev1_def set_header_key_def)
  then have "view_text raw (hdr_key (req_headers (out_event p1) ! header_count (out_event p1))) = Done ?k"
      "header_count (out_event p1) < length (req_headers (out_event p1))"
    using inside view_str_segment [OF raw1] p1(3,4) by simp_all
  then have val: "parse_loop raw ?i p1 = parse_loop raw (?i + length ?v + 3)
      (p1\<lparr>out_event := ev2, token_start := ?i + length ?v + 3, current_state := HEADER_KEY, saw_colon := False\<rparr>)"
    using parse_value [OF raw2 _ p1(1,2), of ?k] h p1(3,4) by (simp add: plain_header_def ev2_def)
  have "drop (?i + 1) raw = ?v @ CR # LF # rest" using drop_Cons_nth(3) [OF raw2] by simp
  note texts = view_str_segment [OF raw1] view_str_segment [OF this]
  have "keys_inside raw ev2"
    using ev inside by (auto simp: keys_inside_def ev2_def ev1_def set_header_key_def set_header_value_def view_ok_def
        nth_list_update less_Suc_eq)
  then have "adds_headers raw ev [h] ev2"
    using ev texts by (simp add: adds_headers_def ev2_def ev1_def set_header_key_def set_header_value_def
        header_texts_def take_Suc_conv_app_nth)
  moreover have "?i + length ?v + 3 = i + length (print_header h)" by (simp add: print_header_def)
  moreover have "p1\<lparr>out_event := ev2, token_start := ?i + length ?v + 3, current_state := HEADER_KEY, saw_colon := False\<rparr> =
      p\<lparr>out_event := ev2, token_start := ?i + length ?v + 3\<rparr>"
    using p(1,3) by (cases p) (simp add: p1_def)
  ultimately show ?thesis using key val by metis
qed

lemma parse_headers:
  fixes ev :: http_request_event
  assumes "drop i raw = concat (map print_header hs) @ rest" "list_all plain_header hs"
    and "current_state p = HEADER_KEY" "token_start p = i" "saw_colon p = False" "out_event p = ev"
    and "length (req_headers ev) = max_headers" "header_count ev + length hs \<le> max_headers" "keys_inside raw ev"
    and "length (header_texts raw ev) = header_count ev" "successively not_injected (header_texts raw ev @ hs)"
  shows "\<exists>ev'. adds_headers raw ev hs ev' \<and>
    parse_loop raw i p = parse_loop raw (i + length (concat (map print_header hs)))
      (p\<lparr>out_event := ev', token_start := i + length (concat (map print_header hs))\<rparr>)"
  using assms
proof (induction hs arbitrary: i p ev)
  case Nil
  then have "p\<lparr>out_event := ev, token_start := i\<rparr> = p" by (cases p) simp
  with Nil show ?case by (auto simp: adds_headers_def intro!: exI [of _ ev])
next
  case (Cons h hs)
  let ?j = "i + length (print_header h)"
  have raw: "drop i raw = print_header h @ concat (map print_header hs) @ rest" using Cons.prems(1) by simp
  have inj: "header_texts raw ev \<noteq> [] \<Longrightarrow> not_injected (last (header_texts raw ev)) h"
    using Cons.prems(11) by (auto simp: successively_append_iff)
  obtain ev1 where ev1: "adds_headers raw ev [h] ev1"
      and step: "parse_loop raw i p = parse_loop raw ?j (p\<lparr>out_event := ev1, token_start := ?j\<rparr>)"
    using parse_header [OF raw _ Cons.prems(3-7) _ Cons.prems(9) inj] Cons.prems(2,8) by auto
  obtain ev2 where ev2: "adds_headers raw ev1 hs ev2"
      and rest: "parse_loop raw ?j (p\<lparr>out_event := ev1, token_start := ?j\<rparr>) =
        parse_loop raw (?j + length (concat (map print_header hs)))
          (p\<lparr>out_event := ev1, token_start := ?j, out_event := ev2,
             token_start := ?j + length (concat (map print_header hs))\<rparr>)"
    using Cons.IH [OF drop_append_nth(2) [OF raw], of "p\<lparr>out_event := ev1, token_start := ?j\<rparr>" ev1] Cons.prems ev1
    by (auto simp: adds_headers_def)
  have "p\<lparr>out_event := ev1, token_start := ?j, out_event := ev2, token_start := j\<rparr> =
      p\<lparr>out_event := ev2, token_start := j\<rparr>" for j
    by (cases p) simp
  then show ?case using adds_headers_trans [OF ev1 ev2] step rest by (auto simp: add.assoc)
qed

lemma skip_newlines_strip:
  assumes "drop i raw = body" "i \<le> length raw"
  shows "drop (skip_newlines raw i) raw = dropWhile (\<lambda>c. c = CR \<or> c = LF) body"
  using assms
proof (induction raw i arbitrary: body rule: skip_newlines.induct)
  case (1 raw i)
  show ?case
  proof (cases "i < length raw")
    case True
    then have "body = raw ! i # drop (Suc i) raw" using "1.prems"(1) by (simp add: Cons_nth_drop_Suc)
    with True "1.IH" "1.prems" show ?thesis by (subst skip_newlines.simps) auto
  next
    case False
    with "1.prems" show ?thesis by (subst skip_newlines.simps) auto
  qed
qed

lemma step_body_strips:
  assumes "drop (token_start q) raw = body" "token_start q \<le> length raw"
  shows "\<exists>v. step_body raw q = Done (Return True ((out_event q)\<lparr>req_body := v\<rparr>)) \<and> view_str raw v = stripped_body body"
proof -
  define b where "b = skip_newlines raw (token_start q)"
  define n where "n = length raw - b"
  define rest where "rest = dropWhile (\<lambda>c. c = CR \<or> c = LF) body"
  define nul where "nul \<longleftrightarrow> 0 < n \<and> raw ! (b + n - 1) = NUL"
  have drop: "drop b raw = rest" using skip_newlines_strip [OF assms] by (simp add: b_def rest_def)
  have le: "b \<le> length raw" using skip_newlines_bounds [OF assms(2)] by (simp add: b_def)
  have len: "length rest = n" using drop by (auto simp: n_def)
  have "last rest = raw ! (b + n - 1)" if "0 < n"
    using that le drop [symmetric] by (simp add: n_def last_drop last_conv_nth)
  then have "nul \<longleftrightarrow> rest \<noteq> [] \<and> last rest = NUL" using len by (auto simp: nul_def)
  then have "view_str raw (Some (b, if nul then n - 1 else n)) = stripped_body body"
    using len drop by (simp add: view_str_def stripped_body_def butlast_conv_take rest_def [symmetric])
  moreover have "and_also (0 < n) (char_is raw (b + n - 1) NUL) = Done nul" using le by (simp add: and_also_def nul_def n_def)
  then have "step_body raw q = Done (Return True ((out_event q)\<lparr>req_body := Some (b, if nul then n - 1 else n)\<rparr>))"
    by (simp only: step_body_def Let_def skip_newlines_at_inside bind_outcome.simps b_def [symmetric] n_def [symmetric])
  ultimately show ?thesis by blast
qed

lemma parse_end:
  assumes raw: "drop i raw = CR # LF # body" and p: "current_state p = HEADER_KEY" "token_start p = i"
  shows "\<exists>v. parse_loop raw i p = Done (True, (out_event p)\<lparr>req_body := v\<rparr>) \<and> view_str raw v = stripped_body body"
proof -
  note c = drop_Cons_nth [OF raw]
  note d = drop_Cons_nth [OF c(3)]
  let ?p = "p\<lparr>current_state := BODY, token_start := i + 2\<rparr>"
  have "parse_loop raw i p = parse_loop raw (i + 2) ?p"
    using c d p by (intro parse_loop_step) (auto simp: http_step_def step_header_key_def and_also_def)
  also have "\<exists>v. parse_loop raw (i + 2) ?p = Done (True, (out_event p)\<lparr>req_body := v\<rparr>) \<and> view_str raw v = stripped_body body"
  proof (cases "i + 2 < length raw")
    case False
    then have "body = []" using d(3) by auto
    then show ?thesis using False by (subst parse_loop.simps) (auto simp: view_str_def stripped_body_def)
  next
    case True
    define q where "q = ?p"
    have q: "token_start q = i + 2" "current_state q = BODY" "out_event q = out_event p" by (simp_all add: q_def)
    obtain v where v: "step_body raw q = Done (Return True ((out_event q)\<lparr>req_body := v\<rparr>))" "view_str raw v = stripped_body body"
      using step_body_strips [of q raw body] d(3) q(1) True by auto
    then have "http_step raw (i + 2) q = Done (Return True ((out_event p)\<lparr>req_body := v\<rparr>))"
      using True q by (simp add: http_step_def)
    then show ?thesis using True v(2) unfolding q_def by (subst parse_loop.simps) auto
  qed
  finally show ?thesis .
qed

text \<open>The request line as a whole.\<close>

definition line_length :: "string \<Rightarrow> string \<Rightarrow> string \<Rightarrow> nat" where
  "line_length m u ver = length m + length u + length ver + 4"

definition after_line :: "u32 \<Rightarrow> string \<Rightarrow> string \<Rightarrow> string \<Rightarrow> http_parser" where
  "after_line cid m u ver =
     \<lparr>current_state = HEADER_KEY, token_start = line_length m u ver, saw_colon = False,
      out_event = (http_request_init cid)\<lparr>req_method := Some (0, length m), req_uri := Some (length m + 1, length u)\<rparr>\<rparr>"

lemma parse_line:
  assumes "raw = m @ CHR '' '' # u @ CHR '' '' # ver @ CR # LF # tail" "ok_method m" "ok_uri u" "ver \<noteq> []" "LF \<notin> set ver"
  shows "parse raw (http_request_init cid) = parse_loop raw (line_length m u ver) (after_line cid m u ver)"
    and "drop (line_length m u ver) raw = tail"
    and "view_str raw (Some (0, length m)) = m" "view_str raw (Some (length m + 1, length u)) = u"
proof -
  let ?p0 = "\<lparr>current_state = METHOD, token_start = 0, saw_colon = False, out_event = http_request_init cid\<rparr>"
  have r0: "drop 0 raw = m @ CHR '' '' # u @ CHR '' '' # ver @ CR # LF # tail" using assms(1) by simp
  let ?i1 = "0 + length m + 1"
  have r1: "drop ?i1 raw = u @ CHR '' '' # ver @ CR # LF # tail"
    using drop_Cons_nth(3) [OF drop_append_nth(2) [OF r0]] by simp
  let ?i2 = "?i1 + length u + 1"
  have r2: "drop ?i2 raw = ver @ CR # LF # tail"
    using drop_Cons_nth(3) [OF drop_append_nth(2) [OF r1]] by simp
  have i3: "line_length m u ver = ?i2 + length ver + 2" by (simp add: line_length_def)
  show "drop (line_length m u ver) raw = tail" unfolding i3
    using drop_Cons_nth(3) [OF drop_Cons_nth(3) [OF drop_append_nth(2) [OF r2]]] by simp
  show "parse raw (http_request_init cid) = parse_loop raw (line_length m u ver) (after_line cid m u ver)"
    unfolding after_line_def i3
    using parse_method [OF r0, of ?p0] parse_uri [OF r1] parse_version [OF r2] assms(2-5) by (simp add: parse_def)
  show "view_str raw (Some (0, length m)) = m" "view_str raw (Some (length m + 1, length u)) = u"
    using view_str_segment [OF r0] view_str_segment [OF r1] by simp_all
qed

section \<open>Properties\<close>

text \<open>C15: Whatever bytes arrive, the parser ends without a read outside of its buffer, of a view into it or of its
  sixteen headers, and stores only clean headers: keys of one to 64 visible ASCII characters without a
  colon, values without CR or LF and without blanks around them, never a chunked transfer encoding. An
  accepted request has a method without blanks and a URI without blanks and line breaks, neither empty,
  and all views lie in the buffer.\<close>

theorem parse_sound:
  "\<exists>r ev. parse raw (http_request_init cid) = Done (r, ev) \<and>
    header_count ev \<le> max_headers \<and> (\<forall>n < header_count ev. ok_header raw (req_headers ev ! n)) \<and>
    (r \<longrightarrow> view_ok raw ok_method (req_method ev) \<and> view_ok raw ok_uri (req_uri ev) \<and>
       (req_body ev = None \<or> view_ok raw (\<lambda>_. True) (req_body ev)))"
  using parse_total [of raw cid] unfolding event_good_def by blast

definition sample_request :: string where
  "sample_request = print_request ''GET'' ''/index'' ''HTTP/1.1'' [(''Host'', ''a b'')] ''hi''"

lemma sample_accepted:
  "map_outcome_result (\<lambda>(r, ev). (r, header_count ev)) (parse sample_request (http_request_init 3)) = Done (True, 1)"
  by code_simp

theorem parse_sound_witness:
  "\<exists>ev. parse sample_request (http_request_init 3) = Done (True, ev) \<and>
     ok_header sample_request (req_headers ev ! 0) \<and> view_ok sample_request ok_uri (req_uri ev)"
  using parse_sound [of sample_request 3] sample_accepted by (auto simp: map_outcome_result_Done)

text \<open>C14: Parsing inverts printing. A request printed from a method, a URI, a version, up to sixteen plain headers
  of which none named \<open>injected\<close> comes right after one named \<open>Host\<close>, and any body is accepted, and the views show the
  printed method, URI and headers, in order. The view of the body shows the body without the line
  breaks at its start and without one NUL at its end, so the body itself if it has neither.\<close>

theorem parse_print_request:
  fixes body :: string
  assumes "ok_request m u ver hs"
  defines "raw \<equiv> print_request m u ver hs body"
  shows "\<exists>ev. parse raw (http_request_init cid) = Done (True, ev) \<and>
    view_str raw (req_method ev) = m \<and> view_str raw (req_uri ev) = u \<and>
    header_texts raw ev = hs \<and> header_count ev = length hs \<and> view_str raw (req_body ev) = stripped_body body \<and>
    ((body \<noteq> [] \<longrightarrow> hd body \<notin> {CR, LF} \<and> last body \<noteq> NUL) \<longrightarrow> view_str raw (req_body ev) = body)"
proof -
  note ok = assms(1) [unfolded ok_request_def]
  let ?hs = "concat (map print_header hs)" and ?i3 = "line_length m u ver" and ?p3 = "after_line cid m u ver"
  have "raw = m @ CHR '' '' # u @ CHR '' '' # ver @ CR # LF # ?hs @ CR # LF # body"
    by (simp add: raw_def print_request_def)
  note line = parse_line [OF this]
  have r3: "drop ?i3 raw = ?hs @ CR # LF # body" using line(2) ok by blast
  let ?i4 = "?i3 + length ?hs"
  have r4: "drop ?i4 raw = CR # LF # body" using drop_append_nth(2) [OF r3] .
  have none: "header_texts raw (out_event ?p3) = []" "keys_inside raw (out_event ?p3)"
    by (simp_all add: header_texts_def keys_inside_def after_line_def http_request_init_def)
  then obtain ev2 where ev2: "adds_headers raw (out_event ?p3) hs ev2"
      and headers: "parse_loop raw ?i3 ?p3 = parse_loop raw ?i4 (?p3\<lparr>out_event := ev2, token_start := ?i4\<rparr>)"
    using parse_headers [OF r3, of ?p3 "out_event ?p3"] ok
    by (auto simp: after_line_def http_request_init_def)
  obtain v where fin: "parse_loop raw ?i4 (?p3\<lparr>out_event := ev2, token_start := ?i4\<rparr>) = Done (True, ev2\<lparr>req_body := v\<rparr>)"
      and v: "view_str raw v = stripped_body body"
    using parse_end [OF r4, of "?p3\<lparr>out_event := ev2, token_start := ?i4\<rparr>"] by (auto simp: after_line_def)
  have "header_texts raw (ev2\<lparr>req_body := v\<rparr>) = header_texts raw ev2" by (simp add: header_texts_def)
  moreover have "header_texts raw ev2 = hs" "header_count ev2 = length hs"
      "req_method ev2 = Some (0, length m)" "req_uri ev2 = Some (length m + 1, length u)"
    using ev2 none(1) by (simp_all add: adds_headers_def) (simp_all add: after_line_def http_request_init_def)
  ultimately show ?thesis using line(1,3,4) ok headers fin v stripped_body_plain [of body] by simp
qed

lemma sample_ok: "ok_request ''GET'' ''/index'' ''HTTP/1.1'' [(''Host'', ''a b'')]"
  by code_simp

theorem parse_print_request_witness:
  "\<exists>ev. parse sample_request (http_request_init 3) = Done (True, ev) \<and> view_str sample_request (req_uri ev) = ''/index'' \<and>
     header_texts sample_request ev = [(''Host'', ''a b'')] \<and> view_str sample_request (req_body ev) = ''hi''"
  using parse_print_request [OF sample_ok, of "''hi''" 3] unfolding sample_request_def by auto

text \<open>A header line without a colon is rejected, whatever follows it.\<close>

theorem parse_rejects_missing_colon:
  assumes "ok_method m" "ok_uri u" "ver \<noteq> []" "LF \<notin> set ver" "line \<noteq> []"
    "set line \<inter> {CR, LF, CHR '':''} = {}" "nl = CR \<or> nl = LF"
  shows "\<exists>ev. parse (m @ '' '' @ u @ '' '' @ ver @ [CR, LF] @ line @ nl # rest) (http_request_init cid) = Done (False, ev)"
proof -
  define raw where "raw = m @ '' '' @ u @ '' '' @ ver @ [CR, LF] @ line @ nl # rest"
  let ?i3 = "line_length m u ver" and ?p3 = "after_line cid m u ver"
  have "raw = m @ CHR '' '' # u @ CHR '' '' # ver @ CR # LF # line @ nl # rest" by (simp add: raw_def)
  note line = parse_line [OF this assms(1-4)]
  note nth = drop_append_nth [OF line(2)]
  note c = drop_Cons_nth [OF nth(2)]
  have p3: "current_state ?p3 = HEADER_KEY" "token_start ?p3 = ?i3" "\<not> saw_colon ?p3"
    by (simp_all add: after_line_def)
  have "parse raw (http_request_init cid) = parse_loop raw (?i3 + length line) ?p3"
    unfolding line(1)
  proof (rule scan [OF line(2)])
    fix k assume k: "k < length line" and b: "?i3 + k < length raw"
    have "raw ! (?i3 + k) \<notin> {CR, LF, CHR '':''}" using nth(1) [OF k] nth_mem [OF k] assms(6)
      by (auto simp del: nth_mem)
    then show "http_step raw (?i3 + k) ?p3 = Done (Continue (?i3 + k + 1) ?p3)"
      using p3 b by (auto simp: http_step_def step_header_key_def Let_def)
  qed
  moreover have "http_step raw (?i3 + length line) ?p3 = Done (Return False (out_event ?p3))"
    using c(1,2) assms(5,7) p3 by (auto simp: http_step_def step_header_key_def Let_def)
  then have "parse_loop raw (?i3 + length line) ?p3 = Done (False, out_event ?p3)"
    using c(1) by (subst parse_loop.simps) simp
  ultimately show ?thesis unfolding raw_def by simp
qed

theorem parse_rejects_missing_colon_witness:
  "\<exists>ev. parse (''GET'' @ '' '' @ ''/'' @ '' '' @ ''HTTP/1.1'' @ [CR, LF] @ ''NoColonHere'' @ CR # [LF, CR, LF]) (http_request_init 3) = Done (False, ev)"
  by (rule parse_rejects_missing_colon) (simp_all add: ok_method_def ok_uri_def)

end
