(* ===== verification/Slab_Allocator.thy ===== *)
theory Slab_Allocator
  imports Free_List
begin

text \<open>
  \<open>slab_allocator\<close> of \<open>include/conduit/pending/core/slab_allocator.hpp\<close>. Unlike the pool's union, a slot
  has its \<open>next_free\<close> field beside the storage; the object keeps its own slot number in
  \<open>internal_index\<close>, which \<open>deallocate\<close> reads back after the destructor has run (the bytes stay).
  The head packs a 32-bit counter above a 32-bit index. As for the pool, the first argument of the
  loops lists which weak compare-and-swaps fail spuriously.
\<close>

section \<open>The allocator\<close>

record 'a slot =
  storage :: "'a option"
  internal_index :: u32
  next_free :: u32

record 'a slab_allocator =
  slots :: "'a slot list"
  slab_head :: u64

definition pack :: "u32 \<Rightarrow> u32 \<Rightarrow> u64" where
  "pack aba_counter index = push_bit 32 (ucast aba_counter) OR ucast index"

definition unpack :: "u64 \<Rightarrow> u32 \<times> u32" where
  "unpack packed = (ucast (drop_bit 32 packed), ucast (packed AND 0xFFFFFFFF))"

text \<open>The constructor throws for capacity 0; \<open>garbage\<close> is what the slots hold before.\<close>

definition slab_ctor :: "'a slot list \<Rightarrow> string + 'a slab_allocator" where
  "slab_ctor garbage =
     (let capacity = length garbage in
      if capacity = 0 then Inl ''CONDUIT: Capacity must be > 0''
      else
        let m1 = fold (\<lambda>i m. m[i := (m ! i)\<lparr>next_free := word_of_nat (i + 1)\<rparr>]) [0..<capacity - 1] garbage;
            m2 = m1[capacity - 1 := (m1 ! (capacity - 1))\<lparr>next_free := end_of_list\<rparr>]
        in Inr \<lparr>slots = m2, slab_head = pack 0 0\<rparr>)"

fun allocate_loop :: "bool list \<Rightarrow> u64 \<Rightarrow> 'a \<Rightarrow> 'a slab_allocator \<Rightarrow> (nat option \<times> 'a slab_allocator) outcome" where
  "allocate_loop [] current_head v s = Pending"
| "allocate_loop (weak # ws) current_head v s =
     (let (aba_counter, index) = unpack current_head in
      if index = end_of_list then Done (None, s)
      else if unat index \<ge> length (slots s) then Fault
      else
        let next_index = next_free (slots s ! unat index);
            new_head = pack (aba_counter + 1) next_index
        in if slab_head s = current_head \<and> \<not> weak
           then Done (Some (unat index),
             s\<lparr>slots := (slots s)[unat index := (slots s ! unat index)\<lparr>storage := Some v, internal_index := index\<rparr>],
               slab_head := new_head\<rparr>)
           else allocate_loop ws (slab_head s) v s)"

definition allocate :: "bool list \<Rightarrow> 'a \<Rightarrow> 'a slab_allocator \<Rightarrow> (nat option \<times> 'a slab_allocator) outcome" where
  "allocate ws v s = allocate_loop ws (slab_head s) v s"

fun deallocate_loop :: "bool list \<Rightarrow> u64 \<Rightarrow> u32 \<Rightarrow> 'a slab_allocator \<Rightarrow> 'a slab_allocator outcome" where
  "deallocate_loop [] current_head index s = Pending"
| "deallocate_loop (weak # ws) current_head index s =
     (let (aba_counter, current_index) = unpack current_head in
      if unat index \<ge> length (slots s) then Fault
      else
        let s1 = s\<lparr>slots := (slots s)[unat index := (slots s ! unat index)\<lparr>next_free := current_index\<rparr>]\<rparr>;
            new_head = pack (aba_counter + 1) index
        in if slab_head s1 = current_head \<and> \<not> weak then Done (s1\<lparr>slab_head := new_head\<rparr>)
           else deallocate_loop ws (slab_head s1) index s1)"

text \<open>A pointer is the number of the slot it points into.\<close>

definition deallocate :: "bool list \<Rightarrow> nat option \<Rightarrow> 'a slab_allocator \<Rightarrow> 'a slab_allocator outcome" where
  "deallocate ws q s =
     (case q of
        None \<Rightarrow> Done s
      | Some x \<Rightarrow>
          if x \<ge> length (slots s) then Fault
          else
            let s1 = s\<lparr>slots := (slots s)[x := (slots s ! x)\<lparr>storage := None\<rparr>]\<rparr>
            in deallocate_loop ws (slab_head s1) (internal_index (slots s1 ! x)) s1)"

section \<open>Packing\<close>

lemma unpack_pack [simp]: "unpack (pack c i) = (c, i)"
proof -
  have "(ucast (drop_bit 32 (pack c i)) :: u32) = c"
    by (rule bit_word_eqI) (auto simp: pack_def bit_simps add.commute dest: bit_imp_le_length)
  moreover have "(ucast (pack c i AND 0xFFFFFFFF) :: u32) = i"
    using head_idx_alt [of "pack c i"]
    by (intro bit_word_eqI) (auto simp: pack_def head_idx_def bit_simps)
  ultimately show ?thesis by (simp add: unpack_def)
qed

lemma pack_unpack: "unpack h = (c, i) \<Longrightarrow> pack c i = h"
proof -
  assume h: "unpack h = (c, i)"
  then have c: "c = ucast (drop_bit 32 h)" and i: "i = ucast h"
    using head_idx_alt [of h] by (auto simp: unpack_def head_idx_def)
  show "pack c i = h"
  proof (rule bit_word_eqI)
    fix n :: nat
    assume n: "n < LENGTH(64)"
    show "bit (pack c i) n = bit h n"
      using n by (cases "n < 32") (auto simp: c i pack_def bit_simps)
  qed
qed

section \<open>The free list and the invariant\<close>

definition slab_next :: "'a slab_allocator \<Rightarrow> nat \<Rightarrow> u32" where
  "slab_next s i = next_free (slots s ! i)"

definition slab_free_cells :: "'a slab_allocator \<Rightarrow> nat list" where
  "slab_free_cells s = walk (length (slots s)) (slab_next s) (snd (unpack (slab_head s)))"

definition slab_object :: "'a slab_allocator \<Rightarrow> nat \<Rightarrow> 'a option" where
  "slab_object s i = (if i < length (slots s) then storage (slots s ! i) else None)"

definition slab_inv :: "'a slab_allocator \<Rightarrow> bool" where
  "slab_inv s \<longleftrightarrow>
     length (slots s) \<le> 0xFFFFFFFF \<and>
     chain (slab_next s) (length (slots s)) (snd (unpack (slab_head s))) (slab_free_cells s) \<and>
     (\<forall>i < length (slots s). i \<in> set (slab_free_cells s) \<longleftrightarrow> slab_object s i = None) \<and>
     (\<forall>i < length (slots s). slab_object s i \<noteq> None \<longrightarrow> internal_index (slots s ! i) = word_of_nat i)"

lemma slab_invI:
  assumes "length (slots s) \<le> 0xFFFFFFFF"
    and c: "chain (slab_next s) (length (slots s)) (snd (unpack (slab_head s))) xs"
    and "\<And>i. i < length (slots s) \<Longrightarrow> i \<in> set xs \<longleftrightarrow> slab_object s i = None"
    and "\<And>i. i < length (slots s) \<Longrightarrow> slab_object s i \<noteq> None \<Longrightarrow> internal_index (slots s ! i) = word_of_nat i"
  shows "slab_inv s \<and> slab_free_cells s = xs"
proof -
  have "slab_free_cells s = xs"
    unfolding slab_free_cells_def by (rule walk_chain_n [OF c])
  with assms show ?thesis by (simp add: slab_inv_def)
qed

lemma slab_invD:
  assumes "slab_inv s"
  shows "chain (slab_next s) (length (slots s)) (snd (unpack (slab_head s))) (slab_free_cells s)"
    and "length (slots s) \<le> 0xFFFFFFFF"
    and "i < length (slots s) \<Longrightarrow> i \<in> set (slab_free_cells s) \<longleftrightarrow> slab_object s i = None"
    and "i < length (slots s) \<Longrightarrow> slab_object s i \<noteq> None \<Longrightarrow> internal_index (slots s ! i) = word_of_nat i"
  using assms by (auto simp: slab_inv_def)

text \<open>The allocator after slot \<open>x\<close> was taken and after it was given back.\<close>

definition slab_taken :: "'a \<Rightarrow> nat \<Rightarrow> 'a slab_allocator \<Rightarrow> 'a slab_allocator" where
  "slab_taken v x s =
     s\<lparr>slots := (slots s)[x := (slots s ! x)\<lparr>storage := Some v, internal_index := word_of_nat x\<rparr>],
       slab_head := pack (fst (unpack (slab_head s)) + 1) (slab_next s x)\<rparr>"

definition slab_given :: "nat \<Rightarrow> 'a slab_allocator \<Rightarrow> 'a slab_allocator" where
  "slab_given x s =
     s\<lparr>slots := (slots s)[x := (slots s ! x)\<lparr>storage := None, next_free := snd (unpack (slab_head s))\<rparr>],
       slab_head := pack (fst (unpack (slab_head s)) + 1) (word_of_nat x)\<rparr>"

lemma slab_next_taken [simp]: "slab_next (slab_taken v x s) = slab_next s"
proof
  fix i
  show "slab_next (slab_taken v x s) i = slab_next s i"
    by (cases "i = x"; cases "x < length (slots s)") (simp_all add: slab_taken_def slab_next_def list_update_beyond not_less)
qed

lemma slab_taken_simps [simp]:
  "length (slots (slab_taken v x s)) = length (slots s)"
  "snd (unpack (slab_head (slab_taken v x s))) = slab_next s x"
  "x < length (slots s) \<Longrightarrow> slab_object (slab_taken v x s) = (slab_object s)(x \<mapsto> v)"
  by (auto simp: slab_taken_def slab_next_def slab_object_def fun_eq_iff nth_list_update)

lemma slab_given_simps [simp]:
  "length (slots (slab_given x s)) = length (slots s)"
  "snd (unpack (slab_head (slab_given x s))) = word_of_nat x"
  "x < length (slots s) \<Longrightarrow> slab_next (slab_given x s) = (slab_next s)(x := snd (unpack (slab_head s)))"
  "x < length (slots s) \<Longrightarrow> slab_object (slab_given x s) = (slab_object s)(x := None)"
  by (auto simp: slab_given_def slab_next_def slab_object_def fun_eq_iff nth_list_update)

lemma slab_inv_taken:
  assumes inv: "slab_inv s" and fc: "slab_free_cells s = x # xs"
  shows "slab_inv (slab_taken v x s) \<and> slab_free_cells (slab_taken v x s) = xs"
proof (rule slab_invI)
  note c = slab_invD(1) [OF inv, unfolded fc]
  then have x: "x < length (slots s)" by simp
  show "length (slots (slab_taken v x s)) \<le> 0xFFFFFFFF" using slab_invD(2) [OF inv] by simp
  show "chain (slab_next (slab_taken v x s)) (length (slots (slab_taken v x s)))
      (snd (unpack (slab_head (slab_taken v x s)))) xs" using c by simp
  fix i assume i: "i < length (slots (slab_taken v x s))"
  then show "i \<in> set xs \<longleftrightarrow> slab_object (slab_taken v x s) i = None"
    using slab_invD(3) [OF inv, of i] c chain_distinct [OF c] fc x by auto
  show "internal_index (slots (slab_taken v x s) ! i) = word_of_nat i"
    if "slab_object (slab_taken v x s) i \<noteq> None"
    using slab_invD(4) [OF inv, of i] i x that by (auto simp: slab_taken_def slab_object_def nth_list_update split: if_splits)
qed

lemma slab_inv_given:
  assumes inv: "slab_inv s" and x: "x < length (slots s)" "x \<notin> set (slab_free_cells s)"
  shows "slab_inv (slab_given x s) \<and> slab_free_cells (slab_given x s) = x # slab_free_cells s"
proof (rule slab_invI)
  show "length (slots (slab_given x s)) \<le> 0xFFFFFFFF" using slab_invD(2) [OF inv] by simp
  have below: "x < 0xFFFFFFFF" using x(1) slab_invD(2) [OF inv] by linarith
  have "chain (slab_next (slab_given x s)) (length (slots s)) (snd (unpack (slab_head s))) (slab_free_cells s)"
    using slab_invD(1) [OF inv] x by simp
  then show "chain (slab_next (slab_given x s)) (length (slots (slab_given x s)))
      (snd (unpack (slab_head (slab_given x s)))) (x # slab_free_cells s)"
    using x(1) unat_word_of_nat_below [OF below] word_of_nat_not_end [OF below] by simp
  fix i assume i: "i < length (slots (slab_given x s))"
  then show "i \<in> set (x # slab_free_cells s) \<longleftrightarrow> slab_object (slab_given x s) i = None"
    using slab_invD(3) [OF inv, of i] x by auto
  show "internal_index (slots (slab_given x s) ! i) = word_of_nat i" if "slab_object (slab_given x s) i \<noteq> None"
    using slab_invD(4) [OF inv, of i] i x that by (auto simp: slab_given_def slab_object_def nth_list_update split: if_splits)
qed

lemma allocate_taken:
  assumes "slab_inv s" "slab_free_cells s = x # xs" "False \<in> set ws"
  shows "allocate ws v s = Done (Some x, slab_taken v x s)"
proof -
  obtain c i where u: "unpack (slab_head s) = (c, i)" by (cases "unpack (slab_head s)")
  then have i: "i \<noteq> end_of_list" "unat i = x" "x < length (slots s)"
    using slab_invD(1) [OF assms(1)] by (simp_all add: assms(2))
  then have "i = word_of_nat x" by auto
  with i show ?thesis
    using assms(3) unfolding allocate_def
    by (induction ws) (auto simp: slab_taken_def slab_next_def u Let_def)
qed

lemma deallocate_loop_given:
  assumes "False \<in> set ws" "x < length (slots s)" "unat index = x" "head = slab_head s" "storage (slots s ! x) = None"
  shows "deallocate_loop ws head index s = Done (slab_given x s)"
  using assms
proof (induction ws head index s rule: deallocate_loop.induct)
  case (2 weak ws head index s)
  obtain c i where u: "unpack (slab_head s) = (c, i)" by (cases "unpack (slab_head s)")
  let ?s = "s\<lparr>slots := (slots s)[x := (slots s ! x)\<lparr>next_free := i\<rparr>]\<rparr>"
  have "index = word_of_nat x" using "2.prems"(3) by auto
  moreover have "slab_given x ?s = slab_given x s"
    using "2.prems"(2) by (simp add: slab_given_def)
  moreover have eq: "(slots s ! x)\<lparr>storage := None, next_free := i\<rparr> = (slots s ! x)\<lparr>next_free := i\<rparr>"
    using "2.prems"(5) by (cases "slots s ! x") simp
  have "slab_given x s = ?s\<lparr>slab_head := pack (c + 1) (word_of_nat x)\<rparr>"
    unfolding slab_given_def u fst_conv snd_conv eq by simp
  ultimately show ?case
    using 2 u by (auto simp: Let_def)
qed simp

lemma deallocate_given:
  assumes inv: "slab_inv s" and x: "x < length (slots s)" "x \<notin> set (slab_free_cells s)" and ws: "False \<in> set ws"
  shows "deallocate ws (Some x) s = Done (slab_given x s)"
proof -
  let ?s = "s\<lparr>slots := (slots s)[x := (slots s ! x)\<lparr>storage := None\<rparr>]\<rparr>"
  have "x < 0xFFFFFFFF" using x(1) slab_invD(2) [OF inv] by linarith
  moreover have "internal_index (slots s ! x) = word_of_nat x"
    using slab_invD(3,4) [OF inv x(1)] x(2) by blast
  ultimately have "unat (internal_index (slots ?s ! x)) = x"
    using x(1) unat_word_of_nat_below by simp
  then have "deallocate_loop ws (slab_head ?s) (internal_index (slots ?s ! x)) ?s = Done (slab_given x ?s)"
    using x(1) ws by (intro deallocate_loop_given) simp_all
  moreover have "slab_given x ?s = slab_given x s" using x(1) by (simp add: slab_given_def)
  ultimately show ?thesis using x(1) by (simp add: deallocate_def Let_def)
qed

lemma allocate_exhausted:
  assumes "slab_inv s" "slab_free_cells s = []" "ws \<noteq> []"
  shows "allocate ws v s = Done (None, s)"
proof -
  obtain c i where u: "unpack (slab_head s) = (c, i)" by (cases "unpack (slab_head s)")
  then have "i = end_of_list" using slab_invD(1) [OF assms(1)] by (simp add: assms(2))
  then show ?thesis using assms(3) u by (cases ws) (simp_all add: allocate_def)
qed

text \<open>The constructor links each slot to the next one and leaves the rest of it as it was.\<close>

lemma slab_ctor_slots:
  fixes garbage :: "'a slot list"
  assumes "0 < length garbage"
  obtains s where "slab_ctor garbage = Inr s" "length (slots s) = length garbage" "slab_head s = 0"
    "\<forall>i < length garbage. slots s ! i = (garbage ! i)\<lparr>next_free := (if Suc i < length garbage then word_of_nat (Suc i) else end_of_list)\<rparr>"
proof -
  let ?n = "length garbage" and ?set = "\<lambda>i (m :: 'a slot list). m[i := (m ! i)\<lparr>next_free := word_of_nat (i + 1)\<rparr>]"
  have fold: "length (fold ?set [0..<k] m) = length m \<and>
      (\<forall>i < length m. fold ?set [0..<k] m ! i =
        (if i < k then (m ! i)\<lparr>next_free := word_of_nat (Suc i)\<rparr> else m ! i))" for k m
    by (induction k) (auto simp: nth_list_update less_Suc_eq)
  let ?m = "fold ?set [0..<?n - 1] garbage"
  show ?thesis
    by (rule that [of "\<lparr>slots = ?m[?n - 1 := (?m ! (?n - 1))\<lparr>next_free := end_of_list\<rparr>], slab_head = 0\<rparr>"])
       (use assms fold [of "?n - 1" garbage] in \<open>auto simp: slab_ctor_def pack_def Let_def nth_list_update\<close>)
qed

lemma slab_ctor_inv:
  fixes garbage :: "'a slot list"
  assumes "0 < length garbage" "length garbage \<le> 0xFFFFFFFF" "\<forall>g \<in> set garbage. storage g = None"
  shows "\<exists>s. slab_ctor garbage = Inr s \<and> slab_inv s \<and> slab_free_cells s = [0..<length garbage] \<and>
    length (slots s) = length garbage"
proof -
  let ?n = "length garbage"
  obtain s where s: "slab_ctor garbage = Inr s" "length (slots s) = ?n" "slab_head s = 0"
      "\<forall>i < ?n. slots s ! i = (garbage ! i)\<lparr>next_free := (if Suc i < ?n then word_of_nat (Suc i) else end_of_list)\<rparr>"
    by (rule slab_ctor_slots [OF assms(1)])
  have nxt: "slab_next s i = (if Suc i < ?n then word_of_nat (Suc i) else end_of_list)" if "i < ?n" for i
    using s(4) that by (simp add: slab_next_def)
  have "chain (slab_next s) ?n (if 0 < ?n then word_of_nat 0 else end_of_list) [0..<?n]"
    using assms(2) by (rule chain_fresh) (simp_all add: nxt)
  then have "chain (slab_next s) (length (slots s)) (snd (unpack (slab_head s))) [0..<?n]"
    using assms(1) s(2,3) by (simp add: unpack_def)
  moreover have "slab_object s i = None" if "i < ?n" for i
    using that assms(3) s(2,4) by (simp add: slab_object_def)
  ultimately have "slab_inv s \<and> slab_free_cells s = [0..<?n]"
    using s(2) assms(2) by (intro slab_invI) auto
  with s(1,2) show ?thesis by blast
qed

section \<open>The allocator implements the contract\<close>

interpretation sl: slab allocate "\<lambda>ws x. deallocate ws (Some x)" slab_free_cells
  "\<lambda>s. length (slots s)" slab_object slab_inv
proof unfold_locales
  fix s :: "'a slab_allocator" and x xs ws v
  assume inv: "slab_inv s"
  show "distinct (slab_free_cells s)" using slab_invD(1) [OF inv] by (rule chain_distinct)
  show "set (slab_free_cells s) \<subseteq> {..<length (slots s)}" using slab_invD(1) [OF inv] by (rule chain_bounded)
  show "dom (slab_object s) = {..<length (slots s)} - set (slab_free_cells s)"
    using slab_invD(3) [OF inv] by (auto simp: slab_object_def split: if_splits)
  show "allocate ws v s = Done (None, s)" if "slab_free_cells s = []" "ws \<noteq> []"
    using inv that by (rule allocate_exhausted)
  show "\<exists>s'. allocate ws v s = Done (Some x, s') \<and> slab_inv s' \<and> slab_free_cells s' = xs \<and>
      length (slots s') = length (slots s) \<and> slab_object s' = (slab_object s)(x \<mapsto> v)"
    if fc: "slab_free_cells s = x # xs" and ws: "False \<in> set ws"
  proof -
    have "x < length (slots s)" using slab_invD(1) [OF inv] fc by simp
    with allocate_taken [OF inv fc ws] slab_inv_taken [OF inv fc, of v] show ?thesis by auto
  qed
  show "\<exists>s'. deallocate ws (Some x) s = Done s' \<and> slab_inv s' \<and> slab_free_cells s' = x # slab_free_cells s \<and>
      length (slots s') = length (slots s) \<and> slab_object s' = (slab_object s)(x := None)"
    if x: "x < length (slots s)" "x \<notin> set (slab_free_cells s)" and ws: "False \<in> set ws"
    using deallocate_given [OF inv x ws] slab_inv_given [OF inv x] x(1) by auto
qed

section \<open>Properties\<close>

text \<open>On a new allocator, for every sequence of allocations and deallocations of held slots and every
  pattern of spurious compare-and-swap failures that lets an attempt succeed, no access leaves the
  slots, none is lost and none is handed out twice.\<close>

theorem slab_slots_partitioned:
  assumes "0 < length garbage" "length garbage \<le> 0xFFFFFFFF" "\<forall>g \<in> set garbage. storage g = None"
    and "slab_ctor garbage = Inr s" "False \<in> set ws"
  shows "\<exists>held s'. slab_run allocate (\<lambda>ws x. deallocate ws (Some x)) ws ops [] s = Done (held, s') \<and>
    distinct (held @ slab_free_cells s') \<and> set (held @ slab_free_cells s') = {..<length garbage} \<and>
    dom (slab_object s') = set held"
proof -
  have s: "slab_inv s" "slab_free_cells s = [0..<length garbage]" "length (slots s) = length garbage"
    using slab_ctor_inv [OF assms(1-3)] assms(4) by auto
  then have "set (slab_free_cells s) = {..<length (slots s)}" by auto
  from sl.run_partitioned [OF s(1) this assms(5), of ops] s(3) show ?thesis by simp
qed

theorem slab_slots_partitioned_witness:
  "\<exists>s held s'. slab_ctor (replicate 2 \<lparr>storage = None, internal_index = 9, next_free = 9\<rparr>) = Inr (s :: nat slab_allocator) \<and>
    slab_run allocate (\<lambda>ws x. deallocate ws (Some x)) [True, False] [Alloc 7, Alloc 8, Alloc 9, Dealloc 1] [] s =
      Done (held, s') \<and> distinct (held @ slab_free_cells s') \<and> dom (slab_object s') = set held"
proof -
  let ?g = "replicate 2 \<lparr>storage = None, internal_index = 9, next_free = 9\<rparr> :: nat slot list"
  obtain s where s: "slab_ctor ?g = Inr s" using slab_ctor_inv [of ?g] by auto
  show ?thesis
    using slab_slots_partitioned [of ?g s "[True, False]" "[Alloc 7, Alloc 8, Alloc 9, Dealloc 1]"] s by auto
qed

text \<open>The packed head loses nothing: packing and unpacking are inverse to each other on every counter, index
  and 64-bit word.\<close>

theorem pack_unpack_inverse: "unpack (pack c i) = (c, i) \<and> (case unpack h of (c', i') \<Rightarrow> pack c' i' = h)"
  using pack_unpack [of h] by (auto split: prod.split)

end
