(* ===== verification/Pinned_Slab.thy ===== *)
theory Pinned_Slab
  imports Free_List
begin

text \<open>
  \<open>pinned_slab_allocator\<close> of \<open>include/conduit/pending/core/pinned_slab_allocator.hpp\<close>: a free list threaded
  through page-locked blocks, with a bare 32-bit head index and a counter of free blocks. One thread
  at a time it keeps the contract of a slab allocator; with two threads the head has no tag, and an
  interleaving that hands a block out twice is exhibited.
\<close>

section \<open>The allocator\<close>

text \<open>A block holds an object or, in its first four bytes, the index of the next free block.\<close>

datatype 'a block = Object 'a | Link u32

record 'a pinned =
  blocks :: "'a block list"
  head_index :: u32
  free_count :: u64

fun read_link :: "('a \<Rightarrow> u32) \<Rightarrow> 'a block \<Rightarrow> u32" where
  "read_link bits (Link n) = n"
| "read_link bits (Object v) = bits v"

text \<open>The constructor throws when the system refuses the memory or refuses to lock it. With \<open>PoolSize\<close> 0
  the loop bound wraps around and the first write is outside the mapping.\<close>

definition pinned_ctor :: "bool \<Rightarrow> bool \<Rightarrow> nat \<Rightarrow> (string + 'a pinned) outcome" where
  "pinned_ctor mmap_ok mlock_ok n =
     (if \<not> mmap_ok then Done (Inl ''CONDUIT: mmap failed'')
      else if \<not> mlock_ok then Done (Inl ''CONDUIT: mlock failed. Check 'ulimit -l' (locked memory limit)!'')
      else if n = 0 then Fault
      else
        let m0 = replicate n (Link 0);
            m1 = fold (\<lambda>i m. m[i := Link (word_of_nat (i + 1))]) [0..<n - 1] m0;
            m2 = m1[n - 1 := Link 0xFFFFFFFF]
        in Done (Inr \<lparr>blocks = m2, head_index = 0, free_count = word_of_nat n\<rparr>))"

text \<open>The destructor gives the memory back: a constructed slab has a mapping, of \<open>sizeof\<close> bytes for each block.\<close>

datatype os_call = Munlock nat | Munmap nat

definition pinned_dtor :: "nat \<Rightarrow> 'a pinned \<Rightarrow> os_call list" where
  "pinned_dtor sizeof s = (let total_bytes = sizeof * length (blocks s) in [Munlock total_bytes, Munmap total_bytes])"

fun pinned_alloc_loop ::
  "('a \<Rightarrow> u32) \<Rightarrow> bool list \<Rightarrow> u32 \<Rightarrow> 'a \<Rightarrow> 'a pinned \<Rightarrow> (nat option \<times> 'a pinned) outcome" where
  "pinned_alloc_loop bits [] current_head v s = Pending"
| "pinned_alloc_loop bits (weak # ws) current_head v s =
     (if current_head = 0xFFFFFFFF then Done (None, s)
      else if unat current_head \<ge> length (blocks s) then Fault
      else
        let next_head = read_link bits (blocks s ! unat current_head)
        in if head_index s = current_head \<and> \<not> weak
           then Done (Some (unat current_head),
             s\<lparr>head_index := next_head, free_count := free_count s - 1,
               blocks := (blocks s)[unat current_head := Object v]\<rparr>)
           else pinned_alloc_loop bits ws (head_index s) v s)"

definition pinned_allocate ::
  "('a \<Rightarrow> u32) \<Rightarrow> bool list \<Rightarrow> 'a \<Rightarrow> 'a pinned \<Rightarrow> (nat option \<times> 'a pinned) outcome" where
  "pinned_allocate bits ws v s = pinned_alloc_loop bits ws (head_index s) v s"

fun pinned_dealloc_loop :: "bool list \<Rightarrow> u32 \<Rightarrow> nat \<Rightarrow> 'a pinned \<Rightarrow> 'a pinned outcome" where
  "pinned_dealloc_loop [] current_head x s = Pending"
| "pinned_dealloc_loop (weak # ws) current_head x s =
     (let s1 = s\<lparr>blocks := (blocks s)[x := Link current_head]\<rparr>
      in if head_index s1 = current_head \<and> \<not> weak
         then Done (s1\<lparr>head_index := word_of_nat x, free_count := free_count s1 + 1\<rparr>)
         else pinned_dealloc_loop ws (head_index s1) x s1)"

text \<open>A pointer that is null or outside the mapping is ignored.\<close>

definition pinned_deallocate :: "bool list \<Rightarrow> nat option \<Rightarrow> 'a pinned \<Rightarrow> 'a pinned outcome" where
  "pinned_deallocate ws q s =
     (case q of
        None \<Rightarrow> Done s
      | Some x \<Rightarrow> if x \<ge> length (blocks s) then Done s else pinned_dealloc_loop ws (head_index s) x s)"

definition get_free_count :: "'a pinned \<Rightarrow> u64" where
  "get_free_count s = free_count s"

section \<open>The free list and the invariant\<close>

definition pinned_next :: "('a \<Rightarrow> u32) \<Rightarrow> 'a pinned \<Rightarrow> nat \<Rightarrow> u32" where
  "pinned_next bits s i = read_link bits (blocks s ! i)"

definition pinned_free_cells :: "('a \<Rightarrow> u32) \<Rightarrow> 'a pinned \<Rightarrow> nat list" where
  "pinned_free_cells bits s = walk (length (blocks s)) (pinned_next bits s) (head_index s)"

definition pinned_object :: "'a pinned \<Rightarrow> nat \<Rightarrow> 'a option" where
  "pinned_object s i =
     (if i < length (blocks s) then (case blocks s ! i of Object v \<Rightarrow> Some v | Link _ \<Rightarrow> None) else None)"

definition pinned_inv :: "('a \<Rightarrow> u32) \<Rightarrow> 'a pinned \<Rightarrow> bool" where
  "pinned_inv bits s \<longleftrightarrow>
     length (blocks s) \<le> 0xFFFFFFFF \<and>
     chain (pinned_next bits s) (length (blocks s)) (head_index s) (pinned_free_cells bits s) \<and>
     free_count s = word_of_nat (length (pinned_free_cells bits s)) \<and>
     (\<forall>i < length (blocks s). i \<in> set (pinned_free_cells bits s) \<longleftrightarrow> pinned_object s i = None)"

lemma pinned_invI:
  assumes "length (blocks s) \<le> 0xFFFFFFFF"
    and c: "chain (pinned_next bits s) (length (blocks s)) (head_index s) xs"
    and "free_count s = word_of_nat (length xs)"
    and "\<And>i. i < length (blocks s) \<Longrightarrow> i \<in> set xs \<longleftrightarrow> pinned_object s i = None"
  shows "pinned_inv bits s \<and> pinned_free_cells bits s = xs"
proof -
  have "pinned_free_cells bits s = xs"
    unfolding pinned_free_cells_def by (rule walk_chain_n [OF c])
  with assms show ?thesis by (simp add: pinned_inv_def)
qed

lemma pinned_invD:
  assumes "pinned_inv bits s"
  shows "chain (pinned_next bits s) (length (blocks s)) (head_index s) (pinned_free_cells bits s)"
    and "length (blocks s) \<le> 0xFFFFFFFF"
    and "free_count s = word_of_nat (length (pinned_free_cells bits s))"
    and "i < length (blocks s) \<Longrightarrow> i \<in> set (pinned_free_cells bits s) \<longleftrightarrow> pinned_object s i = None"
  using assms by (auto simp: pinned_inv_def)

definition pinned_taken :: "('a \<Rightarrow> u32) \<Rightarrow> 'a \<Rightarrow> nat \<Rightarrow> 'a pinned \<Rightarrow> 'a pinned" where
  "pinned_taken bits v x s =
     s\<lparr>head_index := pinned_next bits s x, free_count := free_count s - 1, blocks := (blocks s)[x := Object v]\<rparr>"

definition pinned_given :: "nat \<Rightarrow> 'a pinned \<Rightarrow> 'a pinned" where
  "pinned_given x s =
     s\<lparr>blocks := (blocks s)[x := Link (head_index s)], head_index := word_of_nat x, free_count := free_count s + 1\<rparr>"

lemma pinned_taken_simps [simp]:
  "length (blocks (pinned_taken bits v x s)) = length (blocks s)"
  "head_index (pinned_taken bits v x s) = pinned_next bits s x"
  "free_count (pinned_taken bits v x s) = free_count s - 1"
  "x < length (blocks s) \<Longrightarrow> pinned_next bits (pinned_taken bits v x s) = (pinned_next bits s)(x := bits v)"
  "x < length (blocks s) \<Longrightarrow> pinned_object (pinned_taken bits v x s) = (pinned_object s)(x \<mapsto> v)"
  by (auto simp: pinned_taken_def pinned_next_def pinned_object_def fun_eq_iff)

lemma pinned_given_simps [simp]:
  "length (blocks (pinned_given x s)) = length (blocks s)"
  "head_index (pinned_given x s) = word_of_nat x"
  "free_count (pinned_given x s) = free_count s + 1"
  "x < length (blocks s) \<Longrightarrow> pinned_next bits (pinned_given x s) = (pinned_next bits s)(x := head_index s)"
  "x < length (blocks s) \<Longrightarrow> pinned_object (pinned_given x s) = (pinned_object s)(x := None)"
  by (auto simp: pinned_given_def pinned_next_def pinned_object_def fun_eq_iff)

lemma pinned_inv_taken:
  assumes inv: "pinned_inv bits s" and fc: "pinned_free_cells bits s = x # xs"
  shows "pinned_inv bits (pinned_taken bits v x s) \<and> pinned_free_cells bits (pinned_taken bits v x s) = xs"
proof (rule pinned_invI)
  note c = pinned_invD(1) [OF inv, unfolded fc]
  have x: "x < length (blocks s)" "x \<notin> set xs" using c chain_distinct [OF c] by simp_all
  show "length (blocks (pinned_taken bits v x s)) \<le> 0xFFFFFFFF" using pinned_invD(2) [OF inv] by simp
  show "chain (pinned_next bits (pinned_taken bits v x s)) (length (blocks (pinned_taken bits v x s)))
      (head_index (pinned_taken bits v x s)) xs" using c x by simp
  show "free_count (pinned_taken bits v x s) = word_of_nat (length xs)" using pinned_invD(3) [OF inv] fc by simp
  fix i assume "i < length (blocks (pinned_taken bits v x s))"
  then show "i \<in> set xs \<longleftrightarrow> pinned_object (pinned_taken bits v x s) i = None"
    using pinned_invD(4) [OF inv, of i] fc x by auto
qed

lemma pinned_inv_given:
  assumes inv: "pinned_inv bits s" and x: "x < length (blocks s)" "x \<notin> set (pinned_free_cells bits s)"
  shows "pinned_inv bits (pinned_given x s) \<and>
    pinned_free_cells bits (pinned_given x s) = x # pinned_free_cells bits s"
proof (rule pinned_invI)
  show "length (blocks (pinned_given x s)) \<le> 0xFFFFFFFF" using pinned_invD(2) [OF inv] by simp
  have below: "x < 0xFFFFFFFF" using x(1) pinned_invD(2) [OF inv] by linarith
  show "chain (pinned_next bits (pinned_given x s)) (length (blocks (pinned_given x s)))
      (head_index (pinned_given x s)) (x # pinned_free_cells bits s)"
    using pinned_invD(1) [OF inv] x unat_word_of_nat_below [OF below] word_of_nat_not_end [OF below] by simp
  show "free_count (pinned_given x s) = word_of_nat (length (x # pinned_free_cells bits s))"
    using pinned_invD(3) [OF inv] by simp
  fix i assume "i < length (blocks (pinned_given x s))"
  then show "i \<in> set (x # pinned_free_cells bits s) \<longleftrightarrow> pinned_object (pinned_given x s) i = None"
    using pinned_invD(4) [OF inv, of i] x by auto
qed

lemma pinned_allocate_taken:
  assumes "pinned_inv bits s" "pinned_free_cells bits s = x # xs" "False \<in> set ws"
  shows "pinned_allocate bits ws v s = Done (Some x, pinned_taken bits v x s)"
proof -
  have "head_index s \<noteq> end_of_list" "unat (head_index s) = x" "x < length (blocks s)"
    using pinned_invD(1) [OF assms(1)] by (simp_all add: assms(2))
  then show ?thesis
    using assms(3) unfolding pinned_allocate_def
    by (induction ws) (auto simp: pinned_taken_def pinned_next_def Let_def)
qed

lemma pinned_dealloc_loop_given:
  "False \<in> set ws \<Longrightarrow> head = head_index s \<Longrightarrow> pinned_dealloc_loop ws head x s = Done (pinned_given x s)"
  by (induction ws head x s rule: pinned_dealloc_loop.induct) (auto simp: pinned_given_def Let_def)

lemma pinned_ctor_inv:
  fixes bits :: "'a \<Rightarrow> u32"
  assumes "0 < n" "n \<le> 0xFFFFFFFF"
  shows "\<exists>s. pinned_ctor True True n = Done (Inr s) \<and> pinned_inv bits s \<and> pinned_free_cells bits s = [0..<n] \<and>
    length (blocks s) = n"
proof -
  let ?set = "\<lambda>i (m :: 'a block list). m[i := Link (word_of_nat (i + 1))]"
  have fold: "length (fold ?set [0..<k] m) = length m \<and>
      (\<forall>i < length m. fold ?set [0..<k] m ! i = (if i < k then Link (word_of_nat (Suc i)) else m ! i))" for k m
    by (induction k) (auto simp: nth_list_update less_Suc_eq)
  have "\<exists>s :: 'a pinned. pinned_ctor True True n = Done (Inr s) \<and> length (blocks s) = n \<and> head_index s = 0 \<and>
      free_count s = word_of_nat n \<and>
      (\<forall>i < n. blocks s ! i = Link (if Suc i < n then word_of_nat (Suc i) else end_of_list))"
    using assms(1) fold [of "n - 1" "replicate n (Link 0)"]
    by (auto simp: pinned_ctor_def Let_def nth_list_update)
  then obtain s :: "'a pinned" where s: "pinned_ctor True True n = Done (Inr s)" "length (blocks s) = n"
      "head_index s = 0" "free_count s = word_of_nat n"
      "\<And>i. i < n \<Longrightarrow> blocks s ! i = Link (if Suc i < n then word_of_nat (Suc i) else end_of_list)"
    by blast
  have nxt: "pinned_next bits s i = (if Suc i < n then word_of_nat (Suc i) else end_of_list)" if "i < n" for i
    using s(5) [OF that] by (simp add: pinned_next_def)
  have "chain (pinned_next bits s) n (if 0 < n then word_of_nat 0 else end_of_list) [0..<n]"
    using assms(2) by (rule chain_fresh) (simp_all add: nxt)
  then have "chain (pinned_next bits s) (length (blocks s)) (head_index s) [0..<n]"
    using assms(1) s(2,3) by simp
  then have "pinned_inv bits s \<and> pinned_free_cells bits s = [0..<n]"
    using s assms(2) by (intro pinned_invI) (auto simp: pinned_object_def)
  with s(1,2) show ?thesis by blast
qed

section \<open>One thread at a time: the contract of a slab allocator\<close>

interpretation ps: slab "pinned_allocate bits" "\<lambda>ws x. pinned_deallocate ws (Some x)" "pinned_free_cells bits"
  "\<lambda>s. length (blocks s)" pinned_object "pinned_inv bits"
  for bits :: "'a \<Rightarrow> u32"
proof unfold_locales
  fix s :: "'a pinned" and x xs ws v
  assume inv: "pinned_inv bits s"
  show "distinct (pinned_free_cells bits s)" using pinned_invD(1) [OF inv] by (rule chain_distinct)
  show "set (pinned_free_cells bits s) \<subseteq> {..<length (blocks s)}" using pinned_invD(1) [OF inv] by (rule chain_bounded)
  show "dom (pinned_object s) = {..<length (blocks s)} - set (pinned_free_cells bits s)"
    using pinned_invD(4) [OF inv] by (auto simp: pinned_object_def split: if_splits)
  show "pinned_allocate bits ws v s = Done (None, s)" if "pinned_free_cells bits s = []" "ws \<noteq> []"
    using pinned_invD(1) [OF inv] that by (cases ws) (simp_all add: pinned_allocate_def)
  show "\<exists>s'. pinned_allocate bits ws v s = Done (Some x, s') \<and> pinned_inv bits s' \<and>
      pinned_free_cells bits s' = xs \<and> length (blocks s') = length (blocks s) \<and>
      pinned_object s' = (pinned_object s)(x \<mapsto> v)"
    if fc: "pinned_free_cells bits s = x # xs" and ws: "False \<in> set ws"
  proof -
    have "x < length (blocks s)" using pinned_invD(1) [OF inv] fc by simp
    with pinned_allocate_taken [OF inv fc ws] pinned_inv_taken [OF inv fc, of v] show ?thesis by auto
  qed
  show "\<exists>s'. pinned_deallocate ws (Some x) s = Done s' \<and> pinned_inv bits s' \<and>
      pinned_free_cells bits s' = x # pinned_free_cells bits s \<and> length (blocks s') = length (blocks s) \<and>
      pinned_object s' = (pinned_object s)(x := None)"
    if x: "x < length (blocks s)" "x \<notin> set (pinned_free_cells bits s)" and ws: "False \<in> set ws"
    using pinned_inv_given [OF inv x] x(1) pinned_dealloc_loop_given [OF ws refl, of s x]
    by (auto simp: pinned_deallocate_def)
qed

section \<open>Two threads\<close>

text \<open>Each load, store and compare-and-swap of \<open>allocate\<close> and \<open>deallocate\<close> is a step. \<open>Run weak\<close> makes the next
  one of a thread; \<open>weak\<close> makes a compare-and-swap fail spuriously. A thread deallocates only blocks it
  was given.\<close>

datatype 'a ppc =
    P_Ready
  | P_Head 'a u32
  | P_Next 'a u32 u32
  | P_Won 'a u32
  | P_Counted 'a u32
  | P_Give nat u32
  | P_Linked nat u32
  | P_Given

datatype 'a pact = Call_Alloc 'a | Call_Dealloc nat | Run bool

text \<open>One step of one thread on the shared allocator, its program counter and the blocks it holds.\<close>

fun pinned_thread ::
  "('a \<Rightarrow> u32) \<Rightarrow> 'a pact \<Rightarrow> 'a pinned \<Rightarrow> 'a ppc \<Rightarrow> nat list \<Rightarrow> 'a pinned \<times> 'a ppc \<times> nat list" where
  "pinned_thread bits (Call_Alloc v) s P_Ready hs = (s, P_Head v (head_index s), hs)"
| "pinned_thread bits (Call_Dealloc x) s P_Ready hs =
     (if x \<in> set hs then (s, P_Give x (head_index s), remove1 x hs) else (s, P_Ready, hs))"
| "pinned_thread bits (Run weak) s (P_Head v h) hs =
     (if h = 0xFFFFFFFF then (s, P_Ready, hs) else (s, P_Next v h (read_link bits (blocks s ! unat h)), hs))"
| "pinned_thread bits (Run weak) s (P_Next v h n) hs =
     (if head_index s = h \<and> \<not> weak then (s\<lparr>head_index := n\<rparr>, P_Won v h, hs)
      else (s, P_Head v (head_index s), hs))"
| "pinned_thread bits (Run weak) s (P_Won v h) hs = (s\<lparr>free_count := free_count s - 1\<rparr>, P_Counted v h, hs)"
| "pinned_thread bits (Run weak) s (P_Counted v h) hs =
     (s\<lparr>blocks := (blocks s)[unat h := Object v]\<rparr>, P_Ready, unat h # hs)"
| "pinned_thread bits (Run weak) s (P_Give x h) hs =
     (s\<lparr>blocks := (blocks s)[x := Link h]\<rparr>, P_Linked x h, hs)"
| "pinned_thread bits (Run weak) s (P_Linked x h) hs =
     (if head_index s = h \<and> \<not> weak then (s\<lparr>head_index := word_of_nat x\<rparr>, P_Given, hs)
      else (s, P_Give x (head_index s), hs))"
| "pinned_thread bits (Run weak) s P_Given hs = (s\<lparr>free_count := free_count s + 1\<rparr>, P_Ready, hs)"
| "pinned_thread bits _ s pc hs = (s, pc, hs)"

text \<open>Two threads: \<open>True\<close> schedules the first, \<open>False\<close> the second.\<close>

type_synonym 'a pinned_sys = "'a pinned \<times> ('a ppc \<times> nat list) \<times> ('a ppc \<times> nat list)"

fun pinned_sched :: "('a \<Rightarrow> u32) \<Rightarrow> bool \<times> 'a pact \<Rightarrow> 'a pinned_sys \<Rightarrow> 'a pinned_sys" where
  "pinned_sched bits (True, a) (s, (pc, hs), t2) = (let (s1, pc1, hs1) = pinned_thread bits a s pc hs in (s1, (pc1, hs1), t2))"
| "pinned_sched bits (False, a) (s, t1, (pc, hs)) = (let (s1, pc1, hs1) = pinned_thread bits a s pc hs in (s1, t1, (pc1, hs1)))"

definition pinned_start :: "'a pinned \<Rightarrow> 'a pinned_sys" where
  "pinned_start s = (s, (P_Ready, []), (P_Ready, []))"

section \<open>Properties\<close>

lemma pinned_run_consistent:
  fixes bits :: "'a \<Rightarrow> u32"
  assumes "0 < n" "n \<le> 0xFFFFFFFF" "pinned_ctor True True n = Done (Inr s)" "False \<in> set ws"
  shows "\<exists>held s'. slab_run (pinned_allocate bits) (\<lambda>ws x. pinned_deallocate ws (Some x)) ws ops [] s = Done (held, s') \<and>
    ps.consistent bits held s' \<and> length (blocks s') = n"
proof -
  have s: "pinned_inv bits s" "pinned_free_cells bits s = [0..<n]" "length (blocks s) = n"
    using pinned_ctor_inv [OF assms(1,2), of bits] assms(3) by auto
  then have "ps.consistent bits [] s" by (intro ps.consistent_fresh) auto
  then show ?thesis using ps.run_consistent [of bits "[]" s ws ops] assms(4) s(3) by auto
qed

text \<open>One thread at a time, no block of a pinned slab is lost or handed out twice, and the counter of free blocks
  is exact, after every sequence of operations.\<close>

theorem pinned_blocks_partitioned:
  fixes bits :: "'a \<Rightarrow> u32"
  assumes "0 < n" "n \<le> 0xFFFFFFFF" "pinned_ctor True True n = Done (Inr s)" "False \<in> set ws"
  shows "\<exists>held s'. slab_run (pinned_allocate bits) (\<lambda>ws x. pinned_deallocate ws (Some x)) ws ops [] s = Done (held, s') \<and>
    distinct (held @ pinned_free_cells bits s') \<and> set (held @ pinned_free_cells bits s') = {..<n} \<and>
    unat (get_free_count s') = n - length held"
proof -
  obtain held s' where run: "slab_run (pinned_allocate bits) (\<lambda>ws x. pinned_deallocate ws (Some x)) ws ops [] s = Done (held, s')"
      and c: "ps.consistent bits held s'" "length (blocks s') = n"
    using pinned_run_consistent [OF assms, of bits ops] by auto
  then have inv: "pinned_inv bits s'" and held: "distinct held" "set held = {..<n} - set (pinned_free_cells bits s')"
    by (simp_all add: ps.consistent_def)
  have free: "set (pinned_free_cells bits s') \<subseteq> {..<n}" "distinct (pinned_free_cells bits s')"
    using ps.free_bounded [OF inv] ps.free_distinct [OF inv] c(2) by simp_all
  have part: "distinct (held @ pinned_free_cells bits s')" "set (held @ pinned_free_cells bits s') = {..<n}"
    using held free by auto
  then have "length held + length (pinned_free_cells bits s') = n"
    using distinct_card [OF part(1)] by simp
  moreover have "unat (get_free_count s') = length (pinned_free_cells bits s')"
    using pinned_invD(3) [OF inv] assms(2) calculation
    by (simp add: get_free_count_def unsigned_of_nat take_bit_nat_eq_self)
  ultimately show ?thesis using run part by auto
qed

theorem pinned_blocks_partitioned_witness:
  "\<exists>s held s'. pinned_ctor True True 3 = Done (Inr (s :: u32 pinned)) \<and>
    slab_run (pinned_allocate id) (\<lambda>ws x. pinned_deallocate ws (Some x)) [True, False] [Alloc 7, Alloc 8, Dealloc 1] [] s =
      Done (held, s') \<and> unat (get_free_count s') = 3 - length held"
proof -
  obtain s :: "u32 pinned" where s: "pinned_ctor True True 3 = Done (Inr s)" using pinned_ctor_inv [of 3 id] by auto
  show ?thesis
    using pinned_blocks_partitioned [of 3 s "[True, False]" id "[Alloc 7, Alloc 8, Dealloc 1]"] s by auto
qed

text \<open>Whatever was allocated and returned in between, the destructor unlocks and unmaps the whole of what the
  constructor mapped.\<close>

lemma pinned_releases_mapping:
  fixes bits :: "'a \<Rightarrow> u32"
  assumes "0 < n" "n \<le> 0xFFFFFFFF" "pinned_ctor True True n = Done (Inr s)" "False \<in> set ws"
  shows "\<exists>held s'. slab_run (pinned_allocate bits) (\<lambda>ws x. pinned_deallocate ws (Some x)) ws ops [] s = Done (held, s') \<and>
    pinned_dtor sizeof s' = [Munlock (sizeof * n), Munmap (sizeof * n)]"
  using pinned_run_consistent [OF assms, of bits ops] by (auto simp: pinned_dtor_def Let_def)

text \<open>The schedule: the first thread reads head 0 and its successor 1 and is then delayed; meanwhile the second takes
  blocks 0 and 1 and gives 0 back, so the head is 0 again but its successor is 2. The first thread's
  compare-and-swap now succeeds and installs 1, which the second thread holds.\<close>

definition aba_delayed :: "(bool \<times> u32 pact) list" where
  "aba_delayed = [(True, Call_Alloc 7), (True, Run False)]"

definition alloc_steps :: "bool \<Rightarrow> u32 \<Rightarrow> (bool \<times> u32 pact) list" where
  "alloc_steps t v = [(t, Call_Alloc v), (t, Run False), (t, Run False), (t, Run False), (t, Run False)]"

definition aba_give :: "(bool \<times> u32 pact) list" where
  "aba_give = [(False, Call_Dealloc 0), (False, Run False), (False, Run False), (False, Run False)]"

definition aba_resume :: "(bool \<times> u32 pact) list" where
  "aba_resume = [(True, Run False), (True, Run False), (True, Run False)]"

definition aba_schedule :: "(bool \<times> u32 pact) list" where
  "aba_schedule = aba_delayed @ alloc_steps False 8 @ alloc_steps False 8 @ aba_give @ aba_resume @ alloc_steps True 9"

lemma aba_parts:
  "fold (pinned_sched id) aba_delayed
     (\<lparr>blocks = [Link 1, Link 2, Link 0xFFFFFFFF], head_index = 0, free_count = 3\<rparr>, (P_Ready, []), (P_Ready, [])) =
   (\<lparr>blocks = [Link 1, Link 2, Link 0xFFFFFFFF], head_index = 0, free_count = 3\<rparr>, (P_Next 7 0 1, []), (P_Ready, []))"
  "fold (pinned_sched id) (alloc_steps False 8)
     (\<lparr>blocks = [Link 1, Link 2, Link 0xFFFFFFFF], head_index = 0, free_count = 3\<rparr>, (P_Next 7 0 1, []), (P_Ready, [])) =
   (\<lparr>blocks = [Object 8, Link 2, Link 0xFFFFFFFF], head_index = 1, free_count = 2\<rparr>, (P_Next 7 0 1, []), (P_Ready, [0]))"
  "fold (pinned_sched id) (alloc_steps False 8)
     (\<lparr>blocks = [Object 8, Link 2, Link 0xFFFFFFFF], head_index = 1, free_count = 2\<rparr>, (P_Next 7 0 1, []), (P_Ready, [0])) =
   (\<lparr>blocks = [Object 8, Object 8, Link 0xFFFFFFFF], head_index = 2, free_count = 1\<rparr>, (P_Next 7 0 1, []), (P_Ready, [1, 0]))"
  "fold (pinned_sched id) aba_give
     (\<lparr>blocks = [Object 8, Object 8, Link 0xFFFFFFFF], head_index = 2, free_count = 1\<rparr>, (P_Next 7 0 1, []), (P_Ready, [1, 0])) =
   (\<lparr>blocks = [Link 2, Object 8, Link 0xFFFFFFFF], head_index = 0, free_count = 2\<rparr>, (P_Next 7 0 1, []), (P_Ready, [1]))"
  "fold (pinned_sched id) aba_resume
     (\<lparr>blocks = [Link 2, Object 8, Link 0xFFFFFFFF], head_index = 0, free_count = 2\<rparr>, (P_Next 7 0 1, []), (P_Ready, [1])) =
   (\<lparr>blocks = [Object 7, Object 8, Link 0xFFFFFFFF], head_index = 1, free_count = 1\<rparr>, (P_Ready, [0]), (P_Ready, [1]))"
  "fold (pinned_sched id) (alloc_steps True 9)
     (\<lparr>blocks = [Object 7, Object 8, Link 0xFFFFFFFF], head_index = 1, free_count = 1\<rparr>, (P_Ready, [0]), (P_Ready, [1])) =
   (\<lparr>blocks = [Object 7, Object 9, Link 0xFFFFFFFF], head_index = 8, free_count = 0\<rparr>, (P_Ready, [1, 0]), (P_Ready, [1]))"
  by (simp_all add: aba_delayed_def alloc_steps_def aba_give_def aba_resume_def)

text \<open>C28: The pinned slab is not safe for two threads: with three blocks there is an interleaving of \<open>allocate\<close> and
  \<open>deallocate\<close>, in which each thread deallocates only what it holds and no compare-and-swap fails,
  after which both threads hold block 1.\<close>

theorem pinned_aba_double_allocation:
  "\<exists>s. pinned_ctor True True 3 = Done (Inr s) \<and>
    (case fold (pinned_sched id) aba_schedule (pinned_start s) of
       (s', (pc1, hs1), (pc2, hs2)) \<Rightarrow> pc1 = P_Ready \<and> pc2 = P_Ready \<and> 1 \<in> set hs1 \<and> 1 \<in> set hs2)"
proof -
  let ?s = "\<lparr>blocks = [Link 1, Link 2, Link 0xFFFFFFFF], head_index = 0, free_count = 3\<rparr> :: u32 pinned"
  have "pinned_ctor True True 3 = Done (Inr ?s)"
    by (simp add: pinned_ctor_def Let_def eval_nat_numeral upt_rec)
  moreover have "fold (pinned_sched id) aba_schedule (pinned_start ?s) =
      (\<lparr>blocks = [Object 7, Object 9, Link 0xFFFFFFFF], head_index = 8, free_count = 0\<rparr>, (P_Ready, [1, 0]), (P_Ready, [1]))"
    by (simp only: aba_schedule_def pinned_start_def fold_append o_apply aba_parts)
  ultimately show ?thesis by (intro exI [of _ ?s]) simp
qed

end
