(* ===== verification/Spsc_Ring.thy ===== *)
theory Spsc_Ring
  imports Conduit
begin

text \<open>
  \<open>spsc_ring_buffer\<close> and \<open>tcp_sender_node\<close> of \<open>include/conduit/core/networked_conduit.hpp\<close>. The ring has
  32-bit indices and a capacity that is a power of two, so it steps by masking where \<open>conduit\<close> takes
  a remainder; the refinement to \<open>conduit\<close> shows that the two are the same queue.
\<close>

section \<open>The masked ring\<close>

record 'p spsc_ring =
  rb_buffer :: "'p option list"
  rb_write :: u32
  rb_read :: u32

definition rb_init :: "nat \<Rightarrow> 'p spsc_ring" where
  "rb_init capacity = \<lparr>rb_buffer = replicate capacity None, rb_write = 0, rb_read = 0\<rparr>"

definition rb_advance :: "'p spsc_ring \<Rightarrow> u32 \<Rightarrow> u32" where
  "rb_advance r i = (i + 1) AND (of_nat (length (rb_buffer r)) - 1)"

definition rb_push :: "'p option \<Rightarrow> 'p spsc_ring \<Rightarrow> bool \<times> 'p spsc_ring" where
  "rb_push item r =
     (let current_write = rb_write r; next_write = rb_advance r current_write
      in if next_write = rb_read r then (False, r)
         else (True, r\<lparr>rb_buffer := (rb_buffer r)[unat current_write := item], rb_write := next_write\<rparr>))"

definition rb_pop :: "'p spsc_ring \<Rightarrow> 'p option \<times> 'p spsc_ring" where
  "rb_pop r =
     (let current_read = rb_read r
      in if current_read = rb_write r then (None, r)
         else (rb_buffer r ! unat current_read, r\<lparr>rb_read := rb_advance r current_read\<rparr>))"

section \<open>Refinement to the conduit\<close>

definition rb_wf :: "nat \<Rightarrow> 'p spsc_ring \<Rightarrow> bool" where
  "rb_wf k r \<longleftrightarrow>
     k < 32 \<and> length (rb_buffer r) = 2 ^ k \<and> unat (rb_write r) < 2 ^ k \<and> unat (rb_read r) < 2 ^ k"

definition rb_conduit :: "'p spsc_ring \<Rightarrow> 'p conduit" where
  "rb_conduit r = \<lparr>ring = rb_buffer r, write_idx = unat (rb_write r), read_idx = unat (rb_read r)\<rparr>"

lemma rb_advance_mod:
  assumes "rb_wf k r" "unat i < 2 ^ k"
  shows "unat (rb_advance r i) = next_index (length (rb_buffer r)) (unat i)"
proof -
  have k: "k < 32" "length (rb_buffer r) = 2 ^ k" using assms(1) by (simp_all add: rb_wf_def)
  then have p: "(2::nat) ^ k < 2 ^ 32" by (intro power_strict_increasing) simp_all
  have "unat (i + 1) = unat i + 1" using assms(2) p by (simp add: unat_word_ariths)
  then have "unat (rb_advance r i) = (unat i + 1) mod 2 ^ k"
    using pow2_mask_mod [of k "i + 1"] p k(2) by (simp add: rb_advance_def)
  moreover have "unat i + 1 < 2 ^ 64" using assms(2) p by simp
  ultimately show ?thesis by (simp add: next_index_def k(2))
qed

lemma rb_conduit_wf: "rb_wf k r \<Longrightarrow> conduit_wf (rb_conduit r)"
  using power_strict_increasing [of k 64 "2 :: nat"]
  by (auto simp: rb_wf_def rb_conduit_def conduit_wf_def conduit_size_def)

lemma rb_advance_less:
  assumes "rb_wf k r" "unat i < 2 ^ k"
  shows "unat (rb_advance r i) < 2 ^ k"
  using rb_advance_mod [OF assms] next_index_less [of "2 ^ k" "unat i"] assms(1)
  by (simp add: rb_wf_def)

text \<open>Each operation of the ring is the operation of the conduit.\<close>

lemma rb_push_refines:
  assumes "rb_wf k r" "rb_push item r = (b, r')"
  shows "conduit_push item (rb_conduit r) = (b, rb_conduit r') \<and> rb_wf k r'"
proof -
  let ?n = "rb_advance r (rb_write r)"
  have w: "unat (rb_write r) < 2 ^ k" using assms(1) by (simp add: rb_wf_def)
  note adv = rb_advance_mod [OF assms(1) w]
  have eq: "next_index (length (rb_buffer r)) (unat (rb_write r)) = unat (rb_read r) \<longleftrightarrow> ?n = rb_read r"
    unfolding adv [symmetric] by (simp add: unat_inject)
  show ?thesis
  proof (cases "?n = rb_read r")
    case True
    then show ?thesis using assms eq
      by (auto simp: rb_push_def conduit_push_def rb_conduit_def conduit_size_def Let_def)
  next
    case False
    then show ?thesis using assms eq rb_advance_less [OF assms(1) w] adv
      by (auto simp: rb_push_def conduit_push_def rb_conduit_def conduit_size_def Let_def rb_wf_def)
  qed
qed

lemma rb_pop_refines:
  assumes "rb_wf k r" "rb_pop r = (q, r')"
  shows "(let (ev, c) = conduit_pop p (rb_conduit r) in event_ptr_get ev = q \<and> c = rb_conduit r') \<and> rb_wf k r'"
proof -
  have rd: "unat (rb_read r) < 2 ^ k" using assms(1) by (simp add: rb_wf_def)
  note adv = rb_advance_mod [OF assms(1) rd]
  show ?thesis
    using assms adv rb_advance_less [OF assms(1) rd]
    by (auto simp: rb_pop_def conduit_pop_def rb_conduit_def conduit_size_def Let_def rb_wf_def
        event_ptr_defs unat_inject split: if_splits)
qed

section \<open>The ring implements the queue contract\<close>

definition rb_push_item :: "'p \<Rightarrow> 'p spsc_ring \<Rightarrow> bool \<times> 'p spsc_ring" where
  "rb_push_item x r = rb_push (Some x) r"

definition rb_items :: "'p spsc_ring \<Rightarrow> 'p list" where
  "rb_items r = conduit_items (rb_conduit r)"

definition rb_room :: "'p spsc_ring \<Rightarrow> nat" where
  "rb_room r = length (rb_buffer r) - 1"

definition rb_inv :: "nat \<Rightarrow> 'p spsc_ring \<Rightarrow> bool" where
  "rb_inv k r \<longleftrightarrow> rb_wf k r \<and> conduit_inv (rb_conduit r)"

lemma rb_room_conduit: "rb_room r = conduit_room (rb_conduit r)"
  by (simp add: rb_room_def conduit_room_def conduit_size_def rb_conduit_def)

lemma rb_conduit_inject: "rb_conduit r = rb_conduit r' \<Longrightarrow> r = r'"
  by (cases r; cases r') (simp add: rb_conduit_def unat_inject)

lemma rb_push_event:
  assumes "rb_inv k r"
  shows "push_event x (rb_conduit r) = (fst (rb_push_item x r), rb_conduit (snd (rb_push_item x r))) \<and>
    rb_inv k (snd (rb_push_item x r))"
proof -
  obtain b r' where push: "rb_push (Some x) r = (b, r')" by (cases "rb_push (Some x) r")
  have inv: "rb_wf k r" "conduit_inv (rb_conduit r)" using assms by (simp_all add: rb_inv_def)
  with rb_push_refines [OF inv(1) push] cq.invar_push [OF inv(2), of x] show ?thesis
    by (simp add: rb_push_item_def push push_event_def rb_inv_def)
qed

lemma rb_pop_event:
  assumes "rb_inv k r"
  shows "pop_event () (rb_conduit r) = (fst (rb_pop r), rb_conduit (snd (rb_pop r))) \<and> rb_inv k (snd (rb_pop r))"
proof -
  obtain q r' where pop: "rb_pop r = (q, r')" by (cases "rb_pop r")
  have inv: "rb_wf k r" "conduit_inv (rb_conduit r)" using assms by (simp_all add: rb_inv_def)
  with rb_pop_refines [OF inv(1) pop, of "()"] cq.invar_pop [OF inv(2), of "()"] show ?thesis
    by (auto simp: pop pop_event_def rb_inv_def split_beta)
qed

interpretation rq: bounded_fifo rb_push_item rb_pop rb_items rb_room "rb_inv k"
  for k :: nat
proof unfold_locales
  fix r :: "'p spsc_ring" and x :: 'p and y ys
  assume inv: "rb_inv k r"
  then have c: "conduit_inv (rb_conduit r)" by (simp add: rb_inv_def)
  note push = rb_push_event [OF inv, of x] and pop = rb_pop_event [OF inv]
  show "length (rb_items r) \<le> rb_room r"
    using cq.bounded [OF c] by (simp add: rb_items_def rb_room_conduit)
  show "fst (rb_push_item x r) \<and> rb_items (snd (rb_push_item x r)) = rb_items r @ [x]"
    if "length (rb_items r) < rb_room r"
    using cq.push_room [OF c, of x] push that by (simp add: rb_items_def rb_room_conduit)
  show "rb_push_item x r = (False, r)" if "length (rb_items r) = rb_room r"
    using cq.push_full [OF c, of x] push that
    by (cases "rb_push_item x r") (auto simp: rb_items_def rb_room_conduit dest: rb_conduit_inject)
  show "fst (rb_pop r) = Some y \<and> rb_items (snd (rb_pop r)) = ys" if "rb_items r = y # ys"
    using cq.pop_some [OF c, of y ys "()"] pop that by (simp add: rb_items_def)
  show "rb_pop r = (None, r)" if "rb_items r = []"
    using cq.pop_none [OF c, of "()"] pop that
    by (cases "rb_pop r") (auto simp: rb_items_def dest: rb_conduit_inject)
  show "rb_inv k (snd (rb_push_item x r))" "rb_inv k (snd (rb_pop r))" using push pop by simp_all
  show "rb_room (snd (rb_push_item x r)) = rb_room r" "rb_room (snd (rb_pop r)) = rb_room r"
    using cq.capacity_push [OF c, of x] cq.capacity_pop [OF c, of "()"] push pop
    by (simp_all add: rb_room_conduit)
qed

lemma rb_init_inv:
  fixes r :: "'p spsc_ring"
  assumes "k < 32" "r = rb_init (2 ^ k)"
  shows "rb_inv k r" "rb_items r = []" "rb_room r = 2 ^ k - 1"
proof -
  have "rb_conduit r = conduit_init (replicate (2 ^ k) None)"
    by (simp add: rb_conduit_def rb_init_def conduit_init_def assms(2))
  moreover have "(2::nat) ^ k < 2 ^ 64" using assms(1) by (intro power_strict_increasing) simp_all
  moreover have "rb_wf k r" using assms by (simp add: rb_wf_def rb_init_def)
  ultimately show "rb_inv k r" "rb_items r = []" "rb_room r = 2 ^ k - 1"
    using conduit_fresh [of "replicate (2 ^ k) (None :: 'p option)"]
    by (simp_all add: rb_inv_def rb_items_def rb_room_conduit)
qed

section \<open>The sender node\<close>

record 'p tcp_sender_node =
  sender_ring :: "'p spsc_ring"
  socket_fd :: int
  sender_running :: bool

definition tcp_sender_init :: "nat \<Rightarrow> int \<Rightarrow> 'p tcp_sender_node" where
  "tcp_sender_init queue_size connected_socket =
     \<lparr>sender_ring = rb_init queue_size, socket_fd = connected_socket, sender_running = False\<rparr>"

definition send_async :: "'p \<Rightarrow> 'p tcp_sender_node \<Rightarrow> bool \<times> 'p tcp_sender_node" where
  "send_async ev n = (let (ok, r) = rb_push (Some ev) (sender_ring n) in (ok, n\<lparr>sender_ring := r\<rparr>))"

definition sender_stop :: "'p tcp_sender_node \<Rightarrow> 'p tcp_sender_node" where
  "sender_stop n = n\<lparr>sender_running := False\<rparr>"

definition sender_dtor :: "'p tcp_sender_node \<Rightarrow> 'p tcp_sender_node" where
  "sender_dtor n = sender_stop n"

text \<open>What the compute thread does between two rounds of the loop: events it sends, and whether it stops the node.
  The events accepted are collected.\<close>

fun send_all :: "'p list \<Rightarrow> 'p tcp_sender_node \<Rightarrow> 'p list \<times> 'p tcp_sender_node" where
  "send_all [] n = ([], n)"
| "send_all (x # xs) n =
     (let (ok, n1) = send_async x n; (acc, n2) = send_all xs n1 in ((if ok then [x] else []) @ acc, n2))"

text \<open>The loop of \<open>run\<close>: \<open>sent\<close> are the events whose bytes were given to \<open>send\<close>, whose result is ignored.\<close>

fun sender_loop ::
  "('p list \<times> bool) list \<Rightarrow> 'p tcp_sender_node \<Rightarrow> 'p list \<Rightarrow> 'p list \<Rightarrow>
   ('p tcp_sender_node \<times> 'p list \<times> 'p list) outcome" where
  "sender_loop [] n sent acc = Pending"
| "sender_loop ((xs, stopped) # rounds) n sent acc =
     (let (acc1, n1) = send_all xs n;
          n2 = (if stopped then sender_stop n1 else n1)
      in if sender_running n2 then
           (case rb_pop (sender_ring n2) of
              (Some ev, r) \<Rightarrow> sender_loop rounds (n2\<lparr>sender_ring := r\<rparr>) (sent @ [ev]) (acc @ acc1)
            | (None, r) \<Rightarrow> sender_loop rounds (n2\<lparr>sender_ring := r\<rparr>) sent (acc @ acc1))
         else Done (n2, sent, acc @ acc1))"

definition sender_run ::
  "('p list \<times> bool) list \<Rightarrow> 'p tcp_sender_node \<Rightarrow> ('p tcp_sender_node \<times> 'p list \<times> 'p list) outcome" where
  "sender_run rounds n =
     (if socket_fd n < 0 then Done (n, [], []) else sender_loop rounds (n\<lparr>sender_running := True\<rparr>) [] [])"

lemma send_all_items:
  "rb_inv k (sender_ring n) \<Longrightarrow> send_all xs n = (acc, n') \<Longrightarrow>
   rb_inv k (sender_ring n') \<and> rb_items (sender_ring n') = rb_items (sender_ring n) @ acc \<and>
   sender_running n' = sender_running n"
proof (induction xs arbitrary: n acc)
  case (Cons x xs)
  obtain ok r where push: "rb_push (Some x) (sender_ring n) = (ok, r)" by (cases "rb_push (Some x) (sender_ring n)")
  have inv: "rb_inv k r" and items: "rb_items r = rb_items (sender_ring n) @ (if ok then [x] else [])"
    using rq.invar_push [OF Cons.prems(1), of x] rq.push_refines [OF Cons.prems(1), of x] push
    by (auto simp: rb_push_item_def spec_push_def split: if_splits)
  show ?case
    using Cons.IH [of "n\<lparr>sender_ring := r\<rparr>"] Cons.prems(2) push inv items
    by (auto simp: send_async_def split: prod.splits)
qed simp

lemma sender_loop_items:
  "rb_inv k (sender_ring n) \<Longrightarrow> sender_loop rounds n sent acc = Done (n', sent', acc') \<Longrightarrow>
   sent @ rb_items (sender_ring n) = acc \<Longrightarrow> sent' @ rb_items (sender_ring n') = acc'"
proof (induction rounds n sent acc rule: sender_loop.induct)
  case (2 xs stopped rounds n sent acc)
  obtain acc1 n1 where all: "send_all xs n = (acc1, n1)" by (cases "send_all xs n")
  define n2 where "n2 = (if stopped then sender_stop n1 else n1)"
  have n2: "rb_inv k (sender_ring n2)" "sent @ rb_items (sender_ring n2) = acc @ acc1"
    using send_all_items [OF "2.prems"(1) all] "2.prems"(3) by (auto simp: n2_def sender_stop_def)
  obtain q r where pop: "rb_pop (sender_ring n2) = (q, r)" by (cases "rb_pop (sender_ring n2)")
  have r: "rb_inv k r" "rb_items (sender_ring n2) = (case q of None \<Rightarrow> [] | Some x \<Rightarrow> [x]) @ rb_items r"
    using rq.invar_pop [OF n2(1)] rq.pop_refines [OF n2(1)] pop
    by (auto simp: spec_pop_def split: list.splits)
  show ?case
  proof (cases "sender_running n2")
    case False
    then show ?thesis using "2.prems"(2) all n2(2) by (auto simp: n2_def Let_def split: if_splits)
  next
    case True
    then have loop: "sender_loop rounds (n2\<lparr>sender_ring := r\<rparr>) (sent @ (case q of None \<Rightarrow> [] | Some x \<Rightarrow> [x])) (acc @ acc1) =
        Done (n', sent', acc')"
      using "2.prems"(2) all pop by (cases q) (simp_all add: n2_def Let_def)
    show ?thesis
    proof (cases q)
      case None
      show ?thesis
        using "2.IH"(1) [OF all [symmetric] refl n2_def True pop [symmetric] None] loop r n2(2) None by simp
    next
      case (Some x)
      show ?thesis
        using "2.IH"(2) [OF all [symmetric] refl n2_def True pop [symmetric] Some] loop r n2(2) Some by simp
    qed
  qed
qed simp

section \<open>Properties\<close>

text \<open>The masked 32-bit ring is the same queue as \<open>conduit\<close>: on every ring of a power-of-two capacity, push
  and pop return what the conduit with the same slots and indices returns and leave corresponding states.\<close>

theorem rb_equals_conduit:
  assumes "rb_wf k r"
  shows "conduit_push item (rb_conduit r) = (fst (rb_push item r), rb_conduit (snd (rb_push item r))) \<and>
    (let (ev, c) = conduit_pop p (rb_conduit r) in event_ptr_get ev = fst (rb_pop r) \<and> c = rb_conduit (snd (rb_pop r))) \<and>
    rb_wf k (snd (rb_push item r)) \<and> rb_wf k (snd (rb_pop r))"
  using rb_push_refines [OF assms, of item "fst (rb_push item r)" "snd (rb_push item r)"]
    rb_pop_refines [OF assms, of "fst (rb_pop r)" "snd (rb_pop r)" p] by simp

theorem rb_equals_conduit_witness:
  "conduit_push (Some 5) (rb_conduit (rb_init 4)) =
     (True, rb_conduit (snd (rb_push (Some (5 :: nat)) (rb_init 4))))"
proof -
  have "rb_wf 2 (rb_init 4 :: nat spsc_ring)" by (simp add: rb_wf_def rb_init_def)
  from rb_equals_conduit [OF this, of "Some 5" "()"] show ?thesis
    by (simp add: rb_push_def rb_init_def rb_advance_def Let_def)
qed

text \<open>The masked ring answers every sequence of pushes and pops as a first-in first-out queue of capacity
  \<open>Capacity - 1\<close> does.\<close>

theorem rb_is_fifo:
  fixes ops :: "'p fifo_op list"
  assumes "k < 32"
  shows "let (rs, r) = fifo_run rb_push_item rb_pop ops (rb_init (2 ^ k));
      (rs', xs) = fifo_run (spec_push (2 ^ k - 1)) spec_pop ops []
    in rs = rs' \<and> rb_items r = xs"
proof -
  define r0 where "r0 = (rb_init (2 ^ k) :: 'p spsc_ring)"
  note init = rb_init_inv [OF assms r0_def]
  show ?thesis
    using rq.run_refines [OF init(1), of ops] by (auto simp: init(2,3) split_beta simp flip: r0_def)
qed

theorem rb_is_fifo_witness:
  "fst (fifo_run rb_push_item rb_pop [Push_Op 1, Push_Op (2::nat), Pop_Op, Pop_Op] (rb_init 2)) =
     [Pushed True, Pushed False, Popped (Some 1), Popped None]"
  using rb_is_fifo [of 1 "[Push_Op 1, Push_Op (2::nat), Pop_Op, Pop_Op]"]
  by (simp add: spec_push_def spec_pop_def split_beta)

text \<open>The sender node sends exactly the events it accepted, once and in order: when its loop ends, the events given to
  the kernel followed by those still queued are the accepted ones.\<close>

theorem sender_in_order:
  assumes "k < 32" "sender_run rounds (tcp_sender_init (2 ^ k) fd) = Done (n', sent, acc)" "0 \<le> fd"
  shows "sent @ rb_items (sender_ring n') = acc"
proof -
  let ?n = "(tcp_sender_init (2 ^ k) fd)\<lparr>sender_running := True\<rparr>"
  have "rb_inv k (sender_ring ?n)" "rb_items (sender_ring ?n) = []"
    using rb_init_inv(1,2) [OF assms(1) refl] by (simp_all add: tcp_sender_init_def)
  moreover have "sender_loop rounds ?n [] [] = Done (n', sent, acc)"
    using assms(2,3) by (simp add: sender_run_def tcp_sender_init_def)
  ultimately show ?thesis using sender_loop_items by fastforce
qed

theorem sender_in_order_witness:
  "\<exists>n'. sender_run [([4, 5], False), ([6], True)] (tcp_sender_init 4 3) = Done (n', [4 :: nat], [4, 5, 6]) \<and>
     rb_items (sender_ring n') = [5, 6]"
proof -
  obtain n' where run: "sender_run [([4, 5], False), ([6], True)] (tcp_sender_init 4 3) = Done (n', [4 :: nat], [4, 5, 6])"
    by (simp add: sender_run_def tcp_sender_init_def send_async_def rb_push_def rb_pop_def rb_init_def rb_advance_def
        Let_def sender_stop_def eval_nat_numeral)
  with sender_in_order [of 2 "[([4, 5], False), ([6], True)]" 3 n' "[4]" "[4, 5, 6]"] show ?thesis by auto
qed

end
