(* ===== verification/Timing_Wheel.thy ===== *)
theory Timing_Wheel
  imports Ring_Index
begin

text \<open>
  \<open>timing_wheel\<close> of \<open>include/conduit/pending/core/timing_wheel.hpp\<close>: an array of buckets, each the head of a
  doubly linked list threaded through the timers' own nodes. The slab's \<open>get_by_index\<close>, which the
  wheel only assumes, is a store from 32-bit indices to nodes. The specification keeps, for every
  timer, the tick at which it is due.
\<close>

section \<open>The wheel\<close>

record timing_node =
  timer_next :: u32
  timer_prev :: u32
  wheel_bucket :: u32

definition timing_node_init :: timing_node where
  "timing_node_init = \<lparr>timer_next = 0xFFFFFFFF, timer_prev = 0xFFFFFFFF, wheel_bucket = 0xFFFFFFFF\<rparr>"

record timing_wheel =
  buckets :: "u32 list"
  current_tick :: u64
  nodes :: "u32 \<Rightarrow> timing_node"

definition wheel_init :: "nat \<Rightarrow> (u32 \<Rightarrow> timing_node) \<Rightarrow> timing_wheel" where
  "wheel_init wheel_slots pool = \<lparr>buckets = replicate wheel_slots end_of_list, current_tick = 0, nodes = pool\<rparr>"

definition wheel_slots :: "timing_wheel \<Rightarrow> u32" where
  "wheel_slots w = of_nat (length (buckets w))"

definition slot_mask :: "timing_wheel \<Rightarrow> u64" where
  "slot_mask w = ucast (wheel_slots w - 1)"

definition schedule :: "u32 \<Rightarrow> u32 \<Rightarrow> timing_wheel \<Rightarrow> timing_wheel" where
  "schedule node_index delay_ticks w =
     (let delay = (if delay_ticks \<ge> wheel_slots w then wheel_slots w - 1 else delay_ticks);
          bucket_index = (ucast ((current_tick w + ucast delay) AND slot_mask w) :: u32);
          old = buckets w ! unat bucket_index;
          ns1 = (nodes w)(node_index := (nodes w node_index)
                  \<lparr>timer_next := old, timer_prev := end_of_list, wheel_bucket := bucket_index\<rparr>);
          ns2 = (if old \<noteq> end_of_list then ns1(old := (ns1 old)\<lparr>timer_prev := node_index\<rparr>) else ns1)
      in w\<lparr>nodes := ns2, buckets := (buckets w)[unat bucket_index := node_index]\<rparr>)"

text \<open>The links of a node taken out of its list.\<close>

definition unlink :: "u32 \<Rightarrow> (u32 \<Rightarrow> timing_node) \<Rightarrow> u32 \<Rightarrow> timing_node" where
  "unlink n ns =
     (let prev = timer_prev (ns n);
          ns1 = (if prev \<noteq> end_of_list then ns(prev := (ns prev)\<lparr>timer_next := timer_next (ns n)\<rparr>) else ns);
          nxt = timer_next (ns1 n);
          ns2 = (if nxt \<noteq> end_of_list then ns1(nxt := (ns1 nxt)\<lparr>timer_prev := timer_prev (ns1 n)\<rparr>) else ns1)
      in ns2(n := (ns2 n)\<lparr>wheel_bucket := end_of_list\<rparr>))"

definition cancel :: "u32 \<Rightarrow> timing_wheel \<Rightarrow> timing_wheel" where
  "cancel node_index w =
     (let node = nodes w node_index; bucket = wheel_bucket node
      in if bucket = end_of_list then w
         else w\<lparr>buckets := (if timer_prev node \<noteq> end_of_list then buckets w
                             else (buckets w)[unat bucket := timer_next node]),
                nodes := unlink node_index (nodes w)\<rparr>)"

definition tick :: "timing_wheel \<Rightarrow> u32 \<times> timing_wheel" where
  "tick w =
     (let now = current_tick w + 1;
          current_bucket = unat (now AND slot_mask w)
      in (buckets w ! current_bucket,
          w\<lparr>current_tick := now, buckets := (buckets w)[current_bucket := end_of_list]\<rparr>))"

section \<open>Doubly linked lists\<close>

text \<open>The nodes of bucket \<open>b\<close> from \<open>i\<close> on, where \<open>p\<close> is the node before.\<close>

fun dlist :: "(u32 \<Rightarrow> timing_node) \<Rightarrow> u32 \<Rightarrow> u32 \<Rightarrow> u32 \<Rightarrow> u32 list \<Rightarrow> bool" where
  "dlist ns b p i [] \<longleftrightarrow> i = end_of_list"
| "dlist ns b p i (x # xs) \<longleftrightarrow>
     i = x \<and> x \<noteq> end_of_list \<and> timer_prev (ns x) = p \<and> wheel_bucket (ns x) = b \<and> dlist ns b x (timer_next (ns x)) xs"

lemma dlist_frame:
  "(\<And>x. x \<in> set xs \<Longrightarrow> ns' x = ns x) \<Longrightarrow> dlist ns' b p i xs \<longleftrightarrow> dlist ns b p i xs"
  by (induction xs arbitrary: p i) auto

lemma dlist_bucket: "dlist ns b p i xs \<Longrightarrow> x \<in> set xs \<Longrightarrow> wheel_bucket (ns x) = b \<and> x \<noteq> end_of_list"
  by (induction xs arbitrary: p i) auto

lemma dlist_prev:
  "dlist ns b p i (xs @ n # ys) \<Longrightarrow> timer_prev (ns n) = (if xs = [] then p else last xs)"
  by (induction xs arbitrary: p i) auto

lemma dlist_next:
  "dlist ns b p i (xs @ n # ys) \<Longrightarrow> timer_next (ns n) = (case ys of [] \<Rightarrow> end_of_list | y # _ \<Rightarrow> y)"
  by (induction xs arbitrary: p i) (auto split: list.split)

text \<open>Inserting in front.\<close>

lemma dlist_insert:
  assumes "dlist ns b end_of_list i xs" "n \<notin> set xs" "n \<noteq> end_of_list" "distinct xs"
  defines "ns1 \<equiv> ns(n := (ns n)\<lparr>timer_next := i, timer_prev := end_of_list, wheel_bucket := b\<rparr>)"
  shows "dlist (if i \<noteq> end_of_list then ns1(i := (ns1 i)\<lparr>timer_prev := n\<rparr>) else ns1) b end_of_list n (n # xs)"
proof (cases xs)
  case Nil
  with assms show ?thesis by simp
next
  case (Cons x ys)
  then have i: "i = x" "x \<noteq> n" "x \<notin> set ys" "n \<notin> set ys" "i \<noteq> end_of_list" using assms by auto
  let ?ns = "ns1(i := (ns1 i)\<lparr>timer_prev := n\<rparr>)"
  have "dlist ns b x (timer_next (ns x)) ys" using assms(1) Cons by simp
  then have "dlist ?ns b x (timer_next (ns x)) ys"
    by (rule iffD2 [OF dlist_frame, rotated]) (use i in \<open>auto simp: ns1_def\<close>)
  with i Cons assms(1,3) show ?thesis by (simp add: ns1_def)
qed

text \<open>Taking one out.\<close>

lemma unlink_other:
  "y \<noteq> n \<Longrightarrow> y \<noteq> timer_prev (ns n) \<Longrightarrow> y \<noteq> timer_next (ns n) \<Longrightarrow> timer_prev (ns n) \<noteq> n \<Longrightarrow> unlink n ns y = ns y"
  by (simp add: unlink_def Let_def)

lemma unlink_fields:
  assumes "timer_prev (ns n) \<noteq> n" "timer_next (ns n) \<noteq> n"
  shows "y \<noteq> n \<Longrightarrow> wheel_bucket (unlink n ns y) = wheel_bucket (ns y)"
    and "y \<noteq> n \<Longrightarrow> y \<noteq> end_of_list \<Longrightarrow> timer_next (unlink n ns y) = (if y = timer_prev (ns n) then timer_next (ns n) else timer_next (ns y))"
    and "y \<noteq> n \<Longrightarrow> y \<noteq> end_of_list \<Longrightarrow> timer_prev (unlink n ns y) = (if y = timer_next (ns n) then timer_prev (ns n) else timer_prev (ns y))"
    and "wheel_bucket (unlink n ns n) = end_of_list"
  using assms by (auto simp: unlink_def Let_def)

lemma dlist_unlink:
  assumes "dlist ns b p i (xs @ n # ys)" "distinct (xs @ n # ys)" "p \<notin> set (xs @ n # ys)"
  shows "dlist (unlink n ns) b p (if xs = [] then timer_next (ns n) else i) (xs @ ys)"
  using assms
proof (induction xs arbitrary: p i)
  case Nil
  then have n: "timer_prev (ns n) = p" "p \<noteq> n" by auto
  show ?case
  proof (cases ys)
    case Nil
    then show ?thesis using Nil.prems(1) by simp
  next
    case (Cons y zs)
    then have y: "timer_next (ns n) = y" "y \<noteq> n" "y \<noteq> end_of_list" "y \<noteq> p" "y \<notin> set zs" "n \<notin> set zs" "p \<notin> set zs"
      using Nil.prems by auto
    have "dlist ns b y (timer_next (ns y)) zs" using Nil.prems(1) Cons by simp
    then have "dlist (unlink n ns) b y (timer_next (ns y)) zs"
      by (rule iffD2 [OF dlist_frame, rotated]) (use y n in \<open>auto intro!: unlink_other\<close>)
    then show ?thesis using Nil.prems(1) Cons y n by (simp add: unlink_fields)
  qed
next
  case (Cons x xs)
  have x: "i = x" "x \<noteq> end_of_list" "timer_prev (ns x) = p" "wheel_bucket (ns x) = b"
      "dlist ns b x (timer_next (ns x)) (xs @ n # ys)" "x \<noteq> n" "x \<notin> set (xs @ n # ys)"
    using Cons.prems by auto
  have IH: "dlist (unlink n ns) b x (if xs = [] then timer_next (ns n) else timer_next (ns x)) (xs @ ys)"
    using Cons.IH [OF x(5)] Cons.prems(2) x(7) by simp
  have prev: "timer_prev (ns n) = (if xs = [] then x else last xs)" using dlist_prev [OF x(5)] .
  have nxt: "timer_next (ns n) \<noteq> x" "timer_next (ns n) \<noteq> n" "timer_prev (ns n) \<noteq> n"
    using dlist_next [OF x(5)] prev Cons.prems(2) x(2) dlist_bucket [OF x(5), of n] last_in_set [of xs]
    by (auto split: list.splits if_splits)
  have "x = timer_prev (ns n) \<longleftrightarrow> xs = []" using prev Cons.prems(2) last_in_set [of xs] by (auto split: if_splits)
  then show ?case
    using IH x nxt by (simp add: unlink_fields)
qed

section \<open>Indices\<close>

lemma slot_mask_eq:
  assumes "length (buckets w) = 2 ^ k" "k < 32"
  shows "slot_mask w = 2 ^ k - 1"
proof -
  have "slot_mask w = ucast (mask k :: u32)"
    using assms(1) by (simp add: slot_mask_def wheel_slots_def mask_eq_exp_minus_1)
  also have "\<dots> = (mask k :: u64)"
    using assms(2) by (intro bit_word_eqI) (auto simp: bit_simps)
  finally show ?thesis by (simp add: mask_eq_exp_minus_1)
qed

lemma slot_index:
  assumes "length (buckets w) = 2 ^ k" "k < 32"
  shows "unat (x AND slot_mask w) = unat x mod 2 ^ k"
    and "unat (ucast (x AND slot_mask w) :: u32) = unat x mod 2 ^ k"
proof -
  have p: "(2::nat) ^ k < 2 ^ 32" using assms(2) by (intro power_strict_increasing) simp_all
  then show eq: "unat (x AND slot_mask w) = unat x mod 2 ^ k"
    using pow2_mask_mod [of k x] slot_mask_eq [OF assms] by simp
  have "unat x mod 2 ^ k < 2 ^ 32" using p by (meson mod_less_divisor order_less_trans zero_less_power zero_less_numeral)
  then show "unat (ucast (x AND slot_mask w) :: u32) = unat x mod 2 ^ k"
    using eq by (simp add: unsigned_ucast_eq take_bit_nat_eq_self)
qed

lemma unat_wheel_slots:
  assumes "length (buckets w) = 2 ^ k" "k < 32"
  shows "unat (wheel_slots w) = 2 ^ k"
proof -
  have "(2::nat) ^ k < 2 ^ 32" using assms(2) by (intro power_strict_increasing) simp_all
  then have "length (buckets w) < 2 ^ 32" using assms(1) by simp
  then have "unat (wheel_slots w) = length (buckets w)"
    by (simp add: wheel_slots_def unsigned_of_nat take_bit_nat_eq_self)
  then show ?thesis using assms(1) by simp
qed

section \<open>The specification\<close>

datatype wheel_op = Schedule u32 u32 | Cancel u32 | Tick

text \<open>\<open>stale\<close> are the timers that have fired and were not scheduled again: their nodes still name a bucket.\<close>

record wheel_spec =
  now :: nat
  due :: "u32 \<Rightarrow> nat option"
  stale :: "u32 set"

definition spec_init :: wheel_spec where
  "spec_init = \<lparr>now = 0, due = Map.empty, stale = {}\<rparr>"

text \<open>A delay of the wheel's size or more is cut; a delay of zero waits for a full turn.\<close>

definition effective_delay :: "nat \<Rightarrow> u32 \<Rightarrow> nat" where
  "effective_delay slots d = (let d' = min (unat d) (slots - 1) in if d' = 0 then slots else d')"

fun spec_step :: "nat \<Rightarrow> wheel_op \<Rightarrow> wheel_spec \<Rightarrow> wheel_spec" where
  "spec_step slots (Schedule n d) sp =
     sp\<lparr>due := (due sp)(n \<mapsto> now sp + effective_delay slots d), stale := stale sp - {n}\<rparr>"
| "spec_step slots (Cancel n) sp = sp\<lparr>due := (due sp)(n := None)\<rparr>"
| "spec_step slots Tick sp =
     sp\<lparr>now := Suc (now sp), due := (\<lambda>n. if due sp n = Some (Suc (now sp)) then None else due sp n),
        stale := stale sp \<union> {n. due sp n = Some (Suc (now sp))}\<rparr>"

text \<open>What a client must respect: no scheduling of a pending timer, no cancelling of a fired one.\<close>

fun legal :: "wheel_op \<Rightarrow> wheel_spec \<Rightarrow> bool" where
  "legal (Schedule n d) sp \<longleftrightarrow> n \<noteq> end_of_list \<and> due sp n = None"
| "legal (Cancel n) sp \<longleftrightarrow> n \<noteq> end_of_list \<and> n \<notin> stale sp"
| "legal Tick sp \<longleftrightarrow> True"

fun wheel_step :: "wheel_op \<Rightarrow> timing_wheel \<Rightarrow> timing_wheel" where
  "wheel_step (Schedule n d) w = schedule n d w"
| "wheel_step (Cancel n) w = cancel n w"
| "wheel_step Tick w = snd (tick w)"

fun legal_run :: "nat \<Rightarrow> wheel_op list \<Rightarrow> wheel_spec \<Rightarrow> bool" where
  "legal_run slots [] sp \<longleftrightarrow> True"
| "legal_run slots (op # ops) sp \<longleftrightarrow> legal op sp \<and> legal_run slots ops (spec_step slots op sp)"

section \<open>The wheel implements the specification\<close>

text \<open>\<open>ls b\<close> is the list of bucket \<open>b\<close>.\<close>

definition wheel_rel :: "nat \<Rightarrow> (nat \<Rightarrow> u32 list) \<Rightarrow> timing_wheel \<Rightarrow> wheel_spec \<Rightarrow> bool" where
  "wheel_rel k ls w sp \<longleftrightarrow>
     k < 32 \<and> length (buckets w) = 2 ^ k \<and> unat (current_tick w) = now sp \<and> due sp end_of_list = None \<and>
     (\<forall>b < 2 ^ k. dlist (nodes w) (of_nat b) end_of_list (buckets w ! b) (ls b) \<and> distinct (ls b)) \<and>
     (\<forall>b < 2 ^ k. \<forall>n. n \<in> set (ls b) \<longleftrightarrow> (\<exists>t. due sp n = Some t \<and> t mod 2 ^ k = b)) \<and>
     (\<forall>n t. due sp n = Some t \<longrightarrow> now sp < t \<and> t \<le> now sp + 2 ^ k) \<and>
     (\<forall>n. n \<noteq> end_of_list \<longrightarrow> due sp n = None \<longrightarrow> n \<notin> stale sp \<longrightarrow> wheel_bucket (nodes w n) = end_of_list)"

lemma wheel_relD:
  assumes "wheel_rel k ls w sp"
  shows "k < 32" "length (buckets w) = 2 ^ k" "unat (current_tick w) = now sp" "due sp end_of_list = None"
    and "b < 2 ^ k \<Longrightarrow> dlist (nodes w) (of_nat b) end_of_list (buckets w ! b) (ls b)" "b < 2 ^ k \<Longrightarrow> distinct (ls b)"
    and "b < 2 ^ k \<Longrightarrow> n \<in> set (ls b) \<longleftrightarrow> (\<exists>t. due sp n = Some t \<and> t mod 2 ^ k = b)"
    and "due sp n = Some t \<Longrightarrow> now sp < t \<and> t \<le> now sp + 2 ^ k"
    and "n \<noteq> end_of_list \<Longrightarrow> due sp n = None \<Longrightarrow> n \<notin> stale sp \<Longrightarrow> wheel_bucket (nodes w n) = end_of_list"
  using assms by (auto simp: wheel_rel_def)

lemma of_nat_bucket_inj:
  assumes "k < 32" "b < 2 ^ k" "c < 2 ^ k" "(of_nat b :: u32) = of_nat c"
  shows "b = c"
proof -
  have "(2::nat) ^ k < 2 ^ 32" using assms(1) by (intro power_strict_increasing) simp_all
  then have "unat (of_nat b :: u32) = b" "unat (of_nat c :: u32) = c"
    using assms(2,3) by (simp_all add: unsigned_of_nat take_bit_nat_eq_self)
  then show ?thesis using assms(4) by metis
qed

lemma due_next_tick:
  assumes "now sp < t" "t \<le> now sp + 2 ^ k" "t mod 2 ^ k = Suc (now sp) mod 2 ^ k"
  shows "t = Suc (now sp)"
proof -
  obtain j where j: "t = Suc (now sp) + j" "j < 2 ^ k" using assms(1,2) by (metis Suc_leI le_Suc_ex add_Suc add_Suc_right add_less_cancel_left less_eq_Suc_le)
  then have "j = 0" using ring_index_inj [of j "2 ^ k" 0 "Suc (now sp)"] assms(3) by simp
  with j(1) show ?thesis by simp
qed

lemma tick_rel:
  assumes rel: "wheel_rel k ls w sp" and now: "now sp < 2 ^ 64 - 1"
  defines "b \<equiv> Suc (now sp) mod 2 ^ k"
  shows "wheel_rel k (ls(b := [])) (snd (tick w)) (spec_step (2 ^ k) Tick sp)"
    and "fst (tick w) = buckets w ! b" and "nodes (snd (tick w)) = nodes w"
    and "set (ls b) = {n. due sp n = Some (Suc (now sp))}" and "b < 2 ^ k"
proof -
  note D = wheel_relD [OF rel]
  have tick: "unat (current_tick w + 1) = Suc (now sp)" using D(3) now by (simp add: unat_word_ariths)
  then have idx: "unat ((current_tick w + 1) AND slot_mask w) = b"
    using slot_index(1) [OF D(2,1), of "current_tick w + 1"] by (simp add: b_def)
  show b: "b < 2 ^ k" by (simp add: b_def)
  show "fst (tick w) = buckets w ! b" "nodes (snd (tick w)) = nodes w" using idx by (simp_all add: tick_def Let_def)
  have hit: "t mod 2 ^ k = b \<longleftrightarrow> t = Suc (now sp)" if "due sp n = Some t" for n t
    using D(8) [OF that] due_next_tick [of sp t k] by (auto simp: b_def)
  show due: "set (ls b) = {n. due sp n = Some (Suc (now sp))}"
    using D(7) [OF b] hit by auto
  have w': "snd (tick w) = w\<lparr>current_tick := current_tick w + 1, buckets := (buckets w)[b := end_of_list]\<rparr>"
    using idx by (simp add: tick_def Let_def)
  show "wheel_rel k (ls(b := [])) (snd (tick w)) (spec_step (2 ^ k) Tick sp)"
    unfolding wheel_rel_def w'
    using D(1,2,4) tick D(5,6,9)
  proof (intro conjI allI impI)
    fix c :: nat and n assume c: "c < 2 ^ k"
    show "n \<in> set ((ls(b := [])) c) \<longleftrightarrow> (\<exists>t. due (spec_step (2 ^ k) Tick sp) n = Some t \<and> t mod 2 ^ k = c)"
      using D(7) [OF c, of n] hit [of n] by (cases "due sp n") auto
  next
    fix n t assume "due (spec_step (2 ^ k) Tick sp) n = Some t"
    then have "due sp n = Some t" "t \<noteq> Suc (now sp)" by (auto split: if_splits)
    with D(8) show "now (spec_step (2 ^ k) Tick sp) < t" "t \<le> now (spec_step (2 ^ k) Tick sp) + 2 ^ k" by force+
  qed (auto simp: nth_list_update)
qed

lemma schedule_index:
  fixes d :: u32
  assumes rel: "wheel_rel k ls w sp" and now: "now sp + 2 ^ k < 2 ^ 64"
  defines "delay \<equiv> (if d \<ge> wheel_slots w then wheel_slots w - 1 else d)"
  shows "unat (ucast ((current_tick w + ucast delay) AND slot_mask w) :: u32) =
    (now sp + effective_delay (2 ^ k) d) mod 2 ^ k"
    and "0 < effective_delay (2 ^ k) d" "effective_delay (2 ^ k) d \<le> 2 ^ k"
proof -
  note D = wheel_relD [OF rel]
  note slots = unat_wheel_slots [OF D(2,1)]
  have one: "unat (wheel_slots w - 1) = 2 ^ k - 1"
    using slots by (subst unat_sub) (simp_all add: word_le_nat_alt)
  have delay: "unat delay = min (unat d) (2 ^ k - 1)"
    using slots one by (auto simp: delay_def word_le_nat_alt)
  then have less: "unat delay < 2 ^ k" by (simp add: min_less_iff_disj)
  moreover have "unat (ucast delay :: u64) = unat delay"
    using less now by (simp add: unsigned_ucast_eq take_bit_nat_eq_self)
  ultimately have "unat (current_tick w + ucast delay) = now sp + unat delay"
    using D(3) now by (simp add: unat_word_ariths)
  moreover have "(now sp + unat delay) mod 2 ^ k = (now sp + effective_delay (2 ^ k) d) mod 2 ^ k"
    using delay by (simp add: effective_delay_def Let_def)
  ultimately show "unat (ucast ((current_tick w + ucast delay) AND slot_mask w) :: u32) =
      (now sp + effective_delay (2 ^ k) d) mod 2 ^ k"
    using slot_index(2) [OF D(2,1)] by simp
  show "0 < effective_delay (2 ^ k) d" "effective_delay (2 ^ k) d \<le> 2 ^ k"
    by (auto simp: effective_delay_def Let_def)
qed

lemma schedule_rel:
  fixes d :: u32
  assumes rel: "wheel_rel k ls w sp" and now: "now sp + 2 ^ k < 2 ^ 64"
    and n: "n \<noteq> end_of_list" "due sp n = None"
  defines "b \<equiv> (now sp + effective_delay (2 ^ k) d) mod 2 ^ k"
  shows "wheel_rel k (ls(b := n # ls b)) (schedule n d w) (spec_step (2 ^ k) (Schedule n d) sp)"
proof -
  note D = wheel_relD [OF rel]
  note idx = schedule_index [OF rel now, of d, folded b_def]
  have b: "b < 2 ^ k" by (simp add: b_def)
  define old where "old = buckets w ! b"
  define ns1 where "ns1 = (nodes w)(n := (nodes w n)\<lparr>timer_next := old, timer_prev := end_of_list, wheel_bucket := of_nat b\<rparr>)"
  define ns2 where "ns2 = (if old \<noteq> end_of_list then ns1(old := (ns1 old)\<lparr>timer_prev := n\<rparr>) else ns1)"
  have "(ucast ((current_tick w + ucast (if d \<ge> wheel_slots w then wheel_slots w - 1 else d)) AND slot_mask w) :: u32) = of_nat b"
    using arg_cong [OF idx(1), of "of_nat :: nat \<Rightarrow> u32"] by simp
  then have w': "schedule n d w = w\<lparr>nodes := ns2, buckets := (buckets w)[b := n]\<rparr>"
    using idx(1) by (simp add: schedule_def Let_def ns2_def ns1_def old_def)
  have free: "n \<notin> set (ls c)" if "c < 2 ^ k" for c using D(7) [OF that] n(2) by simp
  have new: "dlist ns2 (of_nat b) end_of_list n (n # ls b)"
    unfolding ns2_def ns1_def old_def by (rule dlist_insert [OF D(5) [OF b] free [OF b] n(1) D(6) [OF b]])
  have old: "old = end_of_list \<or> old \<in> set (ls b)"
    using D(5) [OF b] by (cases "ls b") (auto simp: old_def)
  have others: "dlist ns2 (of_nat c) end_of_list (buckets w ! c) (ls c)" if c: "c < 2 ^ k" "c \<noteq> b" for c
  proof -
    have "old \<notin> set (ls c)"
      using old D(5) [OF b] D(5) [OF c(1)] dlist_bucket of_nat_bucket_inj [OF D(1) b c(1)] c(2) by metis
    then show ?thesis
      by (intro iffD2 [OF dlist_frame D(5) [OF c(1)]]) (use free [OF c(1)] in \<open>auto simp: ns2_def ns1_def\<close>)
  qed
  have bucket: "wheel_bucket (ns2 m) = wheel_bucket (nodes w m)" if "m \<noteq> n" for m
    using that by (simp add: ns2_def ns1_def)
  show ?thesis
    unfolding wheel_rel_def w'
    using D(1-4) n
  proof (intro conjI allI impI)
    fix c assume c: "c < (2::nat) ^ k"
    show "dlist (nodes (w\<lparr>nodes := ns2, buckets := (buckets w)[b := n]\<rparr>)) (of_nat c) end_of_list
        (buckets (w\<lparr>nodes := ns2, buckets := (buckets w)[b := n]\<rparr>) ! c) ((ls(b := n # ls b)) c)"
      using new others [OF c] c D(2) by auto
    show "distinct ((ls(b := n # ls b)) c)" using D(6) [OF c] free [OF c] by auto
    fix m
    show "m \<in> set ((ls(b := n # ls b)) c) \<longleftrightarrow> (\<exists>t. due (spec_step (2 ^ k) (Schedule n d) sp) m = Some t \<and> t mod 2 ^ k = c)"
      using D(7) [OF c, of m] n(2) by (auto simp: b_def)
  next
    fix m t assume "due (spec_step (2 ^ k) (Schedule n d) sp) m = Some t"
    then show "now (spec_step (2 ^ k) (Schedule n d) sp) < t" "t \<le> now (spec_step (2 ^ k) (Schedule n d) sp) + 2 ^ k"
      using D(8) [of m t] idx(2,3) by (auto split: if_splits)
  next
    fix m assume "m \<noteq> end_of_list" "due (spec_step (2 ^ k) (Schedule n d) sp) m = None" "m \<notin> stale (spec_step (2 ^ k) (Schedule n d) sp)"
    then show "wheel_bucket (nodes (w\<lparr>nodes := ns2, buckets := (buckets w)[b := n]\<rparr>) m) = end_of_list"
      using D(9) [of m] bucket [of m] by (auto split: if_splits)
  qed auto
qed

lemma bucket_word:
  assumes "k < 32" "b < 2 ^ k"
  shows "unat (of_nat b :: u32) = b" "(of_nat b :: u32) \<noteq> end_of_list"
proof -
  have k: "(2::nat) ^ k \<le> 2 ^ 31" using assms(1) by (intro power_increasing) simp_all
  then show ub: "unat (of_nat b :: u32) = b" using assms(2) by (simp add: unsigned_of_nat take_bit_nat_eq_self)
  show "(of_nat b :: u32) \<noteq> end_of_list"
  proof
    assume "(of_nat b :: u32) = end_of_list"
    then have "b = 0xFFFFFFFF" using ub by simp
    with k assms(2) show False by simp
  qed
qed

text \<open>Cancelling a waiting node takes it out of the list of its bucket and touches no other list.\<close>

lemma cancel_lists:
  assumes rel: "wheel_rel k ls w sp" and n: "n \<noteq> end_of_list" and b: "b < 2 ^ k" and ls: "ls b = xs @ n # ys"
  shows "cancel n w = w\<lparr>buckets := (if xs = [] then (buckets w)[b := timer_next (nodes w n)] else buckets w),
      nodes := unlink n (nodes w)\<rparr>"
    and "timer_prev (nodes w n) \<noteq> n" "timer_next (nodes w n) \<noteq> n"
    and "c < 2 ^ k \<Longrightarrow> dlist (nodes (cancel n w)) (of_nat c) end_of_list (buckets (cancel n w) ! c) ((ls(b := xs @ ys)) c)"
proof -
  note D = wheel_relD [OF rel]
  note dl = D(5) [OF b, unfolded ls] and dist = D(6) [OF b, unfolded ls] and bw = bucket_word [OF D(1) b]
  have bucket: "wheel_bucket (nodes w n) = of_nat b" using dlist_bucket [OF dl] by simp
  have "end_of_list \<notin> set (xs @ n # ys)" using dlist_bucket [OF dl] by blast
  then have new: "dlist (unlink n (nodes w)) (of_nat b) end_of_list
      (if xs = [] then timer_next (nodes w n) else buckets w ! b) (xs @ ys)"
    using dlist_unlink [OF dl dist] by blast
  have prev: "timer_prev (nodes w n) = (if xs = [] then end_of_list else last xs)" using dlist_prev [OF dl] .
  have prev_in: "xs \<noteq> [] \<Longrightarrow> last xs \<noteq> end_of_list \<and> last xs \<in> set (ls b)"
    using dlist_bucket [OF dl] last_in_set [of xs] ls by auto
  have next_in: "timer_next (nodes w n) = end_of_list \<or> timer_next (nodes w n) \<in> set (ls b)"
    using dlist_next [OF dl] ls by (auto split: list.splits)
  show w': "cancel n w = w\<lparr>buckets := (if xs = [] then (buckets w)[b := timer_next (nodes w n)] else buckets w),
      nodes := unlink n (nodes w)\<rparr>"
    using bucket prev prev_in bw by (auto simp: cancel_def Let_def)
  show self: "timer_prev (nodes w n) \<noteq> n" "timer_next (nodes w n) \<noteq> n"
    using prev prev_in n dist dlist_next [OF dl] last_in_set [of xs] by (auto split: list.splits if_splits)
  have others: "dlist (unlink n (nodes w)) (of_nat c) end_of_list (buckets w ! c) (ls c)" if c: "c < 2 ^ k" "c \<noteq> b" for c
  proof (rule iffD2 [OF dlist_frame D(5) [OF c(1)]])
    fix x assume x: "x \<in> set (ls c)"
    then have "x \<notin> set (ls b)" "x \<noteq> end_of_list"
      using D(5) [OF b] D(5) [OF c(1)] dlist_bucket of_nat_bucket_inj [OF D(1) b c(1)] c(2) by metis+
    then have "x \<noteq> n" "x \<noteq> timer_prev (nodes w n)" "x \<noteq> timer_next (nodes w n)"
      using prev prev_in next_in ls by (auto split: if_splits)
    then show "unlink n (nodes w) x = nodes w x" using self by (intro unlink_other)
  qed
  show "dlist (nodes (cancel n w)) (of_nat c) end_of_list (buckets (cancel n w) ! c) ((ls(b := xs @ ys)) c)" if "c < 2 ^ k"
    unfolding w' using new others [OF that] that D(2) by auto
qed

lemma cancel_rel:
  assumes rel: "wheel_rel k ls w sp" and n: "n \<noteq> end_of_list" "n \<notin> stale sp"
  shows "\<exists>ls'. wheel_rel k ls' (cancel n w) (spec_step (2 ^ k) (Cancel n) sp)"
proof (cases "due sp n")
  case None
  then have "cancel n w = w" using wheel_relD(9) [OF rel n(1) None n(2)] by (simp add: cancel_def Let_def)
  moreover have "spec_step (2 ^ k) (Cancel n) sp = sp" using None by (cases sp) (auto simp: fun_eq_iff)
  ultimately show ?thesis using rel by auto
next
  case (Some t)
  note D = wheel_relD [OF rel]
  define b where "b = t mod 2 ^ k"
  have b: "b < 2 ^ k" by (simp add: b_def)
  have "n \<in> set (ls b)" using D(7) [OF b] Some by (auto simp: b_def)
  then obtain xs ys where ls: "ls b = xs @ n # ys" by (auto simp: in_set_conv_decomp)
  note dist = D(6) [OF b, unfolded ls] and C = cancel_lists [OF rel n(1) b ls]
  have "wheel_rel k (ls(b := xs @ ys)) (cancel n w) (spec_step (2 ^ k) (Cancel n) sp)"
    unfolding wheel_rel_def
  proof (intro conjI allI impI)
    fix c assume c: "c < (2::nat) ^ k"
    show "dlist (nodes (cancel n w)) (of_nat c) end_of_list (buckets (cancel n w) ! c) ((ls(b := xs @ ys)) c)"
      using C(4) [OF c] .
    show "distinct ((ls(b := xs @ ys)) c)" using D(6) [OF c] dist by auto
    fix m
    show "m \<in> set ((ls(b := xs @ ys)) c) \<longleftrightarrow> (\<exists>t. due (spec_step (2 ^ k) (Cancel n) sp) m = Some t \<and> t mod 2 ^ k = c)"
      using D(7) [OF c, of m] ls dist Some by (auto simp: b_def)
  next
    fix m t assume "due (spec_step (2 ^ k) (Cancel n) sp) m = Some t"
    then show "now (spec_step (2 ^ k) (Cancel n) sp) < t" "t \<le> now (spec_step (2 ^ k) (Cancel n) sp) + 2 ^ k"
      using D(8) [of m t] by (auto split: if_splits)
  next
    fix m assume "m \<noteq> end_of_list" "due (spec_step (2 ^ k) (Cancel n) sp) m = None" "m \<notin> stale (spec_step (2 ^ k) (Cancel n) sp)"
    then show "wheel_bucket (nodes (cancel n w) m) = end_of_list"
      using D(9) [of m] unlink_fields [of "nodes w" n, OF C(2,3)] C(1) by (cases "m = n") auto
  qed (use D(1-4) n C(1) in auto)
  then show ?thesis by blast
qed

section \<open>Runs\<close>

lemma now_step: "now (spec_step slots op sp) \<le> Suc (now sp)"
  by (cases op) auto

lemma step_rel:
  assumes "wheel_rel k ls w sp" "legal op sp" "now sp + 2 ^ k < 2 ^ 64"
  shows "\<exists>ls'. wheel_rel k ls' (wheel_step op w) (spec_step (2 ^ k) op sp)"
proof (cases op)
  case (Schedule n d)
  with assms schedule_rel [OF assms(1,3), of n d] show ?thesis by auto
next
  case (Cancel n)
  with assms cancel_rel [OF assms(1), of n] show ?thesis by auto
next
  case Tick
  have "(1::nat) \<le> 2 ^ k" by simp
  with assms(3) have "now sp < 2 ^ 64 - 1" by linarith
  with Tick tick_rel(1) [OF assms(1)] show ?thesis by auto
qed

lemma run_rel:
  assumes "wheel_rel k ls w sp" "legal_run (2 ^ k) ops sp" "now sp + length ops + 2 ^ k < 2 ^ 64"
  shows "\<exists>ls'. wheel_rel k ls' (fold wheel_step ops w) (fold (spec_step (2 ^ k)) ops sp)"
  using assms
proof (induction ops arbitrary: ls w sp)
  case (Cons op ops)
  then obtain ls' where "wheel_rel k ls' (wheel_step op w) (spec_step (2 ^ k) op sp)"
    using step_rel [of k ls w sp op] by auto
  moreover have "now (spec_step (2 ^ k) op sp) + length ops + 2 ^ k < 2 ^ 64"
    using Cons.prems(3) now_step [of "2 ^ k" op sp] by simp
  ultimately show ?case using Cons.IH Cons.prems(2) by simp
qed auto

lemma now_run: "now (fold (spec_step slots) ops sp) \<le> now sp + length ops"
proof (induction ops arbitrary: sp)
  case (Cons op ops)
  have "now (fold (spec_step slots) (op # ops) sp) \<le> now (spec_step slots op sp) + length ops"
    using Cons.IH by simp
  also have "\<dots> \<le> now sp + length (op # ops)" using now_step [of slots op sp] by simp
  finally show ?case .
qed simp

lemma init_rel:
  assumes "k < 32" "\<And>n. wheel_bucket (pool n) = end_of_list"
  shows "wheel_rel k (\<lambda>_. []) (wheel_init (2 ^ k) pool) spec_init"
  using assms by (simp add: wheel_rel_def wheel_init_def spec_init_def)

text \<open>C20: On a wheel of \<open>2 ^ k\<close> slots over fresh nodes, after any sequence of schedule, cancel and tick
  in which no pending timer is scheduled again and no fired timer is cancelled, the next tick
  returns the head of a well-formed doubly linked list without repetitions that holds exactly the
  timers due at that tick: scheduled their delay ago and neither cancelled nor fired since, where a delay of
  the wheel's size or more counts as one tick less than a full turn and a delay of zero as a full turn.\<close>

theorem timers_fire_on_time:
  assumes "k < 32" "\<And>n. wheel_bucket (pool n) = end_of_list"
    and "legal_run (2 ^ k) ops spec_init" "length ops + 2 ^ k < 2 ^ 64 - 1"
  defines "w \<equiv> fold wheel_step ops (wheel_init (2 ^ k) pool)"
    and "sp \<equiv> fold (spec_step (2 ^ k)) ops spec_init"
  shows "\<exists>xs b. dlist (nodes (snd (tick w))) b end_of_list (fst (tick w)) xs \<and> distinct xs \<and>
    set xs = {n. due sp n = Some (Suc (now sp))}"
proof -
  obtain ls where rel: "wheel_rel k ls w sp"
    using run_rel [OF init_rel [of k pool, OF assms(1,2)] assms(3)] assms(4) unfolding w_def sp_def
    by (auto simp: spec_init_def)
  have "now sp < 2 ^ 64 - 1"
    using now_run [of "2 ^ k" ops spec_init] assms(4) by (simp add: sp_def spec_init_def)
  note T = tick_rel [OF rel this]
  show ?thesis
    using T(2-4) wheel_relD(5,6) [OF rel T(5)] by auto
qed

text \<open>Two timers due at the same tick and one cancelled in between.\<close>

theorem timers_fire_on_time_witness:
  "\<exists>xs b. set xs = {7, 8 :: u32} \<and> distinct xs \<and>
     (let ops = [Schedule 7 2, Schedule 9 2, Tick, Schedule 8 1, Cancel 9];
          w = fold wheel_step ops (wheel_init (2 ^ 2) (\<lambda>_. timing_node_init))
      in dlist (nodes (snd (tick w))) b end_of_list (fst (tick w)) xs)"
proof -
  let ?ops = "[Schedule 7 2, Schedule 9 2, Tick, Schedule 8 1, Cancel 9]"
  have due: "{n. due (fold (spec_step (2 ^ 2)) ?ops spec_init) n =
      Some (Suc (now (fold (spec_step (2 ^ 2)) ?ops spec_init)))} = {7, 8 :: u32}"
    by (auto simp: spec_init_def effective_delay_def Let_def split: if_splits)
  have "legal_run (2 ^ 2) ?ops spec_init"
    by (simp add: spec_init_def effective_delay_def Let_def)
  moreover have "wheel_bucket ((\<lambda>_::u32. timing_node_init) n) = end_of_list" for n
    by (simp add: timing_node_init_def)
  ultimately show ?thesis
    using timers_fire_on_time [of 2 "\<lambda>_. timing_node_init" ?ops] unfolding due Let_def by fastforce
qed

section \<open>Cancelling a fired timer\<close>

text \<open>A timer that is not pending keeps its links until it is scheduled again.\<close>

lemma idle_node_kept:
  assumes rel: "wheel_rel k ls w sp" and op: "legal op sp" "now sp + 2 ^ k < 2 ^ 64"
    and n: "due sp n = None" "n \<noteq> end_of_list" "n \<in> stale sp" "\<forall>d. op \<noteq> Schedule n d"
  shows "nodes (wheel_step op w) n = nodes w n"
proof -
  note D = wheel_relD [OF rel]
  have listed: "due sp x \<noteq> None" if "b < 2 ^ k" "x \<in> set (ls b)" for b x using D(7) that by auto
  show ?thesis
  proof (cases op)
    case (Schedule m d)
    define b where "b = (now sp + effective_delay (2 ^ k) d) mod 2 ^ k"
    have idx: "unat (ucast ((current_tick w + ucast (if d \<ge> wheel_slots w then wheel_slots w - 1 else d)) AND slot_mask w) :: u32) = b"
      using schedule_index(1) [OF rel op(2)] by (simp add: b_def)
    have b: "b < 2 ^ k" by (simp add: b_def)
    have "buckets w ! b \<noteq> n" using D(5) [OF b] listed [OF b, of n] n(1,2) by (cases "ls b") auto
    then show ?thesis using Schedule n(4) idx by (auto simp: schedule_def Let_def)
  next
    case (Cancel m)
    then have m: "m \<noteq> n" "m \<noteq> end_of_list" "m \<notin> stale sp" using op(1) n(3) by auto
    show ?thesis
    proof (cases "due sp m")
      case None
      then show ?thesis using D(9) [of m] m Cancel by (simp add: cancel_def Let_def)
    next
      case (Some t)
      have b: "t mod 2 ^ k < 2 ^ k" by simp
      have "m \<in> set (ls (t mod 2 ^ k))" using D(7) [OF b] Some by auto
      then obtain xs ys where ls: "ls (t mod 2 ^ k) = xs @ m # ys" by (auto simp: in_set_conv_decomp)
      note C = cancel_lists [OF rel m(2) b ls]
      have "timer_prev (nodes w m) \<noteq> n" "timer_next (nodes w m) \<noteq> n"
        using dlist_prev [OF D(5) [OF b, unfolded ls]] dlist_next [OF D(5) [OF b, unfolded ls]]
          listed [OF b, of n] n(1,2) ls last_in_set [of xs] by (auto split: list.splits if_splits)
      then show ?thesis using Cancel C(1) unlink_other [of n m "nodes w"] m(1) C(2) by auto
    qed
  qed (simp add: tick_def Let_def)
qed

lemma idle_step:
  "due sp n = None \<Longrightarrow> n \<in> stale sp \<Longrightarrow> \<forall>d. op \<noteq> Schedule n d \<Longrightarrow>
   due (spec_step slots op sp) n = None \<and> n \<in> stale (spec_step slots op sp)"
  by (cases op) auto

lemma idle_run:
  assumes "wheel_rel k ls w sp" "legal_run (2 ^ k) ops sp" "now sp + length ops + 2 ^ k < 2 ^ 64"
    and "due sp n = None" "n \<noteq> end_of_list" "n \<in> stale sp" "\<forall>d. Schedule n d \<notin> set ops"
  shows "nodes (fold wheel_step ops w) n = nodes w n"
  using assms
proof (induction ops arbitrary: ls w sp)
  case (Cons op ops)
  have op: "legal op sp" "now sp + 2 ^ k < 2 ^ 64" "\<forall>d. op \<noteq> Schedule n d" using Cons.prems by auto
  obtain ls' where rel: "wheel_rel k ls' (wheel_step op w) (spec_step (2 ^ k) op sp)"
    using step_rel [OF Cons.prems(1) op(1,2)] by blast
  have "now (spec_step (2 ^ k) op sp) + length ops + 2 ^ k < 2 ^ 64"
    using Cons.prems(3) now_step [of "2 ^ k" op sp] by simp
  then have "nodes (fold wheel_step ops (wheel_step op w)) n = nodes (wheel_step op w) n"
    using Cons.IH [OF rel] Cons.prems(2,5,7) idle_step [OF Cons.prems(4,6) op(3), of "2 ^ k"] by simp
  then show ?case using idle_node_kept [OF Cons.prems(1) op(1,2) Cons.prems(4,5,6) op(3)] by simp
qed simp

text \<open>Ticks alone.\<close>

lemma ticks_spec:
  "now (fold (spec_step slots) (replicate j Tick) sp) = now sp + j \<and>
   (due sp m = Some t \<longrightarrow> now sp + j < t \<longrightarrow> due (fold (spec_step slots) (replicate j Tick) sp) m = Some t)"
  by (induction j arbitrary: sp) auto

lemma legal_ticks: "legal_run slots (replicate j Tick) sp"
  by (induction j arbitrary: sp) auto

lemma empty_bucket_stays:
  assumes "length (buckets w) = 2 ^ k" "k < 32" "unat (current_tick w) + j < 2 ^ 64 - 1"
    "buckets w ! b = end_of_list" "b < 2 ^ k" "(unat (current_tick w) + Suc j) mod 2 ^ k = b"
  shows "fst (tick (fold wheel_step (replicate j Tick) w)) = end_of_list"
  using assms
proof (induction j arbitrary: w)
  case 0
  then show ?case using slot_index(1) [OF 0(1,2), of "current_tick w + 1"] by (simp add: tick_def Let_def unat_word_ariths)
next
  case (Suc j)
  let ?w = "snd (tick w)"
  have "unat (current_tick ?w) = Suc (unat (current_tick w))"
    using Suc.prems(3) by (simp add: tick_def Let_def unat_word_ariths)
  moreover have "length (buckets ?w) = 2 ^ k" "buckets ?w ! b = end_of_list"
    using Suc.prems(1,4,5)
    by (simp_all add: tick_def Let_def) (metis nth_list_update_eq nth_list_update_neq)
  ultimately show ?case using Suc.IH [of ?w] Suc.prems by simp
qed

text \<open>A node that was alone in its bucket has no neighbours, so its cancellation clears the bucket it names.\<close>

lemma cancel_lone:
  assumes "wheel_bucket (nodes w n) = of_nat b" "timer_prev (nodes w n) = end_of_list"
    "timer_next (nodes w n) = end_of_list" "k < 32" "b < 2 ^ k"
  shows "buckets (cancel n w) = (buckets w)[b := end_of_list]" "current_tick (cancel n w) = current_tick w"
  using assms bucket_word [OF assms(4,5)] by (simp_all add: cancel_def Let_def)

lemma due_tick:
  assumes rel: "wheel_rel k ls w sp" and m: "due sp m = Some t" and room: "now sp + 2 * 2 ^ k < 2 ^ 64 - 1"
  shows "\<exists>xs b. dlist (nodes (snd (tick (fold wheel_step (replicate (t - Suc (now sp)) Tick) w)))) b end_of_list
      (fst (tick (fold wheel_step (replicate (t - Suc (now sp)) Tick) w))) xs \<and> m \<in> set xs"
proof -
  let ?j = "t - Suc (now sp)"
  have t: "now sp < t" "t \<le> now sp + 2 ^ k" using wheel_relD(8) [OF rel m] by auto
  obtain ls' where rel': "wheel_rel k ls' (fold wheel_step (replicate ?j Tick) w) (fold (spec_step (2 ^ k)) (replicate ?j Tick) sp)"
    using run_rel [OF rel legal_ticks, of ?j] t room by (fastforce simp del: fold_replicate)
  have sp': "now (fold (spec_step (2 ^ k)) (replicate ?j Tick) sp) = t - 1"
      "due (fold (spec_step (2 ^ k)) (replicate ?j Tick) sp) m = Some t"
    using ticks_spec [of "2 ^ k" ?j sp m t] m t(1) by auto
  have "now (fold (spec_step (2 ^ k)) (replicate ?j Tick) sp) < 2 ^ 64 - 1" using sp'(1) t room by simp
  note T = tick_rel [OF rel' this]
  have "m \<in> set (ls' (Suc (now (fold (spec_step (2 ^ k)) (replicate ?j Tick) sp)) mod 2 ^ k))"
    using T(4) sp' t(1) by simp
  then show ?thesis using T(2,3) wheel_relD(5) [OF rel' T(5)] by metis
qed

text \<open>The timer that fires alone in its bucket: its node still names the bucket, with no neighbour.\<close>

lemma lone_fired:
  assumes rel: "wheel_rel k ls w sp" and now: "now sp < 2 ^ 64 - 1"
    and lone: "{m. due sp m = Some (Suc (now sp))} = {n}"
  shows "wheel_bucket (nodes w n) = of_nat (Suc (now sp) mod 2 ^ k)" "timer_prev (nodes w n) = end_of_list"
    "timer_next (nodes w n) = end_of_list" "n \<noteq> end_of_list"
proof -
  note T = tick_rel [OF rel now] and D = wheel_relD [OF rel]
  have "ls (Suc (now sp) mod 2 ^ k) = [n]"
    using T(4) lone D(6) [OF T(5)] by (cases "ls (Suc (now sp) mod 2 ^ k)") (auto simp: subset_singleton_iff)
  then have "dlist (nodes w) (of_nat (Suc (now sp) mod 2 ^ k)) end_of_list (buckets w ! (Suc (now sp) mod 2 ^ k)) [n]"
    using D(5) [OF T(5)] by simp
  then show "wheel_bucket (nodes w n) = of_nat (Suc (now sp) mod 2 ^ k)" "timer_prev (nodes w n) = end_of_list"
    "timer_next (nodes w n) = end_of_list" "n \<noteq> end_of_list" by simp_all
qed

lemma legal_run_append [simp]:
  "legal_run slots (xs @ ys) sp \<longleftrightarrow> legal_run slots xs sp \<and> legal_run slots ys (fold (spec_step slots) xs sp)"
  by (induction xs arbitrary: sp) auto

lemma two_runs:
  assumes "k < 32" "\<And>n. wheel_bucket (pool n) = end_of_list"
    and "legal_run (2 ^ k) (before @ Tick # after) spec_init" "length (before @ Tick # after) + 2 ^ k < 2 ^ 64"
  shows "\<exists>ls ls'. wheel_rel k ls (fold wheel_step before (wheel_init (2 ^ k) pool)) (fold (spec_step (2 ^ k)) before spec_init) \<and>
    wheel_rel k ls' (fold wheel_step (before @ Tick # after) (wheel_init (2 ^ k) pool))
      (fold (spec_step (2 ^ k)) (before @ Tick # after) spec_init) \<and>
    legal_run (2 ^ k) after (spec_step (2 ^ k) Tick (fold (spec_step (2 ^ k)) before spec_init))"
  using run_rel [OF init_rel [of k pool, OF assms(1,2)], of before]
    run_rel [OF init_rel [of k pool, OF assms(1,2)], of "before @ Tick # after"] assms(3,4)
  by (auto simp: spec_init_def)

text \<open>C31: Cancelling a timer that has already fired loses live timers: \<open>tick\<close> leaves the bucket number in the
  fired node, so a late \<open>cancel\<close> takes the node for the head of that bucket and overwrites it. In
  general: let a timer \<open>n\<close> be the only one due at some tick, let any legal operations follow that do not
  schedule \<open>n\<close> again, and then let \<open>n\<close> be cancelled. Every timer \<open>m\<close> that is pending by then and whose tick
  falls into the same bucket is lost: the tick at which it is due returns the empty list, while without
  the cancellation it returns a list that holds \<open>m\<close>.\<close>

theorem late_cancel_loses_timers:
  fixes before after :: "wheel_op list"
  assumes "k < 32" "\<And>n. wheel_bucket (pool n) = end_of_list"
    and "legal_run (2 ^ k) (before @ Tick # after) spec_init"
    and "length (before @ Tick # after) + 2 * 2 ^ k < 2 ^ 64 - 1"
  defines "sp0 \<equiv> fold (spec_step (2 ^ k)) before spec_init"
    and "sp \<equiv> fold (spec_step (2 ^ k)) (before @ Tick # after) spec_init"
    and "w \<equiv> fold wheel_step (before @ Tick # after) (wheel_init (2 ^ k) pool)"
  assumes "{m. due sp0 m = Some (Suc (now sp0))} = {n}" "\<forall>d. Schedule n d \<notin> set after"
    and "due sp m = Some t" "t mod 2 ^ k = Suc (now sp0) mod 2 ^ k"
  shows "fst (tick (fold wheel_step (replicate (t - Suc (now sp)) Tick) (cancel n w))) = end_of_list \<and>
    (\<exists>xs b. dlist (nodes (snd (tick (fold wheel_step (replicate (t - Suc (now sp)) Tick) w)))) b end_of_list
      (fst (tick (fold wheel_step (replicate (t - Suc (now sp)) Tick) w))) xs \<and> m \<in> set xs)"
proof -
  have "length (before @ Tick # after) + 2 ^ k < 2 ^ 64" using assms(4) by simp
  then obtain ls ls' where rel: "wheel_rel k ls (fold wheel_step before (wheel_init (2 ^ k) pool)) sp0"
      "wheel_rel k ls' w sp"
    and legal: "legal_run (2 ^ k) after (spec_step (2 ^ k) Tick sp0)"
    using two_runs [of k pool, OF assms(1,2,3)] unfolding sp0_def sp_def w_def by blast
  have now: "now sp0 + length after + 2 ^ k < 2 ^ 64 - 1" "now sp + 2 * 2 ^ k < 2 ^ 64 - 1"
    using now_run [of "2 ^ k" before spec_init] now_run [of "2 ^ k" "before @ Tick # after" spec_init] assms(4)
    by (simp_all add: sp0_def sp_def spec_init_def)
  define w0 where "w0 = fold wheel_step before (wheel_init (2 ^ k) pool)"
  have "now sp0 < 2 ^ 64 - 1" using now(1) by simp
  note T = tick_rel [OF rel(1) this] and L = lone_fired [OF rel(1) this assms(8), folded w0_def]
  have "due sp0 n = Some (Suc (now sp0))" using assms(8) by blast
  then have "nodes w n = nodes (snd (tick w0)) n"
    using idle_run [OF T(1) legal, of n] now(1) L(4) assms(9) by (simp add: w_def w0_def)
  then have node: "nodes w n = nodes w0 n" using T(3) by (simp add: w0_def)
  note D = wheel_relD [OF rel(2)]
  note C = cancel_lone [OF L(1-3) [folded node] D(1) T(5)]
  have t: "now sp < t" "t \<le> now sp + 2 ^ k" using D(8) [OF assms(10)] by auto
  have "fst (tick (fold wheel_step (replicate (t - Suc (now sp)) Tick) (cancel n w))) = end_of_list"
  proof (rule empty_bucket_stays [of _ k _ "Suc (now sp0) mod 2 ^ k"])
    show "(unat (current_tick (cancel n w)) + Suc (t - Suc (now sp))) mod 2 ^ k = Suc (now sp0) mod 2 ^ k"
      using C(2) D(3) t assms(11) by simp
    show "unat (current_tick (cancel n w)) + (t - Suc (now sp)) < 2 ^ 64 - 1" using C(2) D(3) t now(2) by simp
  qed (use C(1) D(1,2) T(5) in auto)
  then show ?thesis using due_tick [OF rel(2) assms(10) now(2)] by blast
qed

text \<open>Timer 7 fires, timer 8 is scheduled into the same bucket, timer 7 is cancelled: timer 8 is lost.\<close>

theorem late_cancel_loses_timers_witness:
  "let w = fold wheel_step [Schedule 7 1, Tick, Tick, Schedule 8 3] (wheel_init (2 ^ 2) (\<lambda>_. timing_node_init))
   in fst (tick (fold wheel_step [Tick, Tick] (cancel 7 w))) = end_of_list \<and>
     (\<exists>xs b. dlist (nodes (snd (tick (fold wheel_step [Tick, Tick] w)))) b end_of_list
        (fst (tick (fold wheel_step [Tick, Tick] w))) xs \<and> 8 \<in> set xs)"
proof -
  let ?before = "[Schedule 7 1]" and ?after = "[Tick, Schedule 8 3]"
  let ?first = "fold (spec_step (2 ^ 2)) ?before spec_init"
  let ?sp = "fold (spec_step (2 ^ 2)) (?before @ Tick # ?after) spec_init"
  let ?w = "fold wheel_step (?before @ Tick # ?after) (wheel_init (2 ^ 2) (\<lambda>_. timing_node_init))"
  have legal: "legal_run (2 ^ 2) (?before @ Tick # ?after) spec_init"
    by (simp add: spec_init_def effective_delay_def Let_def)
  have lone: "{m. due ?first m = Some (Suc (now ?first))} = {7}"
    by (auto simp: spec_init_def effective_delay_def Let_def)
  have due: "due ?sp 8 = Some 5" "5 mod 2 ^ 2 = Suc (now ?first) mod 2 ^ 2"
    by (simp_all add: spec_init_def effective_delay_def Let_def)
  have L: "fst (tick (fold wheel_step (replicate (5 - Suc (now ?sp)) Tick) (cancel 7 ?w))) = end_of_list \<and>
    (\<exists>xs b. dlist (nodes (snd (tick (fold wheel_step (replicate (5 - Suc (now ?sp)) Tick) ?w)))) b end_of_list
      (fst (tick (fold wheel_step (replicate (5 - Suc (now ?sp)) Tick) ?w))) xs \<and> 8 \<in> set xs)"
    by (rule late_cancel_loses_timers [OF _ _ legal _ lone _ due]) (simp_all add: timing_node_init_def)
  have "[Tick, Tick] = replicate (5 - Suc (now ?sp)) Tick" by (simp add: spec_init_def numeral_eq_Suc)
  moreover have "[Schedule 7 1, Tick, Tick, Schedule 8 3] = ?before @ Tick # ?after" by simp
  ultimately show ?thesis using L by (simp only: Let_def)
qed

end
