(* ===== verification/Http_Gateway.thy ===== *)
theory Http_Gateway
  imports Http_Parser Pinned_Slab Spsc_Ring Decimal "HOL-Library.Multiset"
begin

text \<open>
  \<open>http_gateway\<close> of \<open>include/conduit/pending/transport/http_gateway.hpp\<close>: a thread that accepts
  connections, reads one packet of each into a buffer on its stack, takes an event from the memory
  pool, parses the packet into it and pushes it into the conduit to the core. The template's
  parameters are the pinned slab (\<open>allocate\<close> without arguments, \<open>deallocate\<close>) and the ring of raw
  pointers of \<open>core/networked_conduit.hpp\<close>. What the kernel answers to \<open>socket\<close>, \<open>bind\<close>, \<open>listen\<close>,
  \<open>accept\<close> and \<open>recv\<close> is input; what is sent and closed is logged.
\<close>

section \<open>The gateway\<close>

record http_gateway =
  gw_port :: u16
  server_fd :: int
  gw_running :: bool
  core_conduit :: "nat spsc_ring"
  memory_pool :: "http_request_event pinned"
  read_buffer :: string
  gw_sent :: "(int \<times> string) list"
  gw_closed :: "int list"

definition gateway_init :: "u16 \<Rightarrow> nat spsc_ring \<Rightarrow> http_request_event pinned \<Rightarrow> string \<Rightarrow> http_gateway" where
  "gateway_init port conduit pool garbage =
     \<lparr>gw_port = port, server_fd = -1, gw_running = False, core_conduit = conduit, memory_pool = pool,
      read_buffer = garbage, gw_sent = [], gw_closed = []\<rparr>"

text \<open>\<open>start\<close> throws when one of the calls fails; \<open>server_fd\<close> keeps what \<open>socket\<close> returned.\<close>

definition gateway_start :: "int \<Rightarrow> int \<Rightarrow> int \<Rightarrow> http_gateway \<Rightarrow> string option \<times> http_gateway" where
  "gateway_start socket_result bind_result listen_result g =
     (let g1 = g\<lparr>server_fd := socket_result\<rparr>
      in if socket_result < 0 then (Some ''CONDUIT: Failed to create socket'', g1)
         else if bind_result < 0 then (Some (''CONDUIT: Bind failed on port '' @ to_string (unat (gw_port g))), g1)
         else if listen_result < 0 then (Some ''CONDUIT: Listen failed'', g1)
         else (None, g1\<lparr>gw_running := True\<rparr>))"

definition gateway_stop :: "http_gateway \<Rightarrow> http_gateway" where
  "gateway_stop g =
     (let g1 = g\<lparr>gw_running := False\<rparr>
      in if server_fd g1 \<ge> 0 then g1\<lparr>gw_closed := gw_closed g1 @ [server_fd g1]\<rparr> else g1)"

definition gateway_dtor :: "http_gateway \<Rightarrow> http_gateway" where
  "gateway_dtor g = gateway_stop g"

definition close_client :: "int \<Rightarrow> http_gateway \<Rightarrow> http_gateway" where
  "close_client fd g = g\<lparr>gw_closed := gw_closed g @ [fd]\<rparr>"

definition send_503 :: "int \<Rightarrow> http_gateway \<Rightarrow> http_gateway" where
  "send_503 fd g =
     close_client fd (g\<lparr>gw_sent := gw_sent g @ [(fd, ''HTTP/1.1 503 Service Unavailable'' @ [CR, LF, CR, LF])]\<rparr>)"

definition send_400 :: "int \<Rightarrow> http_gateway \<Rightarrow> http_gateway" where
  "send_400 fd g =
     close_client fd (g\<lparr>gw_sent := gw_sent g @ [(fd, ''HTTP/1.1 400 Bad Request'' @ [CR, LF, CR, LF])]\<rparr>)"

text \<open>A store through the pointer to an allocated block.\<close>

definition write_block :: "nat \<Rightarrow> 'a \<Rightarrow> 'a pinned \<Rightarrow> 'a pinned" where
  "write_block x v s = s\<lparr>blocks := (blocks s)[x := Object v]\<rparr>"

definition release_block :: "bool list \<Rightarrow> nat \<Rightarrow> http_gateway \<Rightarrow> http_gateway outcome" where
  "release_block ws x g =
     map_outcome_result (\<lambda>pool. g\<lparr>memory_pool := pool\<rparr>) (pinned_deallocate ws (Some x) (memory_pool g))"

text \<open>The bytes of a packet replace the front of the buffer; what was behind them stays.\<close>

definition fill_buffer :: "string \<Rightarrow> http_gateway \<Rightarrow> http_gateway" where
  "fill_buffer bytes g = g\<lparr>read_buffer := bytes @ drop (length bytes) (read_buffer g)\<rparr>"

text \<open>One connection with the packet that was read; \<open>None\<close> is a failed \<open>recv\<close>.\<close>

definition serve_client :: "bool list \<Rightarrow> int \<Rightarrow> string option \<Rightarrow> http_gateway \<Rightarrow> http_gateway outcome" where
  "serve_client ws client_fd received g =
     (case received of
        None \<Rightarrow> Done (close_client client_fd g)
      | Some [] \<Rightarrow> Done (close_client client_fd g)
      | Some bytes \<Rightarrow>
          let g1 = fill_buffer bytes g
          in bind_outcome (pinned_allocate connection_id ws (http_request_init 0) (memory_pool g1))
            (\<lambda>(ev, pool). let g2 = g1\<lparr>memory_pool := pool\<rparr> in case ev of
               None \<Rightarrow> Done (send_503 client_fd g2)
             | Some x \<Rightarrow>
                 bind_outcome (parse (take (length bytes) (read_buffer g2)) ((http_request_init 0)\<lparr>connection_id := word_of_int client_fd\<rparr>))
                   (\<lambda>(ok, parsed). let g3 = g2\<lparr>memory_pool := write_block x parsed (memory_pool g2)\<rparr>
                      in if ok then
                           let (pushed, ring) = rb_push (Some x) (core_conduit g3); g4 = g3\<lparr>core_conduit := ring\<rparr>
                           in if pushed then Done g4
                              else map_outcome_result (send_503 client_fd) (release_block ws x g4)
                         else map_outcome_result (send_400 client_fd) (release_block ws x g3))))"

text \<open>The loop: \<open>stopped\<close> says whether \<open>stop\<close> was called before the next check of the flag.\<close>

fun accept_loop ::
  "bool list \<Rightarrow> (bool \<times> int \<times> string option) list \<Rightarrow> http_gateway \<Rightarrow> http_gateway outcome" where
  "accept_loop ws [] g = Pending"
| "accept_loop ws ((stopped, client_fd, received) # rest) g =
     (let g1 = (if stopped then gateway_stop g else g)
      in if \<not> gw_running g1 then Done g1
         else if client_fd < 0 then accept_loop ws rest g1
         else bind_outcome (serve_client ws client_fd received g1) (accept_loop ws rest))"


section \<open>The gateway and the core\<close>

text \<open>The core takes events from the conduit, and at some time is done with one of them and gives it back.
  \<open>gs_done\<close> are the connections it is done with.\<close>

datatype gw_op = Client int "string option" | Core_Pop | Core_Done nat

record gw_sys =
  gs_gateway :: http_gateway
  gs_taken :: "nat list"
  gs_done :: "u32 list"

definition gw_conn :: "http_gateway \<Rightarrow> nat \<Rightarrow> u32" where
  "gw_conn g x = (case pinned_object (memory_pool g) x of Some ev \<Rightarrow> connection_id ev | None \<Rightarrow> 0)"

fun gw_step :: "bool list \<Rightarrow> gw_op \<Rightarrow> gw_sys \<Rightarrow> gw_sys outcome" where
  "gw_step ws (Client fd rx) s =
     (if fd < 0 then Done s
      else map_outcome_result (\<lambda>g. s\<lparr>gs_gateway := g\<rparr>) (serve_client ws fd rx (gs_gateway s)))"
| "gw_step ws Core_Pop s =
     (let (x, ring) = rb_pop (core_conduit (gs_gateway s))
      in Done (s\<lparr>gs_gateway := (gs_gateway s)\<lparr>core_conduit := ring\<rparr>,
                 gs_taken := gs_taken s @ (case x of None \<Rightarrow> [] | Some i \<Rightarrow> [i])\<rparr>))"
| "gw_step ws (Core_Done j) s =
     (if j < length (gs_taken s) then
        map_outcome_result
          (\<lambda>g. s\<lparr>gs_gateway := g, gs_taken := take j (gs_taken s) @ drop (Suc j) (gs_taken s),
                 gs_done := gs_done s @ [gw_conn (gs_gateway s) (gs_taken s ! j)]\<rparr>)
          (release_block ws (gs_taken s ! j) (gs_gateway s))
      else Done s)"

fun gw_run :: "bool list \<Rightarrow> gw_op list \<Rightarrow> gw_sys \<Rightarrow> gw_sys outcome" where
  "gw_run ws [] s = Done s"
| "gw_run ws (op # ops) s = bind_outcome (gw_step ws op s) (gw_run ws ops)"

text \<open>The events that are queued or with the core, and the connections the clients opened.\<close>

definition gw_held :: "gw_sys \<Rightarrow> nat list" where
  "gw_held s = rb_items (core_conduit (gs_gateway s)) @ gs_taken s"

fun opened :: "gw_op list \<Rightarrow> int list" where
  "opened [] = []"
| "opened (Client fd rx # ops) = (if fd < 0 then [] else [fd]) @ opened ops"
| "opened (_ # ops) = opened ops"

text \<open>Where the connections are: closed by the gateway, in an event, or done with by the core.\<close>

definition gw_ledger :: "gw_sys \<Rightarrow> u32 multiset" where
  "gw_ledger s = mset (map word_of_int (gw_closed (gs_gateway s))) +
     mset (map (gw_conn (gs_gateway s)) (gw_held s)) + mset (gs_done s)"

definition gw_inv :: "nat \<Rightarrow> nat \<Rightarrow> gw_sys \<Rightarrow> bool" where
  "gw_inv k n s \<longleftrightarrow> rb_inv k (core_conduit (gs_gateway s)) \<and> length (blocks (memory_pool (gs_gateway s))) = n \<and>
     ps.consistent connection_id (gw_held s) (memory_pool (gs_gateway s))"

definition gw_start :: "u16 \<Rightarrow> nat \<Rightarrow> http_request_event pinned \<Rightarrow> string \<Rightarrow> gw_sys" where
  "gw_start port k pool garbage =
     \<lparr>gs_gateway = gateway_init port (rb_init (2 ^ k)) pool garbage, gs_taken = [], gs_done = []\<rparr>"

section \<open>Lemmas\<close>

lemma http_step_connection:
  "http_step raw i p = Done (Return r ev) \<Longrightarrow> connection_id ev = connection_id (out_event p)"
  "http_step raw i p = Done (Continue j q) \<Longrightarrow> connection_id (out_event q) = connection_id (out_event p)"
  by (cases "current_state p"; auto simp: http_step_def step_defs set_header_key_def set_header_value_def Let_def
      bind_outcome_Done split: if_splits)+

lemma parse_loop_connection:
  "parse_loop raw i p = Done (r, ev) \<Longrightarrow> connection_id ev = connection_id (out_event p)"
proof (induction raw i p rule: parse_loop.induct)
  case (1 raw i p)
  note loop = 1(2) [unfolded parse_loop.simps [of raw i p]]
  show ?case
  proof (cases "i < length raw")
    case True
    with loop consider (ret) "http_step raw i p = Done (Return r ev)"
      | (cont) j q where "http_step raw i p = Done (Continue j q)" "parse_loop raw j q = Done (r, ev)"
      by (auto split: outcome.splits http_step.splits)
    then show ?thesis
    proof cases
      case ret
      then show ?thesis by (rule http_step_connection(1))
    next
      case cont
      from 1(1) [OF True cont(1) refl cont(2)] http_step_connection(2) [OF cont(1)] show ?thesis by simp
    qed
  next
    case False
    with loop show ?thesis by (auto split: if_splits)
  qed
qed

lemma parse_connection: "parse raw ev = Done (r, ev') \<Longrightarrow> connection_id ev' = connection_id ev"
  using parse_loop_connection by (fastforce simp: parse_def)

lemma consistent_permute:
  "ps.consistent bits hs s \<Longrightarrow> mset hs = mset hs' \<Longrightarrow> ps.consistent bits hs' s"
  by (metis ps.consistent_def mset_eq_imp_distinct_iff mset_eq_setD)


lemma write_block_inv:
  assumes inv: "pinned_inv bits s" and x: "x < length (blocks s)" "x \<notin> set (pinned_free_cells bits s)"
  shows "pinned_inv bits (write_block x v s) \<and> pinned_free_cells bits (write_block x v s) = pinned_free_cells bits s"
    and "pinned_object (write_block x v s) = (pinned_object s)(x \<mapsto> v)"
proof -
  have nxt: "pinned_next bits (write_block x v s) = (pinned_next bits s)(x := bits v)"
    using x(1) by (auto simp: write_block_def pinned_next_def fun_eq_iff)
  show obj: "pinned_object (write_block x v s) = (pinned_object s)(x \<mapsto> v)"
    using x(1) by (auto simp: write_block_def pinned_object_def fun_eq_iff)
  have len: "length (blocks (write_block x v s)) = length (blocks s)" "head_index (write_block x v s) = head_index s"
      "free_count (write_block x v s) = free_count s"
    by (simp_all add: write_block_def)
  show "pinned_inv bits (write_block x v s) \<and> pinned_free_cells bits (write_block x v s) = pinned_free_cells bits s"
  proof (rule pinned_invI)
    fix i assume "i < length (blocks (write_block x v s))"
    then show "i \<in> set (pinned_free_cells bits s) \<longleftrightarrow> pinned_object (write_block x v s) i = None"
      using pinned_invD(4) [OF inv, of i] x len(1) by (auto simp: obj)
  qed (use pinned_invD [OF inv] x len nxt in simp_all)
qed

text \<open>What a client that is turned away leaves of the pool.\<close>

definition same_pool :: "('a \<Rightarrow> u32) \<Rightarrow> 'a pinned \<Rightarrow> 'a pinned \<Rightarrow> bool" where
  "same_pool bits s s' \<longleftrightarrow> pinned_inv bits s' \<and> pinned_free_cells bits s' = pinned_free_cells bits s \<and>
     pinned_object s' = pinned_object s \<and> length (blocks s') = length (blocks s)"

lemma alloc_write:
  assumes "pinned_inv bits s" "pinned_free_cells bits s = x # xs" "False \<in> set ws"
  shows "\<exists>s1. pinned_allocate bits ws v s = Done (Some x, s1) \<and>
    pinned_inv bits (write_block x v' s1) \<and> pinned_free_cells bits (write_block x v' s1) = xs \<and>
    pinned_object (write_block x v' s1) = (pinned_object s)(x \<mapsto> v') \<and>
    length (blocks (write_block x v' s1)) = length (blocks s)"
proof -
  obtain s1 where s1: "pinned_allocate bits ws v s = Done (Some x, s1)" "pinned_inv bits s1"
      "pinned_free_cells bits s1 = xs" "length (blocks s1) = length (blocks s)" "pinned_object s1 = (pinned_object s)(x \<mapsto> v)"
    using ps.alloc_some [OF assms] by blast
  have "x < length (blocks s1)" "x \<notin> set (pinned_free_cells bits s1)"
    using ps.free_bounded [OF assms(1)] ps.free_distinct [OF assms(1)] assms(2) s1(3,4) by auto
  with s1 write_block_inv [OF s1(2), of x v'] show ?thesis
    by (intro exI [of _ s1]) (simp add: write_block_def)
qed

lemma dealloc_same:
  assumes "pinned_inv bits s" "pinned_free_cells bits s = x # xs" "False \<in> set ws"
    and s2: "pinned_inv bits s2" "pinned_free_cells bits s2 = xs" "pinned_object s2 = (pinned_object s)(x \<mapsto> v)"
      "length (blocks s2) = length (blocks s)"
  shows "\<exists>s3. pinned_deallocate ws (Some x) s2 = Done s3 \<and> same_pool bits s s3"
proof -
  have x: "x < length (blocks s2)" "x \<notin> set (pinned_free_cells bits s2)" "pinned_object s x = None"
    using ps.free_bounded [OF assms(1)] ps.free_distinct [OF assms(1)] ps.object_dom [OF assms(1)] assms(2) s2(2,4) by auto
  then have "(pinned_object s)(x := None) = pinned_object s" by auto
  with ps.dealloc_some [OF s2(1) x(1,2) assms(3)] s2 assms(2) show ?thesis
    by (auto simp: same_pool_def)
qed


section \<open>What becomes of a connection\<close>

text \<open>The event of a packet, and whether the gateway queues it.\<close>

definition parsed_event :: "int \<Rightarrow> string \<Rightarrow> http_request_event" where
  "parsed_event fd bytes = (case parse bytes (http_request_init (word_of_int fd)) of Done (ok, ev) \<Rightarrow> ev)"

definition well_formed :: "int \<Rightarrow> string \<Rightarrow> bool" where
  "well_formed fd bytes \<longleftrightarrow> (case parse bytes (http_request_init (word_of_int fd)) of Done (ok, ev) \<Rightarrow> ok)"

lemma parse_packet: "parse bytes (http_request_init (word_of_int fd)) = Done (well_formed fd bytes, parsed_event fd bytes)"
  using parse_total [of bytes "word_of_int fd"] by (auto simp: well_formed_def parsed_event_def)

definition queue_full :: "http_gateway \<Rightarrow> bool" where
  "queue_full g \<longleftrightarrow> length (rb_items (core_conduit g)) = rb_room (core_conduit g)"

abbreviation gw_free :: "http_gateway \<Rightarrow> nat list" where
  "gw_free g \<equiv> pinned_free_cells connection_id (memory_pool g)"

definition will_queue :: "int \<Rightarrow> string \<Rightarrow> http_gateway \<Rightarrow> bool" where
  "will_queue fd bytes g \<longleftrightarrow> gw_free g \<noteq> [] \<and> well_formed fd bytes \<and> \<not> queue_full g"

lemma request_init_connection: "(http_request_init 0)\<lparr>connection_id := c\<rparr> = http_request_init c"
  by (simp add: http_request_init_def)

lemma take_fill: "take (length bytes) (read_buffer (fill_buffer bytes g)) = bytes"
  by (simp add: fill_buffer_def)

lemma fill_buffer_simps [simp]:
  "memory_pool (fill_buffer b g) = memory_pool g" "core_conduit (fill_buffer b g) = core_conduit g"
  "gw_closed (fill_buffer b g) = gw_closed g" "gw_sent (fill_buffer b g) = gw_sent g"
  by (simp_all add: fill_buffer_def)

lemma rb_push_cases:
  assumes "rb_inv k r"
  shows "length (rb_items r) = rb_room r \<Longrightarrow> rb_push (Some x) r = (False, r)"
    and "length (rb_items r) \<noteq> rb_room r \<Longrightarrow> \<exists>r'. rb_push (Some x) r = (True, r') \<and> rb_inv k r' \<and> rb_items r' = rb_items r @ [x]"
  using rq.push_full [OF assms, of x] rq.push_room [OF assms, of x] rq.bounded [OF assms] rq.invar_push [OF assms, of x]
  by (cases "rb_push (Some x) r"; force simp: rb_push_item_def)+

text \<open>A client that is queued.\<close>

lemma serve_queued:
  assumes "pinned_inv connection_id (memory_pool g)" "rb_inv k (core_conduit g)" "False \<in> set ws" "bytes \<noteq> []"
    and q: "will_queue fd bytes g"
  shows "\<exists>pool ring. serve_client ws fd (Some bytes) g = Done ((fill_buffer bytes g)\<lparr>memory_pool := pool, core_conduit := ring\<rparr>) \<and>
    pinned_inv connection_id pool \<and> pinned_free_cells connection_id pool = tl (gw_free g) \<and>
    pinned_object pool = (pinned_object (memory_pool g))(hd (gw_free g) \<mapsto> parsed_event fd bytes) \<and>
    length (blocks pool) = length (blocks (memory_pool g)) \<and>
    rb_inv k ring \<and> rb_items ring = rb_items (core_conduit g) @ [hd (gw_free g)]"
proof -
  obtain x xs where free: "gw_free g = x # xs" using q by (cases "gw_free g") (auto simp: will_queue_def)
  obtain s1 where s1: "pinned_allocate connection_id ws (http_request_init 0) (memory_pool g) = Done (Some x, s1)"
      "pinned_inv connection_id (write_block x (parsed_event fd bytes) s1)"
      "pinned_free_cells connection_id (write_block x (parsed_event fd bytes) s1) = xs"
      "pinned_object (write_block x (parsed_event fd bytes) s1) = (pinned_object (memory_pool g))(x \<mapsto> parsed_event fd bytes)"
      "length (blocks (write_block x (parsed_event fd bytes) s1)) = length (blocks (memory_pool g))"
    using alloc_write [OF assms(1) free assms(3)] by blast
  obtain ring where ring: "rb_push (Some x) (core_conduit g) = (True, ring)" "rb_inv k ring"
      "rb_items ring = rb_items (core_conduit g) @ [x]"
    using rb_push_cases(2) [OF assms(2)] q by (auto simp: will_queue_def queue_full_def)
  have "parse bytes (http_request_init (word_of_int fd)) = Done (True, parsed_event fd bytes)"
    using q parse_packet [of bytes fd] by (simp add: will_queue_def)
  then have "serve_client ws fd (Some bytes) g =
      Done ((fill_buffer bytes g)\<lparr>memory_pool := write_block x (parsed_event fd bytes) s1, core_conduit := ring\<rparr>)"
    using s1(1) ring(1) assms(4)
    by (cases bytes) (simp_all add: serve_client_def Let_def take_fill request_init_connection fill_buffer_def)
  with s1 ring free show ?thesis by auto
qed


text \<open>A client that is turned away: the pool is as before.\<close>

lemma serve_refused:
  assumes inv: "pinned_inv connection_id (memory_pool g)" "rb_inv k (core_conduit g)" "False \<in> set ws" "bytes \<noteq> []"
    and q: "\<not> will_queue fd bytes g"
  shows "\<exists>pool. serve_client ws fd (Some bytes) g =
      Done ((if gw_free g \<noteq> [] \<and> \<not> well_formed fd bytes then send_400 else send_503) fd ((fill_buffer bytes g)\<lparr>memory_pool := pool\<rparr>)) \<and>
    same_pool connection_id (memory_pool g) pool"
proof (cases "gw_free g")
  case Nil
  from inv(3) have "ws \<noteq> []" by auto
  then have "pinned_allocate connection_id ws (http_request_init 0) (memory_pool g) = Done (None, memory_pool g)"
    using ps.alloc_none [OF inv(1) Nil] by blast
  then have "serve_client ws fd (Some bytes) g = Done (send_503 fd ((fill_buffer bytes g)\<lparr>memory_pool := memory_pool g\<rparr>))"
    using inv(4) by (cases bytes) (simp_all add: serve_client_def Let_def)
  with Nil inv(1) show ?thesis by (auto simp: same_pool_def)
next
  case (Cons x xs)
  define ev where "ev = parsed_event fd bytes"
  obtain s1 where s1: "pinned_allocate connection_id ws (http_request_init 0) (memory_pool g) = Done (Some x, s1)"
      "pinned_inv connection_id (write_block x ev s1)" "pinned_free_cells connection_id (write_block x ev s1) = xs"
      "pinned_object (write_block x ev s1) = (pinned_object (memory_pool g))(x \<mapsto> ev)"
      "length (blocks (write_block x ev s1)) = length (blocks (memory_pool g))"
    using alloc_write [OF inv(1) Cons inv(3)] by blast
  obtain s3 where s3: "pinned_deallocate ws (Some x) (write_block x ev s1) = Done s3" "same_pool connection_id (memory_pool g) s3"
    using dealloc_same [OF inv(1) Cons inv(3) s1(2-5)] by blast
  have parse: "parse bytes (http_request_init (word_of_int fd)) = Done (well_formed fd bytes, ev)"
    by (simp add: parse_packet ev_def)
  have "rb_push (Some x) (core_conduit g) = (False, core_conduit g)" if "well_formed fd bytes"
    using rb_push_cases(1) [OF inv(2)] q that Cons by (auto simp: will_queue_def queue_full_def)
  then have "serve_client ws fd (Some bytes) g =
      Done ((if \<not> well_formed fd bytes then send_400 else send_503) fd ((fill_buffer bytes g)\<lparr>memory_pool := s3\<rparr>))"
    using s1(1) s3(1) parse inv(4)
    by (cases bytes) (auto simp: serve_client_def Let_def take_fill request_init_connection release_block_def fill_buffer_def)
  with Cons s3(2) show ?thesis by auto
qed

section \<open>Nothing is lost\<close>

lemma gw_inv_parts:
  assumes "gw_inv k n s"
  shows "rb_inv k (core_conduit (gs_gateway s))" "pinned_inv connection_id (memory_pool (gs_gateway s))"
    and "distinct (gw_held s)"
    and "set (gw_held s) = {..<length (blocks (memory_pool (gs_gateway s)))} - set (gw_free (gs_gateway s))"
    and "length (blocks (memory_pool (gs_gateway s))) = n"
  using assms by (simp_all add: gw_inv_def ps.consistent_def)

lemma gw_connI: "pinned_object (memory_pool g') x = pinned_object (memory_pool g) x \<Longrightarrow> gw_conn g' x = gw_conn g x"
  by (simp add: gw_conn_def)

lemma map_gw_conn:
  "(\<And>x. x \<in> set xs \<Longrightarrow> pinned_object (memory_pool g') x = pinned_object (memory_pool g) x) \<Longrightarrow>
   map (gw_conn g') xs = map (gw_conn g) xs"
  by (rule map_cong [OF refl gw_connI])

text \<open>Closing the connection of a client that was turned away.\<close>

lemma turned_away_step:
  assumes "gw_inv k n s" "same_pool connection_id (memory_pool (gs_gateway s)) (memory_pool g')"
    and "core_conduit g' = core_conduit (gs_gateway s)" "gw_closed g' = gw_closed (gs_gateway s) @ [fd]"
  shows "gw_inv k n (s\<lparr>gs_gateway := g'\<rparr>) \<and> gw_ledger (s\<lparr>gs_gateway := g'\<rparr>) = add_mset (word_of_int fd) (gw_ledger s)"
proof -
  have held: "gw_held (s\<lparr>gs_gateway := g'\<rparr>) = gw_held s" by (simp add: gw_held_def assms(3))
  have "map (gw_conn g') (gw_held s) = map (gw_conn (gs_gateway s)) (gw_held s)"
    using assms(2) by (intro map_gw_conn) (simp add: same_pool_def)
  then have "gw_ledger (s\<lparr>gs_gateway := g'\<rparr>) = add_mset (word_of_int fd) (gw_ledger s)"
    by (simp add: gw_ledger_def held assms(4) del: map_eq_conv mset_map)
  moreover have "gw_inv k n (s\<lparr>gs_gateway := g'\<rparr>)"
    using assms(1-3) held by (simp add: gw_inv_def ps.consistent_def same_pool_def)
  ultimately show ?thesis by simp
qed


lemma queued_step:
  assumes inv: "gw_inv k n s" and free: "gw_free (gs_gateway s) = x # xs"
    and pool: "pinned_inv connection_id (memory_pool g')" "gw_free g' = xs"
      "pinned_object (memory_pool g') = (pinned_object (memory_pool (gs_gateway s)))(x \<mapsto> ev)"
      "length (blocks (memory_pool g')) = length (blocks (memory_pool (gs_gateway s)))"
    and ring: "rb_inv k (core_conduit g')" "rb_items (core_conduit g') = rb_items (core_conduit (gs_gateway s)) @ [x]"
    and closed: "gw_closed g' = gw_closed (gs_gateway s)"
  shows "gw_inv k n (s\<lparr>gs_gateway := g'\<rparr>) \<and> gw_ledger (s\<lparr>gs_gateway := g'\<rparr>) = add_mset (connection_id ev) (gw_ledger s)"
proof -
  note P = gw_inv_parts [OF inv]
  let ?s = "s\<lparr>gs_gateway := g'\<rparr>"
  have held: "mset (gw_held ?s) = add_mset x (mset (gw_held s))" by (simp add: gw_held_def ring(2))
  have x: "x \<notin> set (gw_held s)" "x < length (blocks (memory_pool (gs_gateway s)))"
    using P(4) free ps.free_bounded [OF P(2)] by auto
  have other: "map (gw_conn g') (gw_held s) = map (gw_conn (gs_gateway s)) (gw_held s)"
    using x(1) pool(3) by (intro map_gw_conn) auto
  have "gw_conn g' x = connection_id ev" by (simp add: gw_conn_def pool(3))
  moreover have "mset (map (gw_conn g') (gw_held ?s)) = add_mset (gw_conn g' x) (mset (map (gw_conn g') (gw_held s)))"
    by (simp add: held)
  ultimately have "gw_ledger ?s = add_mset (connection_id ev) (gw_ledger s)"
    by (simp add: gw_ledger_def closed other del: map_eq_conv mset_map)
  moreover have "distinct (x # gw_held s)" using x(1) P(3) by simp
  moreover have "set (x # gw_held s) = {..<length (blocks (memory_pool g'))} - set (gw_free g')"
    using P(4) free ps.free_distinct [OF P(2)] x(2) pool(2,4) by auto
  ultimately have "ps.consistent connection_id (x # gw_held s) (memory_pool g')" "gw_ledger ?s = add_mset (connection_id ev) (gw_ledger s)"
    using pool(1) by (simp_all add: ps.consistent_def)
  with consistent_permute [of connection_id "x # gw_held s" "memory_pool g'" "gw_held ?s"] held ring(1) P(5) pool(4) show ?thesis
    by (simp add: gw_inv_def)
qed

lemma serve_client_step:
  assumes inv: "gw_inv k n s" and ws: "False \<in> set ws"
  shows "\<exists>g'. serve_client ws fd rx (gs_gateway s) = Done g' \<and> gw_inv k n (s\<lparr>gs_gateway := g'\<rparr>) \<and>
    gw_ledger (s\<lparr>gs_gateway := g'\<rparr>) = add_mset (word_of_int fd) (gw_ledger s)"
proof (cases "rx = None \<or> rx = Some []")
  case True
  then have "serve_client ws fd rx (gs_gateway s) = Done (close_client fd (gs_gateway s))"
    by (auto simp: serve_client_def)
  moreover have "same_pool connection_id (memory_pool (gs_gateway s)) (memory_pool (close_client fd (gs_gateway s)))"
    using gw_inv_parts(2) [OF inv] by (simp add: same_pool_def close_client_def)
  ultimately show ?thesis using turned_away_step [OF inv, of "close_client fd (gs_gateway s)" fd] by (simp add: close_client_def)
next
  case False
  then obtain bytes where rx: "rx = Some bytes" "bytes \<noteq> []" by auto
  note P = gw_inv_parts [OF inv]
  show ?thesis
  proof (cases "will_queue fd bytes (gs_gateway s)")
    case True
    then obtain x xs where free: "gw_free (gs_gateway s) = x # xs"
      by (cases "gw_free (gs_gateway s)") (auto simp: will_queue_def)
    have "connection_id (parsed_event fd bytes) = word_of_int fd"
      using parse_connection [OF parse_packet] by (simp add: http_request_init_def)
    with serve_queued [OF P(2,1) ws rx(2) True] show ?thesis
      using queued_step [OF inv free] rx(1) free by fastforce
  next
    case False
    from serve_refused [OF P(2,1) ws rx(2) False] show ?thesis
      using turned_away_step [OF inv, of _ fd] rx(1) by (auto simp: send_400_def send_503_def close_client_def)
  qed
qed


lemma core_pop_step:
  assumes inv: "gw_inv k n s"
  shows "\<exists>s'. gw_step ws Core_Pop s = Done s' \<and> gw_inv k n s' \<and> gw_ledger s' = gw_ledger s"
proof -
  note P = gw_inv_parts [OF inv]
  let ?r = "core_conduit (gs_gateway s)"
  obtain x ring where pop: "rb_pop ?r = (x, ring)" by (cases "rb_pop ?r")
  define s' where "s' = s\<lparr>gs_gateway := (gs_gateway s)\<lparr>core_conduit := ring\<rparr>,
    gs_taken := gs_taken s @ (case x of None \<Rightarrow> [] | Some i \<Rightarrow> [i])\<rparr>"
  have "rb_inv k ring" using rq.invar_pop [OF P(1)] pop by simp
  moreover have "mset (gw_held s') = mset (gw_held s)"
    using rq.pop_refines [OF P(1)] pop by (cases "rb_items ?r") (auto simp: gw_held_def s'_def spec_pop_def)
  moreover have "gw_conn (gs_gateway s') = gw_conn (gs_gateway s)"
    by (simp add: fun_eq_iff gw_conn_def s'_def)
  ultimately have "gw_inv k n s'" "gw_ledger s' = gw_ledger s"
    using inv consistent_permute [of connection_id "gw_held s" "memory_pool (gs_gateway s)" "gw_held s'"]
    by (simp_all add: gw_inv_def gw_ledger_def) (simp_all add: s'_def)
  then show ?thesis by (simp add: pop s'_def)
qed

lemma core_done_step:
  assumes inv: "gw_inv k n s" and ws: "False \<in> set ws"
  shows "\<exists>s'. gw_step ws (Core_Done j) s = Done s' \<and> gw_inv k n s' \<and> gw_ledger s' = gw_ledger s"
proof (cases "j < length (gs_taken s)")
  case False
  with inv show ?thesis by auto
next
  case True
  note P = gw_inv_parts [OF inv]
  define items where "items = rb_items (core_conduit (gs_gateway s))"
  define x where "x = gs_taken s ! j"
  define rest where "rest = take j (gs_taken s) @ drop (Suc j) (gs_taken s)"
  have held: "mset (gw_held s) = add_mset x (mset (items @ rest))" "x \<in> set (gw_held s)"
    using True id_take_nth_drop [OF True] by (simp_all add: gw_held_def items_def x_def rest_def)
      (metis mset.simps(2) mset_append union_mset_add_mset_right)
  have "x < length (blocks (memory_pool (gs_gateway s)))" "x \<notin> set (gw_free (gs_gateway s))"
    using P(4) held(2) by auto
  then obtain pool where pool: "pinned_deallocate ws (Some x) (memory_pool (gs_gateway s)) = Done pool"
      "pinned_inv connection_id pool" "pinned_free_cells connection_id pool = x # gw_free (gs_gateway s)"
      "length (blocks pool) = length (blocks (memory_pool (gs_gateway s)))"
      "pinned_object pool = (pinned_object (memory_pool (gs_gateway s)))(x := None)"
    using ps.dealloc_some [OF P(2) _ _ ws] by blast
  define s' where "s' = s\<lparr>gs_gateway := (gs_gateway s)\<lparr>memory_pool := pool\<rparr>, gs_taken := rest,
    gs_done := gs_done s @ [gw_conn (gs_gateway s) x]\<rparr>"
  have held': "gw_held s' = items @ rest" by (simp add: gw_held_def s'_def items_def)
  have xd: "distinct (x # items @ rest)" "set (x # items @ rest) = set (gw_held s)"
    using mset_eq_imp_distinct_iff [of "x # items @ rest" "gw_held s"] mset_eq_setD [of "x # items @ rest" "gw_held s"] held(1) P(3)
    by simp_all
  then have other: "map (gw_conn (gs_gateway s')) (items @ rest) = map (gw_conn (gs_gateway s)) (items @ rest)"
    using pool(5) by (intro map_gw_conn) (auto simp: s'_def)
  have "mset (map (gw_conn (gs_gateway s)) (gw_held s)) =
      add_mset (gw_conn (gs_gateway s) x) (mset (map (gw_conn (gs_gateway s)) (items @ rest)))"
    by (simp add: held(1))
  moreover have "gw_closed (gs_gateway s') = gw_closed (gs_gateway s)" "gs_done s' = gs_done s @ [gw_conn (gs_gateway s) x]"
    by (simp_all add: s'_def)
  ultimately have "gw_ledger s' = gw_ledger s"
    by (simp add: gw_ledger_def held' other del: map_eq_conv mset_map map_append)
  moreover have "ps.consistent connection_id (gw_held s') pool"
    using xd P(4) pool(2-4) by (auto simp: ps.consistent_def held')
  ultimately show ?thesis
    using P(1,5) pool(1,4) True by (auto simp: gw_inv_def s'_def release_block_def x_def rest_def)
qed


lemma gw_run_accounts:
  assumes "gw_inv k n s" "False \<in> set ws"
  shows "\<exists>s'. gw_run ws ops s = Done s' \<and> gw_inv k n s' \<and> gw_ledger s' = gw_ledger s + mset (map word_of_int (opened ops))"
  using assms(1)
proof (induction ops arbitrary: s)
  case Nil
  then show ?case by simp
next
  case (Cons op ops)
  have "\<exists>s1. gw_step ws op s = Done s1 \<and> gw_inv k n s1 \<and>
      gw_ledger s1 + mset (map word_of_int (opened ops)) = gw_ledger s + mset (map word_of_int (opened (op # ops)))"
  proof (cases op)
    case (Client fd rx)
    with serve_client_step [OF Cons.prems assms(2), of fd rx] Cons.prems show ?thesis by auto
  qed (use core_pop_step [OF Cons.prems] core_done_step [OF Cons.prems assms(2)] in auto)
  then obtain s1 where "gw_step ws op s = Done s1" "gw_inv k n s1"
      "gw_ledger s1 + mset (map word_of_int (opened ops)) = gw_ledger s + mset (map word_of_int (opened (op # ops)))"
    by blast
  with Cons.IH [of s1] show ?case by auto
qed

section \<open>The loop\<close>

lemma reply_running [simp]:
  "gw_running (close_client fd g) = gw_running g" "gw_running (send_400 fd g) = gw_running g"
  "gw_running (send_503 fd g) = gw_running g" "gw_running (fill_buffer bytes g) = gw_running g"
  by (simp_all add: close_client_def send_400_def send_503_def fill_buffer_def)

lemma release_block_running: "release_block ws x g = Done g' \<Longrightarrow> gw_running g' = gw_running g"
  by (auto simp: release_block_def map_outcome_result_Done)

lemma serve_client_running:
  assumes "serve_client ws fd rx g = Done g'"
  shows "gw_running g' = gw_running g"
proof (cases "rx = None \<or> rx = Some []")
  case True
  with assms show ?thesis by (auto simp: serve_client_def)
next
  case False
  then obtain c cs where rx: "rx = Some (c # cs)" by (metis option.exhaust list.exhaust)
  then obtain ev pool where alloc: "pinned_allocate connection_id ws (http_request_init 0) (memory_pool g) = Done (ev, pool)"
    using assms by (cases "pinned_allocate connection_id ws (http_request_init 0) (memory_pool g)")
      (auto simp: serve_client_def Let_def)
  show ?thesis
  proof (cases ev)
    case None
    with assms alloc rx show ?thesis by (auto simp: serve_client_def Let_def)
  next
    case (Some x)
    with assms alloc rx show ?thesis
      by (auto simp: serve_client_def Let_def map_outcome_result_Done bind_outcome_Done case_prod_beta
          dest!: release_block_running split: if_splits)
  qed
qed

text \<open>The loop serves the connections in order and returns once \<open>stop\<close> was called.\<close>

lemma accept_loop_serves:
  assumes "gw_running (gs_gateway s)" "gw_run ws (map (\<lambda>(fd, rx). Client fd rx) cs) s = Done s'"
  shows "accept_loop ws (map (Pair False) cs @ (True, c) # rest) (gs_gateway s) = Done (gateway_stop (gs_gateway s'))"
  using assms
proof (induction cs arbitrary: s)
  case Nil
  then show ?case by (cases c) (simp add: gateway_stop_def Let_def)
next
  case (Cons c' cs)
  obtain fd rx where c': "c' = (fd, rx)" by fastforce
  then obtain s1 where s1: "gw_step ws (Client fd rx) s = Done s1" "gw_run ws (map (\<lambda>(fd, rx). Client fd rx) cs) s1 = Done s'"
    using Cons.prems(2) by (auto simp: bind_outcome_Done)
  show ?case
  proof (cases "fd < 0")
    case True
    then show ?thesis using Cons.IH [OF Cons.prems(1)] Cons.prems s1 c' by simp
  next
    case False
    then have "serve_client ws fd rx (gs_gateway s) = Done (gs_gateway s1)" using s1(1) by (auto simp: map_outcome_result_Done)
    then show ?thesis using Cons.IH [OF _ s1(2)] Cons.prems(1) serve_client_running c' False by simp
  qed
qed

text \<open>\<open>stop\<close> does not forget the listening socket, so the destructor closes its number a second time.\<close>

lemma stop_then_dtor_closes_twice:
  "server_fd g \<ge> 0 \<Longrightarrow> gw_closed (gateway_dtor (gateway_stop g)) = gw_closed g @ [server_fd g, server_fd g]"
  by (simp add: gateway_dtor_def gateway_stop_def Let_def)

lemma gw_start_inv:
  assumes "0 < n" "n \<le> 0xFFFFFFFF" "pinned_ctor True True n = Done (Inr pool)" "k < 32"
  shows "gw_inv k n (gw_start port k pool garbage)" "gw_ledger (gw_start port k pool garbage) = {#}"
proof -
  have pool: "pinned_inv connection_id pool" "pinned_free_cells connection_id pool = [0..<n]" "length (blocks pool) = n"
    using pinned_ctor_inv [OF assms(1,2), of "connection_id :: http_request_event \<Rightarrow> u32"] assms(3) by auto
  note ring = rb_init_inv [OF assms(4) refl, where 'p = nat]
  have "ps.consistent connection_id [] pool" using pool by (intro ps.consistent_fresh) auto
  then show "gw_inv k n (gw_start port k pool garbage)" "gw_ledger (gw_start port k pool garbage) = {#}"
    using ring pool(3) by (simp_all add: gw_inv_def gw_start_def gateway_init_def gw_held_def gw_ledger_def)
qed

section \<open>Properties\<close>

text \<open>C32: No request and no memory is lost between the gateway and the core: whatever packets arrive on whatever
  connections, and whenever the core takes events and gives them back, the queued events, the events
  with the core and the free blocks of the pool are exactly its blocks, each once; and every
  connection that was accepted is closed by the gateway, carried by an event, or was carried by an
  event that the core is done with, each once.\<close>

theorem gateway_accounts:
  assumes "0 < n" "n \<le> 0xFFFFFFFF" "pinned_ctor True True n = Done (Inr pool)" "k < 32" "False \<in> set ws"
  shows "\<exists>s. gw_run ws ops (gw_start port k pool garbage) = Done s \<and>
    distinct (gw_held s @ gw_free (gs_gateway s)) \<and> set (gw_held s @ gw_free (gs_gateway s)) = {..<n} \<and>
    mset (map word_of_int (opened ops)) =
      mset (map word_of_int (gw_closed (gs_gateway s))) + mset (map (gw_conn (gs_gateway s)) (gw_held s)) + mset (gs_done s)"
proof -
  note start = gw_start_inv [OF assms(1-4), of port garbage]
  obtain s where s: "gw_run ws ops (gw_start port k pool garbage) = Done s" "gw_inv k n s"
      "gw_ledger s = mset (map word_of_int (opened ops))"
    using gw_run_accounts [OF start(1) assms(5), of ops] start(2) by auto
  note P = gw_inv_parts [OF s(2)]
  have "set (gw_free (gs_gateway s)) \<subseteq> {..<n}" "distinct (gw_free (gs_gateway s))"
    using ps.free_bounded [OF P(2)] ps.free_distinct [OF P(2)] P(5) by simp_all
  then have "distinct (gw_held s @ gw_free (gs_gateway s))" "set (gw_held s @ gw_free (gs_gateway s)) = {..<n}"
    using P(3-5) by auto
  with s show ?thesis unfolding gw_ledger_def by auto
qed

theorem gateway_accounts_witness:
  "\<exists>pool s. pinned_ctor True True 2 = Done (Inr pool) \<and>
    gw_run [False] [Client 4 (Some sample_request), Client 5 (Some ''x''), Client (-1) None, Core_Pop, Core_Done 0]
      (gw_start 80 1 pool []) = Done s \<and> set (gw_held s @ gw_free (gs_gateway s)) = {..<2}"
proof -
  obtain pool :: "http_request_event pinned" where pool: "pinned_ctor True True 2 = Done (Inr pool)"
    using pinned_ctor_inv [of 2 connection_id] by auto
  show ?thesis
    using gateway_accounts [of 2 pool 1 "[False]"
        "[Client 4 (Some sample_request), Client 5 (Some ''x''), Client (-1) None, Core_Pop, Core_Done 0]" 80 "[]"] pool
    by auto
qed


text \<open>The views of an event.\<close>

definition event_views :: "http_request_event \<Rightarrow> view list" where
  "event_views ev = [req_method ev, req_uri ev, req_body ev] @
     concat (map (\<lambda>h. [hdr_key h, hdr_value h]) (take (header_count ev) (req_headers ev)))"

lemma view_fill: "b + m \<le> length bytes \<Longrightarrow> view_str (read_buffer (fill_buffer bytes g)) (Some (b, m)) = view_str bytes (Some (b, m))"
  by (simp add: fill_buffer_def view_str_def)

text \<open>A packet replaces the front of the buffer and leaves the events in use where and what they are.\<close>

lemma serve_client_buffer:
  assumes inv: "gw_inv k n s" and ws: "False \<in> set ws" and bytes: "bytes \<noteq> []" and x: "x \<in> set (gw_held s)"
  shows "\<exists>g'. serve_client ws fd (Some bytes) (gs_gateway s) = Done g' \<and>
    read_buffer g' = read_buffer (fill_buffer bytes (gs_gateway s)) \<and> x \<in> set (gw_held (s\<lparr>gs_gateway := g'\<rparr>)) \<and>
    pinned_object (memory_pool g') x = pinned_object (memory_pool (gs_gateway s)) x"
proof -
  note P = gw_inv_parts [OF inv]
  show ?thesis
  proof (cases "will_queue fd bytes (gs_gateway s)")
    case True
    then have "hd (gw_free (gs_gateway s)) \<in> set (gw_free (gs_gateway s))" by (auto simp: will_queue_def)
    with P(4) x have "x \<noteq> hd (gw_free (gs_gateway s))" by auto
    with serve_queued [OF P(2,1) ws bytes True] x show ?thesis by (auto simp: gw_held_def)
  next
    case False
    from serve_refused [OF P(2,1) ws bytes False] x show ?thesis
      by (auto simp: gw_held_def same_pool_def send_400_def send_503_def close_client_def)
  qed
qed

text \<open>C33: Every request that waits is overwritten by the next packet. After any run of the gateway and the core, take any
  event that is queued or with the core; whatever packet then arrives on whatever connection, and whatever
  becomes of it, the event is still in use and unchanged, but each of its views that ends within the length of the new packet
  now shows the bytes of the new packet at its place.\<close>

theorem gateway_views_overwritten:
  assumes "0 < n" "n \<le> 0xFFFFFFFF" "pinned_ctor True True n = Done (Inr pool)" "k < 32" "False \<in> set ws"
    and run: "gw_run ws ops (gw_start port k pool garbage) = Done s" and x: "x \<in> set (gw_held s)"
    and "0 \<le> fd" "bytes \<noteq> []"
  shows "\<exists>ev s'. pinned_object (memory_pool (gs_gateway s)) x = Some ev \<and>
    gw_run ws [Client fd (Some bytes)] s = Done s' \<and> x \<in> set (gw_held s') \<and>
    pinned_object (memory_pool (gs_gateway s')) x = Some ev \<and>
    (\<forall>b m. Some (b, m) \<in> set (event_views ev) \<longrightarrow> b + m \<le> length bytes \<longrightarrow>
       view_str (read_buffer (gs_gateway s')) (Some (b, m)) = take m (drop b bytes))"
proof -
  have inv: "gw_inv k n s"
    using gw_run_accounts [OF gw_start_inv(1) [OF assms(1-4)] assms(5), of ops port garbage] run by auto
  note P = gw_inv_parts [OF inv]
  obtain ev where ev: "pinned_object (memory_pool (gs_gateway s)) x = Some ev"
    using ps.object_dom [OF P(2)] P(4) x by blast
  obtain g' where g': "serve_client ws fd (Some bytes) (gs_gateway s) = Done g'"
      "read_buffer g' = read_buffer (fill_buffer bytes (gs_gateway s))" "x \<in> set (gw_held (s\<lparr>gs_gateway := g'\<rparr>))"
      "pinned_object (memory_pool g') x = pinned_object (memory_pool (gs_gateway s)) x"
    using serve_client_buffer [OF inv assms(5,9) x] by blast
  have "gw_run ws [Client fd (Some bytes)] s = Done (s\<lparr>gs_gateway := g'\<rparr>)" using g'(1) assms(8) by simp
  moreover have "view_str (read_buffer g') (Some (b, m)) = take m (drop b bytes)" if "b + m \<le> length bytes" for b m
    using view_fill [OF that] g'(2) by (simp add: view_str_def)
  ultimately show ?thesis using ev g'(3,4) by auto
qed

theorem gateway_views_overwritten_witness:
  "\<exists>pool s s' ev. pinned_ctor True True 2 = Done (Inr pool) \<and>
     gw_run [False] [Client 4 (Some (''GET /a H'' @ [LF, LF]))] (gw_start 80 2 pool []) = Done s \<and>
     gw_run [False] [Client 5 (Some (''GET /b H'' @ [LF, LF]))] s = Done s' \<and>
     pinned_object (memory_pool (gs_gateway s')) 0 = Some ev \<and> connection_id ev = 4 \<and>
     view_str (read_buffer (gs_gateway s)) (req_uri ev) = ''/a'' \<and> view_str (read_buffer (gs_gateway s')) (req_uri ev) = ''/b''"
proof -
  let ?first = "[Client 4 (Some (''GET /a H'' @ [LF, LF]))]"
  have "bind_outcome (pinned_ctor True True 2) (\<lambda>r. case r of Inl e \<Rightarrow> Fault | Inr pool \<Rightarrow>
      map_outcome_result (\<lambda>s. (gw_held s, view_str (read_buffer (gs_gateway s)) (Some (4, 2)),
          map_option (\<lambda>ev. (connection_id ev, req_uri ev)) (pinned_object (memory_pool (gs_gateway s)) 0)))
        (gw_run [False] ?first (gw_start 80 2 pool []))) = Done ([0], ''/a'', Some (4, Some (4, 2)))"
    by code_simp
  moreover obtain pool :: "http_request_event pinned" where pool: "pinned_ctor True True 2 = Done (Inr pool)"
    using pinned_ctor_inv [of 2 connection_id] by auto
  ultimately obtain s ev where s: "pinned_ctor True True 2 = Done (Inr pool)" "gw_run [False] ?first (gw_start 80 2 pool []) = Done s"
      "gw_held s = [0]" "view_str (read_buffer (gs_gateway s)) (Some (4, 2)) = ''/a''"
      "pinned_object (memory_pool (gs_gateway s)) 0 = Some ev" "connection_id ev = 4" "req_uri ev = Some (4, 2)"
    by (auto simp: map_outcome_result_Done eq_commute [of "Some _"] eq_commute [of "[0]"] eq_commute [of "''/a''"] simp del: gw_run.simps)
  have "Some (4, 2) \<in> set (event_views ev)" by (simp add: event_views_def s(7))
  then show ?thesis
    using gateway_views_overwritten [OF _ _ s(1) _ _ s(2), of 0 5 "''GET /b H'' @ [LF, LF]"] s by fastforce
qed

end
