(* ===== verification/Durable_Storage.thy ===== *)
theory Durable_Storage
  imports Event_Ptr
begin

text \<open>
  The append-only log: \<open>durable_sink\<close> of \<open>include/conduit/pending/storage/durable_sink.hpp\<close> writes the
  raw bytes of each event, \<open>durable_source\<close> of \<open>include/conduit/pending/storage/durable_storage.hpp\<close>
  reads them back and pushes them into the core. The answers of \<open>open\<close>, \<open>write\<close> and \<open>read\<close>, and of
  the core's domain and conduit, are input.
\<close>

section \<open>The sink\<close>

text \<open>\<open>log_bytes\<close> is the file behind the descriptor.\<close>

record durable_sink =
  sink_fd :: int
  bytes_written :: u64
  log_bytes :: "u8 list"

text \<open>A file that cannot be opened terminates the program (\<open>None\<close>).\<close>

definition durable_sink_open :: "int \<Rightarrow> u8 list \<Rightarrow> durable_sink option" where
  "durable_sink_open fd file = (if fd = -1 then None else Some \<lparr>sink_fd = fd, bytes_written = 0, log_bytes = file\<rparr>)"

text \<open>\<open>load\<close> reads the bytes of the object a pointer points to; \<open>written\<close> is the answer of \<open>write\<close>, which has put that
  many bytes at the end of the file.\<close>

definition durable_sink_on :: "('p \<Rightarrow> u8 list) \<Rightarrow> int \<Rightarrow> ('p, 'd, 'c) event_ptr \<Rightarrow> durable_sink \<Rightarrow> durable_sink" where
  "durable_sink_on load written ev s =
     (case event_ptr_get ev of
        None \<Rightarrow> s
      | Some p \<Rightarrow>
          if sink_fd s = -1 then s
          else let raw_data = load p; size = length raw_data;
                   s1 = s\<lparr>log_bytes := log_bytes s @ take (nat written) raw_data\<rparr>
               in if written = int size then s1\<lparr>bytes_written := bytes_written s1 + of_nat size\<rparr> else s1)"

text \<open>The descriptors the destructor closes.\<close>

definition durable_sink_dtor :: "durable_sink \<Rightarrow> int list" where
  "durable_sink_dtor s = (if sink_fd s \<noteq> -1 then [sink_fd s] else [])"

definition total_bytes_written :: "durable_sink \<Rightarrow> u64" where
  "total_bytes_written s = bytes_written s"

section \<open>The source\<close>

datatype replay_end = Stopped | End_Of_Log | Corrupted_Read

text \<open>The loop reads the next record, or holds one that the conduit has not taken.\<close>

datatype replay_phase = Fetch | Pushing "u8 list"

record durable_source =
  source_fd :: int
  source_running :: bool
  source_file :: "u8 list"

definition durable_source_open :: "int \<Rightarrow> u8 list \<Rightarrow> durable_source" where
  "durable_source_open fd file = \<lparr>source_fd = fd, source_running = False, source_file = file\<rparr>"

text \<open>Each element of the schedule is one check of \<open>is_running\<close>: whether \<open>stop\<close> was called before it, whether
  \<open>make_uninitialized\<close> then finds a free cell, and whether the conduit then takes the event.\<close>

fun replay_loop ::
  "nat \<Rightarrow> (bool \<times> bool \<times> bool) list \<Rightarrow> replay_phase \<Rightarrow> int list \<Rightarrow> durable_source \<Rightarrow> u8 list list \<Rightarrow>
   (replay_end \<times> durable_source \<times> u8 list list) outcome" where
  "replay_loop event_size [] phase reads s delivered = Pending"
| "replay_loop event_size ((stopped, made, pushed) # sched) Fetch reads s delivered =
     (if stopped then Done (Stopped, s\<lparr>source_running := False\<rparr>, delivered)
      else if \<not> made then replay_loop event_size sched Fetch reads s delivered
      else case reads of
             [] \<Rightarrow> Pending
           | bytes_read # reads' \<Rightarrow>
               let record = take (nat bytes_read) (source_file s);
                   s1 = s\<lparr>source_file := drop (nat bytes_read) (source_file s)\<rparr>
               in if bytes_read = int event_size then
                    if pushed then replay_loop event_size sched Fetch reads' s1 (delivered @ [record])
                    else replay_loop event_size sched (Pushing record) reads' s1 delivered
                  else if bytes_read = 0 then Done (End_Of_Log, s1\<lparr>source_running := False\<rparr>, delivered)
                  else Done (Corrupted_Read, s1\<lparr>source_running := False\<rparr>, delivered))"
| "replay_loop event_size ((stopped, made, pushed) # sched) (Pushing record) reads s delivered =
     (if stopped then Done (Stopped, s\<lparr>source_running := False\<rparr>, delivered)
      else if pushed then replay_loop event_size sched Fetch reads s (delivered @ [record])
      else replay_loop event_size sched (Pushing record) reads s delivered)"

definition run_replay ::
  "nat \<Rightarrow> (bool \<times> bool \<times> bool) list \<Rightarrow> int list \<Rightarrow> durable_source \<Rightarrow>
   (replay_end \<times> durable_source \<times> u8 list list) outcome" where
  "run_replay event_size sched reads s =
     (if source_fd s = -1 then Done (Stopped, s, [])
      else replay_loop event_size sched Fetch reads (s\<lparr>source_running := True\<rparr>) [])"

definition durable_source_dtor :: "durable_source \<Rightarrow> int list" where
  "durable_source_dtor s = (if source_fd s \<noteq> -1 then [source_fd s] else [])"

definition source_stop :: "durable_source \<Rightarrow> durable_source" where
  "source_stop s = s\<lparr>source_running := False\<rparr>"

section \<open>Writing the log\<close>

text \<open>Events written one after another, each write complete.\<close>

fun log_all :: "('p \<Rightarrow> u8 list) \<Rightarrow> ('p, 'd, 'c) event_ptr list \<Rightarrow> durable_sink \<Rightarrow> durable_sink" where
  "log_all load [] s = s"
| "log_all load (ev # evs) s =
     log_all load evs (durable_sink_on load (case event_ptr_get ev of Some p \<Rightarrow> int (length (load p)) | None \<Rightarrow> 0) ev s)"

text \<open>The objects of the pointers that are not null.\<close>

fun records :: "('p \<Rightarrow> u8 list) \<Rightarrow> ('p, 'd, 'c) event_ptr list \<Rightarrow> u8 list list" where
  "records load [] = []"
| "records load (ev # evs) = (case event_ptr_get ev of Some p \<Rightarrow> [load p] | None \<Rightarrow> []) @ records load evs"

lemma log_all_bytes:
  "sink_fd s \<noteq> -1 \<Longrightarrow> log_bytes (log_all load evs s) = log_bytes s @ concat (records load evs) \<and>
     bytes_written (log_all load evs s) = bytes_written s + of_nat (length (concat (records load evs)))"
proof (induction evs arbitrary: s)
  case (Cons ev evs)
  then show ?case
    by (cases "event_ptr_get ev") (auto simp: durable_sink_on_def Let_def)
qed simp

text \<open>A sink closes the file it opened, and only that, whatever the system answered to its writes.\<close>

lemma durable_sink_closes_once:
  assumes "durable_sink_open fd file = Some s"
  shows "durable_sink_dtor (fold (\<lambda>(written, ev). durable_sink_on load written ev) evs s) = [fd]"
proof -
  have "sink_fd (fold (\<lambda>(written, ev). durable_sink_on load written ev) evs s) = sink_fd s" for s
    by (induction evs arbitrary: s) (auto simp: durable_sink_on_def Let_def split: option.splits)
  then show ?thesis using assms by (auto simp: durable_sink_open_def durable_sink_dtor_def split: if_splits)
qed

section \<open>Reading it back\<close>

text \<open>The entries of a schedule on which the core is ready.\<close>

definition ready :: "(bool \<times> bool \<times> bool) list \<Rightarrow> nat" where
  "ready sched = length (filter (\<lambda>(stopped, made, pushed). made \<and> pushed) sched)"

definition never_stopped :: "(bool \<times> bool \<times> bool) list \<Rightarrow> bool" where
  "never_stopped sched \<longleftrightarrow> (\<forall>e \<in> set sched. \<not> fst e)"

text \<open>However a replay ends, its source closes the file if one was opened.\<close>

lemma replay_loop_fd: "replay_loop sz sched phase reads s delivered = Done (e, s', out) \<Longrightarrow> source_fd s' = source_fd s"
  by (induction sz sched phase reads s delivered rule: replay_loop.induct) (auto simp: Let_def split: if_splits list.splits)

lemma durable_source_closes_once:
  assumes "run_replay sz sched reads (durable_source_open fd file) = Done (e, s', out)"
  shows "durable_source_dtor s' = (if fd = -1 then [] else [fd])"
  using assms replay_loop_fd [of sz sched Fetch reads _ "[]" e s' out]
  by (auto simp: run_replay_def durable_source_open_def durable_source_dtor_def split: if_splits)

text \<open>A regular file answers each read with a whole record until there is none.\<close>

definition whole_reads :: "nat \<Rightarrow> nat \<Rightarrow> int list" where
  "whole_reads sz n = replicate n (int sz) @ [0]"

text \<open>What a phase still has to deliver.\<close>

fun held :: "replay_phase \<Rightarrow> u8 list list" where
  "held Fetch = []"
| "held (Pushing r) = [r]"

lemma replay_loop_delivers:
  assumes "\<forall>r \<in> set rs. length r = sz" "0 < sz" "never_stopped sched"
    and "length (held phase) + length rs < ready sched" "source_file s = concat rs"
  shows "\<exists>s'. replay_loop sz sched phase (whole_reads sz (length rs)) s delivered =
    Done (End_Of_Log, s', delivered @ held phase @ rs) \<and> \<not> source_running s'"
  using assms
proof (induction sched arbitrary: phase rs s delivered)
  case Nil
  then show ?case by (simp add: ready_def)
next
  case (Cons e sched)
  obtain stopped made pushed where e: "e = (stopped, made, pushed)" by (cases e)
  have ns: "\<not> stopped" "never_stopped sched" using Cons.prems(3) e by (auto simp: never_stopped_def)
  have rd: "ready (e # sched) = (if made \<and> pushed then Suc (ready sched) else ready sched)" by (simp add: ready_def e)
  show ?case
  proof (cases phase)
    case (Pushing r)
    then show ?thesis
      using Cons.IH [of rs Fetch s "delivered @ [r]"] Cons.IH [of rs phase s delivered] Cons.prems ns rd e
      by (auto split: if_splits)
  next
    case Fetch
    note IH = Cons.IH [OF _ Cons.prems(2) ns(2)]
    show ?thesis
    proof (cases "made \<and> rs \<noteq> []")
      case False
      then show ?thesis
        using IH [of rs Fetch s delivered] Cons.prems ns rd e Fetch
        by (cases "rs = []") (auto simp: whole_reads_def)
    next
      case True
      then obtain r rs' where rs: "rs = r # rs'" "length r = sz" by (cases rs) (use Cons.prems(1) in auto)
      let ?s = "s\<lparr>source_file := concat rs'\<rparr>"
      have step: "\<exists>s'. replay_loop sz sched ph (whole_reads sz (length rs')) ?s d = Done (End_Of_Log, s', d @ held ph @ rs') \<and>
          \<not> source_running s'" if "length (held ph) + length rs' < ready sched" for ph d
        using IH [of rs' ph ?s d] that rs(1) Cons.prems(1) by simp
      show ?thesis
        using True step [of Fetch "delivered @ [r]"] step [of "Pushing r" delivered] Cons.prems(4,5) ns rd e Fetch rs
        by (cases pushed) (auto simp: whole_reads_def Let_def)
    qed
  qed
qed


lemma records_length:
  "(\<And>ev p. ev \<in> set evs \<Longrightarrow> event_ptr_get ev = Some p \<Longrightarrow> length (load p) = sz) \<Longrightarrow> r \<in> set (records load evs) \<Longrightarrow> length r = sz"
  by (induction evs) (force split: option.splits)+

section \<open>Properties\<close>

text \<open>C34: Replay inverts logging: the events that a sink wrote to a new file, each with one complete write, are pushed
  into the core's conduit by the replay of that file, once each and in order, and the replay then
  ends with the end of the log, provided the core is ready often enough and nobody stops the source.
  \<open>whole_reads\<close> is what \<open>read\<close> promises of a regular file: a record as long as there is one, then 0.\<close>

theorem durable_roundtrip:
  assumes "durable_sink_open fd [] = Some s0"
    and "\<And>ev p. ev \<in> set evs \<Longrightarrow> event_ptr_get ev = Some p \<Longrightarrow> length (load p) = sz" "0 < sz"
    and "never_stopped sched" "length (records load evs) < ready sched" "fd' \<noteq> -1"
  shows "\<exists>src. run_replay sz sched (whole_reads sz (length (records load evs)))
      (durable_source_open fd' (log_bytes (log_all load evs s0))) = Done (End_Of_Log, src, records load evs) \<and>
    \<not> source_running src"
proof -
  have s0: "sink_fd s0 \<noteq> -1" "log_bytes s0 = []" using assms(1) by (auto simp: durable_sink_open_def split: if_splits)
  then have contents: "log_bytes (log_all load evs s0) = concat (records load evs)" using log_all_bytes [of s0 load evs] by simp
  have "\<forall>r \<in> set (records load evs). length r = sz" using records_length [of evs load sz] assms(2) by blast
  then show ?thesis
    using replay_loop_delivers [of "records load evs" sz sched Fetch _ "[]"] assms(3-6) contents
    by (simp add: run_replay_def durable_source_open_def)
qed

theorem durable_roundtrip_witness:
  "\<exists>s0 src. durable_sink_open 3 [] = Some s0 \<and>
    run_replay 2 [(False, False, False), (False, True, True), (False, True, False), (False, True, True), (False, True, True)]
      (whole_reads 2 2) (durable_source_open 4 (log_bytes (log_all id [event_ptr_of (Some [1, 2]) (Some ()) (Some ()), event_ptr_of (Some [3, 4]) (Some ()) (Some ())] s0))) =
    Done (End_Of_Log, src, [[1, 2], [3, 4]])"
proof -
  let ?evs = "[event_ptr_of (Some [1, 2]) (Some ()) (Some ()), event_ptr_of (Some [3, 4]) (Some ()) (Some ())]
    :: (u8 list, unit, unit) event_ptr list"
  let ?sched = "[(False, False, False), (False, True, True), (False, True, False), (False, True, True), (False, True, True)]"
  obtain s0 where s0: "durable_sink_open 3 [] = Some s0" by (simp add: durable_sink_open_def)
  have rec: "records id ?evs = [[1, 2], [3, 4]]" by (simp add: event_ptr_defs)
  have len: "length (id p) = 2" if "ev \<in> set ?evs" "event_ptr_get ev = Some p" for ev p
    using that by (auto simp: event_ptr_defs)
  have "never_stopped ?sched" "length (records id ?evs) < ready ?sched"
    by (simp_all add: never_stopped_def ready_def event_ptr_defs)
  then obtain src where "run_replay 2 ?sched (whole_reads 2 (length (records id ?evs)))
      (durable_source_open 4 (log_bytes (log_all id ?evs s0))) = Done (End_Of_Log, src, records id ?evs)"
    using durable_roundtrip [OF s0, of ?evs id 2 ?sched 4] len by auto
  moreover have "length (records id ?evs) = 2" unfolding rec by simp
  ultimately show ?thesis using s0 unfolding rec by metis
qed

text \<open>A short write shifts the records behind it: after the disk took one byte of the second of three events, the
  sink goes on with the third, and the replay delivers a record that nobody logged, made of the
  pieces of two events, before it stops with a corrupted read.\<close>

theorem short_write_corrupts_replay:
  "case durable_sink_open 3 [] of Some s0 \<Rightarrow>
     let ev = (\<lambda>r. event_ptr_of (Some r) (Some ()) (Some ()));
         s1 = durable_sink_on id 2 (ev [1, 2]) s0;
         s2 = durable_sink_on id 1 (ev [3, 4]) s1;
         s3 = durable_sink_on id 2 (ev [5, 6]) s2
     in case run_replay 2 (replicate 3 (False, True, True)) [2, 2, 1] (durable_source_open 4 (log_bytes s3)) of
          Done (e, src, rs) \<Rightarrow> e = Corrupted_Read \<and> rs = [[1, 2], [3, 5]] \<and> total_bytes_written s3 = 4 \<and> length (log_bytes s3) = 5"
  by (simp add: durable_sink_open_def durable_sink_on_def run_replay_def durable_source_open_def total_bytes_written_def
      event_ptr_defs Let_def numeral_3_eq_3)

end
