(* ===== verification/Saga.thy ===== *)
theory Saga
  imports Conduit_Prelude
begin

text \<open>
  \<open>deterministic_saga\<close> of \<open>include/conduit/pending/workflow/state_machine.hpp\<close>: an array of workflow slots,
  each driven by the events that carry its index. The transition of the workflow definition is the
  template's parameter; it may change the slot and the event. An event pointer is the object it
  points to, or \<open>None\<close>. The numbers of refused workflows are logged as warnings.
\<close>

section \<open>The engine\<close>

record ('st, 'pl) saga_slot =
  saga_state :: 'st
  saga_data :: 'pl
  saga_active :: bool

type_synonym ('st, 'pl, 'e) transition = "'st \<Rightarrow> 'pl \<Rightarrow> bool \<Rightarrow> 'e \<Rightarrow> 'st \<times> 'pl \<times> bool \<times> 'e"

record ('st, 'pl) deterministic_saga =
  saga_slots :: "('st, 'pl) saga_slot list"
  saga_warnings :: "u32 list"

text \<open>\<open>slots_{}\<close>: every slot value-initialized and inactive.\<close>

definition saga_init :: "'st \<Rightarrow> 'pl \<Rightarrow> nat \<Rightarrow> ('st, 'pl) deterministic_saga" where
  "saga_init st pl max_workflows =
     \<lparr>saga_slots = replicate max_workflows \<lparr>saga_state = st, saga_data = pl, saga_active = False\<rparr>, saga_warnings = []\<rparr>"

definition apply_transition :: "('st, 'pl, 'e) transition \<Rightarrow> ('st, 'pl) saga_slot \<Rightarrow> 'e \<Rightarrow> ('st, 'pl) saga_slot \<times> 'e" where
  "apply_transition tr sl ev =
     (let (st, pl, act, ev') = tr (saga_state sl) (saga_data sl) (saga_active sl) ev
      in (\<lparr>saga_state = st, saga_data = pl, saga_active = act\<rparr>, ev'))"

definition saga_on ::
  "('e \<Rightarrow> u32) \<Rightarrow> ('st, 'pl, 'e) transition \<Rightarrow> 'e option \<Rightarrow> ('st, 'pl) deterministic_saga \<Rightarrow>
   'e option \<times> ('st, 'pl) deterministic_saga" where
  "saga_on workflow_id tr ev s =
     (case ev of
        None \<Rightarrow> (None, s)
      | Some e \<Rightarrow>
          let i = workflow_id e
          in if unat i \<ge> length (saga_slots s) then (ev, s\<lparr>saga_warnings := saga_warnings s @ [i]\<rparr>)
             else let (sl, e') = apply_transition tr (saga_slots s ! unat i) e
                  in (Some e', s\<lparr>saga_slots := (saga_slots s)[unat i := sl]\<rparr>))"

section \<open>Independent workflows\<close>

text \<open>The engine on a sequence of events, and one workflow alone on its own events.\<close>

definition saga_run ::
  "('e \<Rightarrow> u32) \<Rightarrow> ('st, 'pl, 'e) transition \<Rightarrow> 'e option list \<Rightarrow> ('st, 'pl) deterministic_saga \<Rightarrow> ('st, 'pl) deterministic_saga" where
  "saga_run wid tr evs s = fold (\<lambda>ev s. snd (saga_on wid tr ev s)) evs s"

definition workflow_run :: "('st, 'pl, 'e) transition \<Rightarrow> 'e list \<Rightarrow> ('st, 'pl) saga_slot \<Rightarrow> ('st, 'pl) saga_slot" where
  "workflow_run tr es sl = fold (\<lambda>e sl. fst (apply_transition tr sl e)) es sl"

fun present :: "'e option list \<Rightarrow> 'e list" where
  "present [] = []"
| "present (None # evs) = present evs"
| "present (Some e # evs) = e # present evs"

lemma saga_run_slots:
  "length (saga_slots (saga_run wid tr evs s)) = length (saga_slots s) \<and>
   (\<forall>i < length (saga_slots s). saga_slots (saga_run wid tr evs s) ! i =
      workflow_run tr (filter (\<lambda>e. unat (wid e) = i) (present evs)) (saga_slots s ! i)) \<and>
   saga_warnings (saga_run wid tr evs s) =
     saga_warnings s @ map wid (filter (\<lambda>e. unat (wid e) \<ge> length (saga_slots s)) (present evs))"
proof (induction evs arbitrary: s rule: present.induct)
  case 1
  then show ?case by (simp add: saga_run_def workflow_run_def)
next
  case (2 evs)
  then show ?case by (simp add: saga_run_def saga_on_def)
next
  case (3 e evs)
  define s1 where "s1 = snd (saga_on wid tr (Some e) s)"
  have run: "saga_run wid tr (Some e # evs) s = saga_run wid tr evs s1" by (simp add: saga_run_def s1_def)
  show ?case
    using 3 [of s1] unfolding run
    by (auto simp: s1_def saga_on_def Let_def workflow_run_def split_beta nth_list_update)
qed

section \<open>Properties\<close>

text \<open>C35: The workflows of an engine do not interfere: after any sequence of events the slot of each workflow is what
  its own events alone, in order, make of it; events of a workflow number beyond the array change no
  slot and are warned about, in order; null events do nothing.\<close>

theorem saga_workflows_independent:
  "let s' = saga_run wid tr evs (saga_init st pl n); mine = (\<lambda>i. filter (\<lambda>e. unat (wid e) = i) (present evs))
   in length (saga_slots s') = n \<and>
      (\<forall>i. i < n \<longrightarrow> saga_slots s' ! i = workflow_run tr (mine i) \<lparr>saga_state = st, saga_data = pl, saga_active = False\<rparr>) \<and>
      saga_warnings s' = map wid (filter (\<lambda>e. n \<le> unat (wid e)) (present evs))"
  using saga_run_slots [of wid tr evs "saga_init st pl n"] by (simp add: saga_init_def Let_def)

text \<open>Two workflows that count their events, and one number out of range.\<close>

theorem saga_workflows_independent_witness:
  "saga_slots (saga_run id (\<lambda>st pl act e. (st + 1, pl, True, e)) [Some 1, None, Some 0, Some 9, Some 1] (saga_init (0 :: nat) () 2)) ! 1 =
     \<lparr>saga_state = 2, saga_data = (), saga_active = True\<rparr>"
  using saga_workflows_independent [of id "\<lambda>st pl act e. (st + 1, pl, True, e)" "[Some 1, None, Some 0, Some 9, Some 1]" "0 :: nat" "()" 2]
  by (simp add: Let_def workflow_run_def apply_transition_def)

end
