(* ===== verification/Mesh_Router.thy ===== *)
theory Mesh_Router
  imports Net_Conduit
begin

text \<open>
  \<open>mesh_router\<close> of \<open>include/conduit/pending/net/mesh_router.hpp\<close>: an array of networked conduits indexed by the
  number of the target node. Conduits live in a store and the array holds their addresses. The
  field \<open>target_node_id\<close> is read from the bytes of the event by the parameter \<open>target_of\<close>.
\<close>

section \<open>The router\<close>

record mesh_router =
  routes :: "nat option list"

definition mesh_init :: "nat \<Rightarrow> mesh_router" where
  "mesh_init max_nodes = \<lparr>routes = replicate max_nodes None\<rparr>"

definition bind_route :: "u16 \<Rightarrow> nat \<Rightarrow> mesh_router \<Rightarrow> mesh_router" where
  "bind_route node_id conduit r =
     (if unat node_id < length (routes r) then r\<lparr>routes := (routes r)[unat node_id := Some conduit]\<rparr> else r)"

definition unbind_route :: "u16 \<Rightarrow> mesh_router \<Rightarrow> mesh_router" where
  "unbind_route node_id r =
     (if unat node_id < length (routes r) then r\<lparr>routes := (routes r)[unat node_id := None]\<rparr> else r)"

definition mesh_on ::
  "u32 \<Rightarrow> ('p \<Rightarrow> u8 list) \<Rightarrow> (u8 list \<Rightarrow> u16) \<Rightarrow> mesh_router \<Rightarrow> ('p, 'd, 'c) event_ptr \<Rightarrow> (nat \<Rightarrow> net_conduit) \<Rightarrow>
   ('p, 'd, 'c) event_ptr \<times> ('p, 'd, 'c) deleter_call list \<times> (nat \<Rightarrow> net_conduit)" where
  "mesh_on tid deref target_of r ev net =
     (case event_ptr_get ev of
        None \<Rightarrow> (ev, [], net)
      | Some p \<Rightarrow>
          let target = unat (target_of (deref p))
          in if target \<ge> length (routes r) then (ev, [], net)
             else case routes r ! target of
                    None \<Rightarrow> (ev, [], net)
                  | Some a \<Rightarrow>
                      if is_alive (net a)
                      then let (ok, ev1, calls, nc) = net_push tid deref ev (net a) in (ev1, calls, net(a := nc))
                      else (ev, [], net))"


section \<open>The routing table\<close>

definition route_of :: "mesh_router \<Rightarrow> u16 \<Rightarrow> nat option" where
  "route_of r t = (if unat t < length (routes r) then routes r ! unat t else None)"

lemma route_of_init [simp]: "route_of (mesh_init n) t = None"
  by (simp add: route_of_def mesh_init_def)

lemma route_of_bind [simp]:
  "route_of (bind_route t a r) u = (if u = t \<and> unat t < length (routes r) then Some a else route_of r u)"
  by (auto simp: route_of_def bind_route_def nth_list_update unat_inject)

lemma route_of_unbind [simp]: "route_of (unbind_route t r) u = (if u = t then None else route_of r u)"
  by (auto simp: route_of_def unbind_route_def nth_list_update unat_inject)

lemma routes_size [simp]:
  "length (routes (mesh_init n)) = n" "length (routes (bind_route t a r)) = length (routes r)"
  "length (routes (unbind_route t r)) = length (routes r)"
  by (simp_all add: mesh_init_def bind_route_def unbind_route_def)

lemma mesh_on_route:
  "event_ptr_get ev = Some p \<Longrightarrow> mesh_on tid deref target_of r ev net =
     (case route_of r (target_of (deref p)) of
        None \<Rightarrow> (ev, [], net)
      | Some a \<Rightarrow>
          if is_alive (net a) then let (ok, ev1, calls, nc) = net_push tid deref ev (net a) in (ev1, calls, net(a := nc))
          else (ev, [], net))"
  by (simp add: mesh_on_def route_of_def Let_def)

section \<open>Properties\<close>

definition accepts :: "net_conduit \<Rightarrow> bool" where
  "accepts nc \<longleftrightarrow> is_alive nc \<and> length (tx_frames nc) < length (tx_ring nc)"

lemma net_push_refuses:
  "tx_inv k sz nc \<Longrightarrow> \<not> accepts nc \<Longrightarrow> net_push tid deref ev nc = (False, ev, [], nc)"
  using full_iff [of k sz nc] by (auto simp: net_push_def accepts_def is_alive_def not_less split: option.splits)

text \<open>The router puts an event into the conduit that is bound to its target node, and into no other, as one frame
  with the event's bytes behind what is already queued; the caller's pointer is then null and the
  cell given back once. If the target is out of range, not bound, dead or full, the event stays with
  the caller and nothing changes.\<close>

theorem mesh_routes_or_keeps:
  assumes "event_ptr_get ev = Some p" "length (deref p) = sz" "\<And>a. tx_inv k sz (net a)" "\<And>a. unat (tx_head (net a)) < 2 ^ 64 - 1"
    and "mesh_on tid deref target_of r ev net = (ev', cs, net')"
  shows "case route_of r (target_of (deref p)) of
      None \<Rightarrow> ev' = ev \<and> cs = [] \<and> net' = net
    | Some a \<Rightarrow>
        if accepts (net a) then
          (\<exists>frame. tx_frames (net' a) = tx_frames (net a) @ [frame] \<and> is_frame tid sz frame (deref p)) \<and>
          (\<forall>b. b \<noteq> a \<longrightarrow> net' b = net b) \<and> event_ptr_get ev' = None \<and> cs = event_ptr_dtor ev
        else ev' = ev \<and> cs = [] \<and> net' = net"
proof (cases "route_of r (target_of (deref p))")
  case None
  with assms(5) mesh_on_route [OF assms(1)] show ?thesis by simp
next
  case (Some a)
  show ?thesis
  proof (cases "accepts (net a)")
    case True
    then obtain nc frame where push: "net_push tid deref ev (net a) = (True, fst (event_ptr_reset ev), snd (event_ptr_reset ev), nc)"
        "tx_frames nc = tx_frames (net a) @ [write_frame tid (deref p) frame]" "length frame = frame_size sz"
      using net_push_appends [of k sz "net a" ev p deref tid] assms(1,2) assms(3,4) [of a] by (auto simp: accepts_def is_alive_def)
    then have "is_frame tid sz (write_frame tid (deref p) frame) (deref p)"
      using assms(2) by (simp add: is_frame_def length_write_frame)
    moreover have "ev' = fst (event_ptr_reset ev)" "cs = snd (event_ptr_reset ev)" "net' = net(a := nc)"
      using assms(5) mesh_on_route [OF assms(1)] Some True push(1) by (auto simp: accepts_def)
    ultimately show ?thesis using Some True push(2) by (simp add: event_ptr_defs Let_def split: option.splits)
  next
    case False
    with Some assms(5) mesh_on_route [OF assms(1)] net_push_refuses [OF assms(3), of a tid deref ev] show ?thesis
      by (cases "is_alive (net a)") (auto simp: fun_upd_idem)
  qed
qed


theorem mesh_routes_or_keeps_witness:
  "\<exists>frame ev' net'. mesh_on 9 (\<lambda>_. [1]) (\<lambda>b. ucast (hd b)) (bind_route 1 7 (mesh_init 2))
      (event_ptr_of (Some ()) (Some ()) (Some ())) (\<lambda>_. tiny) =
      (ev', [((), Some (), ())], net') \<and> event_ptr_get ev' = None \<and>
    tx_frames (net' 7) = [frame] \<and> is_frame 9 1 frame [1]"
proof -
  let ?ev = "event_ptr_of (Some ()) (Some ()) (Some ())" and ?r = "bind_route 1 7 (mesh_init 2)"
  obtain ev' cs net' where on: "mesh_on 9 (\<lambda>_. [1]) (\<lambda>b. ucast (hd b)) ?r ?ev (\<lambda>_. tiny) = (ev', cs, net')"
    by (cases "mesh_on 9 (\<lambda>_. [1]) (\<lambda>b. ucast (hd b)) ?r ?ev (\<lambda>_. tiny)")
  have inv: "tx_inv 1 1 tiny" "unat (tx_head tiny) < 2 ^ 64 - 1" "accepts tiny" "tx_frames tiny = []"
    by (simp_all add: tiny_def bind_socket_def net_init_def tx_inv_def accepts_def is_alive_def tx_frames_def)
  have "route_of ?r 1 = Some 7" by simp
  with mesh_routes_or_keeps [OF _ _ inv(1,2) on, of "()"] inv(3,4) obtain frame where
      "tx_frames (net' 7) = [frame]" "is_frame 9 1 frame [1]" "event_ptr_get ev' = None" "cs = event_ptr_dtor ?ev"
    by (auto simp: event_ptr_of_def event_ptr_get_def)
  with on show ?thesis by (auto simp: event_ptr_dtor_def event_ptr_reset_def event_ptr_of_def)
qed

end
