(* ===== verification/Clock_Node.thy ===== *)
theory Clock_Node
  imports Conduit_Prelude
begin

text \<open>
  \<open>clock_node\<close> of \<open>include/conduit/pending/io/clock_node.hpp\<close>: a loop on an I/O thread that turns the passing of
  time into tick events. Clock readings are integers of nanoseconds. Each round of the loop is given
  whether \<open>stop\<close> was called, what \<open>steady_clock::now()\<close> returns, whether the domain has a cell for
  the event and whether the conduit takes it; an event that is not taken is destroyed.
\<close>

section \<open>The node\<close>

text \<open>\<open>duration_cast\<close> to milliseconds rounds towards zero.\<close>

definition to_ms :: "int \<Rightarrow> int" where
  "to_ms t = (if 0 \<le> t then t div 1000000 else - ((- t) div 1000000))"

record tick_event =
  timestamp_ms :: int
  delta_ms :: int

record clock_node =
  resolution_ms :: u32
  clock_running :: bool

definition clock_init :: "u32 \<Rightarrow> clock_node" where
  "clock_init resolution = \<lparr>resolution_ms = resolution, clock_running = False\<rparr>"

type_synonym clock_round = "bool \<times> int \<times> bool \<times> bool"

fun clock_loop ::
  "clock_round list \<Rightarrow> int \<Rightarrow> int \<Rightarrow> clock_node \<Rightarrow> tick_event list \<Rightarrow> (clock_node \<times> tick_event list) outcome" where
  "clock_loop [] absolute_start last_tick c out = Pending"
| "clock_loop ((stopped, now, made, pushed) # rounds) absolute_start last_tick c out =
     (if stopped then Done (c\<lparr>clock_running := False\<rparr>, out)
      else
        let elapsed = to_ms (now - last_tick)
        in if elapsed \<ge> int (unat (resolution_ms c)) then
             let abs_now = to_ms (absolute_start + (now - last_tick));
                 ev = \<lparr>timestamp_ms = abs_now, delta_ms = elapsed\<rparr>
             in clock_loop rounds absolute_start now c (if made \<and> pushed then out @ [ev] else out)
           else clock_loop rounds absolute_start last_tick c out)"

definition clock_run :: "clock_round list \<Rightarrow> int \<Rightarrow> int \<Rightarrow> clock_node \<Rightarrow> (clock_node \<times> tick_event list) outcome" where
  "clock_run rounds steady_now system_now c =
     clock_loop rounds system_now steady_now (c\<lparr>clock_running := True\<rparr>) []"

definition clock_stop :: "clock_node \<Rightarrow> clock_node" where
  "clock_stop c = c\<lparr>clock_running := False\<rparr>"

section \<open>Ticks are at least a resolution apart\<close>

text \<open>The readings of a steady clock never go back.\<close>

fun steady :: "int \<Rightarrow> clock_round list \<Rightarrow> bool" where
  "steady t [] \<longleftrightarrow> True"
| "steady t ((stopped, now, made, pushed) # rounds) \<longleftrightarrow> t \<le> now \<and> steady now rounds"

lemma to_ms_nonneg: "0 \<le> t \<Longrightarrow> to_ms t = t div 1000000"
  by (simp add: to_ms_def)

lemma to_ms_add: "0 \<le> a \<Longrightarrow> 0 \<le> b \<Longrightarrow> to_ms a + to_ms b \<le> to_ms (a + b)"
  by (simp add: to_ms_def)

lemma to_ms_mono: "0 \<le> a \<Longrightarrow> a \<le> b \<Longrightarrow> to_ms a \<le> to_ms b"
  by (simp add: to_ms_def zdiv_mono1)

fun last_reading :: "int \<Rightarrow> clock_round list \<Rightarrow> int" where
  "last_reading t [] = t"
| "last_reading t ((stopped, now, made, pushed) # rounds) = (if stopped then t else last_reading now rounds)"

lemma steady_last: "steady t rounds \<Longrightarrow> t \<le> last_reading t rounds"
  by (induction t rounds rule: last_reading.induct) auto

text \<open>The deltas that are sent add up to no more than the time that has passed.\<close>

lemma clock_loop_deltas:
  assumes "clock_loop rounds start prev c out = Done (c', out')" "prev \<le> t" "steady t rounds"
  shows "\<exists>new. out' = out @ new \<and> (\<forall>e \<in> set new. int (unat (resolution_ms c)) \<le> delta_ms e) \<and>
    sum_list (map delta_ms new) \<le> to_ms (last_reading t rounds - prev)"
  using assms
proof (induction rounds start prev c out arbitrary: t rule: clock_loop.induct)
  case (2 stopped now made pushed rounds start prev c out)
  show ?case
  proof (cases "stopped")
    case True
    with 2 show ?thesis by (auto simp: to_ms_def)
  next
    case False
    have st: "t \<le> now" "steady now rounds" "prev \<le> now" using 2(4,5) by auto
    have later: "now \<le> last_reading now rounds" using steady_last [OF st(2)] .
    show ?thesis
    proof (cases "to_ms (now - prev) \<ge> int (unat (resolution_ms c))")
      case True
      let ?ev = "\<lparr>timestamp_ms = to_ms (start + (now - prev)), delta_ms = to_ms (now - prev)\<rparr>"
      obtain new where new: "out' = (if made \<and> pushed then out @ [?ev] else out) @ new"
          "\<forall>e \<in> set new. int (unat (resolution_ms c)) \<le> delta_ms e"
          "sum_list (map delta_ms new) \<le> to_ms (last_reading now rounds - now)"
        using 2(1) [OF False refl True refl refl _ order_refl st(2)] 2(3) False True by (auto simp: Let_def)
      have "to_ms (now - prev) + to_ms (last_reading now rounds - now) \<le> to_ms (last_reading now rounds - prev)"
        using to_ms_add [of "now - prev" "last_reading now rounds - now"] st later by simp
      moreover have "0 \<le> to_ms (now - prev)" using st(3) by (simp add: to_ms_def)
      ultimately have "sum_list (map delta_ms new) \<le> to_ms (last_reading now rounds - prev)"
          "to_ms (now - prev) + sum_list (map delta_ms new) \<le> to_ms (last_reading now rounds - prev)"
        using new(3) by linarith+
      then have "if made \<and> pushed then to_ms (now - prev) + sum_list (map delta_ms new) \<le> to_ms (last_reading now rounds - prev)
          else sum_list (map delta_ms new) \<le> to_ms (last_reading now rounds - prev)" by simp
      then show ?thesis
        using new(1,2) True False
        by (intro exI [of _ "(if made \<and> pushed then [?ev] else []) @ new"]) (auto split: if_splits)
    next
      case F: False
      with 2(2) [OF False refl F _ st(3,2)] 2(3) False show ?thesis
        by (auto simp: Let_def)
    qed
  qed
qed simp


section \<open>Regular ticks\<close>

text \<open>A clock that is read every \<open>gap\<close> nanoseconds, with what the domain and the conduit answer each time.\<close>

fun regular :: "int \<Rightarrow> int \<Rightarrow> (bool \<times> bool) list \<Rightarrow> clock_round list" where
  "regular t gap [] = []"
| "regular t gap ((made, pushed) # fs) = (False, t + gap, made, pushed) # regular (t + gap) gap fs"

lemma clock_loop_regular:
  assumes "int (unat (resolution_ms c)) \<le> to_ms gap"
  shows "clock_loop (regular t gap fs @ [(True, r)]) start t c out =
    Done (c\<lparr>clock_running := False\<rparr>,
      out @ replicate (length (filter (\<lambda>(made, pushed). made \<and> pushed) fs)) \<lparr>timestamp_ms = to_ms (start + gap), delta_ms = to_ms gap\<rparr>)"
proof (induction fs arbitrary: t out)
  case Nil
  then show ?case by (cases r) simp
next
  case (Cons f fs)
  then show ?case using assms by (cases f) (auto simp: Let_def)
qed

section \<open>Properties\<close>

text \<open>Ticks keep the resolution and never invent time: on a steady clock every tick that reaches the conduit reports
  at least the resolution as its delta, and all reported deltas together are at most the time that
  has passed since \<open>run\<close> began.\<close>

theorem clock_ticks_bounded:
  assumes "clock_run rounds t0 system_now (clock_init resolution) = Done (c, ticks)" "steady t0 rounds"
  shows "(\<forall>e \<in> set ticks. int (unat resolution) \<le> delta_ms e) \<and>
    sum_list (map delta_ms ticks) \<le> to_ms (last_reading t0 rounds - t0)"
  using clock_loop_deltas [OF _ order_refl assms(2)] assms(1) by (fastforce simp: clock_run_def clock_init_def)

theorem clock_ticks_bounded_witness:
  "\<exists>c. clock_run [(False, 12000000, True, True), (False, 19000000, True, True), (False, 31000000, True, False), (True, 0, True, True)]
      0 5000000000 (clock_init 10) = Done (c, [\<lparr>timestamp_ms = 5012, delta_ms = 12\<rparr>]) \<and> (12 :: int) \<le> 31"
proof -
  let ?rounds = "[(False, 12000000, True, True), (False, 19000000, True, True), (False, 31000000, True, False), (True, 0, True, True)]"
  obtain c where c: "clock_run ?rounds 0 5000000000 (clock_init 10) = Done (c, [\<lparr>timestamp_ms = 5012, delta_ms = 12\<rparr>])"
    by (simp add: clock_run_def clock_init_def to_ms_def)
  show ?thesis
    using clock_ticks_bounded [OF c] c by (auto simp: to_ms_def)
qed

text \<open>The time stamp of the clock does not advance, and lost ticks leave no trace: if the clock is read at equal
  distances of at least the resolution, all ticks that reach the conduit are equal, with the same
  time stamp (the start plus one distance) and the same delta, however many there are and however
  many were lost between them for want of a cell or of room in the conduit.\<close>

theorem clock_time_stands_still:
  assumes "int (unat resolution) \<le> to_ms gap"
  shows "\<exists>c. clock_run (regular t0 gap fs @ [(True, r)]) t0 system_now (clock_init resolution) =
    Done (c, replicate (length (filter (\<lambda>(made, pushed). made \<and> pushed) fs))
      \<lparr>timestamp_ms = to_ms (system_now + gap), delta_ms = to_ms gap\<rparr>)"
  using clock_loop_regular [of "(clock_init resolution)\<lparr>clock_running := True\<rparr>" gap t0 fs r system_now "[]"] assms
  by (auto simp: clock_run_def clock_init_def)

theorem clock_time_stands_still_witness:
  "\<exists>c. clock_run (regular 0 20000000 [(True, True), (True, False), (False, False), (True, True)] @ [(True, 0, True, True)]) 0
      5000000000 (clock_init 10) = Done (c, [\<lparr>timestamp_ms = 5020, delta_ms = 20\<rparr>, \<lparr>timestamp_ms = 5020, delta_ms = 20\<rparr>])"
  using clock_time_stands_still [of 10 20000000 0 "[(True, True), (True, False), (False, False), (True, True)]" "(0, True, True)" 5000000000]
  by (simp add: to_ms_def)

end
