(* ===== verification/Environment.thy ===== *)
theory Environment
  imports Spsc_Ring Cpu_Affinity
begin

text \<open>
  \<open>environment\<close> of \<open>include/conduit/pending/supplemental/environment.hpp\<close>: worker threads that pop events from a
  ring and give them to a node until the shared flag is cleared, and threads that run an I/O node
  with a loop of its own. Threads run from the moment they are spawned; the steps of all threads
  interleave. What a node does with an event is its own; a worker records the events it has
  given to it.
\<close>

section \<open>The environment\<close>

text \<open>A worker is about to check the flag, about to pop, or gone. \<open>wk_fed\<close> are the events its ring has taken.\<close>

datatype worker_pc = W_Check | W_Pop | W_Exited

record 'p worker =
  wk_pc :: worker_pc
  wk_ring :: "'p spsc_ring"
  wk_handled :: "'p list"
  wk_fed :: "'p list"

text \<open>What a thread runs: the loop of a worker, or \<open>io_node.run()\<close>, which may have returned. A thread has the
  processors it may run on, and is joinable until it is joined.\<close>

datatype 'p thread_body = Worker_Body "'p worker" | Io_Body bool

record 'p env_thread =
  thr_body :: "'p thread_body"
  thr_cpus :: "nat set"
  thr_joined :: bool

record 'p environment =
  env_workers :: "'p env_thread list"
  env_running :: bool

definition env_init :: "'p environment" where
  "env_init = \<lparr>env_workers = [], env_running = False\<rparr>"

definition pin_env_thread :: "setaffinity \<Rightarrow> int \<Rightarrow> 'p env_thread \<Rightarrow> 'p env_thread" where
  "pin_env_thread sched core_id t =
     (if core_id < 0 then t else t\<lparr>thr_cpus := snd (set_affinity sched core_id (thr_cpus t))\<rparr>)"

definition spawn_worker :: "setaffinity \<Rightarrow> nat set \<Rightarrow> 'p spsc_ring \<Rightarrow> int \<Rightarrow> 'p environment \<Rightarrow> 'p environment" where
  "spawn_worker sched cpus rx_conduit cpu_core env =
     env\<lparr>env_workers := env_workers env @
       [pin_env_thread sched cpu_core
          \<lparr>thr_body = Worker_Body \<lparr>wk_pc = W_Check, wk_ring = rx_conduit, wk_handled = [], wk_fed = []\<rparr>,
           thr_cpus = cpus, thr_joined = False\<rparr>]\<rparr>"

definition spawn_io_node :: "setaffinity \<Rightarrow> nat set \<Rightarrow> int \<Rightarrow> 'p environment \<Rightarrow> 'p environment" where
  "spawn_io_node sched cpus cpu_core env =
     env\<lparr>env_workers := env_workers env @
       [pin_env_thread sched cpu_core \<lparr>thr_body = Io_Body False, thr_cpus = cpus, thr_joined = False\<rparr>]\<rparr>"

definition env_start :: "'p environment \<Rightarrow> 'p environment" where
  "env_start env = env\<lparr>env_running := True\<rparr>"

definition env_stop :: "'p environment \<Rightarrow> 'p environment" where
  "env_stop env = env\<lparr>env_running := False\<rparr>"

text \<open>One step of the lambda that a worker thread runs.\<close>

definition worker_step :: "bool \<Rightarrow> 'p worker \<Rightarrow> 'p worker" where
  "worker_step is_running w =
     (case wk_pc w of
        W_Check \<Rightarrow> w\<lparr>wk_pc := if is_running then W_Pop else W_Exited\<rparr>
      | W_Pop \<Rightarrow>
          let (ev, r) = rb_pop (wk_ring w); w1 = w\<lparr>wk_pc := W_Check, wk_ring := r\<rparr>
          in (case ev of Some x \<Rightarrow> w1\<lparr>wk_handled := wk_handled w1 @ [x]\<rparr> | None \<Rightarrow> w1)
      | W_Exited \<Rightarrow> w)"

definition thread_finished :: "'p env_thread \<Rightarrow> bool" where
  "thread_finished t = (case thr_body t of Worker_Body w \<Rightarrow> wk_pc w = W_Exited | Io_Body over \<Rightarrow> over)"

text \<open>\<open>wait_for_shutdown\<close> joins the threads one after another and waits for each to end.\<close>

fun join_all :: "'p env_thread list \<Rightarrow> 'p env_thread list outcome" where
  "join_all [] = Done []"
| "join_all (t # ts) =
     (if thr_joined t \<or> thread_finished t
      then map_outcome_result (\<lambda>ts. t\<lparr>thr_joined := True\<rparr> # ts) (join_all ts)
      else Pending)"

definition wait_for_shutdown :: "'p environment \<Rightarrow> 'p environment outcome" where
  "wait_for_shutdown env = map_outcome_result (\<lambda>ts. env\<lparr>env_workers := ts\<rparr>) (join_all (env_workers env))"

text \<open>The destructor calls \<open>stop\<close>; then the vector destroys its threads, and destroying a thread that is
  joinable ends the program (\<open>std::terminate\<close>).\<close>

definition env_dtor :: "'p environment \<Rightarrow> 'p environment outcome" where
  "env_dtor env =
     (let env1 = env_stop env in if \<exists>t \<in> set (env_workers env1). \<not> thr_joined t then Fault else Done env1)"

section \<open>Interleavings\<close>

text \<open>\<open>Spawn k core\<close> spawns a worker on a new ring of \<open>2 ^ k\<close> slots and \<open>Spawn_Io core\<close> an I/O node; \<open>Worker i\<close> is a
  step of a worker, \<open>Io_Return i\<close> the end of an I/O node's own loop, \<open>Feed i x\<close> a push into a
  worker's ring by a producer.\<close>

datatype 'p env_act = Spawn nat int | Spawn_Io int | Start | Stop | Worker nat | Io_Return nat | Feed nat 'p

definition on_thread :: "nat \<Rightarrow> ('p thread_body \<Rightarrow> 'p thread_body) \<Rightarrow> 'p environment \<Rightarrow> 'p environment" where
  "on_thread i f env =
     (if i < length (env_workers env)
      then env\<lparr>env_workers := (env_workers env)[i := (env_workers env ! i)\<lparr>thr_body := f (thr_body (env_workers env ! i))\<rparr>]\<rparr>
      else env)"

fun on_worker :: "('p worker \<Rightarrow> 'p worker) \<Rightarrow> 'p thread_body \<Rightarrow> 'p thread_body" where
  "on_worker f (Worker_Body w) = Worker_Body (f w)"
| "on_worker f (Io_Body b) = Io_Body b"

fun io_return :: "'p thread_body \<Rightarrow> 'p thread_body" where
  "io_return (Worker_Body w) = Worker_Body w"
| "io_return (Io_Body b) = Io_Body True"

definition feed :: "'p \<Rightarrow> 'p worker \<Rightarrow> 'p worker" where
  "feed x w = (let (ok, r) = rb_push (Some x) (wk_ring w) in w\<lparr>wk_ring := r, wk_fed := wk_fed w @ (if ok then [x] else [])\<rparr>)"

fun env_step :: "setaffinity \<Rightarrow> nat set \<Rightarrow> 'p env_act \<Rightarrow> 'p environment \<Rightarrow> 'p environment" where
  "env_step sched cpus (Spawn k core) env = spawn_worker sched cpus (rb_init (2 ^ k)) core env"
| "env_step sched cpus (Spawn_Io core) env = spawn_io_node sched cpus core env"
| "env_step sched cpus Start env = env_start env"
| "env_step sched cpus Stop env = env_stop env"
| "env_step sched cpus (Worker i) env = on_thread i (on_worker (worker_step (env_running env))) env"
| "env_step sched cpus (Io_Return i) env = on_thread i io_return env"
| "env_step sched cpus (Feed i x) env = on_thread i (on_worker (feed x)) env"

definition env_run :: "setaffinity \<Rightarrow> nat set \<Rightarrow> 'p env_act list \<Rightarrow> 'p environment \<Rightarrow> 'p environment" where
  "env_run sched cpus acts env = fold (env_step sched cpus) acts env"

section \<open>What a worker has handled\<close>

definition worker_inv :: "'p worker \<Rightarrow> bool" where
  "worker_inv w \<longleftrightarrow> (\<exists>k. rb_inv k (wk_ring w)) \<and> wk_handled w @ rb_items (wk_ring w) = wk_fed w"

definition body_inv :: "'p thread_body \<Rightarrow> bool" where
  "body_inv b = (case b of Worker_Body w \<Rightarrow> worker_inv w | Io_Body over \<Rightarrow> True)"

definition env_inv :: "'p environment \<Rightarrow> bool" where
  "env_inv env \<longleftrightarrow> (\<forall>t \<in> set (env_workers env). body_inv (thr_body t))"

lemma worker_step_inv:
  assumes "worker_inv w"
  shows "worker_inv (worker_step b w)"
proof -
  obtain k where k: "rb_inv k (wk_ring w)" "wk_handled w @ rb_items (wk_ring w) = wk_fed w"
    using assms by (auto simp: worker_inv_def)
  obtain ev r where pop: "rb_pop (wk_ring w) = (ev, r)" by (cases "rb_pop (wk_ring w)")
  then have "rb_inv k r" "(case ev of None \<Rightarrow> [] | Some x \<Rightarrow> [x]) @ rb_items r = rb_items (wk_ring w)"
    using rq.invar_pop [OF k(1)] rq.pop_refines [OF k(1)] by (auto simp: spec_pop_def split: list.splits)
  with k pop show ?thesis by (auto simp: worker_step_def worker_inv_def Let_def split: worker_pc.splits option.splits)
qed

lemma feed_inv:
  assumes "worker_inv w"
  shows "worker_inv (feed x w)"
proof -
  obtain k where k: "rb_inv k (wk_ring w)" "wk_handled w @ rb_items (wk_ring w) = wk_fed w"
    using assms by (auto simp: worker_inv_def)
  obtain ok r where push: "rb_push (Some x) (wk_ring w) = (ok, r)" by (cases "rb_push (Some x) (wk_ring w)")
  then have "rb_inv k r" "rb_items r = rb_items (wk_ring w) @ (if ok then [x] else [])"
    using rq.invar_push [OF k(1), of x] rq.push_refines [OF k(1), of x]
    by (auto simp: rb_push_item_def spec_push_def split: if_splits)
  then show ?thesis using k by (auto simp: worker_inv_def feed_def push simp flip: append_assoc)
qed

lemma on_thread_length [simp]: "length (env_workers (on_thread i f env)) = length (env_workers env)"
  by (simp add: on_thread_def)

lemma pin_body [simp]:
  "thr_body (pin_env_thread sched core t) = thr_body t" "thr_joined (pin_env_thread sched core t) = thr_joined t"
  by (simp_all add: pin_env_thread_def)

lemma body_inv_ops:
  assumes "body_inv b"
  shows "body_inv (on_worker (worker_step r) b)" "body_inv (on_worker (feed x) b)" "body_inv (io_return b)"
  using assms by (cases b; simp add: body_inv_def worker_step_inv feed_inv)+

lemma on_thread_inv: "env_inv env \<Longrightarrow> (\<And>b. body_inv b \<Longrightarrow> body_inv (f b)) \<Longrightarrow> env_inv (on_thread i f env)"
  by (auto simp: env_inv_def on_thread_def dest!: set_update_subset_insert [THEN subsetD])

fun ring_ok :: "'p env_act \<Rightarrow> bool" where
  "ring_ok (Spawn k core) \<longleftrightarrow> k < 32"
| "ring_ok _ \<longleftrightarrow> True"

lemma env_step_inv:
  assumes "env_inv env" "ring_ok a"
  shows "env_inv (env_step sched cpus a env)"
proof (cases a)
  case (Spawn k core)
  then have "worker_inv \<lparr>wk_pc = W_Check, wk_ring = rb_init (2 ^ k), wk_handled = [], wk_fed = []\<rparr>"
    using rb_init_inv(1,2) [OF _ refl, of k] assms(2) by (auto simp: worker_inv_def)
  with Spawn assms(1) show ?thesis by (auto simp: env_inv_def spawn_worker_def body_inv_def)
next
  case (Spawn_Io core)
  with assms(1) show ?thesis by (auto simp: env_inv_def spawn_io_node_def body_inv_def)
next
  case Start
  with assms(1) show ?thesis by (simp add: env_inv_def env_start_def)
next
  case Stop
  with assms(1) show ?thesis by (simp add: env_inv_def env_stop_def)
qed (simp_all add: on_thread_inv [OF assms(1)] body_inv_ops)

lemma env_run_inv: "list_all ring_ok acts \<Longrightarrow> env_inv env \<Longrightarrow> env_inv (env_run sched cpus acts env)"
  by (induction acts arbitrary: env) (auto simp: env_run_def env_step_inv)

text \<open>A worker that is gone never comes back, and only its own return ends an I/O node.\<close>

definition gone :: "'p list \<Rightarrow> 'p thread_body \<Rightarrow> bool" where
  "gone handled b \<longleftrightarrow> (\<exists>w. b = Worker_Body w \<and> wk_pc w = W_Exited \<and> wk_handled w = handled)"

lemma gone_keeps:
  assumes "gone handled b"
  shows "gone handled (on_worker (worker_step r) b)" "gone handled (on_worker (feed x) b)" "gone handled (io_return b)"
  using assms by (auto simp: gone_def worker_step_def feed_def Let_def split_beta)

lemma body_step:
  assumes "i < length (env_workers env)" "P (thr_body (env_workers env ! i))"
    and "\<And>b r. P b \<Longrightarrow> P (on_worker (worker_step r) b)" "\<And>b x. P b \<Longrightarrow> P (on_worker (feed x) b)"
    and "\<And>b. P b \<Longrightarrow> a = Io_Return i \<Longrightarrow> P (io_return b)"
  shows "i < length (env_workers (env_step sched cpus a env)) \<and> P (thr_body (env_workers (env_step sched cpus a env) ! i))"
  using assms by (cases a) (auto simp: spawn_worker_def spawn_io_node_def env_start_def env_stop_def on_thread_def nth_append nth_list_update)

lemma body_run:
  assumes "\<And>b r. P b \<Longrightarrow> P (on_worker (worker_step r) b)" "\<And>b x. P b \<Longrightarrow> P (on_worker (feed x) b)"
    and "\<And>b. P b \<Longrightarrow> Io_Return i \<in> set acts \<Longrightarrow> P (io_return b)"
  shows "i < length (env_workers env) \<Longrightarrow> P (thr_body (env_workers env ! i)) \<Longrightarrow>
    i < length (env_workers (env_run sched cpus acts env)) \<and> P (thr_body (env_workers (env_run sched cpus acts env) ! i))"
  using assms(3)
proof (induction acts arbitrary: env)
  case (Cons a acts)
  have "i < length (env_workers (env_step sched cpus a env)) \<and> P (thr_body (env_workers (env_step sched cpus a env) ! i))"
    using Cons.prems by (intro body_step assms(1,2)) auto
  then show ?case using Cons.IH [of "env_step sched cpus a env"] Cons.prems(3) by (simp add: env_run_def)
qed (simp add: env_run_def)

text \<open>Threads are only ever added, and only joined by \<open>wait_for_shutdown\<close>.\<close>

lemma joined_run:
  "i < length (env_workers env) \<Longrightarrow> thr_joined (env_workers (env_run sched cpus acts env) ! i) = thr_joined (env_workers env ! i)"
proof (induction acts arbitrary: env)
  case (Cons a acts)
  have "i < length (env_workers (env_step sched cpus a env)) \<and>
      thr_joined (env_workers (env_step sched cpus a env) ! i) = thr_joined (env_workers env ! i)"
    using Cons.prems
    by (cases a) (auto simp: spawn_worker_def spawn_io_node_def env_start_def env_stop_def on_thread_def nth_append nth_list_update)
  then show ?case using Cons.IH [of "env_step sched cpus a env"] by (simp add: env_run_def)
qed (simp add: env_run_def)

lemma unjoined_run:
  "\<forall>t \<in> set (env_workers env). \<not> thr_joined t \<Longrightarrow> \<forall>t \<in> set (env_workers (env_run sched cpus acts env)). \<not> thr_joined t"
proof (induction acts arbitrary: env)
  case (Cons a acts)
  have "\<forall>t \<in> set (env_workers (env_step sched cpus a env)). \<not> thr_joined t"
    using Cons.prems
    by (cases a) (auto simp: spawn_worker_def spawn_io_node_def env_start_def env_stop_def on_thread_def
        dest!: set_update_subset_insert [THEN subsetD])
  then show ?case using Cons.IH [of "env_step sched cpus a env"] by (simp add: env_run_def)
qed (simp add: env_run_def)

fun spawns :: "'p env_act \<Rightarrow> bool" where
  "spawns (Spawn k core) \<longleftrightarrow> True"
| "spawns (Spawn_Io core) \<longleftrightarrow> True"
| "spawns _ \<longleftrightarrow> False"

lemma length_run:
  "length (env_workers (env_run sched cpus acts env)) = length (env_workers env) + length (filter spawns acts)"
proof (induction acts arbitrary: env)
  case (Cons a acts)
  have "length (env_workers (env_step sched cpus a env)) = length (env_workers env) + of_bool (spawns a)"
    by (cases a) (simp_all add: spawn_worker_def spawn_io_node_def env_start_def env_stop_def)
  then show ?case using Cons.IH [of "env_step sched cpus a env"] by (simp add: env_run_def)
qed (simp add: env_run_def)

lemma join_all_blocked: "t \<in> set ts \<Longrightarrow> \<not> thr_joined t \<Longrightarrow> \<not> thread_finished t \<Longrightarrow> join_all ts = Pending"
  by (induction ts) auto

lemma join_all_joined: "join_all ts = Done ts' \<Longrightarrow> \<forall>t \<in> set ts'. thr_joined t"
  by (induction ts arbitrary: ts') (auto simp: map_outcome_result_Done split: if_splits)

text \<open>Once the flag is cleared a worker is gone after two steps of its own.\<close>

lemma stopped_worker_exits: "wk_pc (worker_step False (worker_step False w)) = W_Exited"
  by (cases "wk_pc w") (auto simp: worker_step_def Let_def split: prod.splits option.splits)

section \<open>Properties\<close>

text \<open>C38: However the threads interleave, each worker hands its node exactly the events its conduit took, once and in
  order: those handled so far followed by those still queued are the ones that were fed.\<close>

theorem workers_in_order:
  fixes acts :: "'p env_act list"
  assumes "list_all ring_ok acts" "t \<in> set (env_workers (env_run sched cpus acts env_init))" "thr_body t = Worker_Body w"
  shows "wk_handled w @ rb_items (wk_ring w) = wk_fed w"
proof -
  have "env_inv (env_init :: 'p environment)" by (simp add: env_inv_def env_init_def)
  from env_run_inv [OF assms(1) this, of sched cpus] have "body_inv (thr_body t)" using assms(2) by (simp add: env_inv_def)
  then show ?thesis using assms(3) by (simp add: body_inv_def worker_inv_def)
qed

theorem workers_in_order_witness:
  "\<exists>w. thr_body (env_workers (env_run (\<lambda>_. 0) {0, 1} [Start, Spawn 2 1, Feed 0 (5 :: nat), Worker 0, Feed 0 6, Worker 0, Stop] env_init) ! 0) =
       Worker_Body w \<and> wk_handled w @ rb_items (wk_ring w) = wk_fed w"
proof -
  let ?acts = "[Start, Spawn 2 1, Feed 0 (5 :: nat), Worker 0, Feed 0 6, Worker 0, Stop]"
  let ?env = "env_run (\<lambda>_. 0) {0, 1} ?acts env_init"
  have "length (env_workers ?env) = 1"
    by (simp add: env_run_def env_init_def env_start_def env_stop_def spawn_worker_def)
  then have mem: "env_workers ?env ! 0 \<in> set (env_workers ?env)"
    by (intro nth_mem) linarith
  have "\<exists>w. thr_body (env_workers ?env ! 0) = Worker_Body w"
    by (simp add: env_run_def env_init_def env_start_def env_stop_def spawn_worker_def on_thread_def)
  then obtain w where w: "thr_body (env_workers ?env ! 0) = Worker_Body w" ..
  from workers_in_order [OF _ mem w] show ?thesis using w by simp
qed

text \<open>A worker that is spawned before \<open>start\<close> can be lost: if its thread looks at the flag before \<open>start\<close> sets it, the
  thread ends, and whatever happens afterwards it never handles an event, although the environment
  was started and events are fed to it.\<close>

theorem early_worker_lost:
  fixes acts :: "'p env_act list"
  shows "\<exists>w. thr_body (env_workers (env_run sched cpus ([Spawn k core, Worker 0, Start] @ acts) env_init) ! 0) = Worker_Body w \<and>
    wk_pc w = W_Exited \<and> wk_handled w = []"
proof -
  let ?env = "env_run sched cpus [Spawn k core, Worker 0, Start] env_init :: 'p environment"
  have "0 < length (env_workers ?env)" "gone [] (thr_body (env_workers ?env ! 0))"
    by (simp_all add: env_run_def env_init_def spawn_worker_def env_start_def on_thread_def worker_step_def gone_def)
  from body_run [of "gone []", OF gone_keeps this, of acts sched cpus] show ?thesis
    by (auto simp: env_run_def gone_def)
qed

text \<open>Stopping an environment does not stop its I/O nodes: as long as such a node does not return of its own
  accord, \<open>wait_for_shutdown\<close> never returns, whatever else happens and whether or not \<open>stop\<close> was called.\<close>

theorem io_node_blocks_shutdown:
  fixes acts :: "'p env_act list"
  assumes "Io_Return (length (env_workers env)) \<notin> set acts"
  shows "wait_for_shutdown (env_run sched cpus (Spawn_Io core # acts) env) = Pending"
proof -
  let ?i = "length (env_workers env)" and ?env = "spawn_io_node sched cpus core env"
  have i: "?i < length (env_workers ?env)" "thr_body (env_workers ?env ! ?i) = Io_Body False" "\<not> thr_joined (env_workers ?env ! ?i)"
    by (simp_all add: spawn_io_node_def)
  have run: "?i < length (env_workers (env_run sched cpus acts ?env)) \<and> thr_body (env_workers (env_run sched cpus acts ?env) ! ?i) = Io_Body False"
    using body_run [of "\<lambda>b. b = Io_Body False" ?i acts ?env sched cpus] i(1,2) assms by simp
  then have "env_workers (env_run sched cpus acts ?env) ! ?i \<in> set (env_workers (env_run sched cpus acts ?env))"
    by (intro nth_mem) simp
  moreover have "\<not> thr_joined (env_workers (env_run sched cpus acts ?env) ! ?i)" using joined_run [OF i(1)] i(3) by blast
  moreover have "\<not> thread_finished (env_workers (env_run sched cpus acts ?env) ! ?i)" using run by (simp add: thread_finished_def)
  ultimately have "join_all (env_workers (env_run sched cpus acts ?env)) = Pending" by (rule join_all_blocked)
  then show ?thesis by (simp add: wait_for_shutdown_def env_run_def)
qed

theorem io_node_blocks_shutdown_witness:
  "wait_for_shutdown (env_run (\<lambda>_. 0) {0} (Spawn_Io 0 # [Start, Spawn 2 1, Feed 1 (5 :: nat), Worker 1, Stop, Worker 1]) env_init) = Pending"
  using io_node_blocks_shutdown [of env_init "[Start, Spawn 2 1, Feed 1 (5 :: nat), Worker 1, Stop, Worker 1]" "\<lambda>_. 0" "{0}" 0]
  by (simp add: env_init_def)

text \<open>C39: An environment that spawned a thread must be waited for: destroying it without \<open>wait_for_shutdown\<close> ends the
  whole program, for the destructor only clears the flag and the threads are still joinable, even
  those that have ended; after \<open>wait_for_shutdown\<close> has returned it can be destroyed.\<close>

theorem environment_needs_wait:
  fixes acts :: "'p env_act list"
  assumes "\<exists>a \<in> set acts. spawns a"
  shows "env_dtor (env_run sched cpus acts env_init) = Fault \<and>
    (\<forall>env. wait_for_shutdown (env_run sched cpus acts env_init) = Done env \<longrightarrow> env_dtor env = Done (env_stop env))"
proof -
  let ?env = "env_run sched cpus acts env_init :: 'p environment"
  have "env_workers ?env \<noteq> []"
    using length_run [of sched cpus acts "env_init :: 'p environment"] assms by (auto simp: filter_empty_conv)
  moreover have "\<forall>t \<in> set (env_workers ?env). \<not> thr_joined t" by (rule unjoined_run) (simp add: env_init_def)
  ultimately have "\<exists>t \<in> set (env_workers ?env). \<not> thr_joined t" by (metis hd_in_set)
  moreover have "env_dtor env = Done (env_stop env)" if "wait_for_shutdown ?env = Done env" for env
    using that join_all_joined [of "env_workers ?env"]
    by (auto simp: wait_for_shutdown_def map_outcome_result_Done env_dtor_def env_stop_def Let_def)
  ultimately show ?thesis by (simp add: env_dtor_def env_stop_def Let_def)
qed

theorem environment_needs_wait_witness:
  "env_dtor (env_run (\<lambda>_. 0) {0, 1} [Spawn 2 1, Start, Feed 0 (5 :: nat), Stop, Worker 0] env_init) = Fault"
  using environment_needs_wait [of "[Spawn 2 1, Start, Feed 0 (5 :: nat), Stop, Worker 0]" "\<lambda>_. 0" "{0, 1}"] by simp

end
