(* ===== verification/Async_Logger.thy ===== *)
theory Async_Logger
  imports Spsc_Ring Decimal
begin

text \<open>
  The logger of \<open>include/conduit/pending/supplemental/async_logger.hpp\<close>: clients push fixed-size log events, a node on
  an I/O thread formats them with the registered strings. The conduit is the ring of pointers; an
  event is not changed while it is queued, so the ring holds the events themselves. The reading of
  the clock and the answer of the domain are input.
\<close>

section \<open>Events and formats\<close>

record log_event =
  timestamp_ns :: u64
  message_id :: u16
  log_arg1 :: u64
  log_arg2 :: u64

record async_logger_node =
  log_ring :: "log_event spsc_ring"
  logger_running :: bool
  format_strings :: "string list"
  console :: "string list"

definition logger_init :: "log_event spsc_ring \<Rightarrow> async_logger_node" where
  "logger_init conduit = \<lparr>log_ring = conduit, logger_running = False, format_strings = [], console = []\<rparr>"

definition register_message :: "string \<Rightarrow> async_logger_node \<Rightarrow> u16 \<times> async_logger_node" where
  "register_message format_str n =
     (let n1 = n\<lparr>format_strings := format_strings n @ [format_str]\<rparr>
      in (of_nat (length (format_strings n1) - 1), n1))"

text \<open>\<open>find("{}")\<close>, with \<open>None\<close> for \<open>npos\<close>, and \<open>replace(pos, 2, text)\<close>.\<close>

fun find_braces :: "string \<Rightarrow> nat option" where
  "find_braces (a # b # s) =
     (if a = CHR ''{'' \<and> b = CHR ''}'' then Some 0 else map_option Suc (find_braces (b # s)))"
| "find_braces _ = None"

definition replace_two :: "nat \<Rightarrow> string \<Rightarrow> string \<Rightarrow> string" where
  "replace_two pos txt msg = take pos msg @ txt @ drop (pos + 2) msg"

definition fill_in :: "u64 \<Rightarrow> string \<Rightarrow> string" where
  "fill_in arg msg = (case find_braces msg of Some pos \<Rightarrow> replace_two pos (to_string (unat arg)) msg | None \<Rightarrow> msg)"

definition format_line :: "string list \<Rightarrow> log_event \<Rightarrow> string list" where
  "format_line formats ev =
     (if unat (message_id ev) < length formats then
        let msg = formats ! unat (message_id ev);
            msg1 = fill_in (log_arg1 ev) msg;
            msg2 = fill_in (log_arg2 ev) msg1
        in [''[LOG '' @ to_string (unat (timestamp_ns ev)) @ ''] '' @ msg2 @ [CHR 0x0A]]
      else [])"

section \<open>The client and the node\<close>

text \<open>\<open>log\<close>: without a cell, or without room in the conduit, the message is dropped.\<close>

definition logger_log :: "bool \<Rightarrow> u64 \<Rightarrow> u16 \<Rightarrow> u64 \<Rightarrow> u64 \<Rightarrow> async_logger_node \<Rightarrow> bool \<times> async_logger_node" where
  "logger_log made now msg_id a1 a2 n =
     (if made then
        let ev = \<lparr>timestamp_ns = now, message_id = msg_id, log_arg1 = a1, log_arg2 = a2\<rparr>;
            (ok, r) = rb_push (Some ev) (log_ring n)
        in (ok, n\<lparr>log_ring := r\<rparr>)
      else (False, n))"

text \<open>One round of the loop of \<open>run\<close>.\<close>

definition logger_round :: "async_logger_node \<Rightarrow> async_logger_node" where
  "logger_round n =
     (case rb_pop (log_ring n) of
        (Some ev, r) \<Rightarrow> n\<lparr>log_ring := r, console := console n @ format_line (format_strings n) ev\<rparr>
      | (None, r) \<Rightarrow> n\<lparr>log_ring := r\<rparr>)"

definition logger_stop :: "async_logger_node \<Rightarrow> async_logger_node" where
  "logger_stop n = n\<lparr>logger_running := False\<rparr>"

text \<open>What clients do before each check of the flag: messages, and whether one of them stops the node. \<open>acc\<close> collects
  the events that were taken.\<close>

type_synonym log_call = "bool \<times> u64 \<times> u16 \<times> u64 \<times> u64"

fun log_calls :: "log_call list \<Rightarrow> async_logger_node \<Rightarrow> log_event list \<times> async_logger_node" where
  "log_calls [] n = ([], n)"
| "log_calls ((made, now, i, a1, a2) # cs) n =
     (let (ok, n1) = logger_log made now i a1 a2 n; (acc, n2) = log_calls cs n1
      in ((if ok then [\<lparr>timestamp_ns = now, message_id = i, log_arg1 = a1, log_arg2 = a2\<rparr>] else []) @ acc, n2))"

fun logger_loop ::
  "(bool \<times> log_call list) list \<Rightarrow> async_logger_node \<Rightarrow> log_event list \<Rightarrow> (async_logger_node \<times> log_event list) outcome" where
  "logger_loop [] n acc = Pending"
| "logger_loop ((stopped, cs) # sched) n acc =
     (let (new, n1) = log_calls cs n; n2 = (if stopped then logger_stop n1 else n1)
      in if logger_running n2 then logger_loop sched (logger_round n2) (acc @ new) else Done (n2, acc @ new))"

definition logger_run :: "(bool \<times> log_call list) list \<Rightarrow> async_logger_node \<Rightarrow> (async_logger_node \<times> log_event list) outcome" where
  "logger_run sched n = logger_loop sched (n\<lparr>logger_running := True\<rparr>) []"

section \<open>Placeholders\<close>

lemma find_braces_here: "find_braces a = None \<Longrightarrow> find_braces (a @ CHR ''{'' # CHR ''}'' # s) = Some (length a)"
  by (induction a rule: find_braces.induct) (auto split: if_splits)

lemma find_braces_append:
  "find_braces x = None \<Longrightarrow> find_braces y = None \<Longrightarrow> x = [] \<or> y = [] \<or> last x \<noteq> CHR ''{'' \<or> hd y \<noteq> CHR ''}'' \<Longrightarrow>
   find_braces (x @ y) = None"
  by (induction x rule: find_braces.induct; cases y) (auto split: if_splits)

lemma find_braces_digits: "(\<And>c. c \<in> set d \<Longrightarrow> is_digit c) \<Longrightarrow> find_braces d = None"
  by (induction d rule: find_braces.induct) (use digit_not_special in \<open>auto\<close>)

lemma find_braces_number:
  assumes "find_braces a = None" "find_braces b = None"
  shows "find_braces (a @ to_string n @ b) = None"
proof -
  have d: "is_digit (hd (to_string n))" "is_digit (last (to_string n))"
    by (rule to_string_digits [OF hd_in_set [OF to_string_nonempty]], rule to_string_digits [OF last_in_set [OF to_string_nonempty]])
  have "find_braces (to_string n @ b) = None"
    using find_braces_append [OF find_braces_digits assms(2)] to_string_digits digit_not_special [OF d(2)] by simp
  then show ?thesis
    using find_braces_append [OF assms(1)] digit_not_special [OF d(1)] by simp
qed

lemma fill_in_first: "find_braces a = None \<Longrightarrow> fill_in n (a @ ''{}'' @ s) = a @ to_string (unat n) @ s"
  by (simp add: fill_in_def find_braces_here replace_two_def)


section \<open>The console\<close>

text \<open>The events taken are those formatted, in order, followed by those still queued.\<close>

definition logger_inv :: "nat \<Rightarrow> string list \<Rightarrow> log_event list \<Rightarrow> async_logger_node \<Rightarrow> bool" where
  "logger_inv k fs acc n \<longleftrightarrow> rb_inv k (log_ring n) \<and> format_strings n = fs \<and>
     (\<exists>handled. handled @ rb_items (log_ring n) = acc \<and> console n = concat (map (format_line fs) handled))"

lemma log_calls_inv:
  "logger_inv k fs acc n \<Longrightarrow> log_calls cs n = (new, n') \<Longrightarrow> logger_inv k fs (acc @ new) n' \<and> logger_running n' = logger_running n"
proof (induction cs n arbitrary: acc new n' rule: log_calls.induct)
  case (2 made now i a1 a2 cs n)
  define ev where "ev = \<lparr>timestamp_ns = now, message_id = i, log_arg1 = a1, log_arg2 = a2\<rparr>"
  obtain ok n1 where l: "logger_log made now i a1 a2 n = (ok, n1)" by fastforce
  obtain acc2 where c: "log_calls cs n1 = (acc2, n')" "new = (if ok then [ev] else []) @ acc2"
    using 2(3) l by (auto simp: ev_def split: prod.splits)
  have k: "rb_inv k (log_ring n)" using 2(2) by (simp add: logger_inv_def)
  have "logger_inv k fs (acc @ (if ok then [ev] else [])) n1 \<and> logger_running n1 = logger_running n"
    using 2(2) l rq.push_refines [OF k, of ev] rq.invar_push [OF k, of ev]
    by (cases "rb_push (Some ev) (log_ring n)")
       (auto simp: logger_log_def logger_inv_def ev_def rb_push_item_def spec_push_def split: if_splits simp flip: append_assoc)
  then have "logger_inv k fs ((acc @ (if ok then [ev] else [])) @ acc2) n' \<and> logger_running n' = logger_running n"
    using 2(1) [OF l [symmetric] refl _ c(1), of "acc @ (if ok then [ev] else [])"] by metis
  then show ?case using c(2) by simp
qed simp

lemma logger_round_inv:
  assumes "logger_inv k fs acc n"
  shows "logger_inv k fs acc (logger_round n)" "logger_running (logger_round n) = logger_running n"
proof -
  have k: "rb_inv k (log_ring n)" using assms by (simp add: logger_inv_def)
  obtain ev r where pop: "rb_pop (log_ring n) = (ev, r)" by (cases "rb_pop (log_ring n)")
  then have "rb_inv k r" "(case ev of None \<Rightarrow> [] | Some x \<Rightarrow> [x]) @ rb_items r = rb_items (log_ring n)"
    using rq.invar_pop [OF k] rq.pop_refines [OF k] by (auto simp: spec_pop_def split: list.splits)
  moreover obtain handled where h: "handled @ rb_items (log_ring n) = acc" "console n = concat (map (format_line fs) handled)"
    using assms by (auto simp: logger_inv_def)
  moreover define new where "new = (case ev of None \<Rightarrow> [] | Some x \<Rightarrow> [x])"
  ultimately have "(handled @ new) @ rb_items r = acc" "console n @ concat (map (format_line fs) new) = concat (map (format_line fs) (handled @ new))"
    by simp_all
  moreover have "logger_round n = n\<lparr>log_ring := r, console := console n @ concat (map (format_line (format_strings n)) new)\<rparr>"
    by (cases ev) (simp_all add: logger_round_def pop new_def)
  ultimately show "logger_inv k fs acc (logger_round n)" "logger_running (logger_round n) = logger_running n"
    using assms \<open>rb_inv k r\<close> by (auto simp: logger_inv_def)
qed

lemma logger_loop_inv:
  assumes "logger_inv k fs acc n" "logger_running n" "\<exists>e \<in> set sched. fst e"
  shows "\<exists>n' acc'. logger_loop sched n acc = Done (n', acc') \<and> logger_inv k fs acc' n'"
  using assms
proof (induction sched arbitrary: n acc)
  case (Cons e sched)
  obtain stopped cs where e: "e = (stopped, cs)" by (cases e)
  obtain new n1 where c: "log_calls cs n = (new, n1)" by fastforce
  have inv: "logger_inv k fs (acc @ new) n1" "logger_running n1"
    using log_calls_inv [OF Cons.prems(1) c] Cons.prems(2) by simp_all
  show ?case
  proof (cases stopped)
    case True
    then show ?thesis using c e inv by (auto simp: logger_stop_def logger_inv_def)
  next
    case False
    then show ?thesis using Cons.IH [OF logger_round_inv(1) [OF inv(1)]] logger_round_inv(2) [OF inv(1)] inv(2) Cons.prems(3) c e by auto
  qed
qed simp

section \<open>Properties\<close>

text \<open>A message with two placeholders is printed with its first argument at the first and its second at the second
  placeholder, and nothing else of the text changed.\<close>

theorem logger_fills_placeholders:
  assumes "unat (message_id ev) < length formats" "formats ! unat (message_id ev) = a @ ''{}'' @ b @ ''{}'' @ c"
    and "find_braces a = None" "find_braces b = None"
  shows "format_line formats ev =
    [''[LOG '' @ to_string (unat (timestamp_ns ev)) @ ''] '' @ a @ to_string (unat (log_arg1 ev)) @ b @ to_string (unat (log_arg2 ev)) @ c @ [CHR 0x0A]]"
proof -
  have "fill_in (log_arg1 ev) (a @ ''{}'' @ b @ ''{}'' @ c) = (a @ to_string (unat (log_arg1 ev)) @ b) @ ''{}'' @ c"
    using fill_in_first [OF assms(3), of "log_arg1 ev" "b @ ''{}'' @ c"] by simp
  moreover have "fill_in (log_arg2 ev) ((a @ to_string (unat (log_arg1 ev)) @ b) @ ''{}'' @ c) =
      (a @ to_string (unat (log_arg1 ev)) @ b) @ to_string (unat (log_arg2 ev)) @ c"
    by (rule fill_in_first) (rule find_braces_number [OF assms(3,4)])
  ultimately show ?thesis using assms(1,2) by (simp add: format_line_def Let_def)
qed

theorem logger_fills_placeholders_witness:
  "format_line [''{{}=>{}}''] \<lparr>timestamp_ns = 7, message_id = 0, log_arg1 = 42, log_arg2 = 100\<rparr> =
    [''[LOG 7] {42=>100}'' @ [CHR 0x0A]]"
  using logger_fills_placeholders [of "\<lparr>timestamp_ns = 7, message_id = 0, log_arg1 = 42, log_arg2 = 100\<rparr>" "[''{{}=>{}}'']" "''{''" "''=>''" "''}''"]
  by (simp add: to_string.simps)


text \<open>The node prints what was logged, once and in order: when its loop has ended after a \<open>stop\<close>, the console holds
  the lines of the first events that the conduit took, and the remaining ones are still queued; a
  message number that was never registered gives no line.\<close>

theorem logger_prints_in_order:
  assumes "k < 32" "\<exists>e \<in> set sched. fst e"
  shows "\<exists>n acc handled. logger_run sched ((logger_init (rb_init (2 ^ k)))\<lparr>format_strings := formats\<rparr>) = Done (n, acc) \<and>
    handled @ rb_items (log_ring n) = acc \<and> console n = concat (map (format_line formats) handled)"
proof -
  let ?n = "(logger_init (rb_init (2 ^ k)))\<lparr>format_strings := formats, logger_running := True\<rparr>"
  have "logger_inv k formats [] ?n"
    using rb_init_inv(1,2) [OF assms(1) refl, where 'p = log_event] by (simp add: logger_inv_def logger_init_def)
  then obtain n acc where "logger_loop sched ?n [] = Done (n, acc)" "logger_inv k formats acc n"
    using logger_loop_inv [of k formats "[]" ?n sched] assms(2) by auto
  then show ?thesis by (auto simp: logger_run_def logger_inv_def logger_init_def)
qed

theorem logger_prints_in_order_witness:
  "\<exists>n acc handled. logger_run [(False, [(True, 7, 0, 42, 0), (True, 8, 1, 0, 0)]), (False, []), (True, [(False, 9, 0, 0, 0)])]
      ((logger_init (rb_init (2 ^ 2)))\<lparr>format_strings := [''{}'']\<rparr>) = Done (n, acc) \<and>
    handled @ rb_items (log_ring n) = acc \<and> console n = concat (map (format_line [''{}'']) handled)"
  by (rule logger_prints_in_order) simp_all

text \<open>Message numbers have 16 bits: the first 65536 registrations are told apart, the next one gets number 0 again.\<close>

lemma register_message_number:
  assumes "register_message f n = (i, n')"
  shows "length (format_strings n) < 65536 \<Longrightarrow> format_strings n' ! unat i = f"
    and "length (format_strings n) = 65536 \<Longrightarrow> i = 0"
  using assms by (auto simp: register_message_def Let_def unsigned_of_nat take_bit_nat_eq_self)

end
