(* ===== verification/Load_Generator.thy ===== *)
theory Load_Generator
  imports Slab_Allocator Pinned_Slab Spsc_Ring Console
begin

text \<open>
  \<open>load_generator\<close> of \<open>include/conduit/pending/supplemental/load_generator.hpp\<close>. Its allocator and its conduit are
  template parameters, here the functions \<open>al\<close>, \<open>de\<close>, \<open>push\<close> and, for the thread at the other end,
  \<open>pop\<close>; what it does with them is proved from the contracts \<open>slab\<close> and \<open>bounded_fifo\<close> and then
  read off for the allocators and the ring of the code base. The object argument is the event as it
  leaves \<open>arm_weapon\<close>, with its size field set.
\<close>

section \<open>The generator\<close>

record load_generator =
  total_events_to_send :: u32
  pre_allocated_ammo :: "nat list"

definition generator_init :: "u32 \<Rightarrow> load_generator" where
  "generator_init events_count = \<lparr>total_events_to_send = events_count, pre_allocated_ammo = []\<rparr>"

text \<open>\<open>arm_weapon\<close> throws when the pool is exhausted, keeping what it has loaded so far.\<close>

fun arm_loop ::
  "(bool list \<Rightarrow> 'v \<Rightarrow> 's \<Rightarrow> (nat option \<times> 's) outcome) \<Rightarrow> bool list \<Rightarrow> 'v \<Rightarrow> nat \<Rightarrow> load_generator \<Rightarrow> 's \<Rightarrow>
   (string option \<times> load_generator \<times> 's) outcome" where
  "arm_loop al ws v 0 g s = Done (None, g, s)"
| "arm_loop al ws v (Suc i) g s =
     bind_outcome (al ws v s) (\<lambda>(ev, s1). case ev of
       None \<Rightarrow> Done (Some ''CONDUIT: Memory pool exhausted during arming phase!'', g, s1)
     | Some x \<Rightarrow> arm_loop al ws v i (g\<lparr>pre_allocated_ammo := pre_allocated_ammo g @ [x]\<rparr>) s1)"

definition arm_weapon ::
  "(bool list \<Rightarrow> 'v \<Rightarrow> 's \<Rightarrow> (nat option \<times> 's) outcome) \<Rightarrow> bool list \<Rightarrow> 'v \<Rightarrow> load_generator \<Rightarrow> 's \<Rightarrow>
   (string option \<times> load_generator \<times> 's) outcome" where
  "arm_weapon al ws v g s = arm_loop al ws v (unat (total_events_to_send g)) g s"

text \<open>The destructor gives every event back.\<close>

fun give_all :: "(bool list \<Rightarrow> nat \<Rightarrow> 's \<Rightarrow> 's outcome) \<Rightarrow> bool list \<Rightarrow> nat list \<Rightarrow> 's \<Rightarrow> 's outcome" where
  "give_all de ws [] s = Done s"
| "give_all de ws (x # xs) s = bind_outcome (de ws x s) (give_all de ws xs)"

definition generator_dtor :: "(bool list \<Rightarrow> nat \<Rightarrow> 's \<Rightarrow> 's outcome) \<Rightarrow> bool list \<Rightarrow> load_generator \<Rightarrow> 's \<Rightarrow> 's outcome" where
  "generator_dtor de ws g s = give_all de ws (pre_allocated_ammo g) s"

text \<open>The loop of \<open>fire\<close>. Before each attempt the other thread makes some pops; \<open>got\<close> is what it has received. The two
  counters are those of the report.\<close>

fun pops :: "('q \<Rightarrow> 'a option \<times> 'q) \<Rightarrow> nat \<Rightarrow> 'q \<Rightarrow> 'a list \<Rightarrow> 'q \<times> 'a list" where
  "pops pop 0 q got = (q, got)"
| "pops pop (Suc n) q got = (let (r, q1) = pop q in pops pop n q1 (got @ (case r of None \<Rightarrow> [] | Some x \<Rightarrow> [x])))"

record 'a fire_report =
  successful_pushes :: u32
  backpressure_hits :: u32
  received :: "'a list"

fun fire_loop ::
  "('a \<Rightarrow> 'q \<Rightarrow> bool \<times> 'q) \<Rightarrow> ('q \<Rightarrow> 'a option \<times> 'q) \<Rightarrow> nat list \<Rightarrow> 'a list \<Rightarrow> 'q \<Rightarrow> 'a fire_report \<Rightarrow> ('a fire_report \<times> 'q) outcome" where
  "fire_loop push pop sched [] q rep = Done (rep, q)"
| "fire_loop push pop [] (x # xs) q rep = Pending"
| "fire_loop push pop (n # sched) (x # xs) q rep =
     (let (q1, got) = pops pop n q (received rep); rep1 = rep\<lparr>received := got\<rparr>; (ok, q2) = push x q1
      in if ok then fire_loop push pop sched xs q2 (rep1\<lparr>successful_pushes := successful_pushes rep1 + 1\<rparr>)
         else fire_loop push pop sched (x # xs) q2 (rep1\<lparr>backpressure_hits := backpressure_hits rep1 + 1\<rparr>))"

definition fire ::
  "('a \<Rightarrow> 'q \<Rightarrow> bool \<times> 'q) \<Rightarrow> ('q \<Rightarrow> 'a option \<times> 'q) \<Rightarrow> nat list \<Rightarrow> 'a list \<Rightarrow> 'q \<Rightarrow> ('a fire_report \<times> 'q) outcome" where
  "fire push pop sched ammo q = fire_loop push pop sched ammo q \<lparr>successful_pushes = 0, backpressure_hits = 0, received = []\<rparr>"

text \<open>The report after the loop, for the nanoseconds it took. The throughput is converted to an integer, which
  only a number that fits allows.\<close>

fun dbl_to_u64 :: "double \<Rightarrow> nat option" where
  "dbl_to_u64 (Dbl m e) =
     (let n = (if 0 \<le> e then \<bar>m\<bar> * 2 ^ nat e else \<bar>m\<bar> div 2 ^ nat (- e))
      in if m < 0 \<and> n \<noteq> 0 \<or> 2 ^ 64 \<le> n then None else Some (nat n))"
| "dbl_to_u64 _ = None"

definition fire_results :: "nat \<Rightarrow> 'a fire_report \<Rightarrow> console outcome" where
  "fire_results elapsed_ns rep =
     (let elapsed_seconds = dbl_div (dbl_of_nat elapsed_ns) (dbl_of_nat 1000000000);
          ops_per_sec = dbl_div (dbl_of_nat (unat (successful_pushes rep))) elapsed_seconds
      in case dbl_to_u64 ops_per_sec of
           None \<Rightarrow> Fault
         | Some n \<Rightarrow> Done
             [[Text ''========================================='', Newline],
              [Text '' CONDUIT PHYSICAL STRESS TEST RESULTS'', Newline],
              [Text ''========================================='', Newline],
              [Text '' Total Events Sent : '', Num (uint (successful_pushes rep)), Newline],
              [Text '' Time Elapsed      : '', Real elapsed_seconds, Text '' seconds'', Newline],
              [Text '' Backpressure Hits : '', Num (uint (backpressure_hits rep)), Text '' (Conduit full events)'', Newline],
              [Text ''-----------------------------------------'', Newline],
              [Text '' THROUGHPUT        : '', Num (int n), Text '' events/sec'', Newline],
              [Text ''========================================='', Newline]])"

text \<open>A loop too fast for the clock is divided by zero, and the quotient does not fit.\<close>

lemma fire_results_instant: "fire_results 0 rep = Fault"
proof -
  have "dbl_of_nat 0 = Dbl 0 0" by (simp add: dbl_eval)
  moreover have "dbl_div (Dbl 0 0) (dbl_of_nat 1000000000) = Dbl 0 0" by (simp add: dbl_eval cong: let_weak_cong)
  moreover have "dbl_to_u64 (dbl_div x (Dbl 0 0)) = None" for x by (cases x) simp_all
  ultimately show ?thesis by (simp add: fire_results_def)
qed

lemma fire_results_rate:
  "successful_pushes rep = 3 \<Longrightarrow> \<exists>out. fire_results 2000000000 rep = Done out \<and> [Text '' THROUGHPUT        : '', Num 1, Text '' events/sec'', Newline] \<in> set out"
  by (simp add: fire_results_def dbl_eval cong: let_weak_cong)

section \<open>From the contract of an allocator\<close>

context slab
begin

lemma arm_loop_consistent:
  assumes "consistent (hs @ pre_allocated_ammo g) s" "False \<in> set ws"
  shows "\<exists>r g' s'. arm_loop alloc ws v n g s = Done (r, g', s') \<and> consistent (hs @ pre_allocated_ammo g') s' \<and> cells s' = cells s \<and>
    (if r = None then length (pre_allocated_ammo g') = length (pre_allocated_ammo g) + n
     else length (pre_allocated_ammo g') < length (pre_allocated_ammo g) + n \<and> free_cells s' = [])"
  using assms(1)
proof (induction n arbitrary: g s)
  case (Suc n)
  obtain r s1 where s1: "alloc ws v s = Done (r, s1)" "cells s1 = cells s"
      "consistent (case r of None \<Rightarrow> hs @ pre_allocated_ammo g | Some x \<Rightarrow> x # hs @ pre_allocated_ammo g) s1"
      "r = None \<longleftrightarrow> free_cells s = []"
    using consistent_alloc [OF Suc.prems assms(2)] by blast
  show ?case
  proof (cases r)
    case None
    with s1(4) have "alloc ws v s = Done (None, s)"
      using alloc_none [of s ws v] Suc.prems assms(2) None by (cases ws) (auto simp: consistent_def)
    with None s1 show ?thesis by auto
  next
    case (Some x)
    have "consistent (hs @ pre_allocated_ammo (g\<lparr>pre_allocated_ammo := pre_allocated_ammo g @ [x]\<rparr>)) s1"
      using s1(3) Some by (auto simp: consistent_def)
    from Suc.IH [OF this] s1 Some show ?thesis by (auto split: if_splits)
  qed
qed simp

lemma give_all_consistent:
  assumes "consistent (xs @ hs) s" "False \<in> set ws"
  shows "\<exists>s'. give_all dealloc ws xs s = Done s' \<and> consistent hs s' \<and> cells s' = cells s"
  using assms(1)
proof (induction xs arbitrary: s)
  case (Cons x xs)
  obtain s1 where "dealloc ws x s = Done s1" "cells s1 = cells s" "consistent (xs @ hs) s1"
    using consistent_dealloc [OF Cons.prems, of 0] assms(2) by auto
  with Cons.IH show ?case by fastforce
qed simp

text \<open>Arming and destroying a generator: whatever happened between, the pool is as full as before.\<close>

lemma arm_dtor_roundtrip:
  assumes "invar s" "set (free_cells s) = {..<cells s}" "False \<in> set ws"
  shows "\<exists>r g s1 s2. arm_weapon alloc ws v (generator_init n) s = Done (r, g, s1) \<and>
    distinct (pre_allocated_ammo g @ free_cells s1) \<and> set (pre_allocated_ammo g @ free_cells s1) = {..<cells s} \<and>
    (r = None \<longleftrightarrow> unat n \<le> cells s) \<and> length (pre_allocated_ammo g) = min (unat n) (cells s) \<and>
    generator_dtor dealloc ws g s1 = Done s2 \<and> set (free_cells s2) = {..<cells s}"
proof -
  have "consistent ([] @ pre_allocated_ammo (generator_init n)) s"
    using consistent_fresh [OF assms(1,2)] by (simp add: generator_init_def)
  from arm_loop_consistent [OF this assms(3), of v "unat n"]
  obtain r g s1 where s1: "arm_weapon alloc ws v (generator_init n) s = Done (r, g, s1)" "consistent (pre_allocated_ammo g) s1"
      "cells s1 = cells s" "if r = None then length (pre_allocated_ammo g) = unat n
       else length (pre_allocated_ammo g) < unat n \<and> free_cells s1 = []"
    by (auto simp: arm_weapon_def generator_init_def cong: if_cong)
  obtain s2 where s2: "generator_dtor dealloc ws g s1 = Done s2" "consistent [] s2" "cells s2 = cells s"
    using give_all_consistent [of "pre_allocated_ammo g" "[]" s1] s1(2,3) assms(3) by (auto simp: generator_dtor_def)
  have free: "set (free_cells s1) \<subseteq> {..<cells s}" "distinct (free_cells s1)" "set (free_cells s2) \<subseteq> {..<cells s}"
    using free_bounded [of s1] free_distinct [of s1] free_bounded [of s2] s1(2,3) s2(2,3) by (auto simp: consistent_def)
  then have part: "distinct (pre_allocated_ammo g @ free_cells s1)" "set (pre_allocated_ammo g @ free_cells s1) = {..<cells s}"
    using s1(2,3) by (auto simp: consistent_def)
  then have "length (pre_allocated_ammo g) + length (free_cells s1) = cells s" using distinct_card [OF part(1)] by simp
  then have "r = None \<longleftrightarrow> unat n \<le> cells s" "length (pre_allocated_ammo g) = min (unat n) (cells s)"
    using s1(4) by (auto split: if_splits)
  moreover have "set (free_cells s2) = {..<cells s}" using s2(2,3) free(3) by (auto simp: consistent_def)
  ultimately show ?thesis using s1(1) s2(1) part by blast
qed

end


section \<open>From the contract of a queue\<close>

context bounded_fifo
begin

lemma pops_conserves:
  "invar q \<Longrightarrow> pops pop n q got = (q', got') \<Longrightarrow>
   invar q' \<and> capacity q' = capacity q \<and> got' @ items q' = got @ items q \<and> length (items q') \<le> length (items q) - n"
proof (induction n arbitrary: q got)
  case (Suc n)
  obtain r q1 where q1: "pop q = (r, q1)" by (cases "pop q")
  have "invar q1" "capacity q1 = capacity q" using invar_pop [OF Suc.prems(1)] capacity_pop [OF Suc.prems(1)] q1 by simp_all
  moreover have "(case r of None \<Rightarrow> [] | Some x \<Rightarrow> [x]) @ items q1 = items q" "length (items q1) = length (items q) - 1"
    using pop_refines [OF Suc.prems(1)] q1 by (auto simp: spec_pop_def split: list.splits)
  moreover have "invar q' \<and> capacity q' = capacity q1 \<and> got' @ items q' = (got @ (case r of None \<Rightarrow> [] | Some x \<Rightarrow> [x])) @ items q1 \<and>
      length (items q') \<le> length (items q1) - n"
    using Suc.IH [OF \<open>invar q1\<close>] Suc.prems(2) q1 by simp
  ultimately show ?case by simp
qed simp

text \<open>Every attempt before which the other end has popped succeeds, so enough of them fire all the ammunition.\<close>

lemma fire_loop_all:
  assumes "invar q" "0 < capacity q" "length xs \<le> length (filter ((<) 0) sched)"
  shows "\<exists>rep' q'. fire_loop push pop sched xs q rep = Done (rep', q') \<and> invar q' \<and>
    received rep' @ items q' = received rep @ items q @ xs \<and>
    successful_pushes rep' = successful_pushes rep + of_nat (length xs)"
  using assms
proof (induction sched arbitrary: xs q rep)
  case Nil
  then show ?case by simp
next
  case (Cons n sched)
  show ?case
  proof (cases xs)
    case Nil
    with Cons.prems show ?thesis by simp
  next
    case (Cons x xs')
    obtain q1 got where pp: "pops pop n q (received rep) = (q1, got)" by (cases "pops pop n q (received rep)")
    note P = pops_conserves [OF Cons.prems(1) pp]
    obtain ok q2 where push: "push x q1 = (ok, q2)" by (cases "push x q1")
    have inv: "invar q1" "0 < capacity q1" using P Cons.prems(2) by simp_all
    have q2: "invar q2" "capacity q2 = capacity q1" "items q2 = items q1 @ (if ok then [x] else [])"
      using push_refines [OF inv(1), of x] invar_push [OF inv(1), of x] capacity_push [OF inv(1), of x] push
      by (auto simp: spec_push_def split: if_splits)
    have room: "ok" if "0 < n"
      using push_room [OF inv(1), of x] that P bounded [OF Cons.prems(1)] inv(2) push by fastforce
    have len: "length (if ok then xs' else xs) \<le> length (filter ((<) 0) sched)"
      using Cons.prems(3) room \<open>xs = x # xs'\<close> by (cases "0 < n") auto
    let ?rep = "if ok then rep\<lparr>received := got, successful_pushes := successful_pushes rep + 1\<rparr>
      else rep\<lparr>received := got, backpressure_hits := backpressure_hits rep + 1\<rparr>"
    have step: "fire_loop push pop (n # sched) xs q rep = fire_loop push pop sched (if ok then xs' else xs) q2 ?rep"
      using pp push \<open>xs = x # xs'\<close> by (simp add: Let_def)
    have "0 < capacity q2" using q2(2) inv(2) by simp
    from Cons.IH [OF q2(1) this len, of ?rep] obtain rep' q' where
        "fire_loop push pop sched (if ok then xs' else xs) q2 ?rep = Done (rep', q')" "invar q'"
        and rep': "received rep' @ items q' = got @ items q2 @ (if ok then xs' else xs)"
        "successful_pushes rep' = successful_pushes ?rep + of_nat (length (if ok then xs' else xs))"
      by auto
    moreover have "received rep' @ items q' = received rep @ items q @ xs"
    proof -
      have "got @ items q2 @ (if ok then xs' else xs) = (got @ items q1) @ xs"
        using q2(3) \<open>xs = x # xs'\<close> by simp
      with rep'(1) P show ?thesis by simp
    qed
    moreover have "successful_pushes rep' = successful_pushes rep + of_nat (length xs)"
      using rep'(2) \<open>xs = x # xs'\<close> by (cases ok) simp_all
    ultimately show ?thesis unfolding step by blast
  qed
qed

end


section \<open>Properties\<close>

text \<open>The generator borrows the events of its pool and returns them all: arming succeeds exactly if the pool has enough
  slots and otherwise throws with every slot loaded, each loaded slot being taken from the pool
  once; and the destructor makes all slots free again, also after a failed arming.\<close>

theorem generator_returns_ammo:
  assumes "0 < length garbage" "length garbage \<le> 0xFFFFFFFF" "\<forall>g \<in> set garbage. storage g = None"
    and "slab_ctor garbage = Inr s" "False \<in> set ws"
  shows "\<exists>r g s1 s2. arm_weapon allocate ws v (generator_init n) s = Done (r, g, s1) \<and>
    distinct (pre_allocated_ammo g @ slab_free_cells s1) \<and>
    set (pre_allocated_ammo g @ slab_free_cells s1) = {..<length garbage} \<and>
    (r = None \<longleftrightarrow> unat n \<le> length garbage) \<and> length (pre_allocated_ammo g) = min (unat n) (length garbage) \<and>
    generator_dtor (\<lambda>ws x. deallocate ws (Some x)) ws g s1 = Done s2 \<and> set (slab_free_cells s2) = {..<length garbage}"
proof -
  have s: "slab_inv s" "slab_free_cells s = [0..<length garbage]" "length (slots s) = length garbage"
    using slab_ctor_inv [OF assms(1-3)] assms(4) by auto
  then have "set (slab_free_cells s) = {..<length (slots s)}" by auto
  from sl.arm_dtor_roundtrip [OF s(1) this assms(5), of v n] s(3) show ?thesis by simp
qed

theorem generator_returns_ammo_witness:
  "\<exists>s r g s1. slab_ctor (replicate 2 \<lparr>storage = None, internal_index = 9, next_free = 9\<rparr>) = Inr (s :: nat slab_allocator) \<and>
    arm_weapon allocate [True, False] 7 (generator_init 3) s = Done (r, g, s1) \<and> r \<noteq> None \<and> length (pre_allocated_ammo g) = 2"
proof -
  let ?g = "replicate 2 \<lparr>storage = None, internal_index = 9, next_free = 9\<rparr> :: nat slot list"
  obtain s where s: "slab_ctor ?g = Inr s" using slab_ctor_inv [of ?g] by auto
  show ?thesis
    using generator_returns_ammo [of ?g s "[True, False]" 7 3] s by auto
qed

text \<open>Firing terminates and delivers: if the other end pops at least once before as many attempts as there are events,
  \<open>fire\<close> returns, whatever else happens it has pushed every event once and in order, and reports that
  number; what the other end has received, followed by what is queued, is what was queued before
  followed by the ammunition.\<close>

theorem generator_fires_all:
  fixes q :: "'p spsc_ring"
  assumes "rb_inv k q" "0 < rb_room q" "length ammo \<le> length (filter ((<) 0) sched)"
  shows "\<exists>rep q'. fire rb_push_item rb_pop sched ammo q = Done (rep, q') \<and>
    received rep @ rb_items q' = rb_items q @ ammo \<and> successful_pushes rep = of_nat (length ammo)"
  using rq.fire_loop_all [OF assms, of "\<lparr>successful_pushes = 0, backpressure_hits = 0, received = []\<rparr>"]
  by (auto simp: fire_def)

theorem generator_fires_all_witness:
  "\<exists>rep q'. fire rb_push_item rb_pop [0, 0, 1, 0, 2] [4, 5 :: nat] (rb_init (2 ^ 1)) = Done (rep, q') \<and>
    received rep @ rb_items q' = [4, 5] \<and> successful_pushes rep = 2"
  using generator_fires_all [of 1 "rb_init (2 ^ 1)" "[4, 5 :: nat]" "[0, 0, 1, 0, 2]"] rb_init_inv [of 1 "rb_init (2 ^ 1) :: nat spsc_ring"]
  by simp

end
