(* ===== verification/Telemetry.thy ===== *)
theory Telemetry
  imports Conduit_Prelude
begin

text \<open>
  \<open>telemetry_wrapper\<close> and \<open>telemetry_scraper\<close> of \<open>include/conduit/pending/telemetry/telemetry.hpp\<close>: a wrapper that counts
  the events it forwards to a node, and a loop that reads the counters once a second and prints the
  rate. The wrapped node's \<open>on\<close> is a parameter; the wrappers as each round finds them are its input.
\<close>

section \<open>The wrapper\<close>

record 's telemetry_wrapper =
  tw_inner :: 's
  processed_events :: u64

definition telemetry_init :: "'s \<Rightarrow> 's telemetry_wrapper" where
  "telemetry_init inner = \<lparr>tw_inner = inner, processed_events = 0\<rparr>"

definition telemetry_on :: "('e \<Rightarrow> 's \<Rightarrow> 'e \<times> 's) \<Rightarrow> 'e \<Rightarrow> 's telemetry_wrapper \<Rightarrow> 'e \<times> 's telemetry_wrapper" where
  "telemetry_on inner_on ev w =
     (let w1 = w\<lparr>processed_events := processed_events w + 1\<rparr>; (ev1, s) = inner_on ev (tw_inner w1)
      in (ev1, w1\<lparr>tw_inner := s\<rparr>))"

definition get_count :: "'s telemetry_wrapper \<Rightarrow> u64" where
  "get_count w = processed_events w"

text \<open>Counting is all that the wrapper adds.\<close>

lemma telemetry_run:
  "tw_inner (fold (\<lambda>ev w. snd (telemetry_on inner_on ev w)) evs w) = fold (\<lambda>ev s. snd (inner_on ev s)) evs (tw_inner w) \<and>
   get_count (fold (\<lambda>ev w. snd (telemetry_on inner_on ev w)) evs w) = get_count w + of_nat (length evs)"
  by (induction evs arbitrary: w) (simp_all add: telemetry_on_def get_count_def Let_def split_beta)

section \<open>The scraper\<close>

text \<open>\<open>targets\<close> are the registered wrappers, by their addresses.\<close>

record telemetry_scraper =
  targets :: "nat list"
  scraper_running :: bool
  scraper_lines :: "(u64 \<times> u64) list"

definition scraper_init :: telemetry_scraper where
  "scraper_init = \<lparr>targets = [], scraper_running = False, scraper_lines = []\<rparr>"

definition register_target :: "nat \<Rightarrow> telemetry_scraper \<Rightarrow> telemetry_scraper" where
  "register_target target s = s\<lparr>targets := targets s @ [target]\<rparr>"

text \<open>A line of output is a rate and a total. Each round is given whether \<open>stop\<close> was called before the check of the flag,
  and the wrappers as they are when it reads their counters.\<close>

fun scrape_loop :: "(bool \<times> (nat \<Rightarrow> 's telemetry_wrapper)) list \<Rightarrow> u64 \<Rightarrow> telemetry_scraper \<Rightarrow> telemetry_scraper outcome" where
  "scrape_loop [] last_total s = Pending"
| "scrape_loop ((stopped, wrappers) # rounds) last_total s =
     (if stopped then Done (s\<lparr>scraper_running := False\<rparr>)
      else let current_total = fold (\<lambda>target acc. acc + get_count (wrappers target)) (targets s) 0;
               eps = current_total - last_total
           in scrape_loop rounds current_total (s\<lparr>scraper_lines := scraper_lines s @ [(eps, current_total)]\<rparr>))"

definition scraper_run :: "(bool \<times> (nat \<Rightarrow> 's telemetry_wrapper)) list \<Rightarrow> telemetry_scraper \<Rightarrow> telemetry_scraper outcome" where
  "scraper_run rounds s = scrape_loop rounds 0 (s\<lparr>scraper_running := True\<rparr>)"

definition scraper_stop :: "telemetry_scraper \<Rightarrow> telemetry_scraper" where
  "scraper_stop s = s\<lparr>scraper_running := False\<rparr>"

section \<open>The two together\<close>

text \<open>\<open>handled evs\<close> are the wrappers after the nodes behind them have handled the events \<open>evs\<close>, each at its node;
  \<open>seen ts evs\<close> is how many of these a scraper with targets \<open>ts\<close> counts.\<close>

fun handled :: "('e \<Rightarrow> 's \<Rightarrow> 'e \<times> 's) \<Rightarrow> (nat \<times> 'e) list \<Rightarrow> (nat \<Rightarrow> 's telemetry_wrapper) \<Rightarrow> nat \<Rightarrow> 's telemetry_wrapper" where
  "handled inner_on [] ws = ws"
| "handled inner_on ((i, ev) # evs) ws = handled inner_on evs (ws(i := snd (telemetry_on inner_on ev (ws i))))"

definition seen :: "nat list \<Rightarrow> (nat \<times> 'e) list \<Rightarrow> nat" where
  "seen ts evs = (\<Sum>t \<leftarrow> ts. length (filter (\<lambda>e. fst e = t) evs))"

text \<open>The wrappers each round finds, when the events of the round are handled between it and the one before.\<close>

fun rounds_of :: "('e \<Rightarrow> 's \<Rightarrow> 'e \<times> 's) \<Rightarrow> (nat \<times> 'e) list list \<Rightarrow> (nat \<Rightarrow> 's telemetry_wrapper) \<Rightarrow> (bool \<times> (nat \<Rightarrow> 's telemetry_wrapper)) list" where
  "rounds_of inner_on [] ws = [(True, ws)]"
| "rounds_of inner_on (evs # rest) ws = (let ws1 = handled inner_on evs ws in (False, ws1) # rounds_of inner_on rest ws1)"

lemma telemetry_on_count: "get_count (snd (telemetry_on inner_on ev w)) = get_count w + 1"
  by (simp add: telemetry_on_def get_count_def Let_def split_beta)

lemma handled_count: "get_count (handled inner_on evs ws t) = get_count (ws t) + of_nat (length (filter (\<lambda>e. fst e = t) evs))"
proof (induction evs arbitrary: ws)
  case (Cons e evs)
  show ?case using Cons.IH by (cases e) (simp add: telemetry_on_count)
qed simp

definition count_sum :: "nat list \<Rightarrow> (nat \<Rightarrow> 's telemetry_wrapper) \<Rightarrow> u64" where
  "count_sum ts ws = (\<Sum>t \<leftarrow> ts. get_count (ws t))"

lemma fold_count_sum: "fold (\<lambda>t acc. acc + get_count (ws t)) ts a = a + count_sum ts ws"
  by (induction ts arbitrary: a) (simp_all add: count_sum_def algebra_simps)

lemma count_sum_handled: "count_sum ts (handled inner_on evs ws) = count_sum ts ws + of_nat (seen ts evs)"
  by (induction ts) (simp_all add: count_sum_def seen_def handled_count algebra_simps)

lemma scrape_rounds:
  "\<exists>s'. scrape_loop (rounds_of inner_on evss ws) (count_sum (targets s) ws) s = Done s' \<and> \<not> scraper_running s' \<and>
     map fst (scraper_lines s') = map fst (scraper_lines s) @ map (\<lambda>evs. of_nat (seen (targets s) evs)) evss"
proof (induction evss arbitrary: ws s)
  case (Cons evs evss)
  let ?ws = "handled inner_on evs ws"
  let ?s = "s\<lparr>scraper_lines := scraper_lines s @ [(of_nat (seen (targets s) evs), count_sum (targets s) ?ws)]\<rparr>"
  from Cons.IH [of ?ws ?s] show ?case
    by (simp add: Let_def fold_count_sum) (simp add: count_sum_handled)
qed simp

text \<open>The rate a scraper prints in a round is the number of events that the registered nodes handled since the round
  before, also where a 64-bit counter wraps around; the wrapper changes nothing else for the node.\<close>

theorem scraper_prints_rates:
  assumes "\<forall>t. get_count (ws t) = 0"
  shows "\<exists>s'. scraper_run (rounds_of inner_on evss ws) (fold register_target ts scraper_init) = Done s' \<and> \<not> scraper_running s' \<and>
     map fst (scraper_lines s') = map (\<lambda>evs. of_nat (seen ts evs)) evss"
proof -
  have t: "targets (fold register_target ts s) = targets s @ ts" "scraper_lines (fold register_target ts s) = scraper_lines s" for s
    by (induction ts arbitrary: s) (simp_all add: register_target_def)
  have "count_sum ts ws = 0" using assms by (induction ts) (simp_all add: count_sum_def)
  with scrape_rounds [of inner_on evss ws "(fold register_target ts scraper_init)\<lparr>scraper_running := True\<rparr>"]
  show ?thesis by (simp add: scraper_run_def t scraper_init_def)
qed

theorem scraper_prints_rates_witness:
  "\<exists>s'. scraper_run (rounds_of (\<lambda>e n. (e, n + e)) [[(0, 5), (2, 6)], [(0, 7)]] (\<lambda>_. telemetry_init (0 :: nat)))
       (fold register_target [0, 1] scraper_init) = Done s' \<and> \<not> scraper_running s' \<and> map fst (scraper_lines s') = [1, 1]"
  using scraper_prints_rates [of "\<lambda>_. telemetry_init (0 :: nat)" "\<lambda>e n. (e, n + e)" "[[(0, 5), (2, 6)], [(0, 7)]]" "[0, 1]"]
  by (simp add: telemetry_init_def get_count_def seen_def)

end
