(* ===== verification/Prometheus_Exporter.thy ===== *)
theory Prometheus_Exporter
  imports Telemetry Decimal
begin

text \<open>
  \<open>prometheus_exporter\<close> of \<open>include/conduit/pending/supplemental/prometheus_exporter.hpp\<close>: an HTTP endpoint that answers
  every connection with the registered counters in the text format of Prometheus. The answers of
  \<open>socket\<close>, \<open>bind\<close>, \<open>listen\<close> and \<open>accept\<close>, and the wrappers of \<open>Telemetry\<close> as they are when they are read,
  are input.
\<close>

section \<open>The text\<close>

abbreviation newline :: char where "newline \<equiv> CHR 0x0A"
abbreviation crlf :: string where "crlf \<equiv> [CHR 0x0D, CHR 0x0A]"

definition counter_text :: "string \<times> u64 \<Rightarrow> string" where
  "counter_text c =
     (case c of (name, val) \<Rightarrow>
        ''# HELP '' @ name @ '' CONDUIT processed events.'' @ [newline] @
        ''# TYPE '' @ name @ '' counter'' @ [newline] @
        name @ '' '' @ to_string (unat val) @ [newline, newline])"

definition metrics_body :: "(string \<times> u64) list \<Rightarrow> string" where
  "metrics_body counters = concat (map counter_text counters)"

definition metrics_response :: "(string \<times> u64) list \<Rightarrow> string" where
  "metrics_response counters =
     (let body = metrics_body counters
      in ''HTTP/1.1 200 OK'' @ crlf @ ''Content-Type: text/plain; version=0.0.4'' @ crlf @
         ''Content-Length: '' @ to_string (length body) @ crlf @ ''Connection: close'' @ crlf @ crlf @ body)"

section \<open>The node\<close>

text \<open>A counter is a name and the wrapper whose \<open>get_count\<close> is read, by its address.\<close>

record prometheus_exporter =
  exp_port :: u16
  exp_server_fd :: int
  exp_running :: bool
  exp_counters :: "(string \<times> nat) list"
  exp_sent :: "(int \<times> string) list"
  exp_closed :: "int list"

definition exporter_init :: "u16 \<Rightarrow> prometheus_exporter" where
  "exporter_init port = \<lparr>exp_port = port, exp_server_fd = -1, exp_running = False, exp_counters = [], exp_sent = [], exp_closed = []\<rparr>"

definition register_counter :: "string \<Rightarrow> nat \<Rightarrow> prometheus_exporter \<Rightarrow> prometheus_exporter" where
  "register_counter metric_name target e = e\<lparr>exp_counters := exp_counters e @ [(metric_name, target)]\<rparr>"

definition exporter_stop :: "prometheus_exporter \<Rightarrow> prometheus_exporter" where
  "exporter_stop e =
     (let e1 = e\<lparr>exp_running := False\<rparr>
      in if exp_server_fd e1 \<noteq> -1 then e1\<lparr>exp_closed := exp_closed e1 @ [exp_server_fd e1], exp_server_fd := -1\<rparr> else e1)"

definition exporter_dtor :: "prometheus_exporter \<Rightarrow> prometheus_exporter" where
  "exporter_dtor e = exporter_stop e"

text \<open>A connection: the counters are read, the response is sent and the socket closed. A round of the loop is given
  whether \<open>stop\<close> was called before the check of the flag, the answer of \<open>accept\<close>, and the wrappers as they
  are when they are read.\<close>

definition read_counters :: "(string \<times> nat) list \<Rightarrow> (nat \<Rightarrow> 's telemetry_wrapper) \<Rightarrow> (string \<times> u64) list" where
  "read_counters cs wrappers = map (\<lambda>(name, target). (name, get_count (wrappers target))) cs"

definition serve_scrape :: "int \<Rightarrow> (nat \<Rightarrow> 's telemetry_wrapper) \<Rightarrow> prometheus_exporter \<Rightarrow> prometheus_exporter" where
  "serve_scrape client wrappers e =
     e\<lparr>exp_sent := exp_sent e @ [(client, metrics_response (read_counters (exp_counters e) wrappers))], exp_closed := exp_closed e @ [client]\<rparr>"

fun exporter_loop :: "(bool \<times> int \<times> (nat \<Rightarrow> 's telemetry_wrapper)) list \<Rightarrow> prometheus_exporter \<Rightarrow> prometheus_exporter outcome" where
  "exporter_loop [] e = Pending"
| "exporter_loop ((stopped, client, wrappers) # rounds) e =
     (let e1 = (if stopped then exporter_stop e else e)
      in if \<not> exp_running e1 then Done e1
         else if client < 0 then exporter_loop rounds e1
         else exporter_loop rounds (serve_scrape client wrappers e1))"

text \<open>\<open>run\<close> returns at once when the endpoint cannot be set up.\<close>

definition exporter_run :: "int \<Rightarrow> int \<Rightarrow> int \<Rightarrow> (bool \<times> int \<times> (nat \<Rightarrow> 's telemetry_wrapper)) list \<Rightarrow> prometheus_exporter \<Rightarrow> prometheus_exporter outcome" where
  "exporter_run socket_result bind_result listen_result rounds e =
     (let e1 = e\<lparr>exp_server_fd := socket_result\<rparr>
      in if socket_result < 0 \<or> bind_result < 0 \<or> listen_result < 0 then Done e1
         else exporter_loop rounds (e1\<lparr>exp_running := True\<rparr>))"

text \<open>Once run has returned, the listening socket is closed exactly once by the end of the exporter, whether
  \<open>stop\<close> ended the loop or the set-up failed.\<close>

lemma exporter_stop_again: "exporter_dtor (exporter_stop e) = exporter_stop e"
  by (simp add: exporter_dtor_def exporter_stop_def Let_def)

lemma exporter_loop_closes:
  "exporter_loop rounds e = Done e' \<Longrightarrow> exp_running e \<Longrightarrow> exp_server_fd e = fd \<Longrightarrow> fd \<noteq> -1 \<Longrightarrow> fd \<notin> set (exp_closed e) \<Longrightarrow>
   \<forall>(stopped, client, wrappers) \<in> set rounds. client \<noteq> fd \<Longrightarrow> exp_server_fd e' = -1 \<and> count_list (exp_closed e') fd = 1"
  by (induction rounds e rule: exporter_loop.induct)
    (auto simp: Let_def exporter_stop_def serve_scrape_def split: if_splits)

theorem exporter_closes_once:
  assumes "exporter_run fd bind_result listen_result rounds (exporter_init port) = Done e" "0 \<le> fd"
    and "\<forall>(stopped, client, wrappers) \<in> set rounds. client \<noteq> fd"
  shows "count_list (exp_closed (exporter_dtor e)) fd = 1"
proof (cases "bind_result < 0 \<or> listen_result < 0")
  case True
  then show ?thesis using assms(1,2) by (auto simp: exporter_run_def exporter_init_def exporter_dtor_def exporter_stop_def)
next
  case False
  then have "exp_server_fd e = -1 \<and> count_list (exp_closed e) fd = 1"
    using assms exporter_loop_closes [of rounds _ e fd] by (auto simp: exporter_run_def exporter_init_def Let_def)
  then show ?thesis by (simp add: exporter_dtor_def exporter_stop_def)
qed

theorem exporter_closes_once_witness:
  "\<exists>e. exporter_run 5 0 0 [(False, 7, \<lambda>_. telemetry_init ()), (True, 0, \<lambda>_. telemetry_init ())] (exporter_init 8080) = Done e \<and> count_list (exp_closed (exporter_dtor e)) 5 = 1"
proof -
  obtain e where "exporter_run 5 0 0 [(False, 7, \<lambda>_. telemetry_init ()), (True, 0, \<lambda>_. telemetry_init ())] (exporter_init 8080) = Done e"
    by (simp add: exporter_run_def exporter_init_def Let_def exporter_stop_def serve_scrape_def)
  with exporter_closes_once [of 5 0 0 "[(False, 7, \<lambda>_. telemetry_init ()), (True, 0, \<lambda>_. telemetry_init ())]" 8080 e] show ?thesis by simp
qed

section \<open>Reading the text back\<close>

text \<open>A reader of the format: the lines that are neither empty nor comments, each a name, a blank and a number.\<close>

function text_lines :: "string \<Rightarrow> string list" where
  "text_lines [] = []"
| "text_lines (c # s) = takeWhile (\<lambda>d. d \<noteq> newline) (c # s) # text_lines (drop 1 (dropWhile (\<lambda>d. d \<noteq> newline) (c # s)))"
  by pat_completeness auto
termination
  by (relation "measure length") (auto simp: less_Suc_eq_le intro: order_trans [OF diff_le_self length_dropWhile_le])

definition read_sample :: "string \<Rightarrow> string \<times> nat" where
  "read_sample l = (takeWhile (\<lambda>c. c \<noteq> CHR '' '') l, read_decimal (drop 1 (dropWhile (\<lambda>c. c \<noteq> CHR '' '') l)))"

definition read_metrics :: "string \<Rightarrow> (string \<times> nat) list" where
  "read_metrics body = map read_sample (filter (\<lambda>l. l \<noteq> [] \<and> hd l \<noteq> CHR ''#'') (text_lines body))"

definition metric_name :: "string \<Rightarrow> bool" where
  "metric_name n \<longleftrightarrow> n \<noteq> [] \<and> hd n \<noteq> CHR ''#'' \<and> set n \<inter> {CHR '' '', newline} = {}"

lemma until_char [simp]:
  "x \<notin> set l \<Longrightarrow> takeWhile (\<lambda>d. d \<noteq> x) (l @ x # s) = l" "x \<notin> set l \<Longrightarrow> dropWhile (\<lambda>d. d \<noteq> x) (l @ x # s) = x # s"
  by (induction l) auto

lemma text_lines_line: "newline \<notin> set l \<Longrightarrow> text_lines (l @ newline # s) = l # text_lines s"
  using until_char [of newline l s] by (cases l) auto

lemma read_sample_line:
  "CHR '' '' \<notin> set n \<Longrightarrow> read_sample (n @ CHR '' '' # to_string v) = (n, v)"
  by (simp add: read_sample_def)

lemma read_counter:
  assumes "metric_name n"
  shows "read_metrics (counter_text (n, v) @ s) = (n, unat v) # read_metrics s"
proof -
  let ?remark = "''# HELP '' @ n @ '' CONDUIT processed events.''" and ?type = "''# TYPE '' @ n @ '' counter''"
  let ?line = "n @ CHR '' '' # to_string (unat v)"
  have clean: "newline \<notin> set n" "newline \<notin> set (to_string (unat v))"
    using assms to_string_digits [of newline "unat v"] by (auto simp: metric_name_def is_digit_def)
  have "text_lines (counter_text (n, v) @ s) = text_lines (?remark @ newline # (?type @ newline # (?line @ newline # ([] @ newline # s))))"
    by (simp add: counter_text_def)
  also have "\<dots> = [?remark, ?type, ?line, []] @ text_lines s"
    using clean by (subst text_lines_line, simp)+ simp
  finally show ?thesis
    using assms read_sample_line [of n "unat v"] by (auto simp: read_metrics_def metric_name_def)
qed

lemma read_metrics_body:
  "\<forall>n \<in> set (map fst cs). metric_name n \<Longrightarrow> read_metrics (metrics_body cs) = map (\<lambda>(n, v). (n, unat v)) cs"
proof (induction cs)
  case (Cons c cs)
  obtain n v where c: "c = (n, v)" by (cases c)
  then have "metric_name n" using Cons.prems by simp
  with Cons c show ?case by (simp add: metrics_body_def read_counter)
qed (simp add: metrics_body_def read_metrics_def)


section \<open>Properties\<close>

text \<open>A client's view of a response: the announced length, and the body behind the empty line.\<close>

definition header_part :: "string \<Rightarrow> string" where
  "header_part len = ''HTTP/1.1 200 OK'' @ crlf @ ''Content-Type: text/plain; version=0.0.4'' @ crlf @
     ''Content-Length: '' @ len @ crlf @ ''Connection: close'' @ crlf @ crlf"

text \<open>A response is read back as the counters it was made of.\<close>

lemma metrics_roundtrip:
  assumes "\<forall>n \<in> set (map fst counters). metric_name n"
  shows "\<exists>len body. metrics_response counters = header_part len @ body \<and> read_decimal len = length body \<and>
    read_metrics body = map (\<lambda>(n, v). (n, unat v)) counters"
proof -
  let ?body = "metrics_body counters"
  have "metrics_response counters = header_part (to_string (length ?body)) @ ?body"
    by (simp add: metrics_response_def header_part_def Let_def)
  then show ?thesis using read_metrics_body [OF assms] read_to_string [of "length ?body"] by blast
qed

lemma exporter_loop_sent:
  "exp_running e \<Longrightarrow> \<exists>e'. exporter_loop (map (Pair False) cs @ [(True, c, w)]) e = Done e' \<and>
     exp_sent e' = exp_sent e @ map (\<lambda>(client, ws). (client, metrics_response (read_counters (exp_counters e) ws))) (filter (\<lambda>(client, ws). 0 \<le> client) cs)"
proof (induction cs arbitrary: e)
  case (Cons x cs)
  obtain client ws where x: "x = (client, ws)" by (cases x)
  show ?case
    using Cons.IH [of e] Cons.IH [of "serve_scrape client ws e"] Cons.prems by (auto simp: x serve_scrape_def)
qed (simp add: exporter_stop_def Let_def)

text \<open>C40: What a scraper of the endpoint reads is how many events the nodes have handled: until \<open>stop\<close> every accepted
  connection gets one response, a header and a body of exactly the announced length, and reading that
  body in the Prometheus text format, comments skipped, gives the registered names in order, each
  with the number of events its node has handled by then, modulo \<open>2 ^ 64\<close>. Names must be as
  Prometheus demands: not empty, no comment sign in front, no blank and no line break.\<close>

theorem metrics_served:
  assumes "\<forall>(name, target) \<in> set cs. metric_name name" "0 \<le> fd"
    and "\<forall>t. get_count (ws t) = 0"
  shows "\<exists>e'. exporter_run fd 0 0 (map (\<lambda>(client, evs). (False, client, handled inner_on evs ws)) clients @ [(True, c, w)])
      (fold (\<lambda>(name, target). register_counter name target) cs (exporter_init port)) = Done e' \<and>
    map fst (exp_sent e') = filter (\<lambda>client. 0 \<le> client) (map fst clients) \<and>
    list_all2 (\<lambda>(_, evs) (_, response). \<exists>len body. response = header_part len @ body \<and> read_decimal len = length body \<and>
        read_metrics body = map (\<lambda>(name, target). (name, length (filter (\<lambda>e. fst e = target) evs) mod 2 ^ 64)) cs)
      (filter (\<lambda>(client, evs). 0 \<le> client) clients) (exp_sent e')"
proof -
  let ?e = "fold (\<lambda>(name, target). register_counter name target) cs (exporter_init port)"
  have fresh: "exp_counters (fold (\<lambda>(name, target). register_counter name target) cs e) = exp_counters e @ cs"
      "exp_sent (fold (\<lambda>(name, target). register_counter name target) cs e) = exp_sent e" for e
    by (induction cs arbitrary: e) (auto simp: register_counter_def)
  define found where "found = (\<lambda>(client :: int, evs). (client, handled inner_on evs ws))"
  have pair: "(\<lambda>(client, evs). (False, client, handled inner_on evs ws)) = Pair False \<circ> found" by (auto simp: found_def)
  obtain e' where e': "exporter_run fd 0 0 (map (Pair False) (map found clients) @ [(True, c, w)]) ?e = Done e'"
      "exp_sent e' = map (\<lambda>(client, ws). (client, metrics_response (read_counters cs ws))) (filter (\<lambda>(client, ws). 0 \<le> client) (map found clients))"
    using exporter_loop_sent [of "?e\<lparr>exp_server_fd := fd, exp_running := True\<rparr>" "map found clients" c w] assms(2) fresh [of "exporter_init port"]
    by (auto simp: exporter_run_def Let_def exporter_init_def)
  have sent: "exp_sent e' = map (\<lambda>(client, evs). (client, metrics_response (read_counters cs (handled inner_on evs ws))))
      (filter (\<lambda>(client, evs). 0 \<le> client) clients)"
    unfolding e'(2) by (induction clients) (auto simp: found_def)
  have vals: "map (\<lambda>(n, v). (n, unat v)) (read_counters cs (handled inner_on evs ws)) =
      map (\<lambda>(name, target). (name, length (filter (\<lambda>e. fst e = target) evs) mod 2 ^ 64)) cs" for evs
    using assms(3) by (auto simp: read_counters_def handled_count unsigned_of_nat take_bit_eq_mod)
  have names: "\<forall>n \<in> set (map fst (read_counters cs (handled inner_on evs ws))). metric_name n" for evs
    using assms(1) by (auto simp: read_counters_def)
  note read = metrics_roundtrip [OF names, unfolded vals]
  have "list_all2 (\<lambda>(_, evs) (_, response). \<exists>len body. response = header_part len @ body \<and> read_decimal len = length body \<and>
        read_metrics body = map (\<lambda>(name, target). (name, length (filter (\<lambda>e. fst e = target) evs) mod 2 ^ 64)) cs)
      (filter (\<lambda>(client, evs). 0 \<le> client) clients) (exp_sent e')"
    unfolding sent list_all2_map2 list_all2_same using read by auto
  moreover have "map fst (exp_sent e') = filter (\<lambda>client. 0 \<le> client) (map fst clients)"
    unfolding sent by (induction clients) auto
  ultimately show ?thesis using e'(1) by (auto simp: pair)
qed

theorem metrics_served_witness:
  "\<exists>e'. exporter_run 3 0 0 (map (\<lambda>(client, evs). (False, client, handled (\<lambda>e n. (e, n + e)) evs (\<lambda>_. telemetry_init (0 :: nat))))
        [(7, [(1, 5), (0, 2), (1, 6)]), (- 1, [])] @ [(True, - 1, \<lambda>_. telemetry_init 0)])
      (fold (\<lambda>(name, target). register_counter name target) [(''ticks'', 1), (''drops'', 2)] (exporter_init 8080)) = Done e' \<and>
    (\<exists>len body. exp_sent e' = [(7, header_part len @ body)] \<and> read_decimal len = length body \<and> read_metrics body = [(''ticks'', 2), (''drops'', 0)])"
  using metrics_served [of "[(''ticks'', 1), (''drops'', 2)]" 3 "\<lambda>_. telemetry_init (0 :: nat)" "\<lambda>e n. (e, n + e)"
      "[(7, [(1, 5), (0, 2), (1, 6)]), (- 1, [])]" "- 1" "\<lambda>_. telemetry_init 0" 8080]
  by (auto simp: metric_name_def telemetry_init_def get_count_def list_all2_Cons1) (metis numeral_2_eq_2)

end
