(* ===== verification/Moe_Dispatcher.thy ===== *)
theory Moe_Dispatcher
  imports Timing_Wheel
begin

text \<open>
  \<open>moe_dispatcher\<close> of \<open>include/conduit/pending/domain/moe_spark.hpp\<close>: on every tick it advances the timing wheel, reports
  an expired task, takes at most one request from its pipe, arms its timeout and hands it to an
  expert by setting its ownership mask. The pipe's \<open>pop\<close>, a template parameter, answers with the
  address of a request; entities live in a store. The payload of an entity is never touched.
\<close>

section \<open>The dispatcher\<close>

record ai_tensor_entity =
  ent_next :: u32
  ownership_mask :: u8
  expert_id :: u32
  timeout_node_id :: u32

record moe_dispatcher =
  moe_wheel :: timing_wheel
  moe_entities :: "nat \<Rightarrow> ai_tensor_entity"
  moe_reports :: "u32 list"

definition moe_init :: "timing_wheel \<Rightarrow> (nat \<Rightarrow> ai_tensor_entity) \<Rightarrow> moe_dispatcher" where
  "moe_init wheel entities = \<lparr>moe_wheel = wheel, moe_entities = entities, moe_reports = []\<rparr>"

text \<open>The loop over expired tasks sets its variable to the end of the list after the first report.\<close>

definition report_expired :: "u32 \<Rightarrow> moe_dispatcher \<Rightarrow> moe_dispatcher" where
  "report_expired expired_head d =
     (if expired_head \<noteq> end_of_list then d\<lparr>moe_reports := moe_reports d @ [expired_head]\<rparr> else d)"

definition hand_over :: "ai_tensor_entity \<Rightarrow> ai_tensor_entity" where
  "hand_over e =
     (if expert_id e = 0 then e\<lparr>ownership_mask := 2\<rparr>
      else if expert_id e = 1 then e\<lparr>ownership_mask := 4\<rparr>
      else e)"

definition process_tick :: "nat option \<Rightarrow> moe_dispatcher \<Rightarrow> moe_dispatcher" where
  "process_tick incoming d =
     (let (expired_head, wheel) = tick (moe_wheel d);
          d1 = report_expired expired_head (d\<lparr>moe_wheel := wheel\<rparr>)
      in case incoming of
           None \<Rightarrow> d1
         | Some a \<Rightarrow>
             d1\<lparr>moe_wheel := schedule 42 100 (moe_wheel d1),
                moe_entities := (moe_entities d1)(a := hand_over (moe_entities d1 a))\<rparr>)"

section \<open>Ticks and timeouts\<close>

definition tick_ops :: "nat option \<Rightarrow> wheel_op list" where
  "tick_ops incoming = Tick # (case incoming of None \<Rightarrow> [] | Some _ \<Rightarrow> [Schedule 42 100])"

lemma process_tick_wheel: "moe_wheel (process_tick incoming d) = fold wheel_step (tick_ops incoming) (moe_wheel d)"
  by (auto simp: process_tick_def tick_ops_def report_expired_def Let_def split_beta split: option.split)

text \<open>The report of a tick is the head of the list of the tasks that are due.\<close>

lemma process_tick_reports:
  assumes rel: "wheel_rel k ls (moe_wheel d) sp" and now: "now sp < 2 ^ 64 - 1"
  shows "{n. due sp n = Some (Suc (now sp))} = {} \<Longrightarrow> moe_reports (process_tick incoming d) = moe_reports d"
    and "{n. due sp n = Some (Suc (now sp))} = {m} \<Longrightarrow> moe_reports (process_tick incoming d) = moe_reports d @ [m]"
proof -
  note T = tick_rel [OF rel now] and D = wheel_relD [OF rel]
  let ?b = "Suc (now sp) mod 2 ^ k"
  have reports: "moe_reports (process_tick incoming d) =
      moe_reports d @ (if fst (tick (moe_wheel d)) = end_of_list then [] else [fst (tick (moe_wheel d))])"
    by (auto simp: process_tick_def report_expired_def Let_def split_beta split: option.split)
  have dl: "dlist (nodes (moe_wheel d)) (of_nat ?b) end_of_list (fst (tick (moe_wheel d))) (ls ?b)"
    using D(5) [OF T(5)] T(2) by simp
  show "moe_reports (process_tick incoming d) = moe_reports d" if "{n. due sp n = Some (Suc (now sp))} = {}"
    using dl T(4) that reports by simp
  show "moe_reports (process_tick incoming d) = moe_reports d @ [m]" if "{n. due sp n = Some (Suc (now sp))} = {m}"
  proof (cases "ls ?b")
    case Nil
    with T(4) that show ?thesis by simp
  next
    case (Cons x xs)
    then have "x = m" using T(4) that by auto
    with Cons dl reports show ?thesis by simp
  qed
qed

text \<open>Idle ticks as long as nothing is due.\<close>

lemma idle_ticks:
  assumes "\<exists>ls. wheel_rel k ls (moe_wheel d) sp" "now sp + n < 2 ^ 64 - 1" "\<forall>m t. due sp m = Some t \<longrightarrow> now sp + n < t"
  shows "moe_reports ((process_tick None ^^ n) d) = moe_reports d \<and>
    (\<exists>ls. wheel_rel k ls (moe_wheel ((process_tick None ^^ n) d)) (sp\<lparr>now := now sp + n\<rparr>))"
  using assms
proof (induction n)
  case 0
  then show ?case by simp
next
  case (Suc n)
  let ?d = "(process_tick None ^^ n) d" and ?sp = "sp\<lparr>now := now sp + n\<rparr>"
  have later: "now sp + n < t" "Suc (now sp + n) < t" if "due sp m = Some t" for m t
    using Suc.prems(3) that by force+
  obtain ls where rel: "wheel_rel k ls (moe_wheel ?d) ?sp" and rep: "moe_reports ?d = moe_reports d"
    using Suc.IH [OF Suc.prems(1)] Suc.prems(2) later(1) by auto
  have now: "now ?sp < 2 ^ 64 - 1" using Suc.prems(2) by simp
  have none: "{m. due ?sp m = Some (Suc (now ?sp))} = {}" using later(2) by fastforce
  have "spec_step (2 ^ k) Tick ?sp = sp\<lparr>now := now sp + Suc n\<rparr>"
    using none by (cases sp) (auto simp: fun_eq_iff)
  with tick_rel(1) [OF rel now] show ?case
    using process_tick_reports(1) [OF rel now none, of None] rep process_tick_wheel [of None ?d]
    by (auto simp: tick_ops_def)
qed


section \<open>Properties\<close>

text \<open>A request that comes alone times out after exactly 100 ticks: on a wheel of more than 100 slots, after any number of
  idle ticks, a request arms its timeout; the next 99 ticks report nothing and the one after reports
  it. Expert 0 gets the request with mask 2, expert 1 with mask 4.\<close>

theorem request_times_out:
  fixes a :: nat and ents :: "nat \<Rightarrow> ai_tensor_entity"
  assumes "k < 32" "100 < (2::nat) ^ k" "\<And>n. wheel_bucket (pool n) = end_of_list" "n + 2 ^ k + 101 < 2 ^ 64"
  defines "d \<equiv> process_tick (Some a) ((process_tick None ^^ n) (moe_init (wheel_init (2 ^ k) pool) ents))"
  shows "moe_reports ((process_tick None ^^ 99) d) = [] \<and> moe_reports (process_tick r ((process_tick None ^^ 99) d)) = [42] \<and>
    moe_entities d a = hand_over (ents a)"
proof -
  let ?d0 = "moe_init (wheel_init (2 ^ k) pool) ents" and ?sp = "spec_init\<lparr>now := n\<rparr>"
  define dn where "dn = (process_tick None ^^ n) ?d0"
  have "\<exists>ls. wheel_rel k ls (moe_wheel ?d0) spec_init" using init_rel [of k pool, OF assms(1,3)] by (auto simp: moe_init_def)
  from idle_ticks [OF this, of n] obtain ls where rel: "wheel_rel k ls (moe_wheel dn) ?sp" and rep: "moe_reports dn = []"
    using assms(4) by (auto simp: spec_init_def dn_def moe_init_def)
  have d: "d = process_tick (Some a) dn" by (simp add: d_def dn_def)
  have now: "now ?sp < 2 ^ 64 - 1" using assms(4) by simp
  have "moe_reports d = []" using process_tick_reports(1) [OF rel now] rep by (simp add: d spec_init_def)
  define sp where "sp = spec_step (2 ^ k) (Schedule 42 100) (spec_step (2 ^ k) Tick ?sp)"
  have sp: "now sp = Suc n" "due sp = [42 \<mapsto> n + 101]"
    using assms(2) by (auto simp: sp_def spec_init_def effective_delay_def Let_def fun_eq_iff)
  have late: "\<forall>m t. due sp m = Some t \<longrightarrow> now sp + 99 < t" using sp by simp
  have "\<exists>ls. wheel_rel k ls (moe_wheel d) sp"
    using schedule_rel [OF tick_rel(1) [OF rel now], of 42 100] assms(4)
    unfolding d process_tick_wheel sp_def by (auto simp: tick_ops_def spec_init_def)
  from idle_ticks [OF this _ late] obtain ls' where rel': "wheel_rel k ls' (moe_wheel ((process_tick None ^^ 99) d)) (sp\<lparr>now := n + 100\<rparr>)"
      and rep': "moe_reports ((process_tick None ^^ 99) d) = []"
    using assms(4) sp(1) \<open>moe_reports d = []\<close> by (auto simp: add.commute)
  have "moe_reports (process_tick r ((process_tick None ^^ 99) d)) = [42]"
    using process_tick_reports(2) [OF rel', of 42 r] rep' assms(4) sp by (auto split: if_splits)
  moreover have "moe_entities ((process_tick None ^^ j) ?d0) = ents" for j
    by (induction j) (auto simp: moe_init_def process_tick_def report_expired_def Let_def split_beta)
  then have "moe_entities d a = hand_over (ents a)"
    by (simp add: d dn_def process_tick_def report_expired_def Let_def split_beta)
  ultimately show ?thesis using rep' by blast
qed

theorem request_times_out_witness:
  "\<exists>d. d = process_tick (Some 0) ((process_tick None ^^ 3) (moe_init (wheel_init (2 ^ 8) (\<lambda>_. timing_node_init))
      (\<lambda>_. \<lparr>ent_next = 0, ownership_mask = 0, expert_id = 1, timeout_node_id = 0\<rparr>))) \<and>
    moe_reports ((process_tick None ^^ 99) d) = [] \<and> ownership_mask (moe_entities d 0) = 4"
  using request_times_out [of 8 "\<lambda>_. timing_node_init" 3 0 "\<lambda>_. \<lparr>ent_next = 0, ownership_mask = 0, expert_id = 1, timeout_node_id = 0\<rparr>"]
  by (auto simp: timing_node_init_def hand_over_def)

end
