(* ===== verification/Event_Flow.thy ===== *)
theory Event_Flow
  imports Round_Robin "HOL-Library.Multiset"
begin

text \<open>
  The life of an event across the components of \<open>include/conduit/core.hpp\<close>: a cell leaves
  the pool in \<open>make\<close>, travels through conduits, the switch and the poller, and returns when
  the pointer that holds it is destroyed. The ledger accounts for every cell of the pool:
  it is free, in exactly one slot of one conduit, or in the hand of exactly one thread.
  The operations of each component keep the ledger balanced; the programs of
  \<open>examples/\<close> are verified on top of these facts.
\<close>

section \<open>Pointers at the end of their scope, and events pushed as they are made\<close>

text \<open>The destructor of an \<open>event_ptr\<close> with the deleter call it makes, if any.\<close>

definition drop_event :: "bool list \<Rightarrow> 'c cell_ptr \<Rightarrow> 'a pool \<Rightarrow> 'a pool outcome" where
  "drop_event ws ev p =
     fold (\<lambda>call r. bind_outcome r (release_to_pool ws call)) (event_ptr_dtor ev) (Done p)"

text \<open>\<open>q.push(memory.make(v).release())\<close>: the pointer is released whether or not there is room.\<close>

definition push_made ::
  "('a \<Rightarrow> u64) \<Rightarrow> 'c \<Rightarrow> bool list \<Rightarrow> 'a \<Rightarrow> 'a pool \<Rightarrow> nat conduit \<Rightarrow> (bool \<times> 'a pool \<times> nat conduit) outcome" where
  "push_made bits this ws v p q =
     map_outcome_result
       (\<lambda>(ev, p'). let (ok, q') = conduit_push (fst (event_ptr_release ev)) q in (ok, p', q'))
       (pool_make bits this ws v p)"

abbreviation pool_ptr :: "'c \<Rightarrow> nat \<Rightarrow> 'c cell_ptr" where
  "pool_ptr this x \<equiv> event_ptr_of (Some x) (Some Release_To_Pool) (Some this)"

text \<open>A list of spurious failures that lets some attempt succeed.\<close>

definition lets_succeed :: "bool list \<Rightarrow> bool list" where
  "lets_succeed ws = (if False \<in> set ws then ws else [False])"

lemma lets_succeed: "False \<in> set (lets_succeed ws)"
  by (simp add: lets_succeed_def)

section \<open>The ledger\<close>

definition queued :: "nat set \<Rightarrow> 'p conduits \<Rightarrow> 'p multiset" where
  "queued T qs = (\<Sum>t \<in> T. mset (conduit_items (qs t)))"

definition cell_ledger :: "('a \<Rightarrow> u64) \<Rightarrow> nat set \<Rightarrow> nat multiset \<Rightarrow> 'a pool \<Rightarrow> nat conduits \<Rightarrow> bool" where
  "cell_ledger bits T held p qs \<longleftrightarrow>
     finite T \<and> pool_inv bits p \<and> (\<forall>t \<in> T. conduit_inv (qs t)) \<and>
     mset (pool_free_cells bits p) + queued T qs + held = mset_set {..<length (memory p)}"

lemma queued_split: "finite T \<Longrightarrow> t \<in> T \<Longrightarrow> queued T qs = mset (conduit_items (qs t)) + queued (T - {t}) qs"
  by (simp add: queued_def sum.remove)

lemma queued_other: "t \<notin> T \<Longrightarrow> queued T (qs(t := q)) = queued T qs"
  by (auto simp: queued_def intro!: sum.cong)

lemma queued_update:
  "finite T \<Longrightarrow> t \<in> T \<Longrightarrow> queued T (qs(t := q)) = mset (conduit_items q) + queued (T - {t}) qs"
  by (simp add: queued_split [of T t] queued_other)

lemma queued_union: "finite S \<Longrightarrow> finite T \<Longrightarrow> S \<inter> T = {} \<Longrightarrow> queued (S \<union> T) qs = queued S qs + queued T qs"
  by (simp add: queued_def sum.union_disjoint)

lemma size_queued: "size (queued T qs) = (\<Sum>t \<in> T. length (conduit_items (qs t)))"
  by (cases "finite T") (simp_all add: queued_def size_multiset_sum)

lemma ledger_once:
  assumes "cell_ledger bits T held p qs"
  shows "count (mset (pool_free_cells bits p)) x + count (queued T qs) x + count held x =
    of_bool (x < length (memory p))"
proof -
  have "mset (pool_free_cells bits p) + queued T qs + held = mset_set {..<length (memory p)}"
    using assms by (simp add: cell_ledger_def)
  then have "count (mset (pool_free_cells bits p) + queued T qs + held) x = count (mset_set {..<length (memory p)}) x"
    by (rule arg_cong)
  then show ?thesis by (simp only: count_union) (simp add: count_mset_set')
qed

lemma not_in_set_count: "count (mset xs) x = 0 \<Longrightarrow> x \<notin> set xs"
  by (metis not_in_iff set_mset_mset)

lemma ledger_cell:
  assumes "cell_ledger bits T (add_mset x held) p qs"
  shows "x < length (memory p)" "x \<notin> set (pool_free_cells bits p)" "x \<notin># queued T qs" "x \<notin># held"
proof -
  have c: "count (mset (pool_free_cells bits p)) x + count (queued T qs) x + Suc (count held x) =
      of_bool (x < length (memory p))"
    using ledger_once [OF assms, of x] by (simp only: count_add_mset if_True simp_thms)
  then show x: "x < length (memory p)" by (rule contrapos_pp) simp
  then have "count (mset (pool_free_cells bits p)) x + count (queued T qs) x + Suc (count held x) = 1"
    using c by (simp only: of_bool_eq)
  then have "count (mset (pool_free_cells bits p)) x = 0 \<and> count (queued T qs) x = 0 \<and> count held x = 0"
    by linarith
  then show "x \<notin> set (pool_free_cells bits p)" "x \<notin># queued T qs" "x \<notin># held"
    by (simp_all add: not_in_iff)
qed

text \<open>A cell in a conduit or in a hand holds an object.\<close>

lemma ledger_object:
  assumes "cell_ledger bits T held p qs" "x \<in># queued T qs + held"
  shows "pool_object p x \<noteq> None"
proof -
  have inv: "pool_inv bits p" using assms(1) by (simp add: cell_ledger_def)
  have "0 < count (queued T qs + held) x" using assms(2) by (simp only: count_greater_zero_iff)
  then have c: "0 < count (queued T qs) x + count held x" by (simp only: count_union)
  then have x: "x < length (memory p)"
    by (rule contrapos_pp) (use ledger_once [OF assms(1), of x] in simp)
  have "count (mset (pool_free_cells bits p)) x + count (queued T qs) x + count held x = 1"
    using ledger_once [OF assms(1), of x] x by (simp only: of_bool_eq)
  then have "count (mset (pool_free_cells bits p)) x = 0" using c by linarith
  with x have "x < length (memory p)" "count (mset (pool_free_cells bits p)) x = 0" by simp_all
  then have "x \<in> dom (pool_object p)" using not_in_set_count pl.object_dom [OF inv] by auto
  then show ?thesis by auto
qed

lemma ledger_sizes:
  assumes "cell_ledger bits T held p qs"
  shows "length (pool_free_cells bits p) + size (queued T qs) + size held = length (memory p)"
proof -
  have "size (mset (pool_free_cells bits p) + queued T qs + held) = size (mset_set {..<length (memory p)})"
    using assms by (simp add: cell_ledger_def)
  then show ?thesis by simp
qed

text \<open>With nothing in flight every cell is free.\<close>

lemma ledger_idle:
  assumes "cell_ledger bits T {#} p qs" "queued T qs = {#}"
  shows "distinct (pool_free_cells bits p)" "set (pool_free_cells bits p) = {..<length (memory p)}"
proof -
  have eq: "mset (pool_free_cells bits p) = mset_set {..<length (memory p)}"
    using assms by (simp add: cell_ledger_def)
  from arg_cong [OF eq, of set_mset] show "set (pool_free_cells bits p) = {..<length (memory p)}" by simp
  show "distinct (pool_free_cells bits p)"
    using assms(1) by (intro pl.free_distinct) (simp add: cell_ledger_def)
qed

lemma ledger_start:
  assumes "0 < n" "n \<le> 0xFFFFFFFF" "finite T" "\<forall>t \<in> T. conduit_inv (qs t) \<and> conduit_items (qs t) = []"
  shows "\<exists>p. pool_ctor n = Done p \<and> cell_ledger bits T {#} p qs \<and> length (memory p) = n"
proof -
  obtain p :: "'a pool" where p: "pool_ctor n = Done p" "pool_inv bits p" "pool_free_cells bits p = [0..<n]"
      "length (memory p) = n"
    using pool_ctor_inv [OF assms(1,2), of bits] by blast
  then have "cell_ledger bits T {#} p qs"
    using assms(3,4) by (simp add: cell_ledger_def queued_def flip: mset_set_upto_eq_mset_upto atLeast0LessThan)
  then show ?thesis using p by blast
qed

lemma ledger_make:
  assumes "cell_ledger bits T held p qs" "False \<in> set ws" "pool_free_cells bits p \<noteq> []"
  shows "\<exists>x p'. pool_make bits this ws v p = Done (pool_ptr this x, p') \<and>
    cell_ledger bits T (add_mset x held) p' qs \<and> length (memory p') = length (memory p) \<and>
    pool_object p' = (pool_object p)(x \<mapsto> v) \<and> pool_object p x = None"
proof -
  obtain x xs where fc: "pool_free_cells bits p = x # xs" using assms(3) by (cases "pool_free_cells bits p") auto
  have inv: "pool_inv bits p" using assms(1) by (simp add: cell_ledger_def)
  obtain p' where "make_cell bits ws v p = Done (Some x, p')" "pool_inv bits p'"
      "pool_free_cells bits p' = xs" "length (memory p') = length (memory p)"
      "pool_object p' = (pool_object p)(x \<mapsto> v)"
    using pl.alloc_some [OF inv fc assms(2)] by blast
  moreover have "pool_object p x = None" using pl.object_dom [OF inv] fc by auto
  ultimately show ?thesis using assms(1) fc by (auto simp: pool_make_def cell_ledger_def)
qed

lemma pool_make_none:
  assumes "pool_inv bits p" "False \<in> set ws" "pool_free_cells bits p = []"
  shows "pool_make bits this ws v p = Done (event_ptr_default, p)"
proof -
  have "ws \<noteq> []" using assms(2) by auto
  then show ?thesis using make_cell_exhausted [OF assms(1,3), of ws v] by (simp add: pool_make_def)
qed

lemma ledger_drop:
  assumes "cell_ledger bits T (add_mset x held) p qs" "False \<in> set ws"
  shows "\<exists>p'. drop_event ws (pool_ptr this x) p = Done p' \<and> cell_ledger bits T held p' qs \<and>
    length (memory p') = length (memory p) \<and> pool_object p' = (pool_object p)(x := None)"
proof -
  have inv: "pool_inv bits p" using assms(1) by (simp add: cell_ledger_def)
  obtain p' where "pool_free ws (Some x) p = Done p'" "pool_inv bits p'"
      "pool_free_cells bits p' = x # pool_free_cells bits p" "length (memory p') = length (memory p)"
      "pool_object p' = (pool_object p)(x := None)"
    using pl.dealloc_some [OF inv ledger_cell(1,2) [OF assms(1)] assms(2)] by blast
  then show ?thesis
    using assms(1) by (auto simp: drop_event_def event_ptr_defs release_to_pool_def cell_ledger_def)
qed

lemma drop_null: "ep_ptr ev = None \<Longrightarrow> drop_event ws ev p = Done p"
  by (simp add: drop_event_def event_ptr_dtor_def event_ptr_reset_def split: option.splits)

section \<open>Conduits, switch and poller keep the ledger\<close>

lemma ledger_push:
  assumes "cell_ledger bits T (add_mset x held) p qs" "t \<in> T"
    and "length (conduit_items (qs t)) < conduit_room (qs t)"
  shows "\<exists>q. conduit_push (Some x) (qs t) = (True, q) \<and> conduit_items q = conduit_items (qs t) @ [x] \<and>
    conduit_room q = conduit_room (qs t) \<and> cell_ledger bits T held p (qs(t := q))"
proof -
  have inv: "conduit_inv (qs t)" using assms(1,2) by (simp add: cell_ledger_def)
  obtain ok q where q: "push_event x (qs t) = (ok, q)" by fastforce
  then have "ok" "conduit_items q = conduit_items (qs t) @ [x]" "conduit_room q = conduit_room (qs t)" "conduit_inv q"
    using cq.push_room [OF inv assms(3), of x] cq.capacity_push [OF inv, of x] cq.invar_push [OF inv, of x]
    by simp_all
  moreover have "cell_ledger bits T held p (qs(t := q))"
    using assms(1,2) calculation(2,4) by (auto simp: cell_ledger_def queued_update queued_split [of T t qs])
  ultimately show ?thesis using q by (simp add: push_event_def)
qed

lemma conduit_push_refused:
  assumes "conduit_inv q" "\<not> length (conduit_items q) < conduit_room q"
  shows "conduit_push r q = (False, q)"
  using assms conduit_push_full [of q r] cq.bounded [OF assms(1)]
  by (simp add: conduit_inv_def conduit_items_def)

lemma ledger_pop:
  assumes "cell_ledger bits T held p qs" "t \<in> T" "conduit_items (qs t) = x # xs"
  shows "\<exists>q. conduit_pop this (qs t) = (pool_ptr this x, q) \<and> conduit_items q = xs \<and>
    conduit_room q = conduit_room (qs t) \<and> cell_ledger bits T (add_mset x held) p (qs(t := q))"
proof -
  have inv: "conduit_inv (qs t)" using assms(1,2) by (simp add: cell_ledger_def)
  obtain zs where zs: "conduit_ptrs (qs t) = Some x # zs" using conduit_items_Cons [OF inv assms(3)] by blast
  obtain q where q: "conduit_pop this (qs t) = (pool_ptr this x, q)"
    using conduit_pop_some [OF _ zs, of this] inv by (auto simp: conduit_inv_def)
  then have "pop_event this (qs t) = (Some x, q)" by (simp add: pop_event_def event_ptr_defs)
  then have "conduit_items q = xs" "conduit_room q = conduit_room (qs t)" "conduit_inv q"
    using cq.pop_some [OF inv assms(3), of this] cq.capacity_pop [OF inv, of this] cq.invar_pop [OF inv, of this]
    by simp_all
  moreover have "cell_ledger bits T (add_mset x held) p (qs(t := q))"
    using assms calculation by (auto simp: cell_ledger_def queued_update queued_split [of T t qs])
  ultimately show ?thesis using q by simp
qed

lemma conduit_pop_nothing: "conduit_inv q \<Longrightarrow> conduit_items q = [] \<Longrightarrow> conduit_pop this q = (event_ptr_default, q)"
  using conduit_pop_empty [of q this] by (simp add: conduit_inv_def conduit_items_def)

lemma set_cyclic_order:
  assumes "rr_inv s qs"
  shows "set (cyclic_order s 0) = {..<length (tracks s)}"
proof (cases "tracks s = []")
  case True
  then show ?thesis by (simp add: cyclic_order_def)
next
  case False
  then have n: "0 < length (tracks s)" "next_track s < length (tracks s)" using assms by (simp_all add: rr_inv_def)
  have "k \<in> set (cyclic_order s 0)" if "k < length (tracks s)" for k
    using that n by (auto simp: cyclic_order_def ring_dist_less ring_dist_add intro!: image_eqI [of _ _ "ring_dist (length (tracks s)) (next_track s) k"])
  then show ?thesis using n by (auto simp: cyclic_order_def)
qed

lemma find_track:
  assumes "rr_inv s qs"
  shows "find P (cyclic_order s 0) = None \<longleftrightarrow> (\<forall>k < length (tracks s). \<not> P k)"
    and "find P (cyclic_order s 0) = Some k \<Longrightarrow> k < length (tracks s) \<and> P k"
  using set_cyclic_order [OF assms] by (auto simp: find_None_iff find_Some_iff lessThan_def)

lemma bound_nth: "t \<in> bound s \<longleftrightarrow> (\<exists>k < length (tracks s). tracks s ! k = Some t)"
  by (simp add: in_set_conv_nth)

lemma find_track_none:
  assumes "rr_inv s qs" "find P (cyclic_order s 0) = None" "t \<in> bound s"
  shows "\<exists>k. tracks s ! k = Some t \<and> \<not> P k"
  using find_track(1) [OF assms(1), of P] assms(2,3) bound_nth [of t s] by blast

lemma rr_inv_update:
  "rr_inv s qs \<Longrightarrow> conduit_inv q \<Longrightarrow> k < length (tracks s) \<Longrightarrow>
   rr_inv (s\<lparr>next_track := Suc k mod length (tracks s)\<rparr>) (qs(t := q))"
  by (auto simp: rr_inv_def)

lemma ledger_conduit: "cell_ledger bits T held p qs \<Longrightarrow> t \<in> T \<Longrightarrow> conduit_inv (qs t)"
  by (simp add: cell_ledger_def)

text \<open>A poll takes the oldest event of some track, or finds every track empty.\<close>

lemma ledger_poll:
  assumes "rr_inv s qs" "cell_ledger bits T held p qs" "bound s \<subseteq> T"
  obtains (nothing) "poll this s qs = (s, qs, event_ptr_default)" "\<forall>t \<in> bound s. conduit_items (qs t) = []"
  | (event) k t x xs q where "poll this s qs = (s\<lparr>next_track := k\<rparr>, qs(t := q), pool_ptr this x)"
      "t \<in> bound s" "conduit_items (qs t) = x # xs" "conduit_items q = xs" "conduit_room q = conduit_room (qs t)"
      "cell_ledger bits T (add_mset x held) p (qs(t := q))" "rr_inv (s\<lparr>next_track := k\<rparr>) (qs(t := q))"
proof (cases "find (has_event s qs) (cyclic_order s 0)")
  case None
  have "conduit_items (qs t) = []" if "t \<in> bound s" for t
    using find_track_none [OF assms(1) None that] by (auto simp: has_event_def)
  then have empty: "\<forall>t \<in> bound s. conduit_items (qs t) = []" by blast
  have poll: "poll this s qs = (s, qs, event_ptr_default)"
    using None poll_loop_spec [OF assms(1), of this 0] by (simp add: poll_def)
  show ?thesis using poll empty by (rule nothing)
next
  case (Some k)
  have k: "k < length (tracks s)" "has_event s qs k" using find_track(2) [OF assms(1) Some] by simp_all
  then obtain t x xs where t: "tracks s ! k = Some t" "conduit_items (qs t) = x # xs"
    by (auto simp: has_event_def neq_Nil_conv split: option.splits)
  have tb: "t \<in> bound s" using nth_mem [OF k(1)] t(1) by simp
  then have tT: "t \<in> T" using assms(3) by blast
  obtain q where q: "conduit_pop this (qs t) = (pool_ptr this x, q)" "conduit_items q = xs"
      "conduit_room q = conduit_room (qs t)" "cell_ledger bits T (add_mset x held) p (qs(t := q))"
    using ledger_pop [OF assms(2) tT t(2), of this] by blast
  have "pop_event this (qs t) = (Some x, q)" using q(1) by (simp add: pop_event_def event_ptr_defs)
  then have poll: "poll this s qs = (s\<lparr>next_track := Suc k mod length (tracks s)\<rparr>, qs(t := q), pool_ptr this x)"
    using Some t poll_loop_spec [OF assms(1), of this 0] by (simp add: poll_def)
  have "conduit_inv q" using ledger_conduit [OF q(4) tT] by simp
  then show ?thesis by (rule event [OF poll tb t(2) q(2-4) rr_inv_update [OF assms(1) _ k(1)]])
qed

text \<open>The switch moves the event into a track with room, or finds every track full.\<close>

lemma ledger_switch:
  assumes "rr_inv s qs" "cell_ledger bits T (add_mset x held) p qs" "bound s \<subseteq> T"
  obtains (full) "switch_on s qs (pool_ptr this x) = (s, qs, pool_ptr this x)"
      "\<forall>t \<in> bound s. length (conduit_items (qs t)) = conduit_room (qs t)"
  | (moved) k t q where "switch_on s qs (pool_ptr this x) =
        (s\<lparr>next_track := k\<rparr>, qs(t := q), snd (event_ptr_release (pool_ptr this x)))"
      "t \<in> bound s" "length (conduit_items (qs t)) < conduit_room (qs t)"
      "conduit_items q = conduit_items (qs t) @ [x]" "conduit_room q = conduit_room (qs t)"
      "cell_ledger bits T held p (qs(t := q))" "rr_inv (s\<lparr>next_track := k\<rparr>) (qs(t := q))"
proof -
  have x: "ep_ptr (pool_ptr this x) = Some x" by (simp add: event_ptr_of_def)
  note spec = switch_loop_spec [OF assms(1) x, of 0]
  have on: "switch_on s qs (pool_ptr this x) = switch_loop 0 s qs (pool_ptr this x)"
    by (simp add: switch_on_def event_ptr_defs)
  show ?thesis
  proof (cases "find (has_room s qs) (cyclic_order s 0)")
    case None
    have "\<not> length (conduit_items (qs t)) < conduit_room (qs t)" if "t \<in> bound s" for t
      using find_track_none [OF assms(1) None that] by (auto simp: has_room_def)
    moreover have "length (conduit_items (qs t)) \<le> conduit_room (qs t)" if "t \<in> bound s" for t
      using assms(1) that by (simp add: cq.bounded rr_inv_def)
    ultimately show ?thesis using full None spec on by (auto simp: le_less)
  next
    case (Some k)
    have k: "k < length (tracks s)" "has_room s qs k" using find_track(2) [OF assms(1) Some] by simp_all
    then obtain t where t: "tracks s ! k = Some t" "length (conduit_items (qs t)) < conduit_room (qs t)"
      by (auto simp: has_room_def split: option.splits)
    have tb: "t \<in> bound s" using nth_mem [OF k(1)] t(1) by simp
    then have tT: "t \<in> T" using assms(3) by blast
    obtain q where q: "conduit_push (Some x) (qs t) = (True, q)" "conduit_items q = conduit_items (qs t) @ [x]"
        "conduit_room q = conduit_room (qs t)" "cell_ledger bits T held p (qs(t := q))"
      using ledger_push [OF assms(2) tT t(2)] by blast
    have step: "switch_on s qs (pool_ptr this x) =
        (s\<lparr>next_track := Suc k mod length (tracks s)\<rparr>, qs(t := q), snd (event_ptr_release (pool_ptr this x)))"
      using Some t spec on q(1) by (simp add: push_event_def)
    have "conduit_inv q" using ledger_conduit [OF q(4) tT] by simp
    then show ?thesis by (rule moved [OF step tb t(2) q(2-4) rr_inv_update [OF assms(1) _ k(1)]])
  qed
qed

lemma drop_released: "drop_event ws (snd (event_ptr_release ev)) p = Done p"
  by (rule drop_null) (simp add: event_ptr_release_def)

lemma push_made_room:
  assumes "cell_ledger bits T held p qs" "False \<in> set ws" "pool_free_cells bits p \<noteq> []" "t \<in> T"
    and "length (conduit_items (qs t)) < conduit_room (qs t)"
  shows "\<exists>x p' q. push_made bits this ws v p (qs t) = Done (True, p', q) \<and>
    conduit_items q = conduit_items (qs t) @ [x] \<and> conduit_room q = conduit_room (qs t) \<and>
    cell_ledger bits T held p' (qs(t := q)) \<and> length (memory p') = length (memory p) \<and>
    pool_object p' = (pool_object p)(x \<mapsto> v) \<and> pool_object p x = None"
proof -
  obtain x p' where p': "pool_make bits this ws v p = Done (pool_ptr this x, p')"
      "cell_ledger bits T (add_mset x held) p' qs" "length (memory p') = length (memory p)"
      "pool_object p' = (pool_object p)(x \<mapsto> v)" "pool_object p x = None"
    using ledger_make [OF assms(1-3), of this v] by blast
  obtain q where "conduit_push (Some x) (qs t) = (True, q)" "conduit_items q = conduit_items (qs t) @ [x]"
      "conduit_room q = conduit_room (qs t)" "cell_ledger bits T held p' (qs(t := q))"
    using ledger_push [OF p'(2) assms(4,5)] by blast
  with p' show ?thesis by (auto simp: push_made_def event_ptr_defs)
qed

end
