(* ===== verification/Network_Routing.thy ===== *)
theory Network_Routing
  imports Event_Flow
begin

text \<open>
  The program \<open>examples/04_showcase/02_deterministic_network_routing.cpp\<close>: a poller takes
  market ticks from two feeds and a switch hands them to two exchanges, dropping what finds
  no room. The first part verifies its router loop for any feeds, exchanges and pool; the
  second runs the program with the sizes it has. A price is the IEEE-754 bit pattern of
  the \<open>double\<close>, which the program only stores and prints.
\<close>

section \<open>The program\<close>

record market_tick =
  feed_source :: int
  price :: u64

record 'a network =
  tick_memory :: "'a pool"
  ingress_router :: round_robin
  egress_router :: round_robin
  wires :: "nat conduits"
  routed_count :: nat
  printed :: "'a option list"

text \<open>\<open>while (auto tick = ingress_router.poll(memory))\<close>; the pointer is destroyed at the end of
  each iteration. The fuel bounds the number of evaluations of the loop condition.\<close>

fun routing_loop :: "nat \<Rightarrow> bool list \<Rightarrow> 'a network \<Rightarrow> 'a network outcome" where
  "routing_loop 0 ws s = Pending"
| "routing_loop (Suc n) ws s =
     (let (ingress, qs, tick) = poll () (ingress_router s) (wires s);
          s1 = s\<lparr>ingress_router := ingress, wires := qs\<rparr>
      in if \<not> event_ptr_bool tick then Done s1
         else
           let line = pool_object (tick_memory s) (the (event_ptr_get tick));
               (egress, qs', tick') = switch_on (egress_router s) qs tick
           in bind_outcome (drop_event ws tick' (tick_memory s))
                (\<lambda>memory. routing_loop n ws
                   (s1\<lparr>tick_memory := memory, egress_router := egress, wires := qs',
                       routed_count := routed_count s + 1, printed := printed s @ [line]\<rparr>)))"

definition push_tick ::
  "('a \<Rightarrow> u64) \<Rightarrow> bool list \<Rightarrow> nat \<Rightarrow> 'a \<Rightarrow> 'a pool \<times> nat conduits \<Rightarrow> ('a pool \<times> nat conduits) outcome" where
  "push_tick bits ws t v s =
     map_outcome_result (\<lambda>(_, p, q). (p, (snd s)(t := q))) (push_made bits () ws v (fst s) (snd s t))"

text \<open>Conduits 0 and 1 are the feeds, 2 and 3 the exchanges; \<open>junk\<close> is what their arrays hold
  before the first push.\<close>

definition showcase_wires :: "(nat \<Rightarrow> nat option) \<Rightarrow> nat conduits" where
  "showcase_wires junk = (\<lambda>t. conduit_init (map junk [0..<(if t < 2 then 1024 else 1)]))"

definition showcase_ingress :: round_robin where
  "showcase_ingress = bind_track 1 1 (bind_track 0 0 (round_robin_init 2))"

definition showcase_egress :: round_robin where
  "showcase_egress = bind_track 1 3 (bind_track 0 2 (round_robin_init 2))"

definition network_routing_main ::
  "(market_tick \<Rightarrow> u64) \<Rightarrow> (nat \<Rightarrow> nat option) \<Rightarrow> bool list \<Rightarrow> nat \<Rightarrow>
   (nat \<times> bool \<times> bool \<times> market_tick pool) outcome" where
  "network_routing_main bits junk ws fuel =
     bind_outcome (pool_ctor 256) (\<lambda>p.
     bind_outcome (push_tick bits ws 0 \<lparr>feed_source = 0, price = 0x40B1944000000000\<rparr> (p, showcase_wires junk)) (\<lambda>s1.
     bind_outcome (push_tick bits ws 0 \<lparr>feed_source = 0, price = 0x40B1948000000000\<rparr> s1) (\<lambda>s2.
     bind_outcome (push_tick bits ws 1 \<lparr>feed_source = 1, price = 0x40B1944CCCCCCCCD\<rparr> s2) (\<lambda>s3.
     bind_outcome (routing_loop fuel ws
       \<lparr>tick_memory = fst s3, ingress_router = showcase_ingress, egress_router = showcase_egress,
        wires = snd s3, routed_count = 0, printed = []\<rparr>) (\<lambda>s.
     let (out_a, qa) = conduit_pop () (wires s 2);
         (out_b, qb) = conduit_pop () (wires s 3)
     in bind_outcome (drop_event ws out_b (tick_memory s)) (\<lambda>p1.
        bind_outcome (drop_event ws out_a p1) (\<lambda>p2.
        Done (routed_count s, event_ptr_bool out_a, event_ptr_bool out_b, p2))))))))"

section \<open>The router loop\<close>

abbreviation feeds :: "'a network \<Rightarrow> nat set" where
  "feeds s \<equiv> bound (ingress_router s)"

abbreviation exchanges :: "'a network \<Rightarrow> nat set" where
  "exchanges s \<equiv> bound (egress_router s)"

definition total_room :: "nat set \<Rightarrow> 'p conduits \<Rightarrow> nat" where
  "total_room T qs = (\<Sum>t \<in> T. conduit_room (qs t))"

definition router_inv :: "('a \<Rightarrow> u64) \<Rightarrow> 'a network \<Rightarrow> bool" where
  "router_inv bits s \<longleftrightarrow>
     rr_inv (ingress_router s) (wires s) \<and> rr_inv (egress_router s) (wires s) \<and> feeds s \<inter> exchanges s = {} \<and>
     cell_ledger bits (feeds s \<union> exchanges s) {#} (tick_memory s) (wires s)"

lemma total_room_same: "(\<And>t. conduit_room (qs' t) = conduit_room (qs t)) \<Longrightarrow> total_room T qs' = total_room T qs"
  by (simp add: total_room_def)

lemma finite_bound: "finite (bound s)"
  by (rule finite_surj [of "set (tracks s)" _ the]) force+

lemma rr_inv_other: "rr_inv s qs \<Longrightarrow> conduit_inv q \<Longrightarrow> rr_inv s (qs(t := q))"
  by (simp add: rr_inv_def)

lemma queued_bounded: "rr_inv s qs \<Longrightarrow> size (queued (bound s) qs) \<le> total_room (bound s) qs"
  by (auto simp: size_queued total_room_def rr_inv_def intro!: sum_mono cq.bounded)

text \<open>One iteration that finds a tick: the tick leaves its feed, is printed, and goes to an
  exchange unless all are full; then its cell goes back to the pool.\<close>

definition routed_one :: "('a \<Rightarrow> u64) \<Rightarrow> 'a network \<Rightarrow> 'a network \<Rightarrow> bool" where
  "routed_one bits s s1 \<longleftrightarrow>
     router_inv bits s1 \<and> tracks (ingress_router s1) = tracks (ingress_router s) \<and>
     tracks (egress_router s1) = tracks (egress_router s) \<and>
     total_room (exchanges s) (wires s1) = total_room (exchanges s) (wires s) \<and>
     size (queued (exchanges s) (wires s1)) =
       min (Suc (size (queued (exchanges s) (wires s)))) (total_room (exchanges s) (wires s)) \<and>
     length (memory (tick_memory s1)) = length (memory (tick_memory s)) \<and>
     routed_count s1 = Suc (routed_count s) \<and>
     (\<exists>x. queued (feeds s) (wires s) = add_mset x (queued (feeds s) (wires s1)) \<and>
        printed s1 = printed s @ [pool_object (tick_memory s) x]) \<and>
     (\<forall>y \<in># queued (feeds s) (wires s1). pool_object (tick_memory s1) y = pool_object (tick_memory s) y)"

lemma routing_step:
  assumes inv: "router_inv bits s" and ws: "False \<in> set ws" and some: "queued (feeds s) (wires s) \<noteq> {#}"
  shows "\<exists>s1. routing_loop (Suc n) ws s = routing_loop n ws s1 \<and> routed_one bits s s1"
proof -
  let ?I = "feeds s" and ?E = "exchanges s" and ?p = "tick_memory s"
  have i: "rr_inv (ingress_router s) (wires s)" and e: "rr_inv (egress_router s) (wires s)"
    and dis: "?I \<inter> ?E = {}" and led: "cell_ledger bits (?I \<union> ?E) {#} ?p (wires s)"
    using inv by (simp_all add: router_inv_def)
  show ?thesis
  proof (cases rule: ledger_poll [OF i led Un_upper1, of "()"])
    case 1
    then show ?thesis using some by (simp add: queued_def)
  next
    case poll: (2 k t x xs q)
    define qs where "qs = (wires s)(t := q)"
    have t: "t \<notin> ?E" "t \<in> ?I" using poll(2) dis by auto
    have feeds: "queued ?I (wires s) = add_mset x (queued ?I qs)"
      using finite_bound poll(2-4) by (simp add: qs_def queued_split [of ?I t] queued_update del: mem_Collect_eq)
    have exch: "queued ?E qs = queued ?E (wires s)" unfolding qs_def by (rule queued_other [OF t(1)])
    have room: "conduit_room (qs u) = conduit_room (wires s u)" for u by (simp add: qs_def poll(5))
    have led1: "cell_ledger bits (?I \<union> ?E) {#x#} ?p qs" using poll(6) by (simp add: qs_def)
    have e1: "rr_inv (egress_router s) qs"
      using rr_inv_other [OF e] ledger_conduit [OF poll(6), of t] t(2) by (simp add: qs_def)
    let ?line = "printed s @ [pool_object ?p x]"
    have bool: "event_ptr_bool (pool_ptr () x)" "event_ptr_get (pool_ptr () x) = Some x" by (simp_all add: event_ptr_defs)
    have ex: "\<exists>y. queued ?I (wires s) = add_mset y (queued ?I qs) \<and> ?line = printed s @ [pool_object ?p y]"
      using feeds by blast
    show ?thesis
    proof (cases rule: ledger_switch [OF e1 led1 Un_upper2, of "()"])
      case 1
      obtain p' where p': "drop_event ws (pool_ptr () x) ?p = Done p'" "cell_ledger bits (?I \<union> ?E) {#} p' qs"
          "pool_object p' = (pool_object ?p)(x := None)" "length (memory p') = length (memory ?p)"
        using ledger_drop [OF led1 ws, of "()"] by blast
      let ?s2 = "s\<lparr>ingress_router := (ingress_router s)\<lparr>next_track := k\<rparr>, tick_memory := p', wires := qs,
        routed_count := Suc (routed_count s), printed := ?line\<rparr>"
      have "routing_loop (Suc n) ws s = routing_loop n ws ?s2"
        using poll(1) 1(1) p'(1) bool by (simp add: qs_def)
      moreover have "routed_one bits s ?s2"
      proof -
        have full: "size (queued ?E qs) = total_room ?E qs" using 1(2) by (simp add: size_queued total_room_def)
        have "x \<notin># queued ?I qs"
          using ledger_cell(3) [OF led1] finite_bound dis by (simp add: queued_union)
        then have obj: "\<forall>y \<in># queued ?I qs. pool_object p' y = pool_object ?p y" by (auto simp: p'(3))
        have "router_inv bits ?s2" using poll(7) e1 dis p'(2) by (simp add: router_inv_def qs_def)
        then show ?thesis
          using ex obj full exch p'(4) total_room_same [of qs "wires s", OF room] by (simp add: routed_one_def)
      qed
      ultimately show ?thesis by blast
    next
      case (2 k' u q')
      define qs2 where "qs2 = qs(u := q')"
      let ?s2 = "s\<lparr>ingress_router := (ingress_router s)\<lparr>next_track := k\<rparr>, tick_memory := ?p,
        egress_router := (egress_router s)\<lparr>next_track := k'\<rparr>, wires := qs2,
        routed_count := Suc (routed_count s), printed := ?line\<rparr>"
      have "routing_loop (Suc n) ws s = routing_loop n ws ?s2"
        using poll(1) 2(1) bool by (simp add: qs_def qs2_def drop_released)
      moreover have "routed_one bits s ?s2"
      proof -
        have u: "u \<notin> ?I" using 2(2) dis by auto
        have same: "queued ?I qs2 = queued ?I qs" unfolding qs2_def by (rule queued_other [OF u])
        have room2: "total_room ?E qs2 = total_room ?E (wires s)"
          by (rule total_room_same) (simp add: qs2_def room 2(5))
        have more: "size (queued ?E qs2) = Suc (size (queued ?E qs))"
          using 2(2,4) finite_bound by (simp add: qs2_def queued_update queued_split [of ?E u qs] del: mem_Collect_eq)
        have fit: "size (queued ?E qs2) \<le> total_room ?E qs2"
          using queued_bounded [OF 2(7)] by (simp add: qs2_def)
        have "rr_inv ((ingress_router s)\<lparr>next_track := k\<rparr>) qs2"
          using rr_inv_other [of _ qs q' u] poll(7) ledger_conduit [OF 2(6), of u] 2(2) by (simp add: qs2_def qs_def)
        then have "router_inv bits ?s2" using 2(6,7) dis by (simp add: router_inv_def qs2_def)
        then show ?thesis
          using ex same more fit room2 exch by (simp add: routed_one_def)
      qed
      ultimately show ?thesis by blast
    qed
  qed
qed

lemma routing_loop_drains:
  assumes "False \<in> set ws" "router_inv bits s" "size (queued (feeds s) (wires s)) < fuel"
  shows "\<exists>s'. routing_loop fuel ws s = Done s' \<and> router_inv bits s' \<and>
    tracks (ingress_router s') = tracks (ingress_router s) \<and> tracks (egress_router s') = tracks (egress_router s) \<and>
    length (memory (tick_memory s')) = length (memory (tick_memory s)) \<and>
    queued (feeds s) (wires s') = {#} \<and>
    size (queued (exchanges s) (wires s')) =
      min (size (queued (exchanges s) (wires s)) + size (queued (feeds s) (wires s))) (total_room (exchanges s) (wires s)) \<and>
    routed_count s' = routed_count s + size (queued (feeds s) (wires s)) \<and>
    mset (printed s') = mset (printed s) + image_mset (pool_object (tick_memory s)) (queued (feeds s) (wires s))"
  using assms(2,3)
proof (induction fuel arbitrary: s)
  case 0
  then show ?case by simp
next
  case (Suc fuel)
  let ?I = "feeds s" and ?E = "exchanges s"
  have i: "rr_inv (ingress_router s) (wires s)" and e: "rr_inv (egress_router s) (wires s)"
    and led: "cell_ledger bits (?I \<union> ?E) {#} (tick_memory s) (wires s)"
    using Suc.prems(1) by (simp_all add: router_inv_def)
  show ?case
  proof (cases "queued ?I (wires s) = {#}")
    case True
    have "poll () (ingress_router s) (wires s) = (ingress_router s, wires s, event_ptr_default)"
    proof (cases rule: ledger_poll [OF i led Un_upper1, of "()"])
      case (2 k t x xs q)
      then show ?thesis using True finite_bound by (simp add: queued_split [of ?I t] del: mem_Collect_eq)
    qed
    then have "routing_loop (Suc fuel) ws s = Done s" by (simp add: event_ptr_defs)
    then show ?thesis using True Suc.prems(1) queued_bounded [OF e] by (intro exI [of _ s]) simp
  next
    case False
    obtain s1 where s1: "routing_loop (Suc fuel) ws s = routing_loop fuel ws s1" and one: "routed_one bits s s1"
      using routing_step [OF Suc.prems(1) assms(1) False] by blast
    then obtain x where x: "queued ?I (wires s) = add_mset x (queued ?I (wires s1))"
        "printed s1 = printed s @ [pool_object (tick_memory s) x]"
      and objs: "\<forall>y \<in># queued ?I (wires s1). pool_object (tick_memory s1) y = pool_object (tick_memory s) y"
      by (auto simp: routed_one_def)
    have "size (queued (feeds s1) (wires s1)) < fuel" "router_inv bits s1"
      using Suc.prems(2) x(1) one by (simp_all add: routed_one_def)
    from Suc.IH [OF this(2,1)] obtain s' where "routing_loop fuel ws s1 = Done s'" "router_inv bits s'"
      "tracks (ingress_router s') = tracks (ingress_router s1)" "tracks (egress_router s') = tracks (egress_router s1)"
      "length (memory (tick_memory s')) = length (memory (tick_memory s1))" "queued (feeds s1) (wires s') = {#}"
      "size (queued (exchanges s1) (wires s')) = min (size (queued (exchanges s1) (wires s1)) +
         size (queued (feeds s1) (wires s1))) (total_room (exchanges s1) (wires s1))"
      "routed_count s' = routed_count s1 + size (queued (feeds s1) (wires s1))"
      "mset (printed s') = mset (printed s1) + image_mset (pool_object (tick_memory s1)) (queued (feeds s1) (wires s1))"
      by blast
    moreover have "image_mset (pool_object (tick_memory s1)) (queued ?I (wires s1)) =
        image_mset (pool_object (tick_memory s)) (queued ?I (wires s1))"
      using objs by (intro image_mset_cong) blast
    ultimately show ?thesis
      using s1 one x by (intro exI [of _ s']) (auto simp: routed_one_def)
  qed
qed

section \<open>The showcase\<close>

lemma showcase_tracks [simp]:
  "tracks showcase_ingress = [Some 0, Some 1]" "tracks showcase_egress = [Some 2, Some 3]"
  "next_track showcase_ingress = 0" "next_track showcase_egress = 0"
  by (simp_all add: showcase_ingress_def showcase_egress_def bind_track_def round_robin_init_def numeral_2_eq_2)

lemma showcase_wires_props:
  "conduit_inv (showcase_wires junk t)" "conduit_items (showcase_wires junk t) = []"
  "conduit_room (showcase_wires junk t) = (if t < 2 then 1023 else 0)"
  using conduit_fresh [of "map junk [0..<1024]"] conduit_fresh [of "map junk [0..<1]"]
  by (simp_all add: showcase_wires_def)

text \<open>The state while the feeds are filled: \<open>n\<close> cells are in flight.\<close>

definition feeding :: "(market_tick \<Rightarrow> u64) \<Rightarrow> nat \<Rightarrow> market_tick pool \<Rightarrow> nat conduits \<Rightarrow> bool" where
  "feeding bits n p qs \<longleftrightarrow>
     cell_ledger bits {0, 1, 2, 3} {#} p qs \<and> length (memory p) = 256 \<and>
     size (queued {0, 1} qs) = n \<and> conduit_items (qs 2) = [] \<and> conduit_items (qs 3) = [] \<and>
     (\<forall>t. conduit_room (qs t) = (if t < 2 then 1023 else 0))"

lemma push_tick_feeding:
  assumes "feeding bits n p qs" "n < 256" "t < 2" "False \<in> set ws"
  shows "\<exists>p' qs'. push_tick bits ws t v (p, qs) = Done (p', qs') \<and> feeding bits (Suc n) p' qs'"
proof -
  have led: "cell_ledger bits {0, 1, 2, 3} {#} p qs" and rest: "length (memory p) = 256" "size (queued {0, 1} qs) = n"
      "conduit_items (qs 2) = []" "conduit_items (qs 3) = []" "\<And>t. conduit_room (qs t) = (if t < 2 then 1023 else 0)"
    using assms(1) by (simp_all add: feeding_def)
  have "queued {0, 1, 2, 3} qs = queued {0, 1} qs" using rest by (simp add: queued_def)
  then have "length (pool_free_cells bits p) + n = 256" using ledger_sizes [OF led] rest by simp
  then have free: "pool_free_cells bits p \<noteq> []" using assms(2) by auto
  have t: "t = 0 \<or> t = 1" using assms(3) by linarith
  then have "length (conduit_items (qs t)) \<le> n" using rest(2) by (auto simp: size_queued)
  then have room: "length (conduit_items (qs t)) < conduit_room (qs t)" using rest(5) assms(2,3) by simp
  have tT: "t \<in> {0, 1, 2, 3}" using t by auto
  obtain x p' q where q: "push_made bits () ws v p (qs t) = Done (True, p', q)"
      "conduit_items q = conduit_items (qs t) @ [x]" "conduit_room q = conduit_room (qs t)"
      "cell_ledger bits {0, 1, 2, 3} {#} p' (qs(t := q))" "length (memory p') = length (memory p)"
    using push_made_room [OF led assms(4) free tT room, of "()" v] by blast
  moreover have "size (queued {0, 1} (qs(t := q))) = Suc n" using t rest(2) q(2) by (auto simp: size_queued)
  ultimately have "feeding bits (Suc n) p' (qs(t := q))"
    using rest t by (auto simp: feeding_def)
  then show ?thesis using q(1) by (simp add: push_tick_def)
qed

lemma showcase_start:
  "\<exists>p. pool_ctor 256 = Done p \<and> feeding bits 0 p (showcase_wires junk)"
  using ledger_start [of 256 "{0, 1, 2, 3}" "showcase_wires junk" bits] showcase_wires_props
  by (auto simp: feeding_def size_queued)

lemma feeding_router:
  assumes "feeding bits n p qs"
  defines "s \<equiv> \<lparr>tick_memory = p, ingress_router = showcase_ingress, egress_router = showcase_egress,
    wires = qs, routed_count = 0, printed = []\<rparr>"
  shows "router_inv bits s" "feeds s = {0, 1}" "exchanges s = {2, 3}"
proof -
  have led: "cell_ledger bits {0, 1, 2, 3} {#} p qs" using assms(1) by (simp add: feeding_def)
  show I: "feeds s = {0, 1}" and E: "exchanges s = {2, 3}" by (auto simp: s_def)
  have "rr_inv showcase_ingress qs" "rr_inv showcase_egress qs"
    using ledger_conduit [OF led] by (auto simp: rr_inv_def)
  then show "router_inv bits s" using led unfolding router_inv_def I E by (simp add: s_def insert_commute)
qed

section \<open>Properties\<close>

text \<open>C10: Whatever the feeds hold and however many exchanges there are, the router loop ends after one
  iteration per waiting tick with every feed empty. Each waiting tick is printed once with the
  value it was made with. The exchanges take ticks until they are full, the rest are dropped,
  and every cell is accounted for: free, or in one slot of one exchange.\<close>

theorem router_conserves_ticks:
  assumes "False \<in> set ws" "router_inv bits s" "size (queued (feeds s) (wires s)) < fuel"
  shows "\<exists>s'. routing_loop fuel ws s = Done s' \<and> queued (feeds s) (wires s') = {#} \<and>
    routed_count s' = routed_count s + size (queued (feeds s) (wires s)) \<and>
    mset (printed s') = mset (printed s) + image_mset (pool_object (tick_memory s)) (queued (feeds s) (wires s)) \<and>
    size (queued (exchanges s) (wires s')) =
      min (size (queued (exchanges s) (wires s)) + size (queued (feeds s) (wires s))) (total_room (exchanges s) (wires s)) \<and>
    mset (pool_free_cells bits (tick_memory s')) + queued (exchanges s) (wires s') =
      mset_set {..<length (memory (tick_memory s'))}"
proof -
  obtain s' where s': "routing_loop fuel ws s = Done s'" "router_inv bits s'"
    "tracks (ingress_router s') = tracks (ingress_router s)" "tracks (egress_router s') = tracks (egress_router s)"
    "queued (feeds s) (wires s') = {#}"
    "size (queued (exchanges s) (wires s')) =
      min (size (queued (exchanges s) (wires s)) + size (queued (feeds s) (wires s))) (total_room (exchanges s) (wires s))"
    "routed_count s' = routed_count s + size (queued (feeds s) (wires s))"
    "mset (printed s') = mset (printed s) + image_mset (pool_object (tick_memory s)) (queued (feeds s) (wires s))"
    using routing_loop_drains [OF assms] by blast
  have "mset (pool_free_cells bits (tick_memory s')) + queued (feeds s \<union> exchanges s) (wires s') =
      mset_set {..<length (memory (tick_memory s'))}"
    using s'(2-4) by (simp add: router_inv_def cell_ledger_def)
  moreover have "queued (feeds s \<union> exchanges s) (wires s') = queued (exchanges s) (wires s')"
    using assms(2) s'(5) finite_bound by (simp add: queued_union router_inv_def)
  ultimately show ?thesis using s' by simp
qed

theorem router_conserves_ticks_witness:
  "\<exists>s s'. router_inv price (s :: market_tick network) \<and> size (queued (feeds s) (wires s)) = 1 \<and>
    routing_loop 2 [False] s = Done s' \<and> routed_count s' = 1 \<and> queued (feeds s) (wires s') = {#}"
proof -
  obtain p where p: "feeding price 0 p (showcase_wires (\<lambda>_. None))" using showcase_start by blast
  obtain p1 qs1 where 1: "feeding price 1 p1 qs1"
    using push_tick_feeding [OF p, of 0 "[False]" "\<lparr>feed_source = 0, price = 5\<rparr>"] by auto
  define s where "s = \<lparr>tick_memory = p1, ingress_router = showcase_ingress, egress_router = showcase_egress,
    wires = qs1, routed_count = 0, printed = []\<rparr>"
  note r = feeding_router [OF 1, folded s_def]
  have one: "size (queued (feeds s) (wires s)) = 1" "routed_count s = 0"
    using 1 unfolding r(2) by (simp_all add: s_def feeding_def)
  then obtain s' where "routing_loop 2 [False] s = Done s'" "queued (feeds s) (wires s') = {#}" "routed_count s' = 1"
    using router_conserves_ticks [of "[False]" price s 2] r(1) by auto
  with r(1) one show ?thesis by blast
qed

text \<open>The program as it stands polls its three ticks, and both exchanges stay empty: a conduit
  with one slot holds nothing, so every tick is dropped. All 256 cells are back in the pool
  at the end.\<close>

theorem showcase_exchanges_stay_empty:
  assumes "False \<in> set ws"
  shows "\<exists>p. network_routing_main bits junk ws 4 = Done (3, False, False, p) \<and>
    distinct (pool_free_cells bits p) \<and> set (pool_free_cells bits p) = {..<256}"
proof -
  let ?t1 = "\<lparr>feed_source = 0, price = 0x40B1944000000000\<rparr>" and ?t2 = "\<lparr>feed_source = 0, price = 0x40B1948000000000\<rparr>"
    and ?t3 = "\<lparr>feed_source = 1, price = 0x40B1944CCCCCCCCD\<rparr>"
  obtain p where p: "pool_ctor 256 = Done p" "feeding bits 0 p (showcase_wires junk)" using showcase_start by blast
  obtain p1 qs1 where 1: "push_tick bits ws 0 ?t1 (p, showcase_wires junk) = Done (p1, qs1)" "feeding bits 1 p1 qs1"
    using push_tick_feeding [OF p(2) _ _ assms, of 0 ?t1] by auto
  obtain p2 qs2 where 2: "push_tick bits ws 0 ?t2 (p1, qs1) = Done (p2, qs2)" "feeding bits 2 p2 qs2"
    using push_tick_feeding [OF 1(2) _ _ assms, of 0 ?t2] by (auto simp: numeral_2_eq_2)
  obtain p3 qs3 where 3: "push_tick bits ws 1 ?t3 (p2, qs2) = Done (p3, qs3)" "feeding bits 3 p3 qs3"
    using push_tick_feeding [OF 2(2) _ _ assms, of 1 ?t3] by (auto simp: numeral_3_eq_3)
  define s :: "market_tick network" where
    "s = \<lparr>tick_memory = p3, ingress_router = showcase_ingress, egress_router = showcase_egress,
      wires = qs3, routed_count = 0, printed = []\<rparr>"
  note r = feeding_router [OF 3(2), folded s_def]
  have sizes: "size (queued (feeds s) (wires s)) = 3" "total_room (exchanges s) (wires s) = 0"
      "length (memory (tick_memory s)) = 256"
    using 3(2) unfolding r(2,3) by (simp_all add: s_def feeding_def total_room_def)
  obtain s' where s': "routing_loop 4 ws s = Done s'" "router_inv bits s'"
      "tracks (ingress_router s') = tracks (ingress_router s)" "tracks (egress_router s') = tracks (egress_router s)"
      "length (memory (tick_memory s')) = 256" "queued (feeds s) (wires s') = {#}"
      "size (queued (exchanges s) (wires s')) = 0" "routed_count s' = 3"
    using routing_loop_drains [OF assms r(1), of 4] sizes by (auto simp: s_def)
  have led: "cell_ledger bits ({0, 1} \<union> {2, 3}) {#} (tick_memory s') (wires s')"
    using s'(2-4) r(2,3) by (simp add: router_inv_def)
  have items: "conduit_items (wires s' t) = []" if "t \<in> {2, 3}" for t
    using s'(7) that unfolding r(3) by (auto simp: size_queued)
  have pop: "conduit_pop () (wires s' t) = (event_ptr_default, wires s' t)" if "t \<in> {2, 3}" for t
    by (rule conduit_pop_nothing [OF ledger_conduit [OF led] items [OF that]]) (use that in blast)
  have "queued ({0, 1} \<union> {2, 3}) (wires s') = {#}"
    using s'(6,7) unfolding r(2,3) by (subst queued_union) simp_all
  note idle = ledger_idle [OF led this]
  have "network_routing_main bits junk ws 4 = Done (3, False, False, tick_memory s')"
    using p(1) 1(1) 2(1) 3(1) s'(1,8) pop [of 2] pop [of 3]
    by (simp add: network_routing_main_def s_def drop_null event_ptr_defs)
  then show ?thesis using idle s'(5) by simp
qed

theorem showcase_exchanges_stay_empty_witness:
  "\<exists>p. network_routing_main price (\<lambda>_. None) [True, False] 4 = Done (3, False, False, p) \<and>
    distinct (pool_free_cells price p) \<and> set (pool_free_cells price p) = {..<256}"
  using showcase_exchanges_stay_empty [of "[True, False]" price "\<lambda>_. None"] by simp

end
