(* ===== verification/Fair_Scheduling.thy ===== *)
theory Fair_Scheduling
  imports Conduit_Prelude
begin

text \<open>
  Programs of several threads under a schedule, and the rule by which such a program is shown to
  end: a rank that every step of a thread that does not wait lowers, together with the absence
  of deadlock, brings every fair schedule to the end. \<open>Sharding\<close> interprets the locale on its
  threads, and \<open>Event_Line\<close> obtains it for every program with one sender and one receiver.
\<close>

fun run_threads :: "('t \<Rightarrow> 's \<Rightarrow> 's outcome) \<Rightarrow> 't list \<Rightarrow> 's \<Rightarrow> 's outcome" where
  "run_threads step [] s = Done s"
| "run_threads step (t # sched) s = bind_outcome (step t s) (run_threads step sched)"

lemma run_threads_append:
  "run_threads step (xs @ ys) s = bind_outcome (run_threads step xs s) (run_threads step ys)"
proof (induction xs arbitrary: s)
  case (Cons t xs)
  then have "run_threads step (xs @ ys) = (\<lambda>s. bind_outcome (run_threads step xs s) (run_threads step ys))"
    by blast
  then show ?case by (simp add: bind_outcome_assoc)
qed simp

text \<open>A predicate that every step keeps, on a program that never faults.\<close>

lemma run_threads_invariant:
  assumes "\<And>t s. P s \<Longrightarrow> \<exists>s'. step t s = Done s' \<and> P s'"
  shows "P s \<Longrightarrow> \<exists>s'. run_threads step sched s = Done s' \<and> P s'"
proof (induction sched arbitrary: s)
  case (Cons t sched)
  obtain s1 where "step t s = Done s1" "P s1" using assms [OF Cons.prems] by blast
  then show ?case using Cons.IH by simp
qed simp

text \<open>\<open>waits t s\<close>: thread \<open>t\<close> cannot move before another thread has. A step that leaves the rank as
  it is leaves every thread in the same position to move.\<close>

locale fair_system =
  fixes step :: "'t \<Rightarrow> 's \<Rightarrow> 's outcome"
    and invar :: "'s \<Rightarrow> bool"
    and waits :: "'t \<Rightarrow> 's \<Rightarrow> bool"
    and rank :: "'s \<Rightarrow> nat"
    and threads :: "'t set"
  assumes step_progress: "invar s \<Longrightarrow> \<exists>s'. step t s = Done s' \<and> invar s' \<and> rank s' \<le> rank s \<and>
      (\<not> waits t s \<longrightarrow> rank s' < rank s) \<and> (rank s' = rank s \<longrightarrow> (\<forall>u. waits u s' = waits u s))"
    and no_deadlock: "invar s \<Longrightarrow> rank s \<noteq> 0 \<Longrightarrow> \<exists>t \<in> threads. \<not> waits t s"
begin

lemma run_progress:
  "invar s \<Longrightarrow> \<exists>s'. run_threads step sched s = Done s' \<and> invar s' \<and> rank s' \<le> rank s \<and>
    ((\<exists>t \<in> set sched. \<not> waits t s) \<longrightarrow> rank s' < rank s)"
proof (induction sched arbitrary: s)
  case (Cons t sched)
  obtain s1 where s1: "step t s = Done s1" "invar s1" "rank s1 \<le> rank s" "\<not> waits t s \<longrightarrow> rank s1 < rank s"
      "rank s1 = rank s \<longrightarrow> (\<forall>u. waits u s1 = waits u s)"
    using step_progress [OF Cons.prems] by blast
  obtain s' where "run_threads step sched s1 = Done s'" "invar s'" "rank s' \<le> rank s1"
      "(\<exists>t \<in> set sched. \<not> waits t s1) \<longrightarrow> rank s' < rank s1"
    using Cons.IH [OF s1(2)] by blast
  with s1 show ?case by (cases "rank s1 = rank s") auto
qed simp

lemma run_keeps: "invar s \<Longrightarrow> \<exists>s'. run_threads step sched s = Done s' \<and> invar s'"
  using run_progress by blast

lemma fair_run:
  "\<forall>turn \<in> set turns. threads \<subseteq> set turn \<Longrightarrow> invar s \<Longrightarrow> rank s \<le> length turns \<Longrightarrow>
   \<exists>s'. run_threads step (concat turns) s = Done s' \<and> invar s' \<and> rank s' = 0"
proof (induction turns arbitrary: s)
  case (Cons turn turns)
  obtain s1 where s1: "run_threads step turn s = Done s1" "invar s1" "rank s1 \<le> rank s"
      "(\<exists>t \<in> set turn. \<not> waits t s) \<longrightarrow> rank s1 < rank s"
    using run_progress [OF Cons.prems(2)] by blast
  have "rank s = 0 \<or> (\<exists>t \<in> set turn. \<not> waits t s)"
    using no_deadlock [OF Cons.prems(2)] Cons.prems(1) by auto
  then have "rank s1 \<le> length turns" using s1(3,4) Cons.prems(3) by auto
  then show ?case using Cons.IH [OF _ s1(2)] Cons.prems(1) s1(1) by (simp add: run_threads_append)
qed simp

end

end
