(* ===== verification/Sharding.thy ===== *)
theory Sharding
  imports Event_Flow Fair_Scheduling
begin

text \<open>
  The programs \<open>examples/02_concurrency_and_routing/03_sharding.cpp\<close> and
  \<open>02_fan_in_polling.cpp\<close>: the main thread makes tasks and deals them over two conduits with
  a \<open>round_robin_switch\<close>, one worker thread per conduit processes them until it meets a
  task with \<open>job_id\<close> -1, and the main thread ends by sending two such tasks and joining the
  workers. The two programs differ in the number of tasks only. A step of a thread is one call
  on the pool, the switch or a conduit; a schedule is the sequence of threads that take the
  steps. The steps of \<open>make\<close>, \<open>free\<close>, \<open>push\<close> and \<open>pop\<close> themselves interleave in
  the theories \<open>Pool_Concurrent\<close> and \<open>Conduit_Concurrent\<close>.
\<close>

section \<open>The threads\<close>

type_synonym task_ptr = "unit cell_ptr"

text \<open>The next call of the main thread, with the pointers it holds.\<close>

datatype shard_main =
    Make_Task nat
  | Route_Task nat task_ptr
  | Drop_Task nat task_ptr
  | Make_Stop1
  | Make_Stop2 task_ptr
  | Route_Stop1 task_ptr task_ptr
  | Route_Stop2 task_ptr task_ptr
  | Join_Workers task_ptr task_ptr
  | Main_Returned

datatype shard_pc = Popping | Working task_ptr | Stopped

text \<open>\<open>handled_jobs\<close> lists the tasks a worker has counted; it is a ghost.\<close>

record shard_worker =
  shard_at :: shard_pc
  processed :: nat
  handled_jobs :: "int list"

record sharding =
  shard_memory :: "int pool"
  load_balancer :: round_robin
  shard_tracks :: "nat conduits"
  shard_main :: shard_main
  shard_workers :: "nat \<Rightarrow> shard_worker"

definition shard_stopped :: "shard_worker \<Rightarrow> bool" where
  "shard_stopped w \<longleftrightarrow> shard_at w = Stopped"

definition shard_main_step :: "(int \<Rightarrow> u64) \<Rightarrow> nat \<Rightarrow> bool list \<Rightarrow> sharding \<Rightarrow> sharding outcome" where
  "shard_main_step bits n ws s =
     (let make = (\<lambda>v f. map_outcome_result (\<lambda>(ev, p). s\<lparr>shard_memory := p, shard_main := f ev\<rparr>)
                          (pool_make bits () ws v (shard_memory s)));
          route = (\<lambda>ev f. let (lb, qs, ev') = switch_on (load_balancer s) (shard_tracks s) ev
                          in Done (s\<lparr>load_balancer := lb, shard_tracks := qs, shard_main := f ev'\<rparr>));
          drop_one = (\<lambda>ev f. map_outcome_result (\<lambda>p. s\<lparr>shard_memory := p, shard_main := f\<rparr>)
                          (drop_event ws ev (shard_memory s)))
      in case shard_main s of
           Make_Task i \<Rightarrow> if i < n then make (int i) (Route_Task i) else Done (s\<lparr>shard_main := Make_Stop1\<rparr>)
         | Route_Task i task \<Rightarrow> route task (Drop_Task i)
         | Drop_Task i task \<Rightarrow> drop_one task (Make_Task (i + 1))
         | Make_Stop1 \<Rightarrow> make (- 1) Make_Stop2
         | Make_Stop2 stop1 \<Rightarrow> make (- 1) (Route_Stop1 stop1)
         | Route_Stop1 stop1 stop2 \<Rightarrow> route stop1 (\<lambda>ev. Route_Stop2 ev stop2)
         | Route_Stop2 stop1 stop2 \<Rightarrow> route stop2 (Join_Workers stop1)
         | Join_Workers stop1 stop2 \<Rightarrow>
             if shard_stopped (shard_workers s 0) \<and> shard_stopped (shard_workers s 1)
             then bind_outcome (drop_event ws stop2 (shard_memory s)) (\<lambda>p.
                    map_outcome_result (\<lambda>p. s\<lparr>shard_memory := p, shard_main := Main_Returned\<rparr>)
                      (drop_event ws stop1 p))
             else Done s
         | Main_Returned \<Rightarrow> Done s)"

text \<open>\<open>shard_worker\<close>: the pointer is destroyed at the end of the \<open>if\<close>, on \<open>break\<close> too.\<close>

definition shard_worker_step :: "nat \<Rightarrow> bool list \<Rightarrow> sharding \<Rightarrow> sharding outcome" where
  "shard_worker_step i ws s =
     (let w = shard_workers s i
      in case shard_at w of
           Popping \<Rightarrow>
             let (ev, q) = conduit_pop () (shard_tracks s i)
             in Done (s\<lparr>shard_tracks := (shard_tracks s)(i := q),
                        shard_workers := (shard_workers s)(i := w\<lparr>shard_at := if event_ptr_bool ev then Working ev else Popping\<rparr>)\<rparr>)
         | Working ev \<Rightarrow>
             (case pool_object (shard_memory s) (the (event_ptr_get ev)) of
                None \<Rightarrow> Fault
              | Some job_id \<Rightarrow>
                  map_outcome_result
                    (\<lambda>p. s\<lparr>shard_memory := p,
                           shard_workers := (shard_workers s)(i :=
                             if job_id = - 1 then w\<lparr>shard_at := Stopped\<rparr>
                             else w\<lparr>shard_at := Popping, processed := processed w + 1, handled_jobs := handled_jobs w @ [job_id]\<rparr>)\<rparr>)
                    (drop_event ws ev (shard_memory s)))
         | Stopped \<Rightarrow> Done s)"

definition shard_step :: "(int \<Rightarrow> u64) \<Rightarrow> nat \<Rightarrow> bool list \<Rightarrow> nat \<Rightarrow> sharding \<Rightarrow> sharding outcome" where
  "shard_step bits n ws thread s =
     (if thread = 0 then shard_main_step bits n ws s
      else if thread \<le> 2 then shard_worker_step (thread - 1) ws s else Done s)"

abbreviation shard_run :: "(int \<Rightarrow> u64) \<Rightarrow> nat \<Rightarrow> bool list \<Rightarrow> nat list \<Rightarrow> sharding \<Rightarrow> sharding outcome" where
  "shard_run bits n ws \<equiv> run_threads (shard_step bits n ws)"

definition shard_start :: "nat \<Rightarrow> nat \<Rightarrow> (nat \<Rightarrow> nat option) \<Rightarrow> sharding outcome" where
  "shard_start cells slots junk =
     map_outcome_result
       (\<lambda>p. \<lparr>shard_memory = p, load_balancer = bind_track 1 1 (bind_track 0 0 (round_robin_init 2)),
             shard_tracks = (\<lambda>_. conduit_init (map junk [0..<slots])), shard_main = Make_Task 0,
             shard_workers = (\<lambda>_. \<lparr>shard_at = Popping, processed = 0, handled_jobs = []\<rparr>)\<rparr>)
       (pool_ctor cells)"

section \<open>What is under way\<close>

text \<open>The \<open>j\<close>-th event the main thread makes, and the events among the first \<open>k\<close> that track \<open>i\<close> gets.\<close>

definition job :: "nat \<Rightarrow> nat \<Rightarrow> int" where
  "job n j = (if j < n then int j else - 1)"

definition hist :: "nat \<Rightarrow> nat \<Rightarrow> nat list" where
  "hist i k = filter (\<lambda>j. j mod 2 = i) [0..<k]"

definition finished :: "shard_worker \<Rightarrow> nat" where
  "finished w = processed w + (if shard_stopped w then 1 else 0)"

lemma hist_Suc: "hist i (Suc k) = hist i k @ (if k mod 2 = i then [k] else [])"
  by (simp add: hist_def)

lemma length_hist: "i < 2 \<Longrightarrow> length (hist i k) = (k + 1 - i) div 2"
proof (induction k)
  case 0
  then show ?case by (simp add: hist_def)
next
  case (Suc k)
  have "i = 0 \<or> i = 1" using Suc.prems by linarith
  with Suc show ?case by (elim disjE) (simp_all add: hist_Suc, presburger+)
qed

lemma nth_hist: "i < 2 \<Longrightarrow> c < length (hist i k) \<Longrightarrow> hist i k ! c = 2 * c + i"
proof (induction k)
  case 0
  then show ?case by (simp add: hist_def)
next
  case (Suc k)
  have "k = 2 * length (hist i k) + i" if "k mod 2 = i"
    using that length_hist [OF Suc.prems(1), of k] by presburger
  with Suc show ?case by (auto simp: hist_Suc nth_append less_Suc_eq split: if_splits)
qed

text \<open>The last event of each track is the one that stops its worker.\<close>

lemma hist_pill:
  assumes "i < 2" "c < length (hist i k)" "k \<le> n + 2" "n \<le> hist i k ! c"
  shows "Suc c = length (hist i (n + 2))" "Suc c = length (hist i k)"
proof -
  have "n \<le> 2 * c + i" "Suc c \<le> (k + 1 - i) div 2"
    using assms(2,4) nth_hist [OF assms(1,2)] length_hist [OF assms(1), of k] by simp_all
  then have b: "n \<le> 2 * c + i" "2 * Suc c \<le> k + 1 - i"
    by (simp_all add: less_eq_div_iff_mult_less_eq mult.commute)
  have "(n + 2 + 1 - i) div 2 = Suc c" by (rule div_nat_eqI) (use b assms(1,3) in arith)+
  moreover have "(k + 1 - i) div 2 = Suc c" by (rule div_nat_eqI) (use b assms(1,3) in arith)+
  ultimately show "Suc c = length (hist i (n + 2))" "Suc c = length (hist i k)"
    by (simp_all only: length_hist [OF assms(1)])
qed

lemma hist_task:
  assumes "i < 2" "c < length (hist i k)" "hist i k ! c < n"
  shows "Suc c < length (hist i (n + 2))"
proof -
  have "2 * c + i < n" using assms(3) nth_hist [OF assms(1,2)] by simp
  then have "Suc (Suc c) * 2 \<le> n + 2 + 1 - i" using assms(1) by arith
  then have "Suc (Suc c) \<le> (n + 2 + 1 - i) div 2" by (simp only: less_eq_div_iff_mult_less_eq zero_less_numeral)
  then show ?thesis by (simp only: length_hist [OF assms(1)] Suc_le_eq)
qed

text \<open>\<open>k\<close> events have been routed, the main thread holds the cells \<open>H\<close> with their values, and
  worker \<open>i\<close> the cells \<open>C i\<close>; each track has room for its whole share of the \<open>n + 2\<close> events.\<close>

definition shard_core ::
  "(int \<Rightarrow> u64) \<Rightarrow> nat \<Rightarrow> nat \<Rightarrow> (nat \<times> int) list \<Rightarrow> (nat \<Rightarrow> nat list) \<Rightarrow> sharding \<Rightarrow> bool" where
  "shard_core bits n k H C s \<longleftrightarrow>
     k \<le> n + 2 \<and> n + 2 \<le> length (memory (shard_memory s)) \<and>
     cell_ledger bits {0, 1} (mset (map fst H) + mset (C 0) + mset (C 1)) (shard_memory s) (shard_tracks s) \<and>
     rr_inv (load_balancer s) (shard_tracks s) \<and> tracks (load_balancer s) = [Some 0, Some 1] \<and>
     next_track (load_balancer s) = k mod 2 \<and>
     (\<forall>(x, v) \<in> set H. pool_object (shard_memory s) x = Some v) \<and>
     (\<forall>i < 2. n + 2 \<le> 2 * conduit_room (shard_tracks s i) \<and> finished (shard_workers s i) \<le> length (hist i k) \<and>
        (shard_stopped (shard_workers s i) \<longleftrightarrow> finished (shard_workers s i) = length (hist i (n + 2))) \<and>
        map (pool_object (shard_memory s)) (C i @ conduit_items (shard_tracks s i)) =
          map (Some \<circ> job n) (drop (finished (shard_workers s i)) (hist i k)) \<and>
        handled_jobs (shard_workers s i) = map (job n) (take (processed (shard_workers s i)) (hist i k)))"

lemma shard_coreD:
  assumes "shard_core bits n k H C s"
  shows "k \<le> n + 2" "n + 2 \<le> length (memory (shard_memory s))"
    "cell_ledger bits {0, 1} (mset (map fst H) + mset (C 0) + mset (C 1)) (shard_memory s) (shard_tracks s)"
    "rr_inv (load_balancer s) (shard_tracks s)" "tracks (load_balancer s) = [Some 0, Some 1]"
    "next_track (load_balancer s) = k mod 2"
    "\<And>x v. (x, v) \<in> set H \<Longrightarrow> pool_object (shard_memory s) x = Some v"
    "\<And>i. i < 2 \<Longrightarrow> n + 2 \<le> 2 * conduit_room (shard_tracks s i)"
    "\<And>i. i < 2 \<Longrightarrow> finished (shard_workers s i) \<le> length (hist i k)"
    "\<And>i. i < 2 \<Longrightarrow> shard_stopped (shard_workers s i) \<longleftrightarrow> finished (shard_workers s i) = length (hist i (n + 2))"
    "\<And>i. i < 2 \<Longrightarrow> map (pool_object (shard_memory s)) (C i @ conduit_items (shard_tracks s i)) =
      map (Some \<circ> job n) (drop (finished (shard_workers s i)) (hist i k))"
    "\<And>i. i < 2 \<Longrightarrow> handled_jobs (shard_workers s i) = map (job n) (take (processed (shard_workers s i)) (hist i k))"
  using assms by (auto simp: shard_core_def)

lemma core_pending:
  assumes "shard_core bits n k H C s" "i < 2"
  shows "length (C i) + length (conduit_items (shard_tracks s i)) + finished (shard_workers s i) = length (hist i k)"
  using arg_cong [OF shard_coreD(11) [OF assms], of length] shard_coreD(9) [OF assms] by simp

lemma core_free:
  assumes "shard_core bits n k H C s" "k + length H < n + 2"
  shows "pool_free_cells bits (shard_memory s) \<noteq> []"
proof -
  have "length (hist 0 k) + length (hist 1 k) \<le> k" by (simp add: length_hist)
  then have "size (queued {0, 1} (shard_tracks s)) + length (C 0) + length (C 1) \<le> k"
    using core_pending [OF assms(1), of 0] core_pending [OF assms(1), of 1] by (simp add: size_queued)
  moreover have "length (pool_free_cells bits (shard_memory s)) + size (queued {0, 1} (shard_tracks s)) +
      (length H + length (C 0) + length (C 1)) = length (memory (shard_memory s))"
    using ledger_sizes [OF shard_coreD(3) [OF assms(1)]] by simp
  ultimately have "0 < length (pool_free_cells bits (shard_memory s))"
    using shard_coreD(2) [OF assms(1)] assms(2) by linarith
  then show ?thesis by simp
qed

text \<open>Making an event touches no object under way.\<close>

lemma core_make:
  assumes "shard_core bits n k H C s" "k + length H < n + 2" "False \<in> set ws"
  shows "\<exists>x p. pool_make bits () ws v (shard_memory s) = Done (pool_ptr () x, p) \<and>
    (\<forall>m. shard_core bits n k (H @ [(x, v)]) C (s\<lparr>shard_memory := p, shard_main := m\<rparr>))"
proof -
  note D = shard_coreD [OF assms(1)]
  obtain x p where p: "pool_make bits () ws v (shard_memory s) = Done (pool_ptr () x, p)"
      "cell_ledger bits {0, 1} (add_mset x (mset (map fst H) + mset (C 0) + mset (C 1))) p (shard_tracks s)"
      "length (memory p) = length (memory (shard_memory s))"
      "pool_object p = (pool_object (shard_memory s))(x \<mapsto> v)" "pool_object (shard_memory s) x = None"
    using ledger_make [OF D(3) assms(3) core_free [OF assms(1,2)], of "()" v] by blast
  have keep: "pool_object p y = Some u" if "pool_object (shard_memory s) y = Some u" for y u
    using that p(4,5) by auto
  have pend: "map (pool_object p) (C i @ conduit_items (shard_tracks s i)) =
      map (pool_object (shard_memory s)) (C i @ conduit_items (shard_tracks s i))" if "i < 2" for i
  proof -
    have "pool_object (shard_memory s) y \<noteq> None" if "y \<in> set (C i @ conduit_items (shard_tracks s i))" for y
      using arg_cong [OF D(11) [OF \<open>i < 2\<close>], of set] that by auto
    then have "x \<notin> set (C i @ conduit_items (shard_tracks s i))" using p(5) by metis
    then show ?thesis using p(4) by (intro map_cong refl) auto
  qed
  have "shard_core bits n k (H @ [(x, v)]) C (s\<lparr>shard_memory := p, shard_main := m\<rparr>)" for m
    using D p(2-4) keep pend unfolding shard_core_def by auto
  with p(1) show ?thesis by blast
qed

text \<open>Routing an event that is next in line: its track has room, and the main thread lets go of it.\<close>

lemma core_route:
  assumes "shard_core bits n k ((x, job n k) # H) C s" "k < n + 2"
  shows "\<exists>lb qs ev. switch_on (load_balancer s) (shard_tracks s) (pool_ptr () x) = (lb, qs, ev) \<and> ep_ptr ev = None \<and>
    (\<forall>m. shard_core bits n (Suc k) H C (s\<lparr>load_balancer := lb, shard_tracks := qs, shard_main := m\<rparr>))"
proof -
  note D = shard_coreD [OF assms(1)]
  let ?t = "k mod 2" and ?lb = "load_balancer s" and ?qs = "shard_tracks s"
  have t: "?t < 2" "?t \<in> {0, 1}" by auto
  have nth: "tracks ?lb ! ?t = Some ?t" using D(5) by (cases "?t = 0") auto
  have "length (conduit_items (?qs ?t)) \<le> length (hist ?t k)" using core_pending [OF assms(1) t(1)] by linarith
  also have "\<dots> = k div 2" using length_hist [OF t(1), of k] by presburger
  also have "\<dots> < conduit_room (?qs ?t)" using D(8) [OF t(1)] assms(2) by linarith
  finally have room: "length (conduit_items (?qs ?t)) < conduit_room (?qs ?t)" .
  have led: "cell_ledger bits {0, 1} (add_mset x (mset (map fst H) + mset (C 0) + mset (C 1))) (shard_memory s) ?qs"
    using D(3) by simp
  obtain q where q: "conduit_push (Some x) (?qs ?t) = (True, q)" "conduit_items q = conduit_items (?qs ?t) @ [x]"
      "conduit_room q = conduit_room (?qs ?t)"
      "cell_ledger bits {0, 1} (mset (map fst H) + mset (C 0) + mset (C 1)) (shard_memory s) (?qs(?t := q))"
    using ledger_push [OF led t(2) room] by blast
  let ?lb' = "?lb\<lparr>next_track := Suc ?t mod 2\<rparr>"
  have on: "switch_on ?lb ?qs (pool_ptr () x) = (?lb', ?qs(?t := q), snd (event_ptr_release (pool_ptr () x)))"
    using switch_on_room [OF D(4), of "pool_ptr () x" x] D(5,6) nth room q(1)
    by (simp add: event_ptr_of_def has_room_def push_event_def numeral_2_eq_2)
  have "conduit_inv q" using ledger_conduit [OF q(4) t(2)] by simp
  then have rr: "rr_inv ?lb' (?qs(?t := q))" using rr_inv_update [OF D(4), of q ?t ?t] D(5) by (simp add: numeral_2_eq_2)
  have x: "pool_object (shard_memory s) x = Some (job n k)" using D(7) by simp
  have pend: "map (pool_object (shard_memory s)) (C i @ conduit_items ((?qs(?t := q)) i)) =
      map (Some \<circ> job n) (drop (finished (shard_workers s i)) (hist i (Suc k)))" if "i < 2" for i
    using D(11) [OF that] D(9) [OF that] by (simp add: hist_Suc q(2) x)
  have "finished (shard_workers s i) \<le> length (hist i (Suc k))" if "i < 2" for i
    using D(9) [OF that] by (simp add: hist_Suc)
  moreover have "take (processed (shard_workers s i)) (hist i (Suc k)) = take (processed (shard_workers s i)) (hist i k)" if "i < 2" for i
    using D(9) [OF that] by (simp add: hist_Suc finished_def split: if_splits)
  moreover have "Suc ?t mod 2 = Suc k mod 2" by presburger
  ultimately have "shard_core bits n (Suc k) H C (s\<lparr>load_balancer := ?lb', shard_tracks := ?qs(?t := q), shard_main := m\<rparr>)" for m
    using D assms(2) q(3,4) rr pend unfolding shard_core_def by auto
  with on show ?thesis by (auto simp: event_ptr_release_def)
qed

lemma core_pop:
  assumes "shard_core bits n k H C s" "i < 2" "shard_at (shard_workers s i) = Popping" "C i = []"
  defines "W \<equiv> \<lambda>at. (shard_workers s)(i := (shard_workers s i)\<lparr>shard_at := at\<rparr>)"
  obtains (idle) "conduit_pop () (shard_tracks s i) = (event_ptr_default, shard_tracks s i)"
      "conduit_items (shard_tracks s i) = []"
  | (task) x q where "conduit_pop () (shard_tracks s i) = (pool_ptr () x, q)"
      "shard_core bits n k H (C(i := [x])) (s\<lparr>shard_tracks := (shard_tracks s)(i := q), shard_workers := W (Working (pool_ptr () x))\<rparr>)"
proof (cases "conduit_items (shard_tracks s i)")
  case Nil
  have "i \<in> {0, 1}" using assms(2) by auto
  then have "conduit_pop () (shard_tracks s i) = (event_ptr_default, shard_tracks s i)"
    by (intro conduit_pop_nothing ledger_conduit [OF shard_coreD(3) [OF assms(1)]] Nil)
  then show ?thesis using Nil by (rule idle)
next
  case (Cons x xs)
  note D = shard_coreD [OF assms(1)]
  have i: "i \<in> {0, 1}" using assms(2) by auto
  obtain q where q: "conduit_pop () (shard_tracks s i) = (pool_ptr () x, q)" "conduit_items q = xs"
      "conduit_room q = conduit_room (shard_tracks s i)"
      "cell_ledger bits {0, 1} (add_mset x (mset (map fst H) + mset (C 0) + mset (C 1))) (shard_memory s) ((shard_tracks s)(i := q))"
    using ledger_pop [OF D(3) i Cons, of "()"] by blast
  have "cell_ledger bits {0, 1} (mset (map fst H) + mset ((C(i := [x])) 0) + mset ((C(i := [x])) 1))
      (shard_memory s) ((shard_tracks s)(i := q))"
    using q(4) i assms(4) by auto
  moreover have "rr_inv (load_balancer s) ((shard_tracks s)(i := q))"
    using D(4) ledger_conduit [OF q(4) i] by (auto simp: rr_inv_def)
  moreover have fin: "finished (W (Working (pool_ptr () x)) j) = finished (shard_workers s j)"
      "shard_stopped (W (Working (pool_ptr () x)) j) = shard_stopped (shard_workers s j)"
      "processed (W (Working (pool_ptr () x)) j) = processed (shard_workers s j)"
      "handled_jobs (W (Working (pool_ptr () x)) j) = handled_jobs (shard_workers s j)" for j
    using assms(3) by (simp_all add: W_def finished_def shard_stopped_def)
  moreover have "map (pool_object (shard_memory s)) ((C(i := [x])) j @ conduit_items (((shard_tracks s)(i := q)) j)) =
      map (pool_object (shard_memory s)) (C j @ conduit_items (shard_tracks s j))" for j
    using Cons assms(4) q(2) by simp
  ultimately have "shard_core bits n k H (C(i := [x]))
      (s\<lparr>shard_tracks := (shard_tracks s)(i := q), shard_workers := W (Working (pool_ptr () x))\<rparr>)"
    using D q(3) unfolding shard_core_def by auto
  with q(1) show ?thesis by (rule task)
qed

definition after_task :: "int \<Rightarrow> shard_worker \<Rightarrow> shard_worker" where
  "after_task job_id w =
     (if job_id = - 1 then w\<lparr>shard_at := Stopped\<rparr> else w\<lparr>shard_at := Popping, processed := processed w + 1, handled_jobs := handled_jobs w @ [job_id]\<rparr>)"

text \<open>A worker that ends the job it works on has finished one more, and has stopped if that was its last.\<close>

lemma after_task_finished:
  assumes core: "shard_core bits n k H C s" and i: "i < 2" and work: "shard_at (shard_workers s i) = Working ev"
    and c: "finished (shard_workers s i) < length (hist i k)"
  defines "W' \<equiv> (shard_workers s)(i := after_task (job n (hist i k ! finished (shard_workers s i))) (shard_workers s i))"
  shows "finished (W' j) = (if j = i then Suc (finished (shard_workers s i)) else finished (shard_workers s j))"
    and "j < 2 \<Longrightarrow> shard_stopped (W' j) \<longleftrightarrow> finished (W' j) = length (hist j (n + 2))"
    and "j < 2 \<Longrightarrow> handled_jobs (W' j) = map (job n) (take (processed (W' j)) (hist j k))"
proof -
  let ?c = "finished (shard_workers s i)"
  note D = shard_coreD [OF core]
  show fin: "finished (W' j) = (if j = i then Suc ?c else finished (shard_workers s j))" for j
    using work by (simp add: W'_def finished_def after_task_def shard_stopped_def)
  assume j: "j < 2"
  have "processed (shard_workers s i) = ?c" using work by (simp add: finished_def shard_stopped_def)
  then show "handled_jobs (W' j) = map (job n) (take (processed (W' j)) (hist j k))"
    using D(12) [OF j] c by (auto simp: W'_def after_task_def take_Suc_conv_app_nth)
  show "shard_stopped (W' j) \<longleftrightarrow> finished (W' j) = length (hist j (n + 2))"
  proof (cases "j = i")
    case True
    have "shard_stopped (W' i) \<longleftrightarrow> n \<le> hist i k ! ?c"
      using work by (auto simp: W'_def after_task_def shard_stopped_def job_def)
    also have "\<dots> \<longleftrightarrow> Suc ?c = length (hist i (n + 2))"
      using hist_pill(1) [OF i c D(1)] hist_task [OF i c, of n] by (cases "n \<le> hist i k ! ?c") auto
    finally show ?thesis using True fin [of i] by simp
  next
    case False
    then show ?thesis using D(10) [OF j] fin [of j] by (simp add: W'_def)
  qed
qed

lemma core_finish:
  assumes "shard_core bits n k H C s" "i < 2" "shard_at (shard_workers s i) = Working (pool_ptr () x)" "C i = [x]"
    and "False \<in> set ws"
  shows "\<exists>v p. pool_object (shard_memory s) x = Some v \<and> drop_event ws (pool_ptr () x) (shard_memory s) = Done p \<and>
    shard_core bits n k H (C(i := []))
      (s\<lparr>shard_memory := p, shard_workers := (shard_workers s)(i := after_task v (shard_workers s i))\<rparr>)"
proof -
  note D = shard_coreD [OF assms(1)]
  let ?c = "finished (shard_workers s i)" and ?W = "shard_workers s" and ?m = "shard_memory s"
  let ?C = "C(i := [])"
  have i: "i \<in> {0, 1}" using assms(2) by auto
  have c: "?c < length (hist i k)" using core_pending [OF assms(1,2)] assms(4) by simp
  then have cons: "drop ?c (hist i k) = hist i k ! ?c # drop (Suc ?c) (hist i k)" by (rule Cons_nth_drop_Suc [symmetric])
  define v where "v = job n (hist i k ! ?c)"
  have x: "pool_object ?m x = Some v" using D(11) [OF assms(2)] cons assms(4) by (simp add: v_def)
  have "mset (map fst H) + mset (C 0) + mset (C 1) = add_mset x (mset (map fst H) + mset (?C 0) + mset (?C 1))"
    using i assms(4) by auto
  then have led: "cell_ledger bits {0, 1} (add_mset x (mset (map fst H) + mset (?C 0) + mset (?C 1))) ?m (shard_tracks s)"
    using D(3) by (simp only:)
  obtain p where p: "drop_event ws (pool_ptr () x) ?m = Done p"
      "cell_ledger bits {0, 1} (mset (map fst H) + mset (?C 0) + mset (?C 1)) p (shard_tracks s)"
      "length (memory p) = length (memory ?m)" "pool_object p = (pool_object ?m)(x := None)"
    using ledger_drop [OF led assms(5), of "()"] by blast
  have away: "x \<notin> fst ` set H" "x \<notin> set (?C j @ conduit_items (shard_tracks s j))" if "j < 2" for j
  proof -
    have "j = 0 \<or> j = 1" using that by linarith
    then show "x \<notin> set (?C j @ conduit_items (shard_tracks s j))"
      using ledger_cell(3,4) [OF led] by (auto simp: queued_def)
    show "x \<notin> fst ` set H" using ledger_cell(4) [OF led] by auto
  qed
  have objs: "map (pool_object p) (?C j @ conduit_items (shard_tracks s j)) =
      map (pool_object ?m) (?C j @ conduit_items (shard_tracks s j))" if "j < 2" for j
    using away(2) [OF that] p(4) by (intro map_cong refl) auto
  let ?W' = "?W(i := after_task v (?W i))"
  note fin = after_task_finished [OF assms(1-3) c, folded v_def]
  have pend: "map (pool_object p) (?C j @ conduit_items (shard_tracks s j)) =
      map (Some \<circ> job n) (drop (finished (?W' j)) (hist j k))" if "j < 2" for j
    unfolding objs [OF that] using D(11) [OF that] cons assms(4) fin(1) [of j] by (cases "j = i") simp_all
  have "finished (?W' j) \<le> length (hist j k)" if "j < 2" for j using D(9) [OF that] c fin(1) [of j] by simp
  moreover have "\<forall>(y, u) \<in> set H. pool_object p y = Some u" using D(7) away(1) [of 0] p(4) by force
  ultimately have "shard_core bits n k H ?C (s\<lparr>shard_memory := p, shard_workers := ?W'\<rparr>)"
    using D(1,2,4-6,8) p(2,3) fin(2,3) pend unfolding shard_core_def by simp
  with x p(1) show ?thesis by blast
qed

section \<open>Every step keeps the invariant and makes progress\<close>

fun main_at :: "nat \<Rightarrow> shard_main \<Rightarrow> nat \<Rightarrow> (nat \<times> int) list \<Rightarrow> bool" where
  "main_at n (Make_Task j) k H \<longleftrightarrow> j \<le> n \<and> k = j \<and> H = []"
| "main_at n (Route_Task j ev) k H \<longleftrightarrow> j < n \<and> k = j \<and> (\<exists>x. ev = pool_ptr () x \<and> H = [(x, int j)])"
| "main_at n (Drop_Task j ev) k H \<longleftrightarrow> j < n \<and> k = Suc j \<and> ep_ptr ev = None \<and> H = []"
| "main_at n Make_Stop1 k H \<longleftrightarrow> k = n \<and> H = []"
| "main_at n (Make_Stop2 a) k H \<longleftrightarrow> k = n \<and> (\<exists>x. a = pool_ptr () x \<and> H = [(x, - 1)])"
| "main_at n (Route_Stop1 a b) k H \<longleftrightarrow>
     k = n \<and> (\<exists>x y. a = pool_ptr () x \<and> b = pool_ptr () y \<and> H = [(x, - 1), (y, - 1)])"
| "main_at n (Route_Stop2 a b) k H \<longleftrightarrow> k = Suc n \<and> ep_ptr a = None \<and> (\<exists>y. b = pool_ptr () y \<and> H = [(y, - 1)])"
| "main_at n (Join_Workers a b) k H \<longleftrightarrow> k = n + 2 \<and> ep_ptr a = None \<and> ep_ptr b = None \<and> H = []"
| "main_at n Main_Returned k H \<longleftrightarrow> k = n + 2 \<and> H = []"

fun worker_at :: "shard_pc \<Rightarrow> nat list \<Rightarrow> bool" where
  "worker_at Popping C \<longleftrightarrow> C = []"
| "worker_at (Working ev) C \<longleftrightarrow> (\<exists>x. ev = pool_ptr () x \<and> C = [x])"
| "worker_at Stopped C \<longleftrightarrow> C = []"

definition shard_inv :: "(int \<Rightarrow> u64) \<Rightarrow> nat \<Rightarrow> sharding \<Rightarrow> bool" where
  "shard_inv bits n s \<longleftrightarrow>
     (\<exists>k H C. shard_core bits n k H C s \<and> main_at n (shard_main s) k H \<and>
        (\<forall>i < 2. worker_at (shard_at (shard_workers s i)) (C i))) \<and>
     (shard_main s = Main_Returned \<longrightarrow> (\<forall>i < 2. shard_stopped (shard_workers s i)))"

text \<open>The calls a thread still has to make.\<close>

fun main_rank :: "nat \<Rightarrow> shard_main \<Rightarrow> nat" where
  "main_rank n (Make_Task j) = 3 * (n - j) + 6"
| "main_rank n (Route_Task j _) = 3 * (n - j) + 5"
| "main_rank n (Drop_Task j _) = 3 * (n - j) + 4"
| "main_rank n Make_Stop1 = 5"
| "main_rank n (Make_Stop2 _) = 4"
| "main_rank n (Route_Stop1 _ _) = 3"
| "main_rank n (Route_Stop2 _ _) = 2"
| "main_rank n (Join_Workers _ _) = 1"
| "main_rank n Main_Returned = 0"

definition worker_rank :: "nat \<Rightarrow> nat \<Rightarrow> shard_worker \<Rightarrow> nat" where
  "worker_rank n i w =
     2 * (length (hist i (n + 2)) - finished w) - (case shard_at w of Working _ \<Rightarrow> 1 | _ \<Rightarrow> 0)"

definition shard_rank :: "nat \<Rightarrow> sharding \<Rightarrow> nat" where
  "shard_rank n s =
     main_rank n (shard_main s) + worker_rank n 0 (shard_workers s 0) + worker_rank n 1 (shard_workers s 1)"

text \<open>A thread waits: the main thread for its workers, a worker for its track.\<close>

definition waits :: "nat \<Rightarrow> sharding \<Rightarrow> bool" where
  "waits thread s \<longleftrightarrow>
     (if thread = 0 then
        (case shard_main s of
           Join_Workers _ _ \<Rightarrow> \<not> (shard_stopped (shard_workers s 0) \<and> shard_stopped (shard_workers s 1))
         | m \<Rightarrow> m = Main_Returned)
      else if thread \<le> 2 then
        (case shard_at (shard_workers s (thread - 1)) of
           Popping \<Rightarrow> conduit_items (shard_tracks s (thread - 1)) = [] | Working _ \<Rightarrow> False | Stopped \<Rightarrow> True)
      else True)"

lemma job_task: "j < n \<Longrightarrow> job n j = int j" and job_stop: "job n n = - 1" "job n (Suc n) = - 1"
  by (simp_all add: job_def)

lemma shard_invI:
  "shard_core bits n k H C s \<Longrightarrow> main_at n (shard_main s) k H \<Longrightarrow>
   \<forall>i < 2. worker_at (shard_at (shard_workers s i)) (C i) \<Longrightarrow>
   shard_main s \<noteq> Main_Returned \<or> (\<forall>i < 2. shard_stopped (shard_workers s i)) \<Longrightarrow> shard_inv bits n s"
  by (auto simp: shard_inv_def)

lemma core_main: "shard_core bits n k H C s \<Longrightarrow> shard_core bits n k H C (s\<lparr>shard_main := m\<rparr>)"
  by (simp add: shard_core_def)

text \<open>What a step of the main thread does to the invariant: it makes an event, routes the first it holds, or only moves on.\<close>

definition workers_at :: "sharding \<Rightarrow> (nat \<Rightarrow> nat list) \<Rightarrow> bool" where
  "workers_at s C \<longleftrightarrow> (\<forall>i < 2. worker_at (shard_at (shard_workers s i)) (C i))"

lemma main_makes:
  assumes "shard_core bits n k H C s" "workers_at s C" "k + length H < n + 2" "False \<in> set ws"
  shows "\<exists>x p. pool_make bits () ws v (shard_memory s) = Done (pool_ptr () x, p) \<and>
    (\<forall>m. main_at n m k (H @ [(x, v)]) \<longrightarrow> m \<noteq> Main_Returned \<longrightarrow> shard_inv bits n (s\<lparr>shard_memory := p, shard_main := m\<rparr>))"
  using core_make [OF assms(1,3,4), of v] assms(2) by (force simp: workers_at_def intro!: shard_invI)

lemma main_routes:
  assumes "shard_core bits n k ((x, job n k) # H) C s" "workers_at s C" "k < n + 2"
  shows "\<exists>lb qs ev. switch_on (load_balancer s) (shard_tracks s) (pool_ptr () x) = (lb, qs, ev) \<and> ep_ptr ev = None \<and>
    (\<forall>m. main_at n m (Suc k) H \<longrightarrow> m \<noteq> Main_Returned \<longrightarrow>
       shard_inv bits n (s\<lparr>load_balancer := lb, shard_tracks := qs, shard_main := m\<rparr>))"
proof -
  obtain lb qs ev where on: "switch_on (load_balancer s) (shard_tracks s) (pool_ptr () x) = (lb, qs, ev)" "ep_ptr ev = None"
      "\<And>m. shard_core bits n (Suc k) H C (s\<lparr>load_balancer := lb, shard_tracks := qs, shard_main := m\<rparr>)"
    using core_route [OF assms(1,3)] by blast
  have "shard_inv bits n (s\<lparr>load_balancer := lb, shard_tracks := qs, shard_main := m\<rparr>)"
    if "main_at n m (Suc k) H" "m \<noteq> Main_Returned" for m
    by (rule shard_invI [OF on(3)]) (use assms(2) that in \<open>simp_all add: workers_at_def\<close>)
  with on(1,2) show ?thesis by blast
qed

lemma main_moves:
  assumes "shard_core bits n k H C s" "workers_at s C" "main_at n m k H"
    "m = Main_Returned \<Longrightarrow> shard_stopped (shard_workers s 0) \<and> shard_stopped (shard_workers s 1)"
  shows "shard_inv bits n (s\<lparr>shard_main := m\<rparr>)"
  by (rule shard_invI [OF core_main [OF assms(1)]]) (use assms(2-) in \<open>auto simp: workers_at_def less_2_cases_iff\<close>)

lemma shard_main_inv:
  assumes inv: "shard_inv bits n s" and ws: "False \<in> set ws"
  shows "\<exists>s'. shard_main_step bits n ws s = Done s' \<and> shard_inv bits n s' \<and>
    (if waits 0 s then s' = s else shard_rank n s' < shard_rank n s)"
proof -
  obtain k H C where core: "shard_core bits n k H C s" and m: "main_at n (shard_main s) k H" and w: "workers_at s C"
    using inv by (auto simp: shard_inv_def workers_at_def)
  note make = main_makes [OF core w _ ws] and stay = main_moves [OF core w]
  have route: "\<exists>lb qs ev. switch_on (load_balancer s) (shard_tracks s) (pool_ptr () x) = (lb, qs, ev) \<and> ep_ptr ev = None \<and>
      (\<forall>m. main_at n m (Suc k) H' \<longrightarrow> m \<noteq> Main_Returned \<longrightarrow>
         shard_inv bits n (s\<lparr>load_balancer := lb, shard_tracks := qs, shard_main := m\<rparr>))"
    if "H = (x, job n k) # H'" "k < n + 2" for x H'
    using main_routes [OF core [unfolded that(1)] w that(2)] .
  note step = shard_main_step_def Let_def waits_def shard_rank_def
  show ?thesis
  proof (cases "shard_main s")
    case (Make_Task j)
    show ?thesis
    proof (cases "j < n")
      case True
      then obtain x p where "pool_make bits () ws (int j) (shard_memory s) = Done (pool_ptr () x, p)"
          "shard_inv bits n (s\<lparr>shard_memory := p, shard_main := Route_Task j (pool_ptr () x)\<rparr>)"
        using make [of "int j"] m Make_Task by auto
      then show ?thesis using Make_Task True by (simp add: step)
    next
      case False
      then show ?thesis using Make_Task m stay [of Make_Stop1] by (simp add: step)
    qed
  next
    case (Route_Task j ev)
    then obtain x where x: "ev = pool_ptr () x" "H = [(x, job n k)]" "k = j" "j < n" using m by (auto simp: job_task)
    then obtain lb qs ev' where "switch_on (load_balancer s) (shard_tracks s) (pool_ptr () x) = (lb, qs, ev')"
        "shard_inv bits n (s\<lparr>load_balancer := lb, shard_tracks := qs, shard_main := Drop_Task j ev'\<rparr>)"
      using route [OF x(2)] by auto
    then show ?thesis using Route_Task x(1) by (simp add: step)
  next
    case (Drop_Task j ev)
    then have "shard_inv bits n (s\<lparr>shard_main := Make_Task (Suc j)\<rparr>)" using stay [of "Make_Task (Suc j)"] m by simp
    moreover have "n - j = Suc (n - Suc j)" using Drop_Task m by (simp add: Suc_diff_Suc)
    ultimately show ?thesis using Drop_Task m by (simp add: step drop_null)
  next
    case Make_Stop1
    then obtain x p where "pool_make bits () ws (- 1) (shard_memory s) = Done (pool_ptr () x, p)"
        "shard_inv bits n (s\<lparr>shard_memory := p, shard_main := Make_Stop2 (pool_ptr () x)\<rparr>)"
      using make [of "- 1"] m by auto
    then show ?thesis using Make_Stop1 by (simp add: step)
  next
    case (Make_Stop2 a)
    then obtain x p where "pool_make bits () ws (- 1) (shard_memory s) = Done (pool_ptr () x, p)"
        "shard_inv bits n (s\<lparr>shard_memory := p, shard_main := Route_Stop1 a (pool_ptr () x)\<rparr>)"
      using make [of "- 1"] m by auto
    then show ?thesis using Make_Stop2 by (simp add: step)
  next
    case (Route_Stop1 a b)
    then obtain x y where x: "a = pool_ptr () x" "H = [(x, job n k), (y, - 1)]" "b = pool_ptr () y" "k = n"
      using m by (auto simp: job_stop)
    then obtain lb qs ev' where "switch_on (load_balancer s) (shard_tracks s) (pool_ptr () x) = (lb, qs, ev')"
        "shard_inv bits n (s\<lparr>load_balancer := lb, shard_tracks := qs, shard_main := Route_Stop2 ev' b\<rparr>)"
      using route [OF x(2)] by auto
    then show ?thesis using Route_Stop1 x(1) by (simp add: step)
  next
    case (Route_Stop2 a b)
    then obtain x where x: "b = pool_ptr () x" "H = [(x, job n k)]" "k = Suc n" "ep_ptr a = None"
      using m by (auto simp: job_stop)
    then obtain lb qs ev' where "switch_on (load_balancer s) (shard_tracks s) (pool_ptr () x) = (lb, qs, ev')"
        "shard_inv bits n (s\<lparr>load_balancer := lb, shard_tracks := qs, shard_main := Join_Workers a ev'\<rparr>)"
      using route [OF x(2)] by auto
    then show ?thesis using Route_Stop2 x(1) by (simp add: step)
  next
    case (Join_Workers a b)
    have "shard_inv bits n (s\<lparr>shard_main := Main_Returned\<rparr>)"
      if "shard_stopped (shard_workers s 0)" "shard_stopped (shard_workers s 1)"
      using stay [of Main_Returned] that m Join_Workers by simp
    then show ?thesis using Join_Workers m inv by (simp add: step drop_null)
  next
    case Main_Returned
    then show ?thesis using inv by (simp add: step)
  qed
qed

lemma shard_worker_inv:
  assumes inv: "shard_inv bits n s" and ws: "False \<in> set ws" and i: "i < 2"
  shows "\<exists>s'. shard_worker_step i ws s = Done s' \<and> shard_inv bits n s' \<and>
    (if waits (Suc i) s then s' = s else shard_rank n s' < shard_rank n s)"
proof -
  obtain k H C where core: "shard_core bits n k H C s" and m: "main_at n (shard_main s) k H"
      and w: "\<forall>i < 2. worker_at (shard_at (shard_workers s i)) (C i)"
      and ret: "shard_main s = Main_Returned \<longrightarrow> (\<forall>i < 2. shard_stopped (shard_workers s i))"
    using inv by (auto simp: shard_inv_def)
  let ?w = "shard_workers s i"
  have le: "finished ?w \<le> length (hist i (n + 2))" "shard_stopped ?w \<longleftrightarrow> finished ?w = length (hist i (n + 2))"
  proof -
    have "length (hist i k) \<le> length (hist i (n + 2))"
      using shard_coreD(1) [OF core] i by (simp add: length_hist div_le_mono)
    then show "finished ?w \<le> length (hist i (n + 2))" using shard_coreD(9) [OF core i] by linarith
    show "shard_stopped ?w \<longleftrightarrow> finished ?w = length (hist i (n + 2))" by (rule shard_coreD(10) [OF core i])
  qed
  have rank: "shard_rank n s' < shard_rank n s"
    if "shard_main s' = shard_main s" "shard_workers s' = (shard_workers s)(i := u)" "worker_rank n i u < worker_rank n i ?w" for s' u
    using that i by (auto simp: shard_rank_def less_2_cases_iff)
  have busy: "shard_main s \<noteq> Main_Returned" if "\<not> shard_stopped ?w" using ret i that by blast
  show ?thesis
  proof (cases "shard_at ?w")
    case Popping
    have C: "C i = []" using w i Popping by auto
    have nr: "shard_main s \<noteq> Main_Returned" using busy Popping by (simp add: shard_stopped_def)
    show ?thesis
    proof (cases rule: core_pop [OF core i Popping C])
      case 1
      have same: "?w\<lparr>shard_at := Popping\<rparr> = ?w" using Popping by (cases ?w) simp
      have "shard_worker_step i ws s = Done (s\<lparr>shard_workers := (shard_workers s)(i := ?w\<lparr>shard_at := Popping\<rparr>)\<rparr>)"
        using 1(1) Popping by (simp add: shard_worker_step_def event_ptr_defs)
      then have "shard_worker_step i ws s = Done s" unfolding same by simp
      with 1 show ?thesis using Popping inv i by (simp add: waits_def)
    next
      case (2 x q)
      have inv_i: "conduit_inv (shard_tracks s i)"
        by (rule ledger_conduit [OF shard_coreD(3) [OF core]]) (use i in auto)
      define u where "u = ?w\<lparr>shard_at := Working (pool_ptr () x)\<rparr>"
      let ?s = "s\<lparr>shard_tracks := (shard_tracks s)(i := q), shard_workers := (shard_workers s)(i := u)\<rparr>"
      have step: "shard_worker_step i ws s = Done ?s" "\<not> waits (Suc i) s"
        using 2(1) Popping conduit_pop_nothing [OF inv_i, of "()"] i by (auto simp: shard_worker_step_def waits_def event_ptr_defs u_def)
      have "shard_inv bits n ?s"
        by (rule shard_invI [OF 2(2) [folded u_def]]) (use m w nr in \<open>auto simp: u_def\<close>)
      moreover have "worker_rank n i u < worker_rank n i ?w"
        using le Popping by (simp add: worker_rank_def u_def finished_def shard_stopped_def)
      ultimately show ?thesis using step rank [of ?s u] by simp
    qed
  next
    case (Working ev)
    have nr: "shard_main s \<noteq> Main_Returned" using busy Working by (simp add: shard_stopped_def)
    obtain x where x: "ev = pool_ptr () x" "C i = [x]" using w [rule_format, OF i] Working by auto
    obtain v p where v: "pool_object (shard_memory s) x = Some v" "drop_event ws (pool_ptr () x) (shard_memory s) = Done p"
        "shard_core bits n k H (C(i := []))
          (s\<lparr>shard_memory := p, shard_workers := (shard_workers s)(i := after_task v ?w)\<rparr>)"
      using core_finish [OF core i Working [unfolded x(1)] x(2) ws] by blast
    let ?s = "s\<lparr>shard_memory := p, shard_workers := (shard_workers s)(i := after_task v ?w)\<rparr>"
    have step: "shard_worker_step i ws s = Done ?s" "\<not> waits (Suc i) s"
      using v(1,2) Working x(1) i by (simp_all add: shard_worker_step_def waits_def event_ptr_defs after_task_def Let_def)
    have "shard_inv bits n ?s"
      by (rule shard_invI [OF v(3)]) (use m w nr in \<open>auto simp: after_task_def\<close>)
    moreover have "worker_rank n i (after_task v ?w) < worker_rank n i ?w"
      using le Working by (simp add: worker_rank_def after_task_def finished_def shard_stopped_def)
    ultimately show ?thesis using step rank [of ?s "after_task v ?w"] by simp
  next
    case Stopped
    then show ?thesis using inv i by (simp add: shard_worker_step_def waits_def)
  qed
qed

lemma shard_step_inv:
  assumes "shard_inv bits n s" "False \<in> set ws"
  shows "\<exists>s'. shard_step bits n ws thread s = Done s' \<and> shard_inv bits n s' \<and>
    (if waits thread s then s' = s else shard_rank n s' < shard_rank n s)"
proof (cases "thread = 0 \<or> 2 < thread")
  case True
  then show ?thesis using shard_main_inv [OF assms] assms(1) by (auto simp: shard_step_def waits_def)
next
  case False
  then have "thread - 1 < 2" "Suc (thread - 1) = thread" by auto
  then show ?thesis using shard_worker_inv [OF assms, of "thread - 1"] False by (simp add: shard_step_def)
qed

text \<open>While the main thread has not returned, some thread can move.\<close>

lemma shard_no_deadlock:
  assumes "shard_inv bits n s" "shard_main s \<noteq> Main_Returned"
  shows "\<exists>t \<in> {0, 1, 2}. \<not> waits t s"
proof (rule ccontr)
  assume "\<not> ?thesis"
  then have wait: "waits 0 s" "waits 1 s" "waits 2 s" by auto
  obtain k H C where core: "shard_core bits n k H C s" and m: "main_at n (shard_main s) k H"
      and w: "\<forall>i < 2. worker_at (shard_at (shard_workers s i)) (C i)"
    using assms(1) by (auto simp: shard_inv_def)
  obtain a b where join: "shard_main s = Join_Workers a b"
      and "\<not> (shard_stopped (shard_workers s 0) \<and> shard_stopped (shard_workers s 1))"
    using wait(1) assms(2) by (auto simp: waits_def split: shard_main.splits)
  then obtain i where i: "i < 2" "\<not> shard_stopped (shard_workers s i)"
    by (cases "shard_stopped (shard_workers s 0)") (auto intro: that [of 0] that [of 1])
  have "waits (Suc i) s" using wait(2,3) i(1) by (cases "i = 0") (auto simp: numeral_2_eq_2 less_Suc_eq)
  then have "shard_at (shard_workers s i) = Popping" "conduit_items (shard_tracks s i) = []"
    using i by (auto simp: waits_def shard_stopped_def split: shard_pc.splits)
  moreover have "C i = []" using w i(1) calculation(1) by auto
  moreover have "k = n + 2" using m join by simp
  ultimately have "finished (shard_workers s i) = length (hist i (n + 2))"
    using core_pending [OF core i(1)] by simp
  then show False using shard_coreD(10) [OF core i(1)] i(2) by simp
qed

lemma shard_rank_returned: "shard_inv bits n s \<Longrightarrow> shard_main s = Main_Returned \<longleftrightarrow> shard_rank n s = 0"
proof
  assume inv: "shard_inv bits n s" and ret: "shard_main s = Main_Returned"
  then have "shard_stopped (shard_workers s i)" if "i < 2" for i using that by (simp add: shard_inv_def)
  moreover have "shard_stopped (shard_workers s i) \<longleftrightarrow> finished (shard_workers s i) = length (hist i (n + 2))" if "i < 2" for i
    using inv shard_coreD(10) that by (auto simp: shard_inv_def)
  ultimately show "shard_rank n s = 0" using ret by (simp add: shard_rank_def worker_rank_def)
next
  assume "shard_rank n s = 0"
  then show "shard_main s = Main_Returned" by (cases "shard_main s") (simp_all add: shard_rank_def)
qed

text \<open>The three threads are a fair system.\<close>

interpretation fs: fair_system "shard_step bits n (lets_succeed ws)" "shard_inv bits n" waits "shard_rank n" "{0, 1, 2}"
  for bits n ws
proof unfold_locales
  fix s t
  assume inv: "shard_inv bits n s"
  show "\<exists>s'. shard_step bits n (lets_succeed ws) t s = Done s' \<and> shard_inv bits n s' \<and> shard_rank n s' \<le> shard_rank n s \<and>
      (\<not> waits t s \<longrightarrow> shard_rank n s' < shard_rank n s) \<and> (shard_rank n s' = shard_rank n s \<longrightarrow> (\<forall>u. waits u s' = waits u s))"
    using shard_step_inv [OF inv lets_succeed [of ws], of t] by (cases "waits t s") auto
  show "\<exists>t \<in> {0, 1, 2}. \<not> waits t s" if "shard_rank n s \<noteq> 0"
    using shard_no_deadlock [OF inv] shard_rank_returned [OF inv] that by blast
qed

lemma shard_start_inv:
  assumes "n + 2 \<le> cells" "cells \<le> 0xFFFFFFFF" "n + 2 \<le> 2 * (slots - 1)" "slots < 2 ^ 64"
  shows "\<exists>s. shard_start cells slots junk = Done s \<and> shard_inv bits n s \<and> shard_rank n s = 5 * n + 10 \<and>
    length (memory (shard_memory s)) = cells"
proof -
  let ?qs = "\<lambda>_ :: nat. conduit_init (map junk [0..<slots])"
  have q: "conduit_inv (?qs t)" "conduit_items (?qs t) = []" "conduit_room (?qs t) = slots - 1" for t
    using conduit_fresh [of "map junk [0..<slots]"] assms by simp_all
  obtain p where p: "pool_ctor cells = Done p" "cell_ledger bits {0, 1} {#} p ?qs" "length (memory p) = cells"
    using ledger_start [of cells "{0, 1}" ?qs bits] assms q by auto
  define s where "s = \<lparr>shard_memory = p, load_balancer = bind_track 1 1 (bind_track 0 0 (round_robin_init 2)),
    shard_tracks = ?qs, shard_main = Make_Task 0, shard_workers = (\<lambda>_. \<lparr>shard_at = Popping, processed = 0, handled_jobs = []\<rparr>)\<rparr>"
  have lb: "tracks (load_balancer s) = [Some 0, Some 1]" "next_track (load_balancer s) = 0"
    by (simp_all add: s_def bind_track_def round_robin_init_def numeral_2_eq_2)
  have len: "0 < length (hist i (n + 2))" if "i < 2" for i using that by (simp add: length_hist)
  have "shard_core bits n 0 [] (\<lambda>_. []) s"
    using p assms q lb len unfolding shard_core_def
    by (auto simp: s_def rr_inv_def finished_def shard_stopped_def hist_def)
  then have "shard_inv bits n s" by (rule shard_invI) (simp_all add: s_def)
  moreover have "shard_rank n s = 5 * n + 10"
    by (simp add: shard_rank_def worker_rank_def s_def finished_def shard_stopped_def length_hist) presburger
  ultimately show ?thesis using p by (intro exI [of _ s]) (simp add: shard_start_def s_def)
qed

lemma take_hist:
  assumes "i < 2"
  shows "map (job n) (take ((n + 1 - i) div 2) (hist i (n + 2))) = map int (filter (\<lambda>j. j mod 2 = i) [0..<n])"
proof -
  have "hist i (n + 2) = hist i n @ (if n mod 2 = i then [n] else [Suc n])"
    using assms by (simp add: hist_Suc) presburger
  then have "take ((n + 1 - i) div 2) (hist i (n + 2)) = hist i n"
    using length_hist [OF assms, of n] by (simp only: take_append) simp
  then show ?thesis by (simp add: job_def hist_def)
qed

lemma shard_returned:
  assumes "shard_inv bits n s" "shard_main s = Main_Returned"
  shows "processed (shard_workers s 0) = (n + 1) div 2" "processed (shard_workers s 1) = n div 2"
    "handled_jobs (shard_workers s 0) = map int (filter even [0..<n])" "handled_jobs (shard_workers s 1) = map int (filter odd [0..<n])"
    "distinct (pool_free_cells bits (shard_memory s))"
    "set (pool_free_cells bits (shard_memory s)) = {..<length (memory (shard_memory s))}"
proof -
  obtain k H C where core: "shard_core bits n k H C s" and m: "main_at n (shard_main s) k H"
      and w: "\<forall>i < 2. worker_at (shard_at (shard_workers s i)) (C i)"
      and stop: "\<forall>i < 2. shard_stopped (shard_workers s i)"
    using assms by (auto simp: shard_inv_def)
  have k: "k = n + 2" "H = []" using m assms(2) by simp_all
  have fin: "finished (shard_workers s i) = length (hist i (n + 2))" if "i < 2" for i
    using shard_coreD(10) [OF core that] stop that by blast
  have C: "C i = []" if "i < 2" for i using w stop that by (auto simp: shard_stopped_def)
  have items: "conduit_items (shard_tracks s i) = []" if "i < 2" for i
    using core_pending [OF core that] fin [OF that] k by simp
  show p: "processed (shard_workers s 0) = (n + 1) div 2" "processed (shard_workers s 1) = n div 2"
    using fin [of 0] fin [of 1] stop by (simp_all add: finished_def length_hist)
  have jobs: "handled_jobs (shard_workers s i) = map int (filter (\<lambda>j. j mod 2 = i) [0..<n])" if "i < 2" "processed (shard_workers s i) = (n + 1 - i) div 2" for i
    unfolding shard_coreD(12) [OF core that(1)] that(2) k(1) by (rule take_hist [OF that(1)])
  have par: "filter even [0..<n] = filter (\<lambda>j. j mod 2 = 0) [0..<n]" "filter odd [0..<n] = filter (\<lambda>j. j mod 2 = 1) [0..<n]"
    by (rule filter_cong; presburger)+
  show "handled_jobs (shard_workers s 0) = map int (filter even [0..<n])" unfolding par by (rule jobs) (use p(1) in simp_all)
  show "handled_jobs (shard_workers s 1) = map int (filter odd [0..<n])" unfolding par by (rule jobs) (use p(2) in simp_all)
  have led: "cell_ledger bits {0, 1} {#} (shard_memory s) (shard_tracks s)"
    using shard_coreD(3) [OF core] k C [of 0] C [of 1] by simp
  have "queued {0, 1} (shard_tracks s) = {#}" using items by (simp add: queued_def)
  from ledger_idle [OF led this]
  show "distinct (pool_free_cells bits (shard_memory s))"
    "set (pool_free_cells bits (shard_memory s)) = {..<length (memory (shard_memory s))}" by simp_all
qed

section \<open>More tasks than room\<close>

text \<open>No cell that a worker has or can get holds a stop event.\<close>

definition no_stop :: "(int \<Rightarrow> u64) \<Rightarrow> nat \<Rightarrow> nat multiset \<Rightarrow> (nat \<Rightarrow> nat list) \<Rightarrow> sharding \<Rightarrow> bool" where
  "no_stop bits R H C s \<longleftrightarrow>
     2 * R + 2 \<le> length (memory (shard_memory s)) \<and>
     cell_ledger bits {0, 1} (H + mset (C 0) + mset (C 1)) (shard_memory s) (shard_tracks s) \<and>
     rr_inv (load_balancer s) (shard_tracks s) \<and> tracks (load_balancer s) = [Some 0, Some 1] \<and>
     (\<forall>i < 2. conduit_room (shard_tracks s i) = R) \<and>
     (\<forall>x \<in># queued {0, 1} (shard_tracks s) + mset (C 0) + mset (C 1). pool_object (shard_memory s) x \<noteq> Some (- 1))"

lemma no_stopD:
  assumes "no_stop bits R H C s"
  shows "2 * R + 2 \<le> length (memory (shard_memory s))"
    "cell_ledger bits {0, 1} (H + mset (C 0) + mset (C 1)) (shard_memory s) (shard_tracks s)"
    "rr_inv (load_balancer s) (shard_tracks s)" "tracks (load_balancer s) = [Some 0, Some 1]"
    "\<And>i. i < 2 \<Longrightarrow> conduit_room (shard_tracks s i) = R"
    "\<And>x. x \<in># queued {0, 1} (shard_tracks s) + mset (C 0) + mset (C 1) \<Longrightarrow> pool_object (shard_memory s) x \<noteq> Some (- 1)"
  using assms by (auto simp: no_stop_def)

abbreviation waiting :: "sharding \<Rightarrow> nat" where
  "waiting s \<equiv> size (queued {0, 1} (shard_tracks s))"

lemma no_stop_track:
  assumes "no_stop bits R H C s" "i < 2"
  shows "length (conduit_items (shard_tracks s i)) \<le> R"
proof -
  have "conduit_inv (shard_tracks s i)" by (rule ledger_conduit [OF no_stopD(2) [OF assms(1)]]) (use assms(2) in auto)
  then show ?thesis using cq.bounded no_stopD(5) [OF assms] by metis
qed

lemma no_stop_bounded: "no_stop bits R H C s \<Longrightarrow> waiting s \<le> 2 * R"
  using no_stop_track [of bits R H C s 0] no_stop_track [of bits R H C s 1] by (simp add: size_queued)

lemma no_stop_make:
  assumes "no_stop bits R H (\<lambda>_. []) s" "size H < 2" "False \<in> set ws"
  shows "\<exists>x p. pool_make bits () ws v (shard_memory s) = Done (pool_ptr () x, p) \<and> pool_object p x = Some v \<and>
    (\<forall>m. no_stop bits R (add_mset x H) (\<lambda>_. []) (s\<lparr>shard_memory := p, shard_main := m\<rparr>))"
proof -
  note D = no_stopD [OF assms(1)]
  have "pool_free_cells bits (shard_memory s) \<noteq> []"
    using ledger_sizes [OF D(2)] D(1) no_stop_bounded [OF assms(1)] assms(2) by auto
  then obtain x p where p: "pool_make bits () ws v (shard_memory s) = Done (pool_ptr () x, p)"
      "cell_ledger bits {0, 1} (add_mset x H) p (shard_tracks s)"
      "length (memory p) = length (memory (shard_memory s))" "pool_object p = (pool_object (shard_memory s))(x \<mapsto> v)"
    using ledger_make [OF D(2) assms(3), of "()" v] by auto
  have "x \<notin># queued {0, 1} (shard_tracks s)" by (rule ledger_cell(3) [OF p(2)])
  then have "\<forall>y \<in># queued {0, 1} (shard_tracks s). pool_object p y \<noteq> Some (- 1)" using D(6) p(4) by auto
  then show ?thesis using D p by (auto simp: no_stop_def)
qed

text \<open>An event that is not a stop event is routed or kept; when the tracks are full, every event is kept.\<close>

lemma no_stop_route:
  assumes "no_stop bits R (add_mset x H) (\<lambda>_. []) s"
    and "pool_object (shard_memory s) x \<noteq> Some (- 1) \<or> waiting s = 2 * R"
  obtains (kept) "switch_on (load_balancer s) (shard_tracks s) (pool_ptr () x) =
        (load_balancer s, shard_tracks s, pool_ptr () x)" "waiting s = 2 * R"
  | (routed) lb qs ev where "switch_on (load_balancer s) (shard_tracks s) (pool_ptr () x) = (lb, qs, ev)"
      "ep_ptr ev = None" "size (queued {0, 1} qs) = Suc (waiting s)" "waiting s < 2 * R"
      "\<And>m. no_stop bits R H (\<lambda>_. []) (s\<lparr>load_balancer := lb, shard_tracks := qs, shard_main := m\<rparr>)"
proof -
  note D = no_stopD [OF assms(1)]
  have b: "bound (load_balancer s) = {0, 1}" using D(4) by auto
  have led: "cell_ledger bits {0, 1} (add_mset x H) (shard_memory s) (shard_tracks s)" using D(2) by simp
  have sub: "bound (load_balancer s) \<subseteq> {0, 1}" using b by simp
  show ?thesis
  proof (cases rule: ledger_switch [OF D(3) led sub, of "()"])
    case 1
    have "waiting s = 2 * R" using 1(2) D(5) [of 0] D(5) [of 1] unfolding b by (simp add: size_queued)
    with 1(1) show ?thesis by (rule kept)
  next
    case (2 k t q)
    have t: "t \<in> {0, 1}" using 2(2) unfolding b .
    let ?qs = "(shard_tracks s)(t := q)"
    have q: "queued {0, 1} ?qs = add_mset x (queued {0, 1} (shard_tracks s))"
      using queued_split [OF _ t, of "shard_tracks s"] queued_update [OF _ t, of "shard_tracks s" q] 2(4) by simp
    have room: "conduit_room (?qs i) = R" if "i < 2" for i using D(5) [OF that] 2(5) by auto
    have "length (conduit_items (shard_tracks s t)) < R" using 2(3) D(5) [of t] t by auto
    then have "waiting s < 2 * R"
      using t no_stop_track [OF assms(1), of 0] no_stop_track [OF assms(1), of 1] by (auto simp: size_queued)
    moreover have "pool_object (shard_memory s) x \<noteq> Some (- 1)" using assms(2) calculation by simp
    then have "\<forall>y \<in># queued {0, 1} ?qs. pool_object (shard_memory s) y \<noteq> Some (- 1)" using D(6) q by auto
    then have "no_stop bits R H (\<lambda>_. []) (s\<lparr>load_balancer := (load_balancer s)\<lparr>next_track := k\<rparr>, shard_tracks := ?qs, shard_main := m\<rparr>)" for m
      using D(1,4) 2(6,7) room by (simp add: no_stop_def)
    ultimately show ?thesis using q by (intro routed [OF 2(1)]) (simp_all add: event_ptr_release_def)
  qed
qed

lemma no_stop_drop:
  assumes "no_stop bits R (add_mset x H) (\<lambda>_. []) s" "False \<in> set ws"
  shows "\<exists>p. drop_event ws (pool_ptr () x) (shard_memory s) = Done p \<and>
    (\<forall>m. no_stop bits R H (\<lambda>_. []) (s\<lparr>shard_memory := p, shard_main := m\<rparr>))"
proof -
  note D = no_stopD [OF assms(1)]
  have led: "cell_ledger bits {0, 1} (add_mset x H) (shard_memory s) (shard_tracks s)" using D(2) by simp
  obtain p where "drop_event ws (pool_ptr () x) (shard_memory s) = Done p"
      "cell_ledger bits {0, 1} H p (shard_tracks s)" "length (memory p) = length (memory (shard_memory s))"
      "pool_object p = (pool_object (shard_memory s))(x := None)"
    using ledger_drop [OF led assms(2), of "()"] by blast
  then show ?thesis using D by (auto simp: no_stop_def)
qed

text \<open>The main thread alone, up to its next task.\<close>

lemma no_stop_task:
  assumes "no_stop bits R {#} (\<lambda>_. []) s" "shard_main s = Make_Task j" "j < n" "False \<in> set ws"
  shows "\<exists>s'. shard_run bits n ws [0, 0, 0] s = Done s' \<and> no_stop bits R {#} (\<lambda>_. []) s' \<and>
    shard_main s' = Make_Task (Suc j) \<and> waiting s' = min (Suc (waiting s)) (2 * R) \<and> shard_workers s' = shard_workers s"
proof -
  note step = shard_step_def shard_main_step_def Let_def
  obtain x p where p: "pool_make bits () ws (int j) (shard_memory s) = Done (pool_ptr () x, p)" "pool_object p x = Some (int j)"
      "no_stop bits R {#x#} (\<lambda>_. []) (s\<lparr>shard_memory := p, shard_main := Route_Task j (pool_ptr () x)\<rparr>)"
    using no_stop_make [OF assms(1) _ assms(4), of "int j"] by auto
  let ?s = "s\<lparr>shard_memory := p, shard_main := Route_Task j (pool_ptr () x)\<rparr>"
  have make: "shard_step bits n ws 0 s = Done ?s" using p(1) assms(2,3) by (simp add: step)
  have ok: "pool_object (shard_memory ?s) x \<noteq> Some (- 1) \<or> waiting ?s = 2 * R" using p(2) by simp
  show ?thesis
  proof (cases rule: no_stop_route [OF p(3) ok])
    case 1
    let ?s1 = "?s\<lparr>shard_main := Drop_Task j (pool_ptr () x)\<rparr>"
    have "no_stop bits R {#x#} (\<lambda>_. []) ?s1" using p(3) by (simp add: no_stop_def)
    from no_stop_drop [OF this assms(4)] obtain p' where p': "drop_event ws (pool_ptr () x) p = Done p'"
        "no_stop bits R {#} (\<lambda>_. []) (?s1\<lparr>shard_memory := p', shard_main := Make_Task (Suc j)\<rparr>)" by auto
    have "shard_step bits n ws 0 ?s = Done ?s1" using 1(1) by (simp add: step)
    moreover have "shard_step bits n ws 0 ?s1 = Done (?s1\<lparr>shard_memory := p', shard_main := Make_Task (Suc j)\<rparr>)"
      using p'(1) by (simp add: step)
    ultimately show ?thesis using make p'(2) 1(2) by simp
  next
    case (2 lb qs ev)
    let ?s1 = "?s\<lparr>load_balancer := lb, shard_tracks := qs, shard_main := Drop_Task j ev\<rparr>"
    have "shard_step bits n ws 0 ?s = Done ?s1" using 2(1) by (simp add: step)
    moreover have "shard_step bits n ws 0 ?s1 = Done (?s1\<lparr>shard_main := Make_Task (Suc j)\<rparr>)"
      using 2(2) by (simp add: step drop_null)
    ultimately show ?thesis using make 2(3-5) by (simp add: no_stop_def)
  qed
qed

lemma no_stop_tasks:
  assumes "no_stop bits R {#} (\<lambda>_. []) s" "shard_main s = Make_Task 0" "waiting s = 0" "j \<le> n" "False \<in> set ws"
  shows "\<exists>s'. shard_run bits n ws (replicate (3 * j) 0) s = Done s' \<and> no_stop bits R {#} (\<lambda>_. []) s' \<and>
    shard_main s' = Make_Task j \<and> waiting s' = min j (2 * R) \<and> shard_workers s' = shard_workers s"
  using assms(4)
proof (induction j)
  case 0
  then show ?case using assms by simp
next
  case (Suc j)
  then obtain s1 where s1: "shard_run bits n ws (replicate (3 * j) 0) s = Done s1" "no_stop bits R {#} (\<lambda>_. []) s1"
      "shard_main s1 = Make_Task j" "waiting s1 = min j (2 * R)" "shard_workers s1 = shard_workers s"
    by auto
  obtain s2 where s2: "shard_run bits n ws [0, 0, 0] s1 = Done s2" "no_stop bits R {#} (\<lambda>_. []) s2"
      "shard_main s2 = Make_Task (Suc j)" "waiting s2 = min (Suc (waiting s1)) (2 * R)" "shard_workers s2 = shard_workers s1"
    using no_stop_task [OF s1(2,3) _ assms(5), of n] Suc.prems by auto
  have "replicate (3 * Suc j) (0 :: nat) = replicate (3 * j) 0 @ [0, 0, 0]"
    by (simp add: replicate_app_Cons_same numeral_3_eq_3 flip: replicate_add)
  then show ?case using s1 s2 by (simp add: run_threads_append)
qed

lemma no_stop_main: "no_stop bits R H C s \<Longrightarrow> no_stop bits R H C (s\<lparr>shard_main := m\<rparr>)"
  by (simp add: no_stop_def)

text \<open>With both tracks full the two stop events stay with the main thread.\<close>

lemma no_stop_join:
  assumes "no_stop bits R {#} (\<lambda>_. []) s" "shard_main s = Make_Task n" "waiting s = 2 * R" "False \<in> set ws"
  shows "\<exists>s' H a b. shard_run bits n ws [0, 0, 0, 0, 0] s = Done s' \<and> no_stop bits R H (\<lambda>_. []) s' \<and>
    shard_main s' = Join_Workers a b \<and> shard_workers s' = shard_workers s"
proof -
  note step = shard_step_def shard_main_step_def Let_def
  let ?s0 = "s\<lparr>shard_main := Make_Stop1\<rparr>"
  have 0: "shard_step bits n ws 0 s = Done ?s0" using assms(2) by (simp add: step)
  obtain x p where p: "pool_make bits () ws (- 1) (shard_memory s) = Done (pool_ptr () x, p)"
      "\<And>m. no_stop bits R {#x#} (\<lambda>_. []) (?s0\<lparr>shard_memory := p, shard_main := m\<rparr>)"
    using no_stop_make [OF no_stop_main [OF assms(1), of Make_Stop1] _ assms(4), of "- 1"] by auto
  let ?s1 = "?s0\<lparr>shard_memory := p, shard_main := Make_Stop2 (pool_ptr () x)\<rparr>"
  have 1: "shard_step bits n ws 0 ?s0 = Done ?s1" using p(1) by (simp add: step)
  obtain y p' where p': "pool_make bits () ws (- 1) p = Done (pool_ptr () y, p')"
      "\<And>m. no_stop bits R {#y, x#} (\<lambda>_. []) (?s1\<lparr>shard_memory := p', shard_main := m\<rparr>)"
    using no_stop_make [OF p(2) [of "Make_Stop2 (pool_ptr () x)"] _ assms(4), of "- 1"] by auto
  let ?s2 = "?s1\<lparr>shard_memory := p', shard_main := Route_Stop1 (pool_ptr () x) (pool_ptr () y)\<rparr>"
  have 2: "shard_step bits n ws 0 ?s1 = Done ?s2" using p'(1) by (simp add: step)
  have full: "switch_on (load_balancer s) (shard_tracks s) (pool_ptr () z) = (load_balancer s, shard_tracks s, pool_ptr () z)"
    if "no_stop bits R (add_mset z H) (\<lambda>_. []) ?s2" for z H
    by (cases rule: no_stop_route [OF that]) (use assms(3) in simp_all)
  let ?s3 = "?s2\<lparr>shard_main := Route_Stop2 (pool_ptr () x) (pool_ptr () y)\<rparr>"
  have 3: "shard_step bits n ws 0 ?s2 = Done ?s3"
    using full [of x "{#y#}"] p'(2) by (simp add: step add_mset_commute)
  have 4: "shard_step bits n ws 0 ?s3 = Done (?s3\<lparr>shard_main := Join_Workers (pool_ptr () x) (pool_ptr () y)\<rparr>)"
    using full [of y "{#x#}"] p'(2) by (simp add: step)
  show ?thesis using 0 1 2 3 4 p'(2) by (intro exI) (auto simp: no_stop_def)
qed

text \<open>Then the workers process what is in the tracks and wait.\<close>

definition stuck :: "(int \<Rightarrow> u64) \<Rightarrow> nat \<Rightarrow> sharding \<Rightarrow> bool" where
  "stuck bits R s \<longleftrightarrow>
     (\<exists>H C. no_stop bits R H C s \<and>
        (\<forall>i < 2. worker_at (shard_at (shard_workers s i)) (C i) \<and> \<not> shard_stopped (shard_workers s i))) \<and>
     (\<exists>a b. shard_main s = Join_Workers a b)"

lemma stuckI:
  "no_stop bits R H C s \<Longrightarrow> \<forall>i < 2. worker_at (shard_at (shard_workers s i)) (C i) \<and> \<not> shard_stopped (shard_workers s i) \<Longrightarrow>
   shard_main s = Join_Workers a b \<Longrightarrow> stuck bits R s"
  by (auto simp: stuck_def)

lemma stuck_pop:
  assumes "no_stop bits R H C s" "i < 2" "C i = []"
  obtains "conduit_pop () (shard_tracks s i) = (event_ptr_default, shard_tracks s i)"
  | x q where "conduit_pop () (shard_tracks s i) = (pool_ptr () x, q)"
      "no_stop bits R H (C(i := [x])) (s\<lparr>shard_tracks := (shard_tracks s)(i := q), shard_workers := W\<rparr>)"
proof -
  note D = no_stopD [OF assms(1)]
  have i: "i \<in> {0, 1}" using assms(2) by auto
  show ?thesis
  proof (cases "conduit_items (shard_tracks s i)")
    case Nil
    have "conduit_pop () (shard_tracks s i) = (event_ptr_default, shard_tracks s i)"
      by (rule conduit_pop_nothing [OF ledger_conduit [OF D(2) i] Nil])
    then show ?thesis by (rule that(1))
  next
    case (Cons x xs)
    let ?C = "C(i := [x])" and ?M = "mset (C 0) + mset (C 1)"
    obtain q where q: "conduit_pop () (shard_tracks s i) = (pool_ptr () x, q)" "conduit_items q = xs"
        "conduit_room q = conduit_room (shard_tracks s i)"
        "cell_ledger bits {0, 1} (add_mset x (H + mset (C 0) + mset (C 1))) (shard_memory s) ((shard_tracks s)(i := q))"
      using ledger_pop [OF D(2) i Cons, of "()"] by blast
    have C: "mset (?C 0) + mset (?C 1) = add_mset x ?M" using i assms(3) by auto
    have "queued {0, 1} (shard_tracks s) = add_mset x (queued {0, 1} ((shard_tracks s)(i := q)))"
      using queued_split [OF _ i, of "shard_tracks s"] queued_update [OF _ i, of "shard_tracks s" q] Cons q(2) by simp
    then have "queued {0, 1} ((shard_tracks s)(i := q)) + mset (?C 0) + mset (?C 1) =
        queued {0, 1} (shard_tracks s) + mset (C 0) + mset (C 1)"
      using C by (simp add: add.assoc)
    moreover have "cell_ledger bits {0, 1} (H + mset (?C 0) + mset (?C 1)) (shard_memory s) ((shard_tracks s)(i := q))"
      using q(4) C by (simp add: add.assoc)
    moreover have "rr_inv (load_balancer s) ((shard_tracks s)(i := q))"
      using D(3) ledger_conduit [OF q(4) i] by (auto simp: rr_inv_def)
    moreover have "\<forall>j < 2. conduit_room (((shard_tracks s)(i := q)) j) = R" using D(5) q(3) assms(2) by simp
    ultimately have "no_stop bits R H ?C (s\<lparr>shard_tracks := (shard_tracks s)(i := q), shard_workers := W\<rparr>)"
      using D(1,4,6) unfolding no_stop_def by simp
    with q(1) show ?thesis by (rule that(2))
  qed
qed

lemma stuck_finish:
  assumes "no_stop bits R H C s" "i < 2" "C i = [x]" "False \<in> set ws"
  shows "\<exists>v p. pool_object (shard_memory s) x = Some v \<and> v \<noteq> - 1 \<and> drop_event ws (pool_ptr () x) (shard_memory s) = Done p \<and>
    (\<forall>W. no_stop bits R H (C(i := [])) (s\<lparr>shard_memory := p, shard_workers := W\<rparr>))"
proof -
  note D = no_stopD [OF assms(1)]
  let ?C = "C(i := [])"
  have i: "i \<in> {0, 1}" using assms(2) by auto
  then have C: "mset (C 0) + mset (C 1) = add_mset x (mset (?C 0) + mset (?C 1))" using assms(3) by auto
  have held: "H + mset (C 0) + mset (C 1) = add_mset x (H + mset (?C 0) + mset (?C 1))" using C by (simp add: add.assoc)
  note led = D(2) [unfolded held]
  have "x \<in># mset (C 0) + mset (C 1)" unfolding C by simp
  then have "pool_object (shard_memory s) x \<noteq> Some (- 1)" "pool_object (shard_memory s) x \<noteq> None"
    using D(6) [of x] ledger_object [OF led, of x] by auto
  then obtain v where v: "pool_object (shard_memory s) x = Some v" "v \<noteq> - 1" by auto
  obtain p where p: "drop_event ws (pool_ptr () x) (shard_memory s) = Done p"
      "cell_ledger bits {0, 1} (H + mset (?C 0) + mset (?C 1)) p (shard_tracks s)"
      "length (memory p) = length (memory (shard_memory s))" "pool_object p = (pool_object (shard_memory s))(x := None)"
    using ledger_drop [OF led assms(4), of "()"] by blast
  have "y \<in># queued {0, 1} (shard_tracks s) + mset (C 0) + mset (C 1)"
    if "y \<in># queued {0, 1} (shard_tracks s) + mset (?C 0) + mset (?C 1)" for y
    using that C by (simp add: add.assoc)
  then have "no_stop bits R H ?C (s\<lparr>shard_memory := p, shard_workers := W\<rparr>)" for W
    using D p unfolding no_stop_def by auto
  with v p(1) show ?thesis by blast
qed

lemma stuck_step:
  assumes "stuck bits R s" "False \<in> set ws"
  shows "\<exists>s'. shard_step bits n ws thread s = Done s' \<and> stuck bits R s'"
proof -
  obtain H C a b where ns: "no_stop bits R H C s" and m: "shard_main s = Join_Workers a b"
      and w: "\<And>i. i < 2 \<Longrightarrow> worker_at (shard_at (shard_workers s i)) (C i)" "\<And>i. i < 2 \<Longrightarrow> \<not> shard_stopped (shard_workers s i)"
    using assms(1) by (auto simp: stuck_def)
  have main: "shard_step bits n ws 0 s = Done s"
    using m w(2) [of 0] by (simp add: shard_step_def shard_main_step_def Let_def)
  have worker: "\<exists>s'. shard_worker_step i ws s = Done s' \<and> stuck bits R s'" if i: "i < 2" for i
  proof (cases "shard_at (shard_workers s i)")
    case Popping
    let ?W = "\<lambda>ev. (shard_workers s)(i := (shard_workers s i)\<lparr>shard_at := if event_ptr_bool ev then Working ev else Popping\<rparr>)"
    have C: "C i = []" using w(1) [OF i] Popping by simp
    have step: "shard_worker_step i ws s = (let (ev, q) = conduit_pop () (shard_tracks s i)
        in Done (s\<lparr>shard_tracks := (shard_tracks s)(i := q), shard_workers := ?W ev\<rparr>))"
      using Popping by (simp add: shard_worker_step_def)
    show ?thesis
    proof (cases rule: stuck_pop [OF ns i C, where W = "?W (pool_ptr () (the (ep_ptr (fst (conduit_pop () (shard_tracks s i))))))"])
      case 1
      let ?s = "s\<lparr>shard_workers := (shard_workers s)(i := (shard_workers s i)\<lparr>shard_at := Popping\<rparr>)\<rparr>"
      have "no_stop bits R H C ?s" using ns by (simp add: no_stop_def)
      moreover have "\<forall>j < 2. worker_at (shard_at (shard_workers ?s j)) (C j) \<and> \<not> shard_stopped (shard_workers ?s j)"
        using w C by (auto simp: shard_stopped_def)
      ultimately have "stuck bits R ?s" by (rule stuckI) (simp add: m)
      then show ?thesis using step 1 by (simp add: event_ptr_defs)
    next
      case (2 x q)
      have x: "the (ep_ptr (fst (conduit_pop () (shard_tracks s i)))) = x" using 2(1) by (simp add: event_ptr_of_def)
      let ?s = "s\<lparr>shard_tracks := (shard_tracks s)(i := q), shard_workers := ?W (pool_ptr () x)\<rparr>"
      have "\<forall>j < 2. worker_at (shard_at (shard_workers ?s j)) ((C(i := [x])) j) \<and> \<not> shard_stopped (shard_workers ?s j)"
        using w by (auto simp: event_ptr_defs shard_stopped_def)
      then have "stuck bits R ?s" by (rule stuckI [OF 2(2) [unfolded x]]) (simp add: m)
      then show ?thesis using step 2(1) by simp
    qed
  next
    case (Working ev)
    then obtain x where x: "ev = pool_ptr () x" "C i = [x]" using w(1) [OF i] by auto
    obtain v p where v: "pool_object (shard_memory s) x = Some v" "v \<noteq> - 1"
        "drop_event ws (pool_ptr () x) (shard_memory s) = Done p"
        "\<And>W. no_stop bits R H (C(i := [])) (s\<lparr>shard_memory := p, shard_workers := W\<rparr>)"
      using stuck_finish [OF ns i x(2) assms(2)] by blast
    let ?s = "s\<lparr>shard_memory := p, shard_workers := (shard_workers s)(i := after_task v (shard_workers s i))\<rparr>"
    have "shard_worker_step i ws s = Done ?s"
      using v(1,3) Working x(1) by (simp add: shard_worker_step_def event_ptr_defs after_task_def Let_def)
    moreover have "\<forall>j < 2. worker_at (shard_at (shard_workers ?s j)) ((C(i := [])) j) \<and> \<not> shard_stopped (shard_workers ?s j)"
      using w v(2) by (auto simp: after_task_def shard_stopped_def)
    then have "stuck bits R ?s" by (rule stuckI [OF v(4)]) (simp add: m)
    ultimately show ?thesis by blast
  next
    case Stopped
    then show ?thesis using w(2) [OF i] by (simp add: shard_stopped_def)
  qed
  show ?thesis
  proof (cases "thread = 0 \<or> 2 < thread")
    case True
    then show ?thesis using main assms(1) by (auto simp: shard_step_def)
  next
    case False
    then show ?thesis using worker [of "thread - 1"] by (auto simp: shard_step_def)
  qed
qed

lemma no_stop_start:
  assumes "0 < slots" "slots < 2 ^ 64" "2 * slots \<le> cells" "cells \<le> 0xFFFFFFFF"
  shows "\<exists>s. shard_start cells slots junk = Done s \<and> no_stop bits (slots - 1) {#} (\<lambda>_. []) s \<and>
    shard_main s = Make_Task 0 \<and> waiting s = 0 \<and> (\<forall>i. shard_at (shard_workers s i) = Popping)"
proof -
  let ?qs = "\<lambda>_ :: nat. conduit_init (map junk [0..<slots])"
  have q: "conduit_inv (?qs t)" "conduit_items (?qs t) = []" "conduit_room (?qs t) = slots - 1" for t
    using conduit_fresh [of "map junk [0..<slots]"] assms by simp_all
  obtain p where p: "pool_ctor cells = Done p" "cell_ledger bits {0, 1} {#} p ?qs" "length (memory p) = cells"
    using ledger_start [of cells "{0, 1}" ?qs bits] assms q by auto
  let ?lb = "bind_track 1 1 (bind_track 0 0 (round_robin_init 2))"
  have "tracks ?lb = [Some 0, Some 1]" "next_track ?lb = 0"
    by (simp_all add: bind_track_def round_robin_init_def numeral_2_eq_2)
  then show ?thesis
    using p assms q by (auto simp: shard_start_def no_stop_def rr_inv_def queued_def)
qed

section \<open>Properties\<close>

text \<open>C11: With \<open>n\<close> tasks that fit into the two tracks and the pool, the program completes under every
  fair schedule: after \<open>5 n + 10\<close> rounds, in each of which every thread has at least one turn, in any order, both workers have stopped and the
  main thread has returned, the first worker has processed the even tasks, in order, and the second the
  odd ones, and every cell is back in the pool. For \<open>03_sharding.cpp\<close> \<open>n\<close> is 2000, with 4096
  cells and 1024 slots.\<close>

theorem sharding_completes:
  assumes "n + 2 \<le> cells" "cells \<le> 0xFFFFFFFF" "n + 2 \<le> 2 * (slots - 1)" "slots < 2 ^ 64" "False \<in> set ws"
    and "\<forall>turn \<in> set turns. {0, 1, 2} \<subseteq> set turn" "5 * n + 10 \<le> length turns"
  shows "\<exists>s s'. shard_start cells slots junk = Done s \<and> shard_run bits n ws (concat turns) s = Done s' \<and>
    shard_main s' = Main_Returned \<and>
    processed (shard_workers s' 0) = (n + 1) div 2 \<and> processed (shard_workers s' 1) = n div 2 \<and>
    handled_jobs (shard_workers s' 0) = map int (filter even [0..<n]) \<and>
    handled_jobs (shard_workers s' 1) = map int (filter odd [0..<n]) \<and>
    distinct (pool_free_cells bits (shard_memory s')) \<and>
    set (pool_free_cells bits (shard_memory s')) = {..<length (memory (shard_memory s'))}"
proof -
  obtain s where s: "shard_start cells slots junk = Done s" "shard_inv bits n s" "shard_rank n s = 5 * n + 10"
    using shard_start_inv [OF assms(1-4)] by blast
  obtain s' where "shard_run bits n ws (concat turns) s = Done s'" "shard_inv bits n s'" "shard_main s' = Main_Returned"
    using fs.fair_run [OF assms(6) s(2), of ws] assms(5,7) s(3) shard_rank_returned by (auto simp: lets_succeed_def)
  with s(1) shard_returned [of bits n s'] show ?thesis by blast
qed

theorem sharding_completes_witness:
  "\<exists>s s'. shard_start 4096 1024 (\<lambda>_. None) = Done s \<and>
    shard_run (\<lambda>_. 0) 2000 [False] (concat (replicate 10010 [2, 0, 1])) s = Done s' \<and>
    shard_main s' = Main_Returned \<and> processed (shard_workers s' 0) = 1000 \<and> processed (shard_workers s' 1) = 1000"
  using sharding_completes [of 2000 4096 1024 "[False]" "replicate 10010 [2, 0, 1]" "\<lambda>_. None" "\<lambda>_. 0"] by auto

text \<open>C30: With more tasks than the two tracks hold, as in \<open>02_fan_in_polling.cpp\<close> with its 100000, the
  program may never end: if the main thread runs ahead of its workers, both stop events find
  the tracks full and are never sent. Whatever the schedule from then on, neither worker stops
  and the main thread waits in \<open>join\<close>.\<close>

theorem fan_in_never_joins:
  assumes "0 < slots" "slots < 2 ^ 64" "2 * slots \<le> cells" "cells \<le> 0xFFFFFFFF" "2 * (slots - 1) \<le> n" "False \<in> set ws"
  shows "\<exists>s s' a b. shard_start cells slots junk = Done s \<and>
    shard_run bits n ws (replicate (3 * n) 0 @ [0, 0, 0, 0, 0] @ sched) s = Done s' \<and>
    shard_main s' = Join_Workers a b \<and> \<not> shard_stopped (shard_workers s' 0) \<and> \<not> shard_stopped (shard_workers s' 1)"
proof -
  obtain s where s: "shard_start cells slots junk = Done s" "no_stop bits (slots - 1) {#} (\<lambda>_. []) s"
      "shard_main s = Make_Task 0" "waiting s = 0" "\<forall>i. shard_at (shard_workers s i) = Popping"
    using no_stop_start [OF assms(1-4)] by blast
  obtain s1 where s1: "shard_run bits n ws (replicate (3 * n) 0) s = Done s1" "no_stop bits (slots - 1) {#} (\<lambda>_. []) s1"
      "shard_main s1 = Make_Task n" "waiting s1 = 2 * (slots - 1)" "shard_workers s1 = shard_workers s"
    using no_stop_tasks [OF s(2-4) order_refl assms(6), of n] assms(5) by auto
  obtain s2 H a b where s2: "shard_run bits n ws [0, 0, 0, 0, 0] s1 = Done s2" "no_stop bits (slots - 1) H (\<lambda>_. []) s2"
      "shard_main s2 = Join_Workers a b" "shard_workers s2 = shard_workers s1"
    using no_stop_join [OF s1(2-4) assms(6)] by blast
  have "stuck bits (slots - 1) s2"
    by (rule stuckI [OF s2(2) _ s2(3)]) (simp add: s2(4) s1(5) s(5) shard_stopped_def)
  then obtain s' where s': "shard_run bits n ws sched s2 = Done s'" "stuck bits (slots - 1) s'"
    using run_threads_invariant [of "stuck bits (slots - 1)" "shard_step bits n ws" s2 sched] stuck_step [OF _ assms(6)] by blast
  have "shard_run bits n ws (replicate (3 * n) 0 @ [0, 0, 0, 0, 0] @ sched) s = Done s'"
    by (simp only: run_threads_append s1(1) s2(1) s'(1) bind_outcome.simps)
  moreover obtain a' b' where "shard_main s' = Join_Workers a' b'" "\<not> shard_stopped (shard_workers s' 0)"
      "\<not> shard_stopped (shard_workers s' 1)"
    using s'(2) by (auto simp: stuck_def)
  ultimately show ?thesis using s(1) by blast
qed

theorem fan_in_never_joins_witness:
  "\<exists>s s' a b. shard_start 4096 1024 (\<lambda>_. None) = Done s \<and>
    shard_run (\<lambda>_. 0) 100000 [False] (replicate 300000 0 @ [0, 0, 0, 0, 0] @ [1, 2, 0, 1]) s = Done s' \<and>
    shard_main s' = Join_Workers a b \<and> \<not> shard_stopped (shard_workers s' 0)"
  using fan_in_never_joins [of 1024 4096 100000 "[False]" "\<lambda>_. None" "\<lambda>_. 0" "[1, 2, 0, 1]"]
  by (auto simp del: run_threads.simps)

end
