(* ===== verification/Runtime_Domain.thy ===== *)
theory Runtime_Domain
  imports Event_Flow "HOL-Library.AList"
begin

text \<open>
  \<open>runtime_domain\<close> and \<open>trivial_serializer\<close> of \<open>include/conduit/core.hpp\<close> (layers 8 and 9). A domain
  owns one pool for each of its event types. The pools of the tuple are listed by the name of
  their event type; that name also stands for the address of the pool in the pointers it hands
  out. A call for a type the domain does not have is a \<open>Fault\<close>: the program does not compile.
\<close>

section \<open>The domain\<close>

record 'a runtime_domain =
  domain_pools :: "(string \<times> 'a pool) list"

text \<open>Each pool is built with the common size and moved into the tuple.\<close>

fun domain_tuple :: "nat \<Rightarrow> string list \<Rightarrow> (string \<times> 'a pool) list outcome" where
  "domain_tuple pool_size [] = Done []"
| "domain_tuple pool_size (e # es) =
     bind_outcome (pool_ctor pool_size) (\<lambda>p.
       map_outcome_result (\<lambda>ps. (e, fst (pool_move p)) # ps) (domain_tuple pool_size es))"

definition domain_ctor :: "nat \<Rightarrow> string list \<Rightarrow> 'a runtime_domain outcome" where
  "domain_ctor pool_size events =
     map_outcome_result (\<lambda>ps. \<lparr>domain_pools = ps\<rparr>) (domain_tuple pool_size events)"

definition get_pool :: "string \<Rightarrow> 'a runtime_domain \<Rightarrow> 'a pool option" where
  "get_pool event d = map_of (domain_pools d) event"

definition put_pool :: "string \<Rightarrow> 'a pool \<Rightarrow> 'a runtime_domain \<Rightarrow> 'a runtime_domain" where
  "put_pool event p d = d\<lparr>domain_pools := AList.update event p (domain_pools d)\<rparr>"

definition domain_make ::
  "('a \<Rightarrow> u64) \<Rightarrow> bool list \<Rightarrow> string \<Rightarrow> 'a \<Rightarrow> 'a runtime_domain \<Rightarrow> (string cell_ptr \<times> 'a runtime_domain) outcome" where
  "domain_make bits ws event v d =
     (case get_pool event d of
        None \<Rightarrow> Fault
      | Some p \<Rightarrow> map_outcome_result (\<lambda>(ev, p'). (ev, put_pool event p' d)) (pool_make bits event ws v p))"

text \<open>The deleter is called with the pool the pointer came from.\<close>

definition domain_release :: "bool list \<Rightarrow> (nat, deleter, string) deleter_call \<Rightarrow> 'a runtime_domain \<Rightarrow> 'a runtime_domain outcome" where
  "domain_release ws call d =
     (case fst (snd call) of
        None \<Rightarrow> Fault
      | Some event \<Rightarrow>
          (case get_pool event d of
             None \<Rightarrow> Fault
           | Some p \<Rightarrow> map_outcome_result (\<lambda>p'. put_pool event p' d) (release_to_pool ws call p)))"

section \<open>The serializer\<close>

text \<open>A trivially copyable event is its object representation. \<open>encode\<close> shows the bytes of the event
  where they are; \<open>decode\<close> copies \<open>sizeof(Event)\<close> bytes, and reads past a shorter buffer.\<close>

type_synonym pod = "u8 list"

definition encode :: "pod \<Rightarrow> u8 list \<times> nat" where
  "encode ev = (ev, length ev)"

definition decode :: "u8 list \<Rightarrow> pod \<Rightarrow> pod outcome" where
  "decode data out = (if length data < length out then Fault else Done (take (length out) data))"

lemma decode_encode: "length out = length ev \<Longrightarrow> decode (fst (encode ev) @ rest) out = Done ev"
  by (simp add: encode_def decode_def)

lemma decode_short: "length data < length out \<Longrightarrow> decode data out = Fault"
  by (simp add: decode_def)

section \<open>Programs over a domain\<close>

datatype 'a domain_op = Make_Event string 'a | Destroy nat

text \<open>A program holds the pointers it made; the destructor of the \<open>k\<close>-th calls its deleter.\<close>

fun domain_run ::
  "('a \<Rightarrow> u64) \<Rightarrow> bool list \<Rightarrow> 'a domain_op list \<Rightarrow> string cell_ptr list \<Rightarrow> 'a runtime_domain \<Rightarrow>
   (string cell_ptr list \<times> 'a runtime_domain) outcome" where
  "domain_run bits ws [] held d = Done (held, d)"
| "domain_run bits ws (Make_Event event v # ops) held d =
     bind_outcome (domain_make bits ws event v d)
       (\<lambda>(ev, d'). domain_run bits ws ops (if event_ptr_bool ev then ev # held else held) d')"
| "domain_run bits ws (Destroy k # ops) held d =
     (if k < length held then
        bind_outcome (fold (\<lambda>call r. bind_outcome r (domain_release ws call)) (event_ptr_dtor (held ! k)) (Done d))
          (domain_run bits ws ops (take k held @ drop (Suc k) held))
      else domain_run bits ws ops held d)"

section \<open>Every pool holds its own events\<close>

definition cells_of :: "string \<Rightarrow> string cell_ptr list \<Rightarrow> nat list" where
  "cells_of event held = map (\<lambda>ev. the (ep_ptr ev)) (filter (\<lambda>ev. ep_pool_ctx ev = Some event) held)"

definition pool_typed :: "('a \<Rightarrow> u64) \<Rightarrow> ('a \<Rightarrow> string) \<Rightarrow> string \<Rightarrow> nat list \<Rightarrow> 'a pool \<Rightarrow> bool" where
  "pool_typed bits type_of event hs p \<longleftrightarrow>
     pl.consistent bits hs p \<and> (\<forall>v \<in> ran (pool_object p). type_of v = event)"

definition into_pool :: "'a runtime_domain \<Rightarrow> string cell_ptr \<Rightarrow> bool" where
  "into_pool d ev \<longleftrightarrow> (\<exists>event x. ev = pool_ptr event x \<and> get_pool event d \<noteq> None)"

definition domain_inv :: "('a \<Rightarrow> u64) \<Rightarrow> ('a \<Rightarrow> string) \<Rightarrow> string cell_ptr list \<Rightarrow> 'a runtime_domain \<Rightarrow> bool" where
  "domain_inv bits type_of held d \<longleftrightarrow>
     (\<forall>event p. get_pool event d = Some p \<longrightarrow> pool_typed bits type_of event (cells_of event held) p) \<and>
     (\<forall>ev \<in> set held. into_pool d ev)"

lemma get_put_pool [simp]: "get_pool e (put_pool event p d) = (if e = event then Some p else get_pool e d)"
  by (simp add: get_pool_def put_pool_def update_conv')

lemma cells_of_Cons [simp]: "cells_of e (pool_ptr event x # held) = (if e = event then x # cells_of e held else cells_of e held)"
  by (simp add: cells_of_def event_ptr_of_def)

lemma cells_of_append [simp]: "cells_of e (xs @ ys) = cells_of e xs @ cells_of e ys"
  by (simp add: cells_of_def)

lemma in_cells_of: "pool_ptr event x \<in> set held \<Longrightarrow> x \<in> set (cells_of event held)"
  by (force simp: cells_of_def event_ptr_of_def)

lemma cells_of_distinct:
  "\<forall>ev \<in> set held. into_pool d ev \<Longrightarrow> \<forall>e. distinct (cells_of e held) \<Longrightarrow> distinct held"
proof (induction held)
  case (Cons ev held)
  obtain event x where ev: "ev = pool_ptr event x" using Cons.prems(1) by (auto simp: into_pool_def)
  have "distinct (cells_of e held)" for e
    using Cons.prems(2) [rule_format, of e] ev by (simp split: if_splits)
  moreover have "ev \<notin> set held"
    using Cons.prems(2) [rule_format, of event] in_cells_of [of x event held] ev by auto
  ultimately show ?case using Cons by simp
qed simp

lemma domain_inv_put:
  assumes "domain_inv bits type_of held d" "pool_typed bits type_of event (cells_of event held') p'"
    and "\<And>e. e \<noteq> event \<Longrightarrow> cells_of e held' = cells_of e held" "set held' \<subseteq> insert (pool_ptr event x) (set held)"
  shows "domain_inv bits type_of held' (put_pool event p' d)"
proof -
  have "into_pool (put_pool event p' d) ev" if "into_pool d ev" for ev using that by (auto simp: into_pool_def)
  moreover have "into_pool (put_pool event p' d) (pool_ptr event x)" by (auto simp: into_pool_def)
  ultimately have "\<forall>ev \<in> set held'. into_pool (put_pool event p' d) ev"
    using assms(1,4) by (auto simp: domain_inv_def)
  moreover have "pool_typed bits type_of e (cells_of e held') p" if "get_pool e (put_pool event p' d) = Some p" for e p
    using that assms by (cases "e = event") (auto simp: domain_inv_def)
  ultimately show ?thesis by (auto simp: domain_inv_def)
qed

lemma fst_pool_move [simp]: "fst (pool_move p) = p"
  by (cases p) (simp add: pool_move_def)

lemma domain_tuple_pools:
  assumes "0 < n" "n \<le> 0xFFFFFFFF"
  shows "\<exists>ps. domain_tuple n es = Done ps \<and> map fst ps = es \<and>
    (\<forall>p \<in> snd ` set ps. pool_inv bits p \<and> set (pool_free_cells bits p) = {..<length (memory p)})"
proof (induction es)
  case (Cons e es)
  obtain p :: "'a pool" where "pool_ctor n = Done p" "pool_inv bits p" "pool_free_cells bits p = [0..<n]" "length (memory p) = n"
    using pool_ctor_inv [OF assms, of bits] by blast
  then show ?case using Cons by auto
qed simp

lemma domain_ctor_inv:
  assumes "0 < n" "n \<le> 0xFFFFFFFF"
  shows "\<exists>d. domain_ctor n events = Done d \<and> domain_inv bits type_of [] d \<and> (\<forall>e. get_pool e d \<noteq> None \<longleftrightarrow> e \<in> set events)"
proof -
  obtain ps where ps: "domain_tuple n events = Done ps" "map fst ps = events"
      "\<forall>p \<in> snd ` set ps. pool_inv bits p \<and> set (pool_free_cells bits p) = {..<length (memory p)}"
    using domain_tuple_pools [OF assms, of events bits] by blast
  have "pool_typed bits type_of e [] p" if "map_of ps e = Some p" for e p
  proof -
    have p: "pool_inv bits p" "set (pool_free_cells bits p) = {..<length (memory p)}"
      using ps(3) map_of_SomeD [OF that] by force+
    then have "pool_object p = Map.empty" using pl.object_dom [OF p(1)] by simp
    then show ?thesis using pl.consistent_fresh [OF p] by (simp add: pool_typed_def)
  qed
  moreover have "map_of ps e \<noteq> None \<longleftrightarrow> e \<in> set events" for e
    using ps(2) by (metis map_of_eq_None_iff set_map)
  ultimately show ?thesis
    using ps(1) by (auto simp: domain_ctor_def domain_inv_def get_pool_def cells_of_def)
qed

text \<open>Making an event: the new object is of the type of its pool.\<close>

lemma domain_make_inv:
  assumes "domain_inv bits type_of held d" "get_pool event d \<noteq> None" "type_of v = event" "False \<in> set ws"
  shows "\<exists>ev d'. domain_make bits ws event v d = Done (ev, d') \<and>
    domain_inv bits type_of (if event_ptr_bool ev then ev # held else held) d' \<and>
    (\<forall>e. get_pool e d' = None \<longleftrightarrow> get_pool e d = None)"
proof -
  obtain p where p: "get_pool event d = Some p" using assms(2) by auto
  then have typed: "pl.consistent bits (cells_of event held) p" "\<forall>u \<in> ran (pool_object p). type_of u = event"
    using assms(1) by (auto simp: domain_inv_def pool_typed_def)
  have inv: "pool_inv bits p" using typed(1) by (simp add: pl.consistent_def)
  show ?thesis
  proof (cases "pool_free_cells bits p")
    case Nil
    have "pool_make bits event ws v p = Done (event_ptr_default, p)" by (rule pool_make_none [OF inv assms(4) Nil])
    moreover have "get_pool e (put_pool event p d) = get_pool e d" for e using p by simp
    ultimately show ?thesis
      using assms(1) p by (simp add: domain_make_def domain_inv_def into_pool_def event_ptr_defs)
  next
    case (Cons x xs)
    obtain p' where p': "make_cell bits ws v p = Done (Some x, p')" "pool_object p' = (pool_object p)(x \<mapsto> v)"
      using pl.alloc_some [OF inv Cons assms(4)] by blast
    have "pl.consistent bits (x # cells_of event held) p'"
      using pl.consistent_alloc [OF typed(1) assms(4), of v] p'(1) by simp
    moreover have "\<forall>u \<in> ran (pool_object p'). type_of u = event"
      using typed(2) assms(3) p'(2) by (auto simp: ran_def)
    ultimately have "domain_inv bits type_of (pool_ptr event x # held) (put_pool event p' d)"
      by (intro domain_inv_put [OF assms(1), where x = x]) (auto simp: pool_typed_def)
    then show ?thesis
      using p p'(1) by (auto simp: domain_make_def pool_make_def event_ptr_defs)
  qed
qed

lemma domain_destroy_inv:
  assumes "domain_inv bits type_of held d" "k < length held" "False \<in> set ws"
  shows "\<exists>d'. fold (\<lambda>call r. bind_outcome r (domain_release ws call)) (event_ptr_dtor (held ! k)) (Done d) = Done d' \<and>
    domain_inv bits type_of (take k held @ drop (Suc k) held) d' \<and> (\<forall>e. get_pool e d' = None \<longleftrightarrow> get_pool e d = None)"
proof -
  obtain event x p where ev: "held ! k = pool_ptr event x" and p: "get_pool event d = Some p"
    using assms(1) nth_mem [OF assms(2)] by (auto simp: domain_inv_def into_pool_def)
  let ?a = "take k held" and ?b = "drop (Suc k) held"
  have held: "held = ?a @ pool_ptr event x # ?b" using id_take_nth_drop [OF assms(2)] ev by simp
  have cells: "cells_of e held = cells_of e ?a @ (if e = event then [x] else []) @ cells_of e ?b" for e
    by (subst held) simp
  let ?hs = "cells_of event held" and ?j = "length (cells_of event ?a)"
  have typed: "pl.consistent bits ?hs p" "\<forall>u \<in> ran (pool_object p). type_of u = event"
    using assms(1) p by (auto simp: domain_inv_def pool_typed_def)
  have inv: "pool_inv bits p" and x: "x < length (memory p)" "x \<notin> set (pool_free_cells bits p)"
    using typed(1) cells [of event] by (auto simp: pl.consistent_def)
  obtain p' where p': "pool_free ws (Some x) p = Done p'" "pool_object p' = (pool_object p)(x := None)"
    using pl.dealloc_some [OF inv x assms(3)] by blast
  have "?j < length ?hs" "?hs ! ?j = x" "take ?j ?hs @ drop (Suc ?j) ?hs = cells_of event (?a @ ?b)"
    using cells [of event] by simp_all
  then have "pl.consistent bits (cells_of event (?a @ ?b)) p'"
    using pl.consistent_dealloc [OF typed(1) _ assms(3), of ?j] p'(1) by auto
  moreover have "\<forall>u \<in> ran (pool_object p'). type_of u = event"
    using typed(2) p'(2) by (auto simp: ran_def split: if_splits)
  ultimately have "domain_inv bits type_of (?a @ ?b) (put_pool event p' d)"
    using cells by (intro domain_inv_put [OF assms(1), where x = x]) (auto simp: pool_typed_def dest: in_set_takeD in_set_dropD)
  then show ?thesis
    using p p'(1) ev by (auto simp: event_ptr_defs domain_release_def release_to_pool_def)
qed

definition op_typed :: "('a \<Rightarrow> string) \<Rightarrow> string set \<Rightarrow> 'a domain_op \<Rightarrow> bool" where
  "op_typed type_of events op = (case op of Make_Event event v \<Rightarrow> event \<in> events \<and> type_of v = event | Destroy _ \<Rightarrow> True)"

lemma domain_run_inv:
  assumes "False \<in> set ws"
  shows "domain_inv bits type_of held d \<Longrightarrow> list_all (op_typed type_of {e. get_pool e d \<noteq> None}) ops \<Longrightarrow>
    \<exists>held' d'. domain_run bits ws ops held d = Done (held', d') \<and> domain_inv bits type_of held' d'"
proof (induction ops arbitrary: held d)
  case (Cons op ops)
  show ?case
  proof (cases op)
    case (Make_Event event v)
    then obtain ev d' where "domain_make bits ws event v d = Done (ev, d')"
        "domain_inv bits type_of (if event_ptr_bool ev then ev # held else held) d'"
        "\<forall>e. get_pool e d' = None \<longleftrightarrow> get_pool e d = None"
      using domain_make_inv [OF Cons.prems(1) _ _ assms, of event v] Cons.prems(2) by (auto simp: op_typed_def)
    then show ?thesis using Cons.IH [of _ d'] Cons.prems(2) Make_Event by auto
  next
    case (Destroy k)
    show ?thesis
    proof (cases "k < length held")
      case True
      then obtain d' where "fold (\<lambda>call r. bind_outcome r (domain_release ws call)) (event_ptr_dtor (held ! k)) (Done d) = Done d'"
          "domain_inv bits type_of (take k held @ drop (Suc k) held) d'" "\<forall>e. get_pool e d' = None \<longleftrightarrow> get_pool e d = None"
        using domain_destroy_inv [OF Cons.prems(1) _ assms] by blast
      then show ?thesis using Cons.IH [of _ d'] Cons.prems(2) Destroy True by auto
    next
      case False
      then show ?thesis using Cons Destroy by auto
    qed
  qed
qed simp

section \<open>Properties\<close>

text \<open>C18: Type safety of a domain: whatever sequence of well-typed \<open>make\<close> calls and destructions a program
  performs on a new domain, no access leaves a pool, and at the end every pointer it still holds
  points into the pool of its own event type, at an object of that type, and no two pointers
  share a cell.\<close>

theorem domain_type_safe:
  assumes "0 < n" "n \<le> 0xFFFFFFFF" "False \<in> set ws" "list_all (op_typed type_of (set events)) ops"
  shows "\<exists>d held d'. domain_ctor n events = Done d \<and> domain_run bits ws ops [] d = Done (held, d') \<and> distinct held \<and>
    (\<forall>ev \<in> set held. \<exists>event x p v. ev = pool_ptr event x \<and> get_pool event d' = Some p \<and>
       pool_object p x = Some v \<and> type_of v = event)"
proof -
  obtain d where d: "domain_ctor n events = Done d" "domain_inv bits type_of [] d" "\<forall>e. get_pool e d \<noteq> None \<longleftrightarrow> e \<in> set events"
    using domain_ctor_inv [OF assms(1,2)] by blast
  then have "{e. get_pool e d \<noteq> None} = set events" by blast
  then obtain held d' where run: "domain_run bits ws ops [] d = Done (held, d')" and inv: "domain_inv bits type_of held d'"
    using domain_run_inv [OF assms(3) d(2), of ops] assms(4) by auto
  have "\<exists>event x p v. ev = pool_ptr event x \<and> get_pool event d' = Some p \<and> pool_object p x = Some v \<and> type_of v = event"
    if ev: "ev \<in> set held" for ev
  proof -
    obtain event x p where e: "ev = pool_ptr event x" "get_pool event d' = Some p"
      using inv ev by (auto simp: domain_inv_def into_pool_def)
    then have t: "pool_typed bits type_of event (cells_of event held) p" using inv by (simp add: domain_inv_def)
    have "x \<in> set (cells_of event held)" using ev e(1) in_cells_of by simp
    then have "x \<in> dom (pool_object p)" using t pl.object_dom [of bits p] by (auto simp: pool_typed_def pl.consistent_def)
    then obtain v where v: "pool_object p x = Some v" by auto
    then have "type_of v = event" using t by (auto simp: pool_typed_def ran_def)
    with v e show ?thesis by blast
  qed
  moreover have "distinct held"
  proof (rule cells_of_distinct)
    show "\<forall>ev \<in> set held. into_pool d' ev" using inv by (simp add: domain_inv_def)
    show "\<forall>e. distinct (cells_of e held)"
    proof
      fix e
      show "distinct (cells_of e held)"
      proof (cases "get_pool e d'")
        case None
        then have "filter (\<lambda>ev. ep_pool_ctx ev = Some e) held = []"
          using inv by (auto simp: domain_inv_def into_pool_def filter_empty_conv event_ptr_of_def)
        then show ?thesis by (simp add: cells_of_def)
      next
        case (Some p)
        then show ?thesis using inv by (simp add: domain_inv_def pool_typed_def pl.consistent_def)
      qed
    qed
  qed
  ultimately show ?thesis using d(1) run by blast
qed

theorem domain_type_safe_witness:
  "\<exists>d held d'. domain_ctor 1024 [''order'', ''quote''] = Done d \<and>
    domain_run (\<lambda>_. 0) [False] [Make_Event ''order'' (''order'', 1), Make_Event ''quote'' (''quote'', 2), Destroy 1,
      Make_Event ''quote'' (''quote'', 3 :: nat)] [] d = Done (held, d') \<and>
    distinct held \<and> (\<forall>ev \<in> set held. \<exists>event x p v. ev = pool_ptr event x \<and> get_pool event d' = Some p \<and>
       pool_object p x = Some v \<and> fst v = event)"
  using domain_type_safe [of 1024 "[False]" fst "[''order'', ''quote'']"
      "[Make_Event ''order'' (''order'', 1), Make_Event ''quote'' (''quote'', 2), Destroy 1,
        Make_Event ''quote'' (''quote'', 3 :: nat)]" "\<lambda>_. 0"]
  by (simp add: op_typed_def)

end
