(* ===== verification/Stage_Pipeline.thy ===== *)
theory Stage_Pipeline
  imports Pipeline Event_Flow Console
begin

text \<open>
  Programs that send events from a pool through a pipeline of stages, as the examples under
  \<open>examples/01_core_patterns\<close>, \<open>03_resilience_and_control\<close> and \<open>04_showcase\<close> do. A stage is a handler
  with one \<open>on\<close> overload, for the event or one of its bases, that reads and may write the
  event it is given and leaves the pointer alone. The shop is what the program owns: the pool,
  and the state of the handlers with the lines they print. Dispatching is shown equal to
  running the stages one after another on the value of the event, and to leave the pool as it was.
\<close>

section \<open>Stages\<close>

record ('a, 'u) shop =
  shop_pool :: "'a pool"
  shop_state :: 'u

datatype ('a, 'u) overload =
    Bool_On "'a \<Rightarrow> 'u \<Rightarrow> bool \<times> 'a \<times> 'u"
  | Void_On "'a \<Rightarrow> 'u \<Rightarrow> 'a \<times> 'u"

type_synonym ('a, 'u) stage = "string \<times> ('a, 'u) overload"

definition write_event :: "nat \<Rightarrow> 'a \<Rightarrow> 'a pool \<Rightarrow> 'a pool" where
  "write_event x v p = p\<lparr>memory := (memory p)[x := Data v]\<rparr>"

definition shop_put :: "nat \<Rightarrow> 'a \<times> 'u \<Rightarrow> ('a, 'u) shop \<Rightarrow> ('a, 'u) shop" where
  "shop_put x r s = \<lparr>shop_pool = write_event x (fst r) (shop_pool s), shop_state = snd r\<rparr>"

definition event_at :: "(nat, 'd, 'c) event_ptr \<Rightarrow> ('a, 'u) shop \<Rightarrow> 'a" where
  "event_at ev s = the (pool_object (shop_pool s) (the (event_ptr_get ev)))"

definition on_overload :: "('a, 'u) overload \<Rightarrow> (nat, deleter, 'c, ('a, 'u) shop) on" where
  "on_overload ov =
     (case ov of
        Bool_On f \<Rightarrow> On_Bool (\<lambda>ev w.
          let s = world_user w; (r, v, u) = f (event_at ev s) (shop_state s)
          in (r, ev, w\<lparr>world_user := shop_put (the (event_ptr_get ev)) (v, u) s\<rparr>))
      | Void_On f \<Rightarrow> On_Void (\<lambda>ev w.
          let s = world_user w
          in (ev, w\<lparr>world_user := shop_put (the (event_ptr_get ev)) (f (event_at ev s) (shop_state s)) s\<rparr>)))"

definition stage_handler :: "('a, 'u) stage \<Rightarrow> (nat, deleter, 'c, ('a, 'u) shop) handler" where
  "stage_handler st = (\<lambda>n. if n = fst st then Some (on_overload (snd st)) else None)"

section \<open>Programs\<close>

text \<open>\<open>pipe.dispatch(memory.make(v))\<close>: the event is a temporary and is destroyed by \<open>dispatch\<close>.\<close>

definition dispatch_made ::
  "('a \<Rightarrow> u64) \<Rightarrow> bool list \<Rightarrow> ('a, 'u) stage list \<Rightarrow> event_type \<Rightarrow> 'a \<Rightarrow> ('a, 'u) shop \<Rightarrow> ('a, 'u) shop outcome" where
  "dispatch_made bits ws stages t v s =
     bind_outcome (pool_make bits () ws v (shop_pool s)) (\<lambda>(ev, p).
       let (_, w) = dispatch_rvalue (map stage_handler stages) t ev \<lparr>world_calls = [], world_user = s\<lparr>shop_pool := p\<rparr>\<rparr>
       in map_outcome_result (\<lambda>p'. (world_user w)\<lparr>shop_pool := p'\<rparr>)
            (fold (\<lambda>call r. bind_outcome r (release_to_pool ws call)) (world_calls w) (Done (shop_pool (world_user w)))))"

text \<open>A program is a list of events, each with what \<open>main\<close> does before it makes the event.\<close>

type_synonym ('a, 'u) scenario = "(('u \<Rightarrow> 'u) \<times> 'a) list"

fun dispatch_all ::
  "('a \<Rightarrow> u64) \<Rightarrow> bool list \<Rightarrow> ('a, 'u) stage list \<Rightarrow> event_type \<Rightarrow> ('a, 'u) scenario \<Rightarrow> ('a, 'u) shop \<Rightarrow> ('a, 'u) shop outcome" where
  "dispatch_all bits ws stages t [] s = Done s"
| "dispatch_all bits ws stages t ((pre, v) # vs) s =
     bind_outcome (dispatch_made bits ws stages t v (s\<lparr>shop_state := pre (shop_state s)\<rparr>)) (dispatch_all bits ws stages t vs)"

text \<open>\<open>auto ev = memory.make(v); pipe.dispatch(ev);\<close> the event lives to the end of the block, so it is
  destroyed after those that follow it.\<close>

fun dispatch_scoped ::
  "('a \<Rightarrow> u64) \<Rightarrow> bool list \<Rightarrow> ('a, 'u) stage list \<Rightarrow> event_type \<Rightarrow> ('a, 'u) scenario \<Rightarrow> ('a, 'u) shop \<Rightarrow> ('a, 'u) shop outcome" where
  "dispatch_scoped bits ws stages t [] s = Done s"
| "dispatch_scoped bits ws stages t ((pre, v) # vs) s =
     bind_outcome (pool_make bits () ws v (shop_pool s)) (\<lambda>(ev, p).
       let (ev', w) = dispatch (map stage_handler stages) t ev
             \<lparr>world_calls = [], world_user = \<lparr>shop_pool = p, shop_state = pre (shop_state s)\<rparr>\<rparr>
       in bind_outcome (dispatch_scoped bits ws stages t vs (world_user w)) (\<lambda>s'.
            map_outcome_result (\<lambda>p'. s'\<lparr>shop_pool := p'\<rparr>) (drop_event ws ev' (shop_pool s'))))"

definition open_shop :: "nat \<Rightarrow> 'u \<Rightarrow> ('a, 'u) shop outcome" where
  "open_shop cells u = map_outcome_result (\<lambda>p. \<lparr>shop_pool = p, shop_state = u\<rparr>) (pool_ctor cells)"

section \<open>The stages as a function of the event\<close>

fun run_stage :: "('a, 'u) overload \<Rightarrow> 'a \<Rightarrow> 'u \<Rightarrow> bool \<times> 'a \<times> 'u" where
  "run_stage (Bool_On f) v u = f v u"
| "run_stage (Void_On f) v u = (True, f v u)"

fun run_stages :: "('a, 'u) overload list \<Rightarrow> 'a \<Rightarrow> 'u \<Rightarrow> 'a \<times> 'u" where
  "run_stages [] v u = (v, u)"
| "run_stages (ov # ovs) v u = (let (r, v', u') = run_stage ov v u in if r then run_stages ovs v' u' else (v', u'))"

lemma write_event_object:
  "x < length (memory p) \<Longrightarrow> pool_object (write_event x v p) = (pool_object p)(x \<mapsto> v)"
  by (rule ext) (simp add: write_event_def pool_object_def)

lemma write_event_inv:
  assumes "pool_inv bits p" "pool_object p x \<noteq> None"
  shows "pool_inv bits (write_event x v p) \<and> pool_free_cells bits (write_event x v p) = pool_free_cells bits p"
proof (rule pool_invI)
  have x: "x < length (memory p)" using assms(2) by (simp add: pool_object_def split: if_splits)
  then have nf: "x \<notin> set (pool_free_cells bits p)" using pool_invD(3) [OF assms(1) x] assms(2) by simp
  show "length (memory (write_event x v p)) \<le> 0xFFFFFFFF" using pool_invD(2) [OF assms(1)] by (simp add: write_event_def)
  have "pool_next bits (write_event x v p) y = pool_next bits p y" if "y \<in> set (pool_free_cells bits p)" for y
    using that nf by (cases "y = x") (simp_all add: write_event_def pool_next_def)
  then show "chain (pool_next bits (write_event x v p)) (length (memory (write_event x v p)))
      (head_idx (free_head (write_event x v p))) (pool_free_cells bits p)"
    using iffD1 [OF chain_cong pool_invD(1) [OF assms(1)], of "pool_next bits (write_event x v p)"]
    by (simp add: write_event_def)
  show "i \<in> set (pool_free_cells bits p) \<longleftrightarrow> pool_object (write_event x v p) i = None"
    if "i < length (memory (write_event x v p))" for i
    using that pool_invD(3) [OF assms(1), of i] write_event_object [OF x, of v] assms(2) by (auto simp: write_event_def)
qed

text \<open>A stage is called once, on the event or on a view of it, and the pointer stays.\<close>

lemma stage_call:
  assumes "pool_object (shop_pool (world_user w)) x = Some v"
  shows "call_as (stage_handler (n, ov)) e n (pool_ptr c x) w =
    (let (r, v', u') = run_stage ov v (shop_state (world_user w))
     in (r, pool_ptr c x, w\<lparr>world_user := shop_put x (v', u') (world_user w)\<rparr>))"
proof -
  have "event_at (pool_ptr c x) (world_user w) = v" "event_at (event_ptr_view (pool_ptr c x)) (world_user w) = v"
    using assms by (simp_all add: event_at_def event_ptr_defs)
  then show ?thesis
    by (cases ov) (simp_all add: call_as_def call_on_if_exists_def stage_handler_def on_overload_def Let_def
        event_ptr_defs split: prod.splits)
qed

lemma idle_call: "n \<noteq> m \<Longrightarrow> call_as (stage_handler (n, ov)) e m (pool_ptr c x) w = (True, pool_ptr c x, w)"
  by (simp add: call_as_def call_on_if_exists_def stage_handler_def event_ptr_defs)

lemma pool_ptr_bool: "event_ptr_bool (pool_ptr c x)"
  by (simp add: event_ptr_bool_def event_ptr_of_def)

lemma idle_calls: "n \<notin> set ns \<Longrightarrow> run_calls e (map (Pair (stage_handler (n, ov))) ns) (pool_ptr c x) w = (True, pool_ptr c x, w)"
  by (induction ns) (auto simp: idle_call pool_ptr_bool)

lemma run_calls_stage:
  assumes "pool_object (shop_pool (world_user w)) x = Some v" "distinct ns" "n \<in> set ns"
  shows "run_calls e (map (Pair (stage_handler (n, ov))) ns) (pool_ptr c x) w =
    (let (r, v', u') = run_stage ov v (shop_state (world_user w))
     in (r, pool_ptr c x, w\<lparr>world_user := shop_put x (v', u') (world_user w)\<rparr>))"
proof -
  obtain as bs where ns: "ns = as @ n # bs" "n \<notin> set as" "n \<notin> set bs"
    using assms(2,3) by (metis distinct.simps(2) distinct_append split_list not_distinct_conv_prefix)
  show ?thesis
    unfolding ns(1) by (simp add: run_calls_append idle_calls ns(2,3) stage_call [OF assms(1)] pool_ptr_bool Let_def split: prod.splits)
qed

definition stages_for :: "event_type \<Rightarrow> ('a, 'u) stage list \<Rightarrow> bool" where
  "stages_for t stages \<longleftrightarrow> distinct (call_order t) \<and> fst ` set stages \<subseteq> set (call_order t)"

lemma shop_put_twice: "shop_put x r (shop_put x q s) = shop_put x r s"
  by (simp add: shop_put_def write_event_def)

lemma shop_put_same: "pool_object (shop_pool s) x = Some v \<Longrightarrow> shop_put x (v, shop_state s) s = s"
  by (cases s) (auto simp: shop_put_def write_event_def pool_object_def list_update_same_conv
      split: if_splits cell.splits)

lemma shop_put_object:
  "pool_object (shop_pool s) x \<noteq> None \<Longrightarrow> pool_object (shop_pool (shop_put x r s)) = (pool_object (shop_pool s))(x \<mapsto> fst r)"
  by (simp add: shop_put_def write_event_object pool_object_def split: if_splits)

lemma run_calls_stages:
  assumes "stages_for t stages" "pool_object (shop_pool (world_user w)) x = Some v"
  shows "snd (run_calls e (pipeline_calls (map stage_handler stages) t) (pool_ptr c x) w) =
    (pool_ptr c x, w\<lparr>world_user := shop_put x (run_stages (map snd stages) v (shop_state (world_user w))) (world_user w)\<rparr>)"
  using assms
proof (induction stages arbitrary: v w)
  case Nil
  then show ?case by (simp add: pipeline_calls_def shop_put_same)
next
  case (Cons st stages)
  obtain n ov where st: "st = (n, ov)" by (cases st)
  obtain r v' u' where r: "run_stage ov v (shop_state (world_user w)) = (r, v', u')"
    by (cases "run_stage ov v (shop_state (world_user w))")
  let ?w = "w\<lparr>world_user := shop_put x (v', u') (world_user w)\<rparr>"
  have call: "run_calls e (map (Pair (stage_handler st)) (call_order t)) (pool_ptr c x) w = (r, pool_ptr c x, ?w)"
    using Cons.prems by (simp add: st run_calls_stage stages_for_def r)
  have "stages_for t stages" "pool_object (shop_pool (world_user ?w)) x = Some v'"
    using Cons.prems by (simp_all add: stages_for_def shop_put_object)
  from Cons.IH [OF this] have rest: "snd (run_calls e (pipeline_calls (map stage_handler stages) t) (pool_ptr c x) ?w) =
      (pool_ptr c x, w\<lparr>world_user := shop_put x (run_stages (map snd stages) v' u') (world_user w)\<rparr>)"
    by (simp add: shop_put_twice) (simp add: shop_put_def)
  have split: "pipeline_calls (map stage_handler (st # stages)) t =
      map (Pair (stage_handler st)) (call_order t) @ pipeline_calls (map stage_handler stages) t"
    by (simp add: pipeline_calls_def)
  show ?case unfolding split run_calls_append call using rest by (simp add: st r)
qed

lemma dispatch_stages:
  assumes "stages_for t stages" "pool_object (shop_pool s) x = Some v"
  shows "dispatch (map stage_handler stages) t (pool_ptr c x) \<lparr>world_calls = cs, world_user = s\<rparr> =
    (pool_ptr c x, \<lparr>world_calls = cs, world_user = shop_put x (run_stages (map snd stages) v (shop_state s)) s\<rparr>)"
  using run_calls_stages [OF assms(1), of "\<lparr>world_calls = cs, world_user = s\<rparr>"] assms(2)
  by (simp add: dispatch_def dispatch_fold_run_calls pool_ptr_bool)

section \<open>What a program computes\<close>

text \<open>The state after the stages saw the events, when there are cells for the first \<open>k\<close> of them.\<close>

fun staged :: "('a, 'u) overload list \<Rightarrow> nat \<Rightarrow> ('a, 'u) scenario \<Rightarrow> 'u \<Rightarrow> 'u" where
  "staged ovs k [] u = u"
| "staged ovs 0 ((pre, v) # vs) u = staged ovs 0 vs (pre u)"
| "staged ovs (Suc k) ((pre, v) # vs) u = staged ovs k vs (snd (run_stages ovs v (pre u)))"

lemma staged_numeral [simp]:
  "staged ovs (numeral n) ((pre, v) # vs) u = staged ovs (pred_numeral n) vs (snd (run_stages ovs v (pre u)))"
  by (simp add: numeral_eq_Suc)

text \<open>Taking the first free cell, writing to it and giving it back restores the pool.\<close>

definition restored :: "('a \<Rightarrow> u64) \<Rightarrow> 'a pool \<Rightarrow> 'a pool \<Rightarrow> bool" where
  "restored bits p p' \<longleftrightarrow> pool_inv bits p' \<and> pool_free_cells bits p' = pool_free_cells bits p \<and>
     length (memory p') = length (memory p) \<and> pool_object p' = pool_object p"

lemma make_first:
  assumes "pool_inv bits p" "pool_free_cells bits p = x # xs" "False \<in> set ws"
  shows "\<exists>p'. pool_make bits c ws v p = Done (pool_ptr c x, p') \<and> pool_inv bits p' \<and> pool_free_cells bits p' = xs \<and>
    length (memory p') = length (memory p) \<and> pool_object p' = (pool_object p)(x \<mapsto> v) \<and> pool_object p x = None"
proof -
  obtain p' where "make_cell bits ws v p = Done (Some x, p')" "pool_inv bits p'" "pool_free_cells bits p' = xs"
      "length (memory p') = length (memory p)" "pool_object p' = (pool_object p)(x \<mapsto> v)"
    using pl.alloc_some [OF assms] by blast
  moreover have "pool_object p x = None" using pl.object_dom [OF assms(1)] assms(2) by auto
  ultimately show ?thesis by (auto simp: pool_make_def)
qed

lemma give_back:
  assumes "pool_inv bits p" "pool_object p x \<noteq> None" "False \<in> set ws"
  shows "\<exists>p'. pool_free ws (Some x) p = Done p' \<and> pool_inv bits p' \<and> pool_free_cells bits p' = x # pool_free_cells bits p \<and>
    length (memory p') = length (memory p) \<and> pool_object p' = (pool_object p)(x := None)"
proof -
  have "x < length (memory p)" "x \<notin> set (pool_free_cells bits p)"
    using pl.object_dom [OF assms(1)] assms(2) by auto
  from pl.dealloc_some [OF assms(1) this assms(3)] show ?thesis .
qed

lemma drop_pool_ptr: "drop_event ws (pool_ptr c x) p = pool_free ws (Some x) p"
  by (simp add: drop_event_def event_ptr_defs release_to_pool_def)

text \<open>One event made and dispatched: its cell is the only one missing, and giving it back restores the pool.\<close>

definition occupied :: "('a \<Rightarrow> u64) \<Rightarrow> 'a pool \<Rightarrow> nat \<Rightarrow> 'a pool \<Rightarrow> bool" where
  "occupied bits p x q \<longleftrightarrow> pool_inv bits q \<and> pool_free_cells bits p = x # pool_free_cells bits q \<and>
     length (memory q) = length (memory p) \<and> pool_object p x = None \<and> (\<exists>v. pool_object q = (pool_object p)(x \<mapsto> v))"

lemma make_dispatch:
  assumes "stages_for t stages" "pool_inv bits p" "pool_free_cells bits p = x # xs" "False \<in> set ws"
  shows "\<exists>p1 q. pool_make bits () ws v p = Done (pool_ptr () x, p1) \<and> occupied bits p x q \<and>
    dispatch (map stage_handler stages) t (pool_ptr () x) \<lparr>world_calls = [], world_user = \<lparr>shop_pool = p1, shop_state = u\<rparr>\<rparr> =
      (pool_ptr () x, \<lparr>world_calls = [], world_user = \<lparr>shop_pool = q, shop_state = snd (run_stages (map snd stages) v u)\<rparr>\<rparr>)"
proof -
  obtain p1 where p1: "pool_make bits () ws v p = Done (pool_ptr () x, p1)" "pool_inv bits p1"
      "pool_free_cells bits p1 = xs" "length (memory p1) = length (memory p)"
      "pool_object p1 = (pool_object p)(x \<mapsto> v)" "pool_object p x = None"
    using make_first [OF assms(2-4), of "()" v] by blast
  obtain v' u' where r: "run_stages (map snd stages) v u = (v', u')" by fastforce
  have "x < length (memory p1)" using p1(5) pl.object_dom [OF p1(2)] by auto
  then have "occupied bits p x (write_event x v' p1)"
    using write_event_inv [OF p1(2), of x v'] write_event_object [of x p1 v'] p1(3-6) assms(3)
    by (auto simp: occupied_def) (simp add: write_event_def)
  moreover have "dispatch (map stage_handler stages) t (pool_ptr () x) \<lparr>world_calls = [], world_user = \<lparr>shop_pool = p1, shop_state = u\<rparr>\<rparr> =
      (pool_ptr () x, \<lparr>world_calls = [], world_user = \<lparr>shop_pool = write_event x v' p1, shop_state = u'\<rparr>\<rparr>)"
    using dispatch_stages [OF assms(1), of "\<lparr>shop_pool = p1, shop_state = u\<rparr>" x v] p1(5) by (simp add: r shop_put_def)
  ultimately show ?thesis using p1(1) r by auto
qed

lemma drop_restores:
  assumes "occupied bits p x q" "restored bits q q'" "False \<in> set ws"
  shows "\<exists>p'. pool_free ws (Some x) q' = Done p' \<and> restored bits p p'"
proof -
  have q: "pool_inv bits q'" "pool_object q' x \<noteq> None" using assms(1,2) by (auto simp: occupied_def restored_def)
  obtain p' where "pool_free ws (Some x) q' = Done p'" "pool_inv bits p'" "pool_free_cells bits p' = x # pool_free_cells bits q'"
      "length (memory p') = length (memory q')" "pool_object p' = (pool_object q')(x := None)"
    using give_back [OF q assms(3)] by blast
  then show ?thesis using assms(1,2) by (auto simp: occupied_def restored_def fun_upd_idem)
qed

lemma dispatch_made_stages:
  assumes "stages_for t stages" "pool_inv bits (shop_pool s)" "pool_free_cells bits (shop_pool s) \<noteq> []" "False \<in> set ws"
  shows "\<exists>p. dispatch_made bits ws stages t v s =
      Done \<lparr>shop_pool = p, shop_state = snd (run_stages (map snd stages) v (shop_state s))\<rparr> \<and> restored bits (shop_pool s) p"
proof -
  obtain x xs where fc: "pool_free_cells bits (shop_pool s) = x # xs" using assms(3) by (cases "pool_free_cells bits (shop_pool s)") auto
  obtain p1 q where p1: "pool_make bits () ws v (shop_pool s) = Done (pool_ptr () x, p1)" "occupied bits (shop_pool s) x q"
      "dispatch (map stage_handler stages) t (pool_ptr () x) \<lparr>world_calls = [], world_user = s\<lparr>shop_pool := p1\<rparr>\<rparr> =
       (pool_ptr () x, \<lparr>world_calls = [], world_user = \<lparr>shop_pool = q, shop_state = snd (run_stages (map snd stages) v (shop_state s))\<rparr>\<rparr>)"
    using make_dispatch [OF assms(1,2) fc assms(4), of v "shop_state s"] by (cases s) auto
  have "restored bits q q" using p1(2) by (simp add: occupied_def restored_def)
  from drop_restores [OF p1(2) this assms(4)] show ?thesis
    using p1(1,3) by (auto simp: dispatch_made_def dispatch_rvalue_def event_ptr_defs release_to_pool_def)
qed

lemma dispatch_made_exhausted:
  assumes "pool_inv bits (shop_pool s)" "pool_free_cells bits (shop_pool s) = []" "False \<in> set ws"
  shows "dispatch_made bits ws stages t v s = Done s"
  using pool_make_none [OF assms(1,3,2), of "()" v]
  by (simp add: dispatch_made_def dispatch_rvalue_def dispatch_def event_ptr_defs)

lemma restored_trans: "restored bits p q \<Longrightarrow> restored bits q r \<Longrightarrow> restored bits p r"
  by (simp add: restored_def)

lemma open_shop_ready:
  assumes "0 < cells" "cells \<le> 0xFFFFFFFF"
  shows "\<exists>p. open_shop cells u = Done \<lparr>shop_pool = p, shop_state = u\<rparr> \<and> pool_inv bits p \<and> pool_free_cells bits p = [0..<cells]"
  using pool_ctor_inv [OF assms, of bits] by (auto simp: open_shop_def)

lemma dispatch_all_stages:
  assumes "stages_for t stages" "False \<in> set ws" "pool_inv bits (shop_pool s)" "pool_free_cells bits (shop_pool s) \<noteq> []"
    and "length vs \<le> k"
  shows "\<exists>p. dispatch_all bits ws stages t vs s =
      Done \<lparr>shop_pool = p, shop_state = staged (map snd stages) k vs (shop_state s)\<rparr> \<and> restored bits (shop_pool s) p"
  using assms(3-5)
proof (induction vs arbitrary: s k)
  case Nil
  then show ?case by (cases s) (auto simp: restored_def)
next
  case (Cons a vs)
  obtain pre v where a: "a = (pre, v)" by (cases a)
  obtain k' where k: "k = Suc k'" using Cons.prems(3) by (cases k) auto
  let ?s = "s\<lparr>shop_state := pre (shop_state s)\<rparr>"
  obtain p where p: "dispatch_made bits ws stages t v ?s =
        Done \<lparr>shop_pool = p, shop_state = snd (run_stages (map snd stages) v (pre (shop_state s)))\<rparr>" "restored bits (shop_pool s) p"
    using dispatch_made_stages [OF assms(1) _ _ assms(2), of bits ?s v] Cons.prems by auto
  show ?case
    using Cons.IH [of "\<lparr>shop_pool = p, shop_state = snd (run_stages (map snd stages) v (pre (shop_state s)))\<rparr>" k'] Cons.prems p
    by (auto simp: a k restored_def)
qed

lemma dispatch_scoped_exhausted:
  assumes "pool_inv bits p" "pool_free_cells bits p = []" "False \<in> set ws"
  shows "dispatch_scoped bits ws stages t vs \<lparr>shop_pool = p, shop_state = u\<rparr> =
    Done \<lparr>shop_pool = p, shop_state = staged ovs 0 vs u\<rparr>"
proof (induction vs arbitrary: u)
  case (Cons a vs)
  obtain pre v where "a = (pre, v)" by (cases a)
  then show ?case using Cons.IH [of "pre u"] pool_make_none [OF assms(1,3,2), of "()" v]
    by (simp add: dispatch_def event_ptr_defs drop_event_def)
qed simp

lemma dispatch_scoped_stages:
  assumes "stages_for t stages" "False \<in> set ws" "pool_inv bits (shop_pool s)"
  shows "\<exists>p. dispatch_scoped bits ws stages t vs s = Done \<lparr>shop_pool = p, shop_state =
      staged (map snd stages) (length (pool_free_cells bits (shop_pool s))) vs (shop_state s)\<rparr> \<and> restored bits (shop_pool s) p"
  using assms(3)
proof (induction vs arbitrary: s)
  case Nil
  then show ?case by (cases s) (auto simp: restored_def)
next
  case (Cons a vs)
  obtain pre v where a: "a = (pre, v)" by (cases a)
  show ?case
  proof (cases "pool_free_cells bits (shop_pool s)")
    case Nil
    have eta: "\<lparr>shop_pool = shop_pool s, shop_state = shop_state s\<rparr> = s" by simp
    show ?thesis
      using dispatch_scoped_exhausted [OF Cons.prems Nil assms(2), of stages t "a # vs" "shop_state s" "map snd stages"] Cons.prems
      by (intro exI [of _ "shop_pool s"]) (simp add: restored_def eta Nil)
  next
    case (Cons x xs)
    note fc = this
    obtain p1 q where p1: "pool_make bits () ws v (shop_pool s) = Done (pool_ptr () x, p1)" "occupied bits (shop_pool s) x q"
        "dispatch (map stage_handler stages) t (pool_ptr () x)
           \<lparr>world_calls = [], world_user = \<lparr>shop_pool = p1, shop_state = pre (shop_state s)\<rparr>\<rparr> =
         (pool_ptr () x, \<lparr>world_calls = [], world_user =
           \<lparr>shop_pool = q, shop_state = snd (run_stages (map snd stages) v (pre (shop_state s)))\<rparr>\<rparr>)"
      using make_dispatch [OF assms(1) Cons.prems fc assms(2), of v "pre (shop_state s)"] by blast
    let ?s = "\<lparr>shop_pool = q, shop_state = snd (run_stages (map snd stages) v (pre (shop_state s)))\<rparr>"
    obtain q' where "dispatch_scoped bits ws stages t vs ?s =
          Done \<lparr>shop_pool = q', shop_state = staged (map snd stages) (length xs) vs (shop_state ?s)\<rparr>" "restored bits q q'"
      using Cons.IH [of ?s] p1(2) fc by (auto simp: occupied_def)
    then show ?thesis
      using drop_restores [OF p1(2) _ assms(2)] by (fastforce simp: a p1(1,3) fc drop_pool_ptr)
  qed
qed

section \<open>Programs that print\<close>

text \<open>A heading is printed before the event is made.\<close>

definition headed :: "(put list list \<times> 'a) list \<Rightarrow> ('a, console) scenario" where
  "headed hs = map (\<lambda>(h, v). (\<lambda>out. out @ h, v)) hs"

lemma length_headed [simp]: "length (headed hs) = length hs"
  by (simp add: headed_def)

text \<open>Stages that each event passes on its own: what they print about it follows what was printed before.\<close>

lemma staged_printed:
  assumes "\<And>v out. printed f (snd (run_stages ovs v out)) = printed f out @ line v"
    and "\<forall>(h, v) \<in> set hs. printed f h = []"
  shows "printed f (staged ovs k (headed hs) out) = printed f out @ concat (map line (map snd (take k hs)))"
  using assms(2)
proof (induction hs arbitrary: k out)
  case (Cons a hs)
  then show ?case using assms(1) by (cases k) (auto simp: headed_def split_beta)
qed (simp add: headed_def)

lemma staged_lines:
  assumes "\<And>v out. snd (run_stages ovs v out) = out @ line v"
  shows "staged ovs k (headed hs) out =
    out @ concat (map (\<lambda>(h, v). h @ line v) (take k hs)) @ concat (map fst (drop k hs))"
proof (induction hs arbitrary: k out)
  case (Cons a hs)
  then show ?case using assms by (cases k) (auto simp: headed_def split_beta)
qed (simp add: headed_def)

text \<open>A program that opens its shop and sends temporaries.\<close>

lemma run_temporaries:
  assumes "stages_for t stages" "False \<in> set ws" "0 < cells" "cells \<le> 0xFFFFFFFF"
  shows "\<exists>p. bind_outcome (open_shop cells u) (dispatch_all bits ws stages t vs) =
      Done \<lparr>shop_pool = p, shop_state = staged (map snd stages) (length vs) vs u\<rparr> \<and>
    pool_inv bits p \<and> pool_free_cells bits p = [0..<cells]"
proof -
  obtain p where s: "open_shop cells u = Done \<lparr>shop_pool = p, shop_state = u\<rparr>" "pool_inv bits p" "pool_free_cells bits p = [0..<cells]"
    using open_shop_ready [OF assms(3,4), of u bits] by blast
  then show ?thesis
    using dispatch_all_stages [OF assms(1,2), of bits "\<lparr>shop_pool = p, shop_state = u\<rparr>" vs "length vs"] assms(3)
    by (auto simp: restored_def)
qed

lemma run_scoped:
  assumes "stages_for t stages" "False \<in> set ws" "0 < cells" "cells \<le> 0xFFFFFFFF"
  shows "\<exists>p. bind_outcome (open_shop cells u) (dispatch_scoped bits ws stages t vs) =
      Done \<lparr>shop_pool = p, shop_state = staged (map snd stages) cells vs u\<rparr> \<and>
    pool_inv bits p \<and> pool_free_cells bits p = [0..<cells]"
proof -
  obtain p where s: "open_shop cells u = Done \<lparr>shop_pool = p, shop_state = u\<rparr>" "pool_inv bits p" "pool_free_cells bits p = [0..<cells]"
    using open_shop_ready [OF assms(3,4), of u bits] by blast
  then show ?thesis
    using dispatch_scoped_stages [OF assms(1,2), of bits "\<lparr>shop_pool = p, shop_state = u\<rparr>" vs]
    by (auto simp: restored_def)
qed

lemma temporaries_end:
  assumes "stages_for t stages" "False \<in> set ws" "0 < cells" "cells \<le> 0xFFFFFFFF" "staged (map snd stages) (length vs) vs u = u'"
  shows "\<exists>p. bind_outcome (open_shop cells u) (dispatch_all bits ws stages t vs) = Done \<lparr>shop_pool = p, shop_state = u'\<rparr> \<and>
    pool_free_cells bits p = [0..<cells]"
  using run_temporaries [OF assms(1-4), of u bits vs] assms(5) by auto

lemma scoped_end:
  assumes "stages_for t stages" "False \<in> set ws" "0 < cells" "cells \<le> 0xFFFFFFFF" "staged (map snd stages) cells vs u = u'"
  shows "\<exists>p. bind_outcome (open_shop cells u) (dispatch_scoped bits ws stages t vs) = Done \<lparr>shop_pool = p, shop_state = u'\<rparr> \<and>
    pool_free_cells bits p = [0..<cells]"
  using run_scoped [OF assms(1-4), of u bits vs] assms(5) by auto

section \<open>Properties\<close>

text \<open>C17: Dispatching through a pipeline of stages is running the stages in order on the value of each event,
  each seeing what those before it wrote, until one returns false. This holds for temporaries
  and for events that live to the end of the block, as long as there are cells; an event that
  gets no cell reaches no stage. In the end every cell is free again, in the original order.\<close>

theorem pipeline_runs_stages:
  fixes bits :: "'a \<Rightarrow> u64"
  assumes "stages_for t stages" "False \<in> set ws" "0 < cells" "cells \<le> 0xFFFFFFFF" "open_shop cells u = Done s"
  shows "(\<exists>p. dispatch_all bits ws stages t vs s = Done \<lparr>shop_pool = p, shop_state = staged (map snd stages) (length vs) vs u\<rparr> \<and>
      pool_inv bits p \<and> pool_free_cells bits p = [0..<cells]) \<and>
    (\<exists>p. dispatch_scoped bits ws stages t vs s = Done \<lparr>shop_pool = p, shop_state = staged (map snd stages) cells vs u\<rparr> \<and>
      pool_inv bits p \<and> pool_free_cells bits p = [0..<cells])"
  using run_temporaries [OF assms(1-4), of u bits vs] run_scoped [OF assms(1-4), of u bits vs] assms(5) by simp

text \<open>A guard on a base type, a stage that adds one to the event, and a stage that records it.\<close>

abbreviation sample_stages :: "(nat, nat list) stage list" where
  "sample_stages \<equiv> [(''base'', Bool_On (\<lambda>v u. (v < 10, v, u))), (''order'', Void_On (\<lambda>v u. (v + 1, u))),
     (''order'', Void_On (\<lambda>v u. (v, u @ [v])))]"

theorem pipeline_runs_stages_witness:
  "\<exists>s p. open_shop 2 [] = Done s \<and>
     dispatch_scoped (\<lambda>_. 0) [True, False] sample_stages order_type [(id, 5), (id, 12), (id, 7)] s =
       Done \<lparr>shop_pool = p, shop_state = [6]\<rparr>"
proof -
  obtain p :: "nat pool" where s: "open_shop 2 [] = Done \<lparr>shop_pool = p, shop_state = [] :: nat list\<rparr>"
    using open_shop_ready [of 2 "[] :: nat list" "\<lambda>_. 0"] by auto
  have "stages_for order_type sample_stages" by (simp add: stages_for_def)
  from pipeline_runs_stages [OF this _ _ _ s, of "[True, False]" "\<lambda>_. 0" "[(id, 5), (id, 12), (id, 7)]"]
  show ?thesis using s by auto
qed

end
