(* ===== verification/Flight_Controller.thy ===== *)
theory Flight_Controller
  imports Stage_Pipeline
begin

text \<open>
  \<open>examples/04_showcase/01_autonomous_drone_ecs.cpp\<close>: navigation vectors go through a logger on their
  hardware layer, a watchdog on their safety interface, a radar, a wind compensation that changes
  the vector, and the motors.
\<close>

record navigation_vector =
  capture_ns :: u64
  sensor_id :: int
  velocity_x :: double
  velocity_y :: double
  altitude :: double
  sensor_ok :: bool

definition new_navigation_vector :: "int \<Rightarrow> double \<Rightarrow> double \<Rightarrow> double \<Rightarrow> bool \<Rightarrow> navigation_vector" where
  "new_navigation_vector s_id vx vy alt healthy =
     \<lparr>capture_ns = 1682390400000000000, sensor_id = s_id, velocity_x = vx, velocity_y = vy, altitude = alt, sensor_ok = healthy\<rparr>"

definition is_hardware_healthy :: "navigation_vector \<Rightarrow> bool" where
  "is_hardware_healthy ev = sensor_ok ev"

definition navigation_vector_type :: event_type where
  "navigation_vector_type =
     Event_Type ''navigation_vector'' [Event_Type ''hardware_interrupt'' [], Event_Type ''safety_critical_system'' []]"

section \<open>Handlers\<close>

definition blackbox_logger :: "(navigation_vector, console) overload" where
  "blackbox_logger = Void_On (\<lambda>ev out.
     (ev, out @ [[Text ''[L0 BLACKBOX] Sensor #'', Num (sensor_id ev), Text '' fired at '', Num (uint (capture_ns ev)), Text '' ns'', Newline]]))"

definition safety_watchdog :: "(navigation_vector, console) overload" where
  "safety_watchdog = Bool_On (\<lambda>ev out.
     if \<not> is_hardware_healthy ev then
       (False, ev, out @ [[Text ''[L1 SAFETY] CRITICAL FAULT! Sensor malfunction. Dropping vector!'', Newline]])
     else (True, ev, out @ [[Text ''[L1 SAFETY] Hardware OK.'', Newline]]))"

definition speed_squared :: "navigation_vector \<Rightarrow> double" where
  "speed_squared ev = dbl_add (dbl_mul (velocity_x ev) (velocity_x ev)) (dbl_mul (velocity_y ev) (velocity_y ev))"

definition collision_avoidance :: "(navigation_vector, console) overload" where
  "collision_avoidance = Bool_On (\<lambda>ev out.
     if dbl_less (dbl_lit 100000 1) (speed_squared ev) then
       (False, ev, out @ [[Text ''[L2 RADAR] WARNING: Approach too fast! Engaging airbrakes.'', Newline]])
     else (True, ev, out))"

definition wind_compensator :: "(navigation_vector, console) overload" where
  "wind_compensator = Void_On (\<lambda>ev out.
     let wind_resistance_x = dbl_neg (dbl_lit 25 1);
         ev = ev\<lparr>velocity_x := dbl_add (velocity_x ev) wind_resistance_x\<rparr>
     in (ev, out @ [[Text ''[L2 PHYSICS] Applied wind drift. New X velocity: '', Real (velocity_x ev), Text '' m/s'', Newline]]))"

definition motor_actuator :: "(navigation_vector, console) overload" where
  "motor_actuator = Void_On (\<lambda>ev out.
     (ev, out @ [[Text ''[L2 MOTORS] Actuating rotors. Target altitude: '', Real (altitude ev), Text ''m'', Newline]]))"

section \<open>The program\<close>

text \<open>A handler for a concept answers for the types that have the members: here the vector itself.\<close>

definition flight_computer :: "(navigation_vector, console) stage list" where
  "flight_computer =
     [(''hardware_interrupt'', blackbox_logger), (''safety_critical_system'', safety_watchdog),
      (''navigation_vector'', collision_avoidance), (''navigation_vector'', wind_compensator),
      (''navigation_vector'', motor_actuator)]"

definition flight_plan :: "(console \<times> navigation_vector) list" where
  "flight_plan =
     [([[Text ''--- SCENARIO 1: Normal Flight Vector ---'', Newline]],
        new_navigation_vector 10 (dbl_lit 150 1) (dbl_lit 50 1) (dbl_lit 1200 1) True),
      ([[Newline, Text ''--- SCENARIO 2: Hardware Malfunction ---'', Newline]],
        new_navigation_vector 11 (dbl_lit 0 1) (dbl_lit 0 1) (dbl_lit 500 1) False),
      ([[Newline, Text ''--- SCENARIO 3: Collision Course (Overspeed) ---'', Newline]],
        new_navigation_vector 12 (dbl_lit 1500 1) (dbl_lit 0 1) (dbl_lit 800 1) True)]"

definition drone_main :: "(navigation_vector \<Rightarrow> u64) \<Rightarrow> bool list \<Rightarrow> (navigation_vector, console) shop outcome" where
  "drone_main bits ws =
     bind_outcome (open_shop 256 [[Text ''=== CRE Autonomous Flight Controller ==='', Newline, Newline]])
       (dispatch_all bits ws flight_computer navigation_vector_type (headed flight_plan))"

section \<open>What reaches the motors\<close>

fun motor_line :: "put list \<Rightarrow> double option" where
  "motor_line [Text t, Real d, Text u, Newline] =
     (if t = ''[L2 MOTORS] Actuating rotors. Target altitude: '' then Some d else None)"
| "motor_line _ = None"

definition may_fly :: "navigation_vector \<Rightarrow> bool" where
  "may_fly ev \<longleftrightarrow> sensor_ok ev \<and> \<not> dbl_less (dbl_lit 100000 1) (speed_squared ev)"

lemma flight_computer_for: "stages_for navigation_vector_type flight_computer"
  by (simp add: stages_for_def navigation_vector_type_def flight_computer_def)

lemma motor_line_stages:
  "printed motor_line (snd (run_stages (map snd flight_computer) v out)) =
     printed motor_line out @ (if may_fly v then [altitude v] else [])"
  by (simp add: flight_computer_def blackbox_logger_def safety_watchdog_def collision_avoidance_def wind_compensator_def
      motor_actuator_def is_hardware_healthy_def may_fly_def Let_def)

lemma flight_run:
  assumes "False \<in> set ws" "0 < cells" "cells \<le> 0xFFFFFFFF" "\<forall>(h, v) \<in> set hs. printed motor_line h = []"
  shows "\<exists>p out. bind_outcome (open_shop cells out0) (dispatch_all bits ws flight_computer navigation_vector_type (headed hs)) =
      Done \<lparr>shop_pool = p, shop_state = out\<rparr> \<and>
    printed motor_line out = printed motor_line out0 @ map altitude (filter may_fly (map snd hs)) \<and>
    pool_free_cells bits p = [0..<cells]"
proof -
  have "concat (map (\<lambda>v. if may_fly v then [altitude v] else []) vs) = map altitude (filter may_fly vs)" for vs
    by (induction vs) auto
  with staged_printed [of motor_line "map snd flight_computer", OF motor_line_stages assms(4), of "length hs" out0]
  have "printed motor_line (staged (map snd flight_computer) (length hs) (headed hs) out0) =
      printed motor_line out0 @ map altitude (filter may_fly (map snd hs))"
    by (simp del: map_map)
  then show ?thesis
    using run_temporaries [OF flight_computer_for assms(1-3), of out0 bits "headed hs"] by auto
qed

text \<open>C19: Whatever navigation vectors are sent through the flight computer, the rotors are driven exactly for
  those whose hardware is healthy and whose speed the radar accepts, once each, in order and to the
  altitude the vector asks for; every vector's cell is free afterwards.\<close>

theorem motors_only_when_safe:
  assumes "False \<in> set ws" "0 < cells" "cells \<le> 0xFFFFFFFF" "\<forall>(h, v) \<in> set hs. printed motor_line h = []"
  shows "\<exists>p out. bind_outcome (open_shop cells []) (dispatch_all bits ws flight_computer navigation_vector_type (headed hs)) =
      Done \<lparr>shop_pool = p, shop_state = out\<rparr> \<and>
    printed motor_line out = map altitude (filter may_fly (map snd hs)) \<and> pool_free_cells bits p = [0..<cells]"
  using flight_run [OF assms, of "[]" bits] by simp

text \<open>The three scenarios of the program: only the first vector reaches the motors.\<close>

lemma flight_plan_headings: "\<forall>(h, v) \<in> set flight_plan. printed motor_line h = []"
  by (simp add: flight_plan_def)

lemma flight_plan_altitudes: "map altitude (filter may_fly (map snd flight_plan)) = [dbl_lit 1200 1]"
  by (simp add: flight_plan_def new_navigation_vector_def may_fly_def speed_squared_def dbl_eval cong: let_weak_cong)

lemma drone_main_flies:
  assumes "False \<in> set ws"
  shows "\<exists>p out. drone_main bits ws = Done \<lparr>shop_pool = p, shop_state = out\<rparr> \<and>
    printed motor_line out = [dbl_lit 1200 1] \<and> pool_free_cells bits p = [0..<256]"
  using flight_run [OF assms _ _ flight_plan_headings, of 256 "[[Text ''=== CRE Autonomous Flight Controller ==='', Newline, Newline]]" bits]
  by (simp only: drone_main_def flight_plan_altitudes) simp

theorem motors_only_when_safe_witness:
  "\<exists>p out. bind_outcome (open_shop 256 []) (dispatch_all (\<lambda>_. 0) [False] flight_computer navigation_vector_type (headed flight_plan)) =
       Done \<lparr>shop_pool = p, shop_state = out\<rparr> \<and> printed motor_line out = [dbl_lit 1200 1]"
  using motors_only_when_safe [of "[False]" 256, OF _ _ _ flight_plan_headings, of "\<lambda>_. 0"]
  by (simp only: flight_plan_altitudes) auto

end
