(* ===== verification/Market_Orders.thy ===== *)
theory Market_Orders
  imports Stage_Pipeline
begin

text \<open>
  \<open>examples/04_showcase/04_ultimate_logic_synthetis.cpp\<close>: market orders go through a latency monitor on
  their network layer, a compliance auditor on their regulatory interface, a risk limit, an
  accounting stage that adds a fee to the price, and the execution engine. The orders are locals
  of \<open>main\<close>, so all of them are alive until it returns.
\<close>

record direct_market_order =
  capture_ns :: u64
  ip_address :: string
  order_id :: u32
  price :: double
  quantity :: double
  kyc_approved :: bool

definition new_direct_market_order :: "string \<Rightarrow> u32 \<Rightarrow> double \<Rightarrow> double \<Rightarrow> bool \<Rightarrow> direct_market_order" where
  "new_direct_market_order ip n p q kyc =
     \<lparr>capture_ns = 1682390400000000000, ip_address = ip, order_id = n, price = p, quantity = q, kyc_approved = kyc\<rparr>"

definition is_kyc_cleared :: "direct_market_order \<Rightarrow> bool" where
  "is_kyc_cleared ev = kyc_approved ev"

definition direct_market_order_type :: event_type where
  "direct_market_order_type =
     Event_Type ''direct_market_order'' [Event_Type ''wire_metadata'' [], Event_Type ''compliance_interface'' []]"

section \<open>Handlers\<close>

definition latency_monitor :: "(direct_market_order, console) overload" where
  "latency_monitor = Void_On (\<lambda>ev out.
     (ev, out @ [[Text ''[L0 INFRA] Packet from '', Text (ip_address ev), Text '' | TS: '', Num (uint (capture_ns ev)), Text '' ns'', Newline]]))"

definition compliance_auditor :: "(direct_market_order, console) overload" where
  "compliance_auditor = Bool_On (\<lambda>ev out.
     if \<not> is_kyc_cleared ev then
       (False, ev, out @ [[Text ''[L1 COMPLIANCE] REJECTED: KYC validation failed.'', Newline]])
     else (True, ev, out @ [[Text ''[L1 COMPLIANCE] APPROVED: KYC valid.'', Newline]]))"

definition exposure :: "direct_market_order \<Rightarrow> double" where
  "exposure ev = dbl_mul (price ev) (quantity ev)"

definition risk_gatekeeper :: "(direct_market_order, console) overload" where
  "risk_gatekeeper = Bool_On (\<lambda>ev out.
     if dbl_less (dbl_lit 10000000 1) (exposure ev) then
       (False, ev, out @ [[Text ''[L2 RISK] REJECTED: Exposure too high ($'', Fixed, Precision 2, Real (exposure ev), Text '')'', Newline]])
     else (True, ev, out @ [[Text ''[L2 RISK] APPROVED: Exposure within limits.'', Newline]]))"

definition accounting_processor :: "(direct_market_order, console) overload" where
  "accounting_processor = Void_On (\<lambda>ev out.
     let exchange_fee = dbl_mul (quantity ev) (dbl_lit 1 2);
         ev = ev\<lparr>price := dbl_add (price ev) exchange_fee\<rparr>
     in (ev, out @ [[Text ''[L2 ACCOUNTING] Added exchange fee. New routing price: $'', Real (price ev), Newline]]))"

definition execution_engine :: "(direct_market_order, console) overload" where
  "execution_engine = Void_On (\<lambda>ev out.
     (ev, out @ [[Text ''[L2 EXECUTION] Routing Order #'', Num (uint (order_id ev)), Text '' to matching engine.'', Newline]]))"

section \<open>The program\<close>

definition matrix_pipe :: "(direct_market_order, console) stage list" where
  "matrix_pipe =
     [(''wire_metadata'', latency_monitor), (''compliance_interface'', compliance_auditor),
      (''direct_market_order'', risk_gatekeeper), (''direct_market_order'', accounting_processor),
      (''direct_market_order'', execution_engine)]"

definition order_flow :: "(console \<times> direct_market_order) list" where
  "order_flow =
     [([[Text ''--- SCENARIO 1: Valid Retail Order ---'', Newline]],
        new_direct_market_order ''10.0.1.55'' 1001 (dbl_lit 1500 1) (dbl_lit 1000 1) True),
      ([[Newline, Text ''--- SCENARIO 2: Toxic Whale Order (Risk Breach) ---'', Newline]],
        new_direct_market_order ''10.0.1.99'' 1002 (dbl_lit 2000 1) (dbl_lit 100000 1) True),
      ([[Newline, Text ''--- SCENARIO 3: Illegal Order (KYC Failed) ---'', Newline]],
        new_direct_market_order ''192.168.1.1'' 1003 (dbl_lit 500 1) (dbl_lit 100 1) False)]"

definition matrix_main :: "(direct_market_order \<Rightarrow> u64) \<Rightarrow> bool list \<Rightarrow> (direct_market_order, console) shop outcome" where
  "matrix_main bits ws =
     bind_outcome (open_shop 256 [[Text ''=== Conduit Ultimate Logic Synthesis ==='', Newline, Newline]])
       (dispatch_scoped bits ws matrix_pipe direct_market_order_type (headed order_flow))"

section \<open>What is routed\<close>

text \<open>The two lines that tell of an order on its way: the price it is routed at, and its number.\<close>

fun routing_line :: "put list \<Rightarrow> (int + double) option" where
  "routing_line [Text t, Real d, Newline] =
     (if t = ''[L2 ACCOUNTING] Added exchange fee. New routing price: $'' then Some (Inr d) else None)"
| "routing_line [Text t, Num n, Text u, Newline] =
     (if t = ''[L2 EXECUTION] Routing Order #'' then Some (Inl n) else None)"
| "routing_line _ = None"

definition order_accepted :: "direct_market_order \<Rightarrow> bool" where
  "order_accepted ev \<longleftrightarrow> kyc_approved ev \<and> \<not> dbl_less (dbl_lit 10000000 1) (dbl_mul (price ev) (quantity ev))"

definition routing :: "direct_market_order \<Rightarrow> (int + double) list" where
  "routing ev = [Inr (dbl_add (price ev) (dbl_mul (quantity ev) (dbl_lit 1 2))), Inl (uint (order_id ev))]"

lemma matrix_pipe_for: "stages_for direct_market_order_type matrix_pipe"
  by (simp add: stages_for_def direct_market_order_type_def matrix_pipe_def)

lemma routing_stages:
  "printed routing_line (snd (run_stages (map snd matrix_pipe) v out)) =
     printed routing_line out @ (if order_accepted v then routing v else [])"
  by (simp add: matrix_pipe_def latency_monitor_def compliance_auditor_def risk_gatekeeper_def accounting_processor_def
      execution_engine_def is_kyc_cleared_def order_accepted_def routing_def exposure_def Let_def)

lemma matrix_run:
  assumes "False \<in> set ws" "0 < cells" "cells \<le> 0xFFFFFFFF" "\<forall>(h, v) \<in> set hs. printed routing_line h = []"
  shows "\<exists>p out. bind_outcome (open_shop cells out0) (dispatch_scoped bits ws matrix_pipe direct_market_order_type (headed hs)) =
      Done \<lparr>shop_pool = p, shop_state = out\<rparr> \<and>
    printed routing_line out = printed routing_line out0 @ concat (map routing (filter order_accepted (map snd (take cells hs)))) \<and>
    pool_free_cells bits p = [0..<cells]"
proof -
  have "concat (map (\<lambda>v. if order_accepted v then routing v else []) vs) = concat (map routing (filter order_accepted vs))" for vs
    by (induction vs) auto
  with staged_printed [of routing_line "map snd matrix_pipe", OF routing_stages assms(4), of cells out0]
  have "printed routing_line (staged (map snd matrix_pipe) cells (headed hs) out0) =
      printed routing_line out0 @ concat (map routing (filter order_accepted (map snd (take cells hs))))"
    by (simp del: map_map)
  then show ?thesis
    using run_scoped [OF matrix_pipe_for assms(1-3), of out0 bits "headed hs"] by auto
qed

text \<open>C25: Of the orders sent through the pipeline exactly those cleared by compliance and within the risk limit
  are routed: in order, each at its price plus one percent of its quantity, the price the
  accounting stage wrote into the event, and under its own number. Orders beyond the capacity of
  the pool, which stays occupied until all are processed, are dropped silently. In the end
  every cell is free.\<close>

theorem orders_routed_with_fee:
  assumes "False \<in> set ws" "0 < cells" "cells \<le> 0xFFFFFFFF" "\<forall>(h, v) \<in> set hs. printed routing_line h = []"
  shows "\<exists>p out. bind_outcome (open_shop cells []) (dispatch_scoped bits ws matrix_pipe direct_market_order_type (headed hs)) =
      Done \<lparr>shop_pool = p, shop_state = out\<rparr> \<and>
    printed routing_line out = concat (map routing (filter order_accepted (map snd (take cells hs)))) \<and>
    pool_free_cells bits p = [0..<cells]"
  using matrix_run [OF assms, of "[]" bits] by simp

text \<open>Of the three orders of the program the first is routed, at 151.0.\<close>

lemma order_flow_headings: "\<forall>(h, v) \<in> set order_flow. printed routing_line h = []"
  by (simp add: order_flow_def)

lemma order_flow_routed:
  "concat (map routing (filter order_accepted (map snd (take 256 order_flow)))) =
     [Inr (dbl_add (dbl_lit 1500 1) (dbl_mul (dbl_lit 1000 1) (dbl_lit 1 2))), Inl 1001]"
  by (simp add: order_flow_def new_direct_market_order_def order_accepted_def routing_def dbl_eval cong: let_weak_cong)

lemma matrix_main_routes:
  assumes "False \<in> set ws"
  shows "\<exists>p out. matrix_main bits ws = Done \<lparr>shop_pool = p, shop_state = out\<rparr> \<and>
    printed routing_line out = [Inr (dbl_add (dbl_lit 1500 1) (dbl_mul (dbl_lit 1000 1) (dbl_lit 1 2))), Inl 1001] \<and>
    pool_free_cells bits p = [0..<256]"
  using matrix_run [OF assms _ _ order_flow_headings, of 256 "[[Text ''=== Conduit Ultimate Logic Synthesis ==='', Newline, Newline]]" bits]
  by (simp only: matrix_main_def order_flow_routed) simp

theorem orders_routed_with_fee_witness:
  "\<exists>p out. bind_outcome (open_shop 256 []) (dispatch_scoped (\<lambda>_. 0) [False] matrix_pipe direct_market_order_type (headed order_flow)) =
       Done \<lparr>shop_pool = p, shop_state = out\<rparr> \<and>
     printed routing_line out = [Inr (dbl_add (dbl_lit 1500 1) (dbl_mul (dbl_lit 1000 1) (dbl_lit 1 2))), Inl 1001]"
  using orders_routed_with_fee [of "[False]" 256, OF _ _ _ order_flow_headings, of "\<lambda>_. 0"]
  by (simp only: order_flow_routed) auto

end
