(* ===== verification/Pipeline_Examples.thy ===== *)
theory Pipeline_Examples
  imports Stage_Pipeline Runtime_Domain
begin

text \<open>
  The smaller pipeline programs: \<open>01_core_patterns/01_cascading_pipeline.cpp\<close> and \<open>02_cxx20_concepts.cpp\<close>,
  \<open>03_resilience_and_control/01_backpressure_drops.cpp\<close> and \<open>04_cache_line_isolation.cpp\<close>, and
  \<open>04_showcase/03_zero_allocation_hotpath.cpp\<close>. Two of them make their events in a \<open>runtime_domain\<close> of one
  event type, whose only pool is the pool of the shop.
\<close>

section \<open>Events of a domain\<close>

definition open_domain :: "nat \<Rightarrow> string \<Rightarrow> 'u \<Rightarrow> ('a, 'u) shop outcome" where
  "open_domain pool_size event u =
     map_outcome_result (\<lambda>d. \<lparr>shop_pool = the (get_pool event d), shop_state = u\<rparr>) (domain_ctor pool_size [event])"

lemma open_domain_shop: "open_domain n e u = open_shop n u"
  by (cases "pool_ctor n :: 'a pool outcome")
    (simp_all add: open_domain_def open_shop_def domain_ctor_def get_pool_def pool_move_def)

text \<open>Making an event in the domain is making it in that pool.\<close>

lemma domain_make_shop:
  "get_pool event d = Some p \<Longrightarrow>
     domain_make bits ws event v d = map_outcome_result (\<lambda>(ev, p'). (ev, put_pool event p' d)) (pool_make bits event ws v p)"
  by (simp add: domain_make_def)

section \<open>Backpressure: an order firewall\<close>

record order =
  qty :: double

definition risk_firewall :: "(order, console) overload" where
  "risk_firewall = Bool_On (\<lambda>ev out.
     if dbl_less (dbl_lit 100000 1) (qty ev) then
       (False, ev, out @ [[Text ''[FIREWALL] Order too large ('', Real (qty ev), Text ''). DROPPED.'', Newline]])
     else (True, ev, out))"

definition order_execution :: "(order, console) overload" where
  "order_execution = Void_On (\<lambda>ev out. (ev, out @ [[Text ''[EXEC] Order executed for qty: '', Real (qty ev), Newline]]))"

definition firewall_pipe :: "(order, console) stage list" where
  "firewall_pipe = [(''order'', risk_firewall), (''order'', order_execution)]"

definition firewall_main :: "(order \<Rightarrow> u64) \<Rightarrow> bool list \<Rightarrow> (order, console) shop outcome" where
  "firewall_main bits ws =
     bind_outcome (open_shop 10 []) (dispatch_all bits ws firewall_pipe (Event_Type ''order'' [])
       (headed [([[Text ''Sending small order...'', Newline]], \<lparr>qty = dbl_lit 1500 1\<rparr>),
                ([[Newline, Text ''Sending toxic order...'', Newline]], \<lparr>qty = dbl_lit 500000 1\<rparr>)]))"

section \<open>The hot path\<close>

record new_order_single =
  seq_num :: u32
  msg_type :: char
  symbol :: string
  price :: double
  internal_ts :: u64

definition make_order_single :: "u32 \<Rightarrow> string \<Rightarrow> double \<Rightarrow> new_order_single" where
  "make_order_single seq s p = \<lparr>seq_num = seq, msg_type = CHR ''D'', symbol = s, price = p, internal_ts = 0\<rparr>"

definition new_order_single_type :: event_type where
  "new_order_single_type = Event_Type ''new_order_single'' [Event_Type ''allocated_event'' [], Event_Type ''fix_header'' []]"

definition sequence_validator :: "(new_order_single, console) overload" where
  "sequence_validator = Bool_On (\<lambda>ev out.
     if seq_num ev = 0 then (False, ev, out @ [[Text ''[REJECT] Invalid sequence number: 0'', Newline]])
     else (True, ev, out @ [[Text ''[VALID] Sequence #'', Num (uint (seq_num ev)), Text '' accepted.'', Newline]]))"

definition hardware_timestamper :: "(new_order_single, console) overload" where
  "hardware_timestamper = Void_On (\<lambda>ev out.
     let ev = ev\<lparr>internal_ts := 1680000000000\<rparr>
     in (ev, out @ [[Text ''[HW-TAG] Event stamped at '', Num (uint (internal_ts ev)), Text '' ns.'', Newline]]))"

definition matching_engine :: "(new_order_single, console) overload" where
  "matching_engine = Void_On (\<lambda>ev out.
     (ev, out @ [[Text ''[EXEC] Routing '', Text (symbol ev), Text '' @ $'', Real (price ev), Text '' to matching core.'', Newline]]))"

definition core_pipeline :: "(new_order_single, console) stage list" where
  "core_pipeline =
     [(''fix_header'', sequence_validator), (''new_order_single'', hardware_timestamper), (''new_order_single'', matching_engine)]"

definition hotpath_main :: "(new_order_single \<Rightarrow> u64) \<Rightarrow> bool list \<Rightarrow> (new_order_single, console) shop outcome" where
  "hotpath_main bits ws =
     bind_outcome (open_shop 1024 [[Text ''=== Showcase 01: Zero-Allocation Hot Path ==='', Newline, Newline]])
       (dispatch_all bits ws core_pipeline new_order_single_type
         (headed [([[Text ''--- Tick 1: Valid Order ---'', Newline]], make_order_single 101 ''AAPL'' (dbl_lit 15025 2)),
                  ([[Newline, Text ''--- Tick 2: Corrupted Order ---'', Newline]], make_order_single 0 ''TSLA'' (dbl_lit 20000 2))]))"

section \<open>The cascading pipeline\<close>

record net_layer =
  ip :: string

record auth_layer =
  session_id :: int

record app_layer =
  payload :: string

record http_request =
  net :: net_layer
  auth :: auth_layer
  app :: app_layer

definition make_http_request :: "string \<Rightarrow> int \<Rightarrow> string \<Rightarrow> http_request" where
  "make_http_request a sid p = \<lparr>net = \<lparr>ip = a\<rparr>, auth = \<lparr>session_id = sid\<rparr>, app = \<lparr>payload = p\<rparr>\<rparr>"

definition firewall_stage :: "net_layer \<Rightarrow> console \<Rightarrow> console" where
  "firewall_stage n out = out @ [[Text ''[Firewall] Checking IP: '', Text (ip n), Newline]]"

definition auth_stage :: "auth_layer \<Rightarrow> console \<Rightarrow> console" where
  "auth_stage a out = out @ [[Text ''[Auth] Validating session: '', Num (session_id a), Newline]]"

definition request_processor :: "(http_request, console) overload" where
  "request_processor = Void_On (\<lambda>ev out.
     let out = out @ [[Text ''--- Processing new request ---'', Newline]];
         out = firewall_stage (net ev) out;
         out = auth_stage (auth ev) out
     in (ev, out @ [[Text ''[App] Processing payload: '', Text (payload (app ev)), Newline]]))"

definition cascading_main :: "(http_request \<Rightarrow> u64) \<Rightarrow> bool list \<Rightarrow> (http_request, console) shop outcome" where
  "cascading_main bits ws =
     bind_outcome (open_domain 1024 ''http_request'' [])
       (dispatch_scoped bits ws [(''http_request'', request_processor)] (Event_Type ''http_request'' [])
         (headed [([], make_http_request ''192.168.1.100'' 404 ''GET /index.html''), ([], make_http_request ''10.0.0.5'' 200 ''POST /login'')]))"

section \<open>One handler for two event types\<close>

text \<open>The handler answers for every type with a price; both events have nothing else.\<close>

record priced =
  quoted :: double

definition pricing_analytics :: "(priced, console) overload" where
  "pricing_analytics = Void_On (\<lambda>ev out. (ev, out @ [[Text ''Analytics processed price: $'', Real (quoted ev), Newline]]))"

definition concepts_main :: "(priced \<Rightarrow> u64) \<Rightarrow> bool list \<Rightarrow> (priced pool \<times> priced pool \<times> console) outcome" where
  "concepts_main bits ws =
     bind_outcome (pool_ctor 5) (\<lambda>trade_pool.
     bind_outcome (pool_ctor 5) (\<lambda>quote_pool.
     bind_outcome (pool_make bits () ws \<lparr>quoted = dbl_lit 45210 2\<rparr> trade_pool) (\<lambda>(trade, trade_pool).
     bind_outcome (pool_make bits () ws \<lparr>quoted = dbl_lit 105 2\<rparr> quote_pool) (\<lambda>(quote, quote_pool).
       let (trade, w) = dispatch [stage_handler (''market_trade'', pricing_analytics)] (Event_Type ''market_trade'' []) trade
             \<lparr>world_calls = [], world_user = \<lparr>shop_pool = trade_pool, shop_state = []\<rparr>\<rparr>;
           (quote, x) = dispatch [stage_handler (''fx_quote'', pricing_analytics)] (Event_Type ''fx_quote'' []) quote
             \<lparr>world_calls = [], world_user = \<lparr>shop_pool = quote_pool, shop_state = shop_state (world_user w)\<rparr>\<rparr>
       in bind_outcome (drop_event ws quote (shop_pool (world_user x))) (\<lambda>quote_pool.
          map_outcome_result (\<lambda>trade_pool. (trade_pool, quote_pool, shop_state (world_user x)))
            (drop_event ws trade (shop_pool (world_user w))))))))"

section \<open>The order book\<close>

record trade_tick =
  symbol_id :: int
  tick_price :: double

record order_book =
  last_prices :: "double list"
  total_trades :: int

definition order_book_init :: order_book where
  "order_book_init = \<lparr>last_prices = replicate 10 (Dbl 0 0), total_trades = 0\<rparr>"

definition order_book_handler :: "(trade_tick, order_book) overload" where
  "order_book_handler = Void_On (\<lambda>ev ob.
     (ev, if 0 \<le> symbol_id ev \<and> symbol_id ev < 10
          then ob\<lparr>last_prices := (last_prices ob)[nat (symbol_id ev) := tick_price ev], total_trades := total_trades ob + 1\<rparr>
          else ob))"

definition print_snapshot :: "order_book \<Rightarrow> console" where
  "print_snapshot ob =
     [Text ''--- Order Book Snapshot ('', Num (total_trades ob), Text '' trades) ---'', Newline] #
     map (\<lambda>i. [Text ''Symbol '', Num (int i), Text '' last price: $'', Real (last_prices ob ! i), Newline]) [0..<3]"

definition order_book_main :: "(trade_tick \<Rightarrow> u64) \<Rightarrow> bool list \<Rightarrow> (trade_tick pool \<times> console) outcome" where
  "order_book_main bits ws =
     map_outcome_result (\<lambda>s. (shop_pool s, print_snapshot (shop_state s)))
       (bind_outcome (open_domain 1024 ''trade_tick'' order_book_init)
         (dispatch_all bits ws [(''trade_tick'', order_book_handler)] (Event_Type ''trade_tick'' [])
           [(id, \<lparr>symbol_id = 0, tick_price = dbl_lit 1505 1\<rparr>), (id, \<lparr>symbol_id = 1, tick_price = dbl_lit 28000 1\<rparr>),
            (id, \<lparr>symbol_id = 0, tick_price = dbl_lit 1510 1\<rparr>)]))"

section \<open>What the programs print\<close>

text \<open>The exact output of each program; no matter how often a compare-and-swap fails, the pool ends full.\<close>

lemmas stage_types = stages_for_def firewall_pipe_def core_pipeline_def new_order_single_type_def

lemma firewall_main_prints:
  assumes "False \<in> set ws"
  shows "\<exists>p. firewall_main bits ws = Done \<lparr>shop_pool = p, shop_state =
      [[Text ''Sending small order...'', Newline], [Text ''[EXEC] Order executed for qty: '', Real (dbl_lit 1500 1), Newline],
       [Newline, Text ''Sending toxic order...'', Newline],
       [Text ''[FIREWALL] Order too large ('', Real (dbl_lit 500000 1), Text ''). DROPPED.'', Newline]]\<rparr> \<and>
    pool_free_cells bits p = [0..<10]"
proof -
  have limit: "\<not> dbl_less (dbl_lit 100000 1) (dbl_lit 1500 1)" "dbl_less (dbl_lit 100000 1) (dbl_lit 500000 1)"
    by (simp_all add: dbl_eval cong: let_weak_cong)
  show ?thesis unfolding firewall_main_def using assms
    by (intro temporaries_end)
      (simp_all add: stage_types headed_def risk_firewall_def order_execution_def limit [simplified])
qed

lemma hotpath_main_prints:
  assumes "False \<in> set ws"
  shows "\<exists>p. hotpath_main bits ws = Done \<lparr>shop_pool = p, shop_state =
      [[Text ''=== Showcase 01: Zero-Allocation Hot Path ==='', Newline, Newline],
       [Text ''--- Tick 1: Valid Order ---'', Newline],
       [Text ''[VALID] Sequence #'', Num 101, Text '' accepted.'', Newline],
       [Text ''[HW-TAG] Event stamped at '', Num 1680000000000, Text '' ns.'', Newline],
       [Text ''[EXEC] Routing '', Text ''AAPL'', Text '' @ $'', Real (dbl_lit 15025 2), Text '' to matching core.'', Newline],
       [Newline, Text ''--- Tick 2: Corrupted Order ---'', Newline],
       [Text ''[REJECT] Invalid sequence number: 0'', Newline]]\<rparr> \<and>
    pool_free_cells bits p = [0..<1024]"
  unfolding hotpath_main_def using assms
  by (intro temporaries_end)
    (simp_all add: stage_types headed_def sequence_validator_def hardware_timestamper_def matching_engine_def make_order_single_def)

lemma cascading_main_prints:
  assumes "False \<in> set ws"
  shows "\<exists>p. cascading_main bits ws = Done \<lparr>shop_pool = p, shop_state =
      [[Text ''--- Processing new request ---'', Newline], [Text ''[Firewall] Checking IP: '', Text ''192.168.1.100'', Newline],
       [Text ''[Auth] Validating session: '', Num 404, Newline], [Text ''[App] Processing payload: '', Text ''GET /index.html'', Newline],
       [Text ''--- Processing new request ---'', Newline], [Text ''[Firewall] Checking IP: '', Text ''10.0.0.5'', Newline],
       [Text ''[Auth] Validating session: '', Num 200, Newline], [Text ''[App] Processing payload: '', Text ''POST /login'', Newline]]\<rparr> \<and>
    pool_free_cells bits p = [0..<1024]"
  unfolding cascading_main_def open_domain_shop using assms
  by (intro scoped_end)
    (simp_all add: stage_types headed_def request_processor_def firewall_stage_def auth_stage_def make_http_request_def Let_def)

lemma concepts_main_prints:
  assumes "False \<in> set ws"
  shows "\<exists>p q. concepts_main bits ws = Done (p, q,
      [[Text ''Analytics processed price: $'', Real (dbl_lit 45210 2), Newline],
       [Text ''Analytics processed price: $'', Real (dbl_lit 105 2), Newline]]) \<and>
    pool_free_cells bits p = [0..<5] \<and> pool_free_cells bits q = [0..<5]"
proof -
  obtain p :: "priced pool" where p: "pool_ctor 5 = Done p" "pool_inv bits p" "pool_free_cells bits p = [0..<5]"
    using pool_ctor_inv [of 5 bits] by auto
  then have fc: "pool_free_cells bits p = 0 # [1..<5]" by (simp add: upt_rec)
  have "stages_for (Event_Type e []) [(e, pricing_analytics)]" for e by (simp add: stages_for_def)
  note sent = make_dispatch [OF this p(2) fc assms]
  obtain p1 q1 where p1: "pool_make bits () ws \<lparr>quoted = dbl_lit 45210 2\<rparr> p = Done (pool_ptr () 0, p1)" "occupied bits p 0 q1"
      "dispatch [stage_handler (''market_trade'', pricing_analytics)] (Event_Type ''market_trade'' []) (pool_ptr () 0)
         \<lparr>world_calls = [], world_user = \<lparr>shop_pool = p1, shop_state = []\<rparr>\<rparr> =
       (pool_ptr () 0, \<lparr>world_calls = [], world_user =
         \<lparr>shop_pool = q1, shop_state = [[Text ''Analytics processed price: $'', Real (dbl_lit 45210 2), Newline]]\<rparr>\<rparr>)"
    using sent [of "\<lparr>quoted = dbl_lit 45210 2\<rparr>" "''market_trade''" "[]"] by (auto simp: pricing_analytics_def)
  let ?out = "[[Text ''Analytics processed price: $'', Real (dbl_lit 45210 2), Newline]]"
  obtain p2 q2 where p2: "pool_make bits () ws \<lparr>quoted = dbl_lit 105 2\<rparr> p = Done (pool_ptr () 0, p2)" "occupied bits p 0 q2"
      "dispatch [stage_handler (''fx_quote'', pricing_analytics)] (Event_Type ''fx_quote'' []) (pool_ptr () 0)
         \<lparr>world_calls = [], world_user = \<lparr>shop_pool = p2, shop_state = ?out\<rparr>\<rparr> =
       (pool_ptr () 0, \<lparr>world_calls = [], world_user =
         \<lparr>shop_pool = q2, shop_state = ?out @ [[Text ''Analytics processed price: $'', Real (dbl_lit 105 2), Newline]]\<rparr>\<rparr>)"
    using sent [of "\<lparr>quoted = dbl_lit 105 2\<rparr>" "''fx_quote''" ?out] by (auto simp: pricing_analytics_def)
  have "restored bits q1 q1" "restored bits q2 q2" using p1(2) p2(2) by (simp_all add: occupied_def restored_def)
  with drop_restores [OF p1(2) _ assms] drop_restores [OF p2(2) _ assms]
  obtain r1 r2 where "pool_free ws (Some 0) q1 = Done r1" "restored bits p r1" "pool_free ws (Some 0) q2 = Done r2" "restored bits p r2"
    by meson
  then show ?thesis using p(3) by (auto simp: concepts_main_def p(1) p1(1,3) p2(1,3) drop_pool_ptr restored_def)
qed

section \<open>The last price of every symbol\<close>

definition valid_tick :: "trade_tick \<Rightarrow> bool" where
  "valid_tick ev \<longleftrightarrow> 0 \<le> symbol_id ev \<and> symbol_id ev < 10"

definition last_price :: "trade_tick list \<Rightarrow> nat \<Rightarrow> double" where
  "last_price ticks i = (case find (\<lambda>ev. symbol_id ev = int i) (rev ticks) of None \<Rightarrow> Dbl 0 0 | Some ev \<Rightarrow> tick_price ev)"

lemma last_price_Nil [simp]: "last_price [] i = Dbl 0 0"
  by (simp add: last_price_def)

lemma last_price_snoc: "last_price (ticks @ [ev]) i = (if symbol_id ev = int i then tick_price ev else last_price ticks i)"
  by (simp add: last_price_def)

definition book_of :: "trade_tick list \<Rightarrow> order_book" where
  "book_of ticks = \<lparr>last_prices = map (last_price ticks) [0..<10], total_trades = int (length (filter valid_tick ticks))\<rparr>"

lemma book_of_Nil: "book_of [] = order_book_init"
  by (simp add: book_of_def order_book_init_def list_eq_iff_nth_eq)

lemma book_of_snoc: "run_stages [order_book_handler] ev (book_of ticks) = (ev, book_of (ticks @ [ev]))"
  by (auto simp: order_book_handler_def book_of_def valid_tick_def last_price_snoc intro!: nth_equalityI
      simp: nth_list_update)

lemma book_of_ticks: "staged [order_book_handler] (length ticks) (map (Pair id) ticks) (book_of before) = book_of (before @ ticks)"
  by (induction ticks arbitrary: before) (simp_all add: book_of_snoc del: run_stages.simps)

lemma order_book_main_prints:
  assumes "False \<in> set ws"
  shows "\<exists>p. order_book_main bits ws = Done (p,
      [[Text ''--- Order Book Snapshot ('', Num 3, Text '' trades) ---'', Newline],
       [Text ''Symbol '', Num 0, Text '' last price: $'', Real (dbl_lit 1510 1), Newline],
       [Text ''Symbol '', Num 1, Text '' last price: $'', Real (dbl_lit 28000 1), Newline],
       [Text ''Symbol '', Num 2, Text '' last price: $'', Real (Dbl 0 0), Newline]]) \<and>
    pool_free_cells bits p = [0..<1024]"
proof -
  let ?ticks = "[\<lparr>symbol_id = 0, tick_price = dbl_lit 1505 1\<rparr>, \<lparr>symbol_id = 1, tick_price = dbl_lit 28000 1\<rparr>,
    \<lparr>symbol_id = 0, tick_price = dbl_lit 1510 1\<rparr>]"
  have "staged (map snd [(''trade_tick'', order_book_handler)]) (length (map (Pair id) ?ticks)) (map (Pair id) ?ticks) order_book_init =
      book_of ?ticks"
    using book_of_ticks [of ?ticks "[]"] by (simp add: book_of_Nil)
  note run = temporaries_end [OF _ assms _ _ this, of "Event_Type ''trade_tick'' []" 1024 bits]
  have three: "[0..<3] = [0, 1, 2 :: nat]" by (simp add: upt_rec)
  show ?thesis
    using run by (auto simp: order_book_main_def open_domain_shop stage_types book_of_def print_snapshot_def three
        last_price_def valid_tick_def)
qed

text \<open>After any sequence of trades the order book holds, for each of its ten symbols, the price of the last trade
  in it (zero if there was none), and counts exactly the trades in its symbols; trades in other
  symbols leave it alone and no access leaves the array. The count stays within an \<open>int\<close>, and every
  event's cell is free.\<close>

theorem order_book_last_prices:
  assumes "False \<in> set ws" "length ticks < 2 ^ 31"
  shows "\<exists>p ob. bind_outcome (open_domain 1024 ''trade_tick'' order_book_init)
        (dispatch_all bits ws [(''trade_tick'', order_book_handler)] (Event_Type ''trade_tick'' []) (map (Pair id) ticks)) =
      Done \<lparr>shop_pool = p, shop_state = ob\<rparr> \<and>
    length (last_prices ob) = 10 \<and> (\<forall>i < 10. last_prices ob ! i = last_price ticks i) \<and>
    total_trades ob = int (length (filter valid_tick ticks)) \<and> total_trades ob < 2 ^ 31 \<and>
    pool_free_cells bits p = [0..<1024]"
proof -
  have "staged (map snd [(''trade_tick'', order_book_handler)]) (length (map (Pair id) ticks)) (map (Pair id) ticks) order_book_init =
      book_of ticks"
    using book_of_ticks [of ticks "[]"] by (simp add: book_of_Nil)
  note run = temporaries_end [OF _ assms(1) _ _ this, of "Event_Type ''trade_tick'' []" 1024 bits]
  have "int (length (filter valid_tick ticks)) < 2 ^ 31"
    using le_less_trans [OF length_filter_le [of valid_tick ticks] assms(2)] by simp
  then show ?thesis using run by (auto simp: open_domain_shop stage_types book_of_def)
qed

theorem order_book_last_prices_witness:
  "\<exists>p ob. bind_outcome (open_domain 1024 ''trade_tick'' order_book_init)
        (dispatch_all (\<lambda>_. 0) [True, False] [(''trade_tick'', order_book_handler)] (Event_Type ''trade_tick'' [])
          (map (Pair id) [\<lparr>symbol_id = 0, tick_price = Dbl 301 (-1)\<rparr>, \<lparr>symbol_id = 12, tick_price = Dbl 7 0\<rparr>,
             \<lparr>symbol_id = 0, tick_price = Dbl 151 0\<rparr>])) =
      Done \<lparr>shop_pool = p, shop_state = ob\<rparr> \<and> last_prices ob ! 0 = Dbl 151 0 \<and> last_prices ob ! 1 = Dbl 0 0 \<and> total_trades ob = 2"
  using order_book_last_prices [of "[True, False]" "[\<lparr>symbol_id = 0, tick_price = Dbl 301 (-1)\<rparr>,
      \<lparr>symbol_id = 12, tick_price = Dbl 7 0\<rparr>, \<lparr>symbol_id = 0, tick_price = Dbl 151 0\<rparr>]" "\<lambda>_. 0"]
  by (auto simp: last_price_def valid_tick_def)

end
