(* ===== verification/Event_Line.thy ===== *)
theory Event_Line
  imports Event_Flow Fair_Scheduling
begin

text \<open>
  Two threads joined by one conduit, as in \<open>examples/02_concurrency_and_routing/01_lockfree_spsc_bus.cpp\<close>,
  \<open>examples/03_resilience_and_control/02_heartbeat_timeouts.cpp\<close> and \<open>03_graceful_drain.cpp\<close>: one makes events in
  a pool and pushes them, the other pops them, looks at each and lets it go, until one says that
  it was the last. What the first thread sends next is its control, a parameter here; the three
  programs are instances. The locale \<open>sender\<close> is what a control owes the line.
\<close>

section \<open>The line\<close>

record ('a, 'c, 'u) line =
  line_pool :: "'a pool"
  line_pipe :: "nat conduit"
  line_sender :: 'c
  line_hand :: "nat option option"
  line_taken :: "unit cell_ptr option"
  line_state :: 'u
  line_over :: bool

text \<open>\<open>pipe.push(domain.make(v).release())\<close> is two steps: the pointer is in the hand in between. With nothing
  left to send the thread waits in \<open>join\<close>, or has ended.\<close>

definition send_step ::
  "('c \<Rightarrow> 'a option) \<Rightarrow> ('c \<Rightarrow> 'c) \<Rightarrow> (bool \<Rightarrow> 'c \<Rightarrow> 'c) \<Rightarrow> ('a \<Rightarrow> u64) \<Rightarrow> bool list \<Rightarrow>
   ('a, 'c, 'u) line \<Rightarrow> ('a, 'c, 'u) line outcome" where
  "send_step nxt made pushed bits ws s =
     (case line_hand s of
        Some r \<Rightarrow>
          let (ok, q) = conduit_push r (line_pipe s)
          in Done (s\<lparr>line_pipe := q, line_sender := pushed ok (line_sender s), line_hand := None\<rparr>)
      | None \<Rightarrow>
          (case nxt (line_sender s) of
             None \<Rightarrow> Done s
           | Some v \<Rightarrow>
               map_outcome_result
                 (\<lambda>(ev, p). s\<lparr>line_pool := p, line_sender := made (line_sender s), line_hand := Some (fst (event_ptr_release ev))\<rparr>)
                 (pool_make bits () ws v (line_pool s))))"

text \<open>The loop of the other thread: \<open>if (auto ev = pipe.pop(pool)) { ... }\<close>, and \<open>ev\<close> is destroyed at the end
  of the body and by \<open>break\<close>.\<close>

definition recv_step ::
  "('a \<Rightarrow> bool) \<Rightarrow> ('a \<Rightarrow> 'u \<Rightarrow> 'u) \<Rightarrow> bool list \<Rightarrow> ('a, 'c, 'u) line \<Rightarrow> ('a, 'c, 'u) line outcome" where
  "recv_step sentinel process ws s =
     (if line_over s then Done s
      else case line_taken s of
        None \<Rightarrow>
          let (ev, q) = conduit_pop () (line_pipe s)
          in Done (s\<lparr>line_pipe := q, line_taken := if event_ptr_bool ev then Some ev else None\<rparr>)
      | Some ev \<Rightarrow>
          (case pool_object (line_pool s) (the (event_ptr_get ev)) of
             None \<Rightarrow> Fault
           | Some v \<Rightarrow>
               let s' = (if sentinel v then s\<lparr>line_over := True\<rparr> else s\<lparr>line_state := process v (line_state s)\<rparr>)
               in map_outcome_result (\<lambda>p. s'\<lparr>line_pool := p, line_taken := None\<rparr>) (drop_event ws ev (line_pool s))))"

text \<open>Thread 0 sends and thread 1 receives; anything else is an event outside the two threads.\<close>

definition line_step ::
  "('c \<Rightarrow> 'a option) \<Rightarrow> ('c \<Rightarrow> 'c) \<Rightarrow> (bool \<Rightarrow> 'c \<Rightarrow> 'c) \<Rightarrow> ('c \<Rightarrow> 'c) \<Rightarrow> ('a \<Rightarrow> bool) \<Rightarrow> ('a \<Rightarrow> 'u \<Rightarrow> 'u) \<Rightarrow>
   ('a \<Rightarrow> u64) \<Rightarrow> bool list \<Rightarrow> nat \<Rightarrow> ('a, 'c, 'u) line \<Rightarrow> ('a, 'c, 'u) line outcome" where
  "line_step nxt made pushed signal sentinel process bits ws t s =
     (if t = 0 then send_step nxt made pushed bits ws s
      else if t = 1 then recv_step sentinel process ws s
      else Done (s\<lparr>line_sender := signal (line_sender s)\<rparr>))"

definition line_start :: "nat \<Rightarrow> nat \<Rightarrow> (nat \<Rightarrow> nat option) \<Rightarrow> 'c \<Rightarrow> 'u \<Rightarrow> ('a, 'c, 'u) line outcome" where
  "line_start cells slots junk c u =
     map_outcome_result
       (\<lambda>p. \<lparr>line_pool = p, line_pipe = conduit_init (map junk [0..<slots]), line_sender = c, line_hand = None, line_taken = None,
             line_state = u, line_over = False\<rparr>)
       (pool_ctor cells)"

section \<open>The invariant\<close>

definition hand_cells :: "('a, 'c, 'u) line \<Rightarrow> nat list" where
  "hand_cells s = (case line_hand s of Some (Some x) \<Rightarrow> [x] | _ \<Rightarrow> [])"

definition taken_cells :: "('a, 'c, 'u) line \<Rightarrow> nat list" where
  "taken_cells s = (case line_taken s of Some ev \<Rightarrow> [the (ep_ptr ev)] | None \<Rightarrow> [])"

text \<open>What is on its way, the first to be looked at first.\<close>

definition in_line :: "('a, 'c, 'u) line \<Rightarrow> 'a list" where
  "in_line s = map (\<lambda>x. the (pool_object (line_pool s) x)) (taken_cells s @ conduit_items (line_pipe s))"

definition line_cells :: "('a \<Rightarrow> u64) \<Rightarrow> nat \<Rightarrow> ('a, 'c, 'u) line \<Rightarrow> bool" where
  "line_cells bits n s \<longleftrightarrow>
     cell_ledger bits {0} (mset (hand_cells s @ taken_cells s)) (line_pool s) (\<lambda>_. line_pipe s) \<and>
     n + length (conduit_items (line_pipe s)) \<le> conduit_room (line_pipe s) \<and>
     n + length (conduit_items (line_pipe s)) + length (taken_cells s) \<le> length (memory (line_pool s)) \<and>
     (line_taken s = None \<or> (\<exists>x. line_taken s = Some (pool_ptr () x)))"

definition line_flow :: "('a \<Rightarrow> bool) \<Rightarrow> nat \<Rightarrow> bool \<Rightarrow> 'a list \<Rightarrow> bool" where
  "line_flow sentinel n over vs \<longleftrightarrow>
     (if over then n = 0 \<and> vs = []
      else if n = 0 then \<exists>ws w. vs = ws @ [w] \<and> sentinel w \<and> (\<forall>v \<in> set ws. \<not> sentinel v)
      else \<forall>v \<in> set vs. \<not> sentinel v)"

lemma ledger_pipe: "cell_ledger bits {0} held p ((\<lambda>_. a)(0 := q)) = cell_ledger bits {0} held p (\<lambda>_. q)"
  by (simp add: cell_ledger_def queued_def)

lemma line_flow_Cons: "line_flow sentinel n False (v # vs) \<Longrightarrow> line_flow sentinel n (sentinel v) vs"
  by (auto simp: line_flow_def Cons_eq_append_conv split: if_splits)

lemmas line_cells_simps = line_cells_def hand_cells_def taken_cells_def

lemma in_line_objects:
  assumes "line_cells bits n s"
  shows "\<forall>x \<in> set (taken_cells s @ conduit_items (line_pipe s)). pool_object (line_pool s) x \<noteq> None"
proof -
  have l: "cell_ledger bits {0} (mset (hand_cells s @ taken_cells s)) (line_pool s) (\<lambda>_. line_pipe s)"
    using assms by (simp add: line_cells_def)
  have "x \<in># queued {0} (\<lambda>_. line_pipe s) + mset (hand_cells s @ taken_cells s)"
    if "x \<in> set (taken_cells s @ conduit_items (line_pipe s))" for x
    using that by (auto simp: queued_def)
  then show ?thesis using ledger_object [OF l] by blast
qed

lemma line_make:
  assumes "line_cells bits n s" "0 < n" "line_hand s = None" "False \<in> set ws"
  obtains x p where "pool_make bits () ws v (line_pool s) = Done (pool_ptr () x, p)" "pool_object p x = Some v"
    "length (memory p) = length (memory (line_pool s))"
    "\<And>c. line_cells bits n (s\<lparr>line_pool := p, line_sender := c, line_hand := Some (Some x)\<rparr>)"
    "\<And>c. in_line (s\<lparr>line_pool := p, line_sender := c, line_hand := Some (Some x)\<rparr>) = in_line s"
proof -
  have l: "cell_ledger bits {0} (mset (taken_cells s)) (line_pool s) (\<lambda>_. line_pipe s)"
    using assms(1,3) by (simp add: line_cells_simps)
  have "length (pool_free_cells bits (line_pool s)) + length (conduit_items (line_pipe s)) + length (taken_cells s) =
      length (memory (line_pool s))"
    using ledger_sizes [OF l] by (simp add: size_queued)
  then have "pool_free_cells bits (line_pool s) \<noteq> []" using assms(1,2) by (auto simp: line_cells_def)
  then obtain x p where x: "pool_make bits () ws v (line_pool s) = Done (pool_ptr () x, p)"
      "cell_ledger bits {0} (add_mset x (mset (taken_cells s))) p (\<lambda>_. line_pipe s)"
      "length (memory p) = length (memory (line_pool s))" "pool_object p = (pool_object (line_pool s))(x \<mapsto> v)"
      "pool_object (line_pool s) x = None"
    using ledger_make [OF l assms(4), of "()" v] by blast
  have "y \<noteq> x" if "y \<in> set (taken_cells s @ conduit_items (line_pipe s))" for y
    using in_line_objects [OF assms(1)] that x(5) by metis
  then have "in_line (s\<lparr>line_pool := p, line_sender := c, line_hand := Some (Some x)\<rparr>) = in_line s" for c
    by (auto simp: in_line_def x(4) taken_cells_def)
  moreover have "line_cells bits n (s\<lparr>line_pool := p, line_sender := c, line_hand := Some (Some x)\<rparr>)" for c
    using assms(1) x(2,3) by (simp add: line_cells_simps)
  ultimately show thesis using that [OF x(1)] x(3,4) by simp
qed

lemma line_push:
  assumes "line_cells bits n s" "m < n" "line_hand s = Some (Some x)"
  obtains q where "conduit_push (Some x) (line_pipe s) = (True, q)" "length (conduit_items q) = Suc (length (conduit_items (line_pipe s)))"
    "\<And>c. line_cells bits m (s\<lparr>line_pipe := q, line_sender := c, line_hand := None\<rparr>)"
    "\<And>c. in_line (s\<lparr>line_pipe := q, line_sender := c, line_hand := None\<rparr>) = in_line s @ [the (pool_object (line_pool s) x)]"
proof -
  have l: "cell_ledger bits {0} (add_mset x (mset (taken_cells s))) (line_pool s) (\<lambda>_. line_pipe s)"
    using assms(1,3) by (simp add: line_cells_simps)
  have "length (conduit_items (line_pipe s)) < conduit_room (line_pipe s)" using assms(1,2) by (simp add: line_cells_def)
  then obtain q where q: "conduit_push (Some x) (line_pipe s) = (True, q)" "conduit_items q = conduit_items (line_pipe s) @ [x]"
      "conduit_room q = conduit_room (line_pipe s)" "cell_ledger bits {0} (mset (taken_cells s)) (line_pool s) (\<lambda>_. q)"
    using ledger_push [OF l, of 0] by (auto simp: ledger_pipe)
  show thesis
    using assms(1,2) q by (intro that [OF q(1)]) (auto simp: line_cells_simps in_line_def)
qed

lemma line_pop:
  assumes "line_cells bits n s" "line_taken s = None" "conduit_items (line_pipe s) = x # xs"
  obtains q where "conduit_pop () (line_pipe s) = (pool_ptr () x, q)" "conduit_items q = xs"
    "line_cells bits n (s\<lparr>line_pipe := q, line_taken := Some (pool_ptr () x)\<rparr>)"
    "in_line (s\<lparr>line_pipe := q, line_taken := Some (pool_ptr () x)\<rparr>) = in_line s"
proof -
  have l: "cell_ledger bits {0} (mset (hand_cells s)) (line_pool s) (\<lambda>_. line_pipe s)"
    using assms(1,2) by (simp add: line_cells_simps)
  obtain q where q: "conduit_pop () (line_pipe s) = (pool_ptr () x, q)" "conduit_items q = xs"
      "conduit_room q = conduit_room (line_pipe s)" "cell_ledger bits {0} (add_mset x (mset (hand_cells s))) (line_pool s) (\<lambda>_. q)"
    using ledger_pop [OF l, of 0 x xs "()"] assms(3) by (auto simp: ledger_pipe)
  have x: "ep_ptr (pool_ptr () x) = Some x" by (simp add: event_ptr_of_def)
  show thesis
    using assms q(2-4) by (intro that [OF q(1,2)]) (auto simp: line_cells_simps in_line_def x)
qed

lemma line_drop:
  assumes "line_cells bits n s" "line_taken s = Some (pool_ptr () x)" "False \<in> set ws"
  obtains v p where "pool_object (line_pool s) x = Some v" "drop_event ws (pool_ptr () x) (line_pool s) = Done p"
    "length (memory p) = length (memory (line_pool s))"
    "\<And>u b. line_cells bits n (s\<lparr>line_state := u, line_over := b, line_pool := p, line_taken := None\<rparr>)"
    "\<And>u b. in_line s = v # in_line (s\<lparr>line_state := u, line_over := b, line_pool := p, line_taken := None\<rparr>)"
    "\<And>y. y \<in> set (hand_cells s) \<Longrightarrow> pool_object p y = pool_object (line_pool s) y"
proof -
  have x: "ep_ptr (pool_ptr () x) = Some x" by (simp add: event_ptr_of_def)
  have tc: "taken_cells s = [x]" using assms(2) by (simp add: taken_cells_def x)
  have l: "cell_ledger bits {0} (add_mset x (mset (hand_cells s))) (line_pool s) (\<lambda>_. line_pipe s)"
    using assms(1) tc by (simp add: line_cells_def)
  have apart: "x \<notin> set (conduit_items (line_pipe s))" "x \<notin> set (hand_cells s)"
    using ledger_cell(3,4) [OF l] by (simp_all add: queued_def)
  obtain v where v: "pool_object (line_pool s) x = Some v" using in_line_objects [OF assms(1)] tc by auto
  obtain p where p: "drop_event ws (pool_ptr () x) (line_pool s) = Done p"
      "cell_ledger bits {0} (mset (hand_cells s)) p (\<lambda>_. line_pipe s)" "length (memory p) = length (memory (line_pool s))"
      "pool_object p = (pool_object (line_pool s))(x := None)"
    using ledger_drop [OF l assms(3), of "()"] by blast
  show thesis
  proof (rule that [OF v p(1,3)])
    show "line_cells bits n (s\<lparr>line_state := u, line_over := b, line_pool := p, line_taken := None\<rparr>)" for u b
      using assms(1) p(2,3) tc by (simp add: line_cells_simps)
    show "in_line s = v # in_line (s\<lparr>line_state := u, line_over := b, line_pool := p, line_taken := None\<rparr>)" for u b
      using apart(1) tc by (auto simp: in_line_def v p(4)) (simp add: taken_cells_def)
    show "pool_object p y = pool_object (line_pool s) y" if "y \<in> set (hand_cells s)" for y
      using that apart(2) by (auto simp: p(4))
  qed
qed

section \<open>The contract of a control\<close>

text \<open>\<open>holds\<close> is the event made and not yet pushed, \<open>left\<close> how many are still to be pushed and \<open>sent\<close> those
  that were. Exactly the last one is a sentinel, and a signal may shorten what is to come but
  not end it.\<close>

locale sender =
  fixes nxt :: "'c \<Rightarrow> 'a option" and made :: "'c \<Rightarrow> 'c" and pushed :: "bool \<Rightarrow> 'c \<Rightarrow> 'c" and signal :: "'c \<Rightarrow> 'c"
    and sentinel :: "'a \<Rightarrow> bool"
    and holds :: "'c \<Rightarrow> 'a option" and left :: "'c \<Rightarrow> nat" and sent :: "'c \<Rightarrow> 'a list" and sound :: "'c \<Rightarrow> bool"
  assumes nxt_none: "sound c \<Longrightarrow> holds c = None \<Longrightarrow> nxt c = None \<longleftrightarrow> left c = 0"
    and left_holds: "sound c \<Longrightarrow> holds c \<noteq> None \<Longrightarrow> 0 < left c"
    and made_keeps: "sound c \<Longrightarrow> holds c = None \<Longrightarrow> nxt c = Some v \<Longrightarrow>
      sound (made c) \<and> holds (made c) = Some v \<and> left (made c) = left c \<and> sent (made c) = sent c"
    and pushed_keeps: "sound c \<Longrightarrow> holds c = Some v \<Longrightarrow>
      sound (pushed True c) \<and> holds (pushed True c) = None \<and> left (pushed True c) < left c \<and>
      (left (pushed True c) = 0 \<longleftrightarrow> sentinel v) \<and> sent (pushed True c) = sent c @ [v]"
    and signal_keeps: "sound c \<Longrightarrow>
      sound (signal c) \<and> holds (signal c) = holds c \<and> left (signal c) \<le> left c \<and>
      (left (signal c) = 0 \<longleftrightarrow> left c = 0) \<and> sent (signal c) = sent c"
begin

definition line_inv :: "nat \<Rightarrow> ('a \<Rightarrow> 'u \<Rightarrow> 'u) \<Rightarrow> 'u \<Rightarrow> ('a \<Rightarrow> u64) \<Rightarrow> ('a, 'c, 'u) line \<Rightarrow> bool" where
  "line_inv cells process u0 bits s \<longleftrightarrow>
     sound (line_sender s) \<and> line_cells bits (left (line_sender s)) s \<and> length (memory (line_pool s)) = cells \<and>
     (case holds (line_sender s) of
        None \<Rightarrow> line_hand s = None
      | Some v \<Rightarrow> \<exists>x. line_hand s = Some (Some x) \<and> pool_object (line_pool s) x = Some v) \<and>
     line_flow sentinel (left (line_sender s)) (line_over s) (in_line s) \<and>
     (\<exists>ds. line_state s = fold process (filter (\<lambda>v. \<not> sentinel v) ds) u0 \<and> sent (line_sender s) = ds @ in_line s)"

definition line_rank :: "('a, 'c, 'u) line \<Rightarrow> nat" where
  "line_rank s = 4 * left (line_sender s) + 2 * length (conduit_items (line_pipe s)) + length (taken_cells s) -
     (if line_hand s = None then 0 else 1)"

definition line_waits :: "nat \<Rightarrow> ('a, 'c, 'u) line \<Rightarrow> bool" where
  "line_waits t s \<longleftrightarrow>
     (if t = 0 then line_hand s = None \<and> left (line_sender s) = 0
      else t = 1 \<longrightarrow> line_over s \<or> (line_taken s = None \<and> conduit_items (line_pipe s) = []))"

definition progress :: "nat \<Rightarrow> ('a \<Rightarrow> 'u \<Rightarrow> 'u) \<Rightarrow> 'u \<Rightarrow> ('a \<Rightarrow> u64) \<Rightarrow> ('a, 'c, 'u) line \<Rightarrow> ('a, 'c, 'u) line \<Rightarrow> bool \<Rightarrow> bool" where
  "progress cells process u0 bits s s' w \<longleftrightarrow>
     line_inv cells process u0 bits s' \<and> (if w then s' = s else line_rank s' < line_rank s)"

lemma send_progress:
  assumes "line_inv cells process u0 bits s" "False \<in> set ws"
  shows "\<exists>s'. send_step nxt made pushed bits ws s = Done s' \<and> progress cells process u0 bits s s' (line_waits 0 s)"
proof (cases "holds (line_sender s)")
  case None
  have s: "sound (line_sender s)" "line_cells bits (left (line_sender s)) s" "line_hand s = None"
      "line_flow sentinel (left (line_sender s)) (line_over s) (in_line s)"
    using assms(1) None by (auto simp: line_inv_def)
  show ?thesis
  proof (cases "nxt (line_sender s)")
    case None
    then show ?thesis
      using assms(1) s nxt_none [OF s(1)] \<open>holds (line_sender s) = None\<close>
      by (auto simp: send_step_def progress_def line_waits_def)
  next
    case (Some v)
    have left: "0 < left (line_sender s)" using nxt_none [OF s(1) None] Some by auto
    obtain x p where p: "pool_make bits () ws v (line_pool s) = Done (pool_ptr () x, p)" "pool_object p x = Some v"
        "length (memory p) = length (memory (line_pool s))"
        "\<And>c. line_cells bits (left (line_sender s)) (s\<lparr>line_pool := p, line_sender := c, line_hand := Some (Some x)\<rparr>)"
        "\<And>c. in_line (s\<lparr>line_pool := p, line_sender := c, line_hand := Some (Some x)\<rparr>) = in_line s"
      using line_make [OF s(2) left s(3) assms(2), of v] by blast
    let ?s = "s\<lparr>line_pool := p, line_sender := made (line_sender s), line_hand := Some (Some x)\<rparr>"
    have step: "send_step nxt made pushed bits ws s = Done ?s"
      by (simp add: send_step_def s(3) Some p(1)) (simp add: event_ptr_defs)
    have "line_inv cells process u0 bits ?s"
      using assms(1) made_keeps [OF s(1) None Some] p by (simp add: line_inv_def)
    moreover have "line_rank ?s < line_rank s"
      using left s(3) made_keeps [OF s(1) None Some] by (simp add: line_rank_def taken_cells_def)
    ultimately show ?thesis using step left by (auto simp: progress_def line_waits_def)
  qed
next
  case (Some v)
  then obtain x where s: "sound (line_sender s)" "line_cells bits (left (line_sender s)) s" "line_hand s = Some (Some x)"
      "pool_object (line_pool s) x = Some v" "line_flow sentinel (left (line_sender s)) (line_over s) (in_line s)"
    using assms(1) by (auto simp: line_inv_def)
  let ?c = "pushed True (line_sender s)"
  have c: "sound ?c" "holds ?c = None" "left ?c < left (line_sender s)" "left ?c = 0 \<longleftrightarrow> sentinel v" "sent ?c = sent (line_sender s) @ [v]"
    using pushed_keeps [OF s(1) Some] by simp_all
  obtain q where q: "conduit_push (Some x) (line_pipe s) = (True, q)" "length (conduit_items q) = Suc (length (conduit_items (line_pipe s)))"
      "\<And>c. line_cells bits (left ?c) (s\<lparr>line_pipe := q, line_sender := c, line_hand := None\<rparr>)"
      "\<And>c. in_line (s\<lparr>line_pipe := q, line_sender := c, line_hand := None\<rparr>) = in_line s @ [v]"
    using line_push [OF s(2) c(3) s(3)] s(4) by (metis option.sel)
  let ?s = "s\<lparr>line_pipe := q, line_sender := ?c, line_hand := None\<rparr>"
  have step: "send_step nxt made pushed bits ws s = Done ?s" by (simp add: send_step_def s(3) q(1))
  have "line_flow sentinel (left ?c) (line_over s) (in_line s @ [v])"
    using s(5) c(3,4) by (auto simp: line_flow_def split: if_splits)
  then have "line_inv cells process u0 bits ?s"
    using assms(1) c q(3,4) by (auto simp: line_inv_def)
  moreover have "line_rank ?s < line_rank s"
    using c(3) q(2) s(3) by (simp add: line_rank_def taken_cells_def)
  ultimately show ?thesis using step s(3) by (auto simp: progress_def line_waits_def)
qed

lemma recv_takes:
  assumes inv: "line_inv cells process u0 bits s" and ws: "False \<in> set ws"
    and over: "\<not> line_over s" and taken: "line_taken s = Some (pool_ptr () x)"
  shows "\<exists>s'. recv_step sentinel process ws s = Done s' \<and> progress cells process u0 bits s s' (line_waits 1 s)"
proof -
  have s: "line_cells bits (left (line_sender s)) s" "line_flow sentinel (left (line_sender s)) (line_over s) (in_line s)"
    using inv by (simp_all add: line_inv_def)
  obtain v p where p: "pool_object (line_pool s) x = Some v" "drop_event ws (pool_ptr () x) (line_pool s) = Done p"
      "length (memory p) = length (memory (line_pool s))"
      "\<And>u b. line_cells bits (left (line_sender s)) (s\<lparr>line_state := u, line_over := b, line_pool := p, line_taken := None\<rparr>)"
      "\<And>u b. in_line s = v # in_line (s\<lparr>line_state := u, line_over := b, line_pool := p, line_taken := None\<rparr>)"
      "\<And>y. y \<in> set (hand_cells s) \<Longrightarrow> pool_object p y = pool_object (line_pool s) y"
    using line_drop [OF s(1) taken ws] by blast
  define s1 where "s1 = s\<lparr>line_state := if sentinel v then line_state s else process v (line_state s), line_over := sentinel v,
    line_pool := p, line_taken := None\<rparr>"
  have s1: "line_state s1 = (if sentinel v then line_state s else process v (line_state s))" "line_over s1 = sentinel v"
      "line_pool s1 = p" "line_taken s1 = None" "line_sender s1 = line_sender s" "line_hand s1 = line_hand s" "line_pipe s1 = line_pipe s"
    by (simp_all add: s1_def)
  have get: "event_ptr_get (pool_ptr () x) = Some x" by (simp add: event_ptr_defs)
  have "recv_step sentinel process ws s =
      Done ((if sentinel v then s\<lparr>line_over := True\<rparr> else s\<lparr>line_state := process v (line_state s)\<rparr>)\<lparr>line_pool := p, line_taken := None\<rparr>)"
    using over by (simp add: recv_step_def taken get p(1,2) Let_def)
  also have "(if sentinel v then s\<lparr>line_over := True\<rparr> else s\<lparr>line_state := process v (line_state s)\<rparr>)\<lparr>line_pool := p, line_taken := None\<rparr> = s1"
    using over by (cases s) (simp add: s1_def)
  finally have step: "recv_step sentinel process ws s = Done s1" .
  have cons: "in_line s = v # in_line s1" unfolding s1_def by (rule p(5))
  have cells: "line_cells bits (left (line_sender s)) s1" unfolding s1_def by (rule p(4))
  have flow: "line_flow sentinel (left (line_sender s)) (sentinel v) (in_line s1)"
    using s(2) over line_flow_Cons unfolding cons by (simp add: s1)
  obtain ds where "line_state s = fold process (filter (\<lambda>v. \<not> sentinel v) ds) u0" "sent (line_sender s) = ds @ in_line s"
    using inv by (auto simp: line_inv_def)
  then have "line_state s1 = fold process (filter (\<lambda>v. \<not> sentinel v) (ds @ [v])) u0 \<and> sent (line_sender s1) = (ds @ [v]) @ in_line s1"
    unfolding cons by (simp add: s1)
  moreover have "case holds (line_sender s) of None \<Rightarrow> line_hand s = None
      | Some v \<Rightarrow> \<exists>x. line_hand s = Some (Some x) \<and> pool_object p x = Some v"
    using inv p(6) by (auto simp: line_inv_def hand_cells_def split: option.splits)
  ultimately have "line_inv cells process u0 bits s1"
    using inv cells flow p(3) unfolding line_inv_def s1 by auto
  moreover have "line_rank s1 < line_rank s"
    using taken left_holds inv by (auto simp: line_rank_def taken_cells_def line_inv_def s1 split: option.splits)
  ultimately show ?thesis using step over taken by (auto simp: progress_def line_waits_def)
qed

lemma recv_progress:
  assumes "line_inv cells process u0 bits s" "False \<in> set ws"
  shows "\<exists>s'. recv_step sentinel process ws s = Done s' \<and> progress cells process u0 bits s s' (line_waits 1 s)"
proof -
  have s: "line_cells bits (left (line_sender s)) s" using assms by (simp add: line_inv_def)
  consider "line_over s" | "\<not> line_over s" "line_taken s = None" "conduit_items (line_pipe s) = []"
    | x xs where "\<not> line_over s" "line_taken s = None" "conduit_items (line_pipe s) = x # xs"
    | x where "\<not> line_over s" "line_taken s = Some (pool_ptr () x)"
    using s by (cases "conduit_items (line_pipe s)") (auto simp: line_cells_def)
  then show ?thesis
  proof cases
    case 1
    then show ?thesis using assms by (simp add: recv_step_def progress_def line_waits_def)
  next
    case 2
    have "conduit_inv (line_pipe s)" using s by (simp add: line_cells_def cell_ledger_def)
    then have step: "recv_step sentinel process ws s = Done (s\<lparr>line_taken := None\<rparr>)"
      using 2 conduit_pop_nothing [OF _ 2(3), of "()"] by (simp add: recv_step_def event_ptr_defs)
    have eta: "s\<lparr>line_taken := None\<rparr> = s" using 2(2) by (cases s) simp
    show ?thesis using assms 2 step unfolding eta by (simp add: progress_def line_waits_def)
  next
    case 3
    obtain q where q: "conduit_pop () (line_pipe s) = (pool_ptr () x, q)" "conduit_items q = xs"
        "line_cells bits (left (line_sender s)) (s\<lparr>line_pipe := q, line_taken := Some (pool_ptr () x)\<rparr>)"
        "in_line (s\<lparr>line_pipe := q, line_taken := Some (pool_ptr () x)\<rparr>) = in_line s"
      using line_pop [OF s 3(2,3)] by blast
    let ?s = "s\<lparr>line_pipe := q, line_taken := Some (pool_ptr () x)\<rparr>"
    have step: "recv_step sentinel process ws s = Done ?s"
      using 3(1,2) q(1) by (simp add: recv_step_def) (simp add: event_ptr_defs)
    have "line_inv cells process u0 bits ?s" using assms q(3,4) by (auto simp: line_inv_def split: option.splits)
    moreover have "line_rank ?s < line_rank s" using 3(2,3) q(2) by (auto simp: line_rank_def taken_cells_def)
    ultimately show ?thesis using step 3 by (auto simp: progress_def line_waits_def)
  next
    case 4
    then show ?thesis using recv_takes [OF assms] by blast
  qed
qed

lemma signal_progress:
  assumes "line_inv cells process u0 bits s"
  shows "line_inv cells process u0 bits (s\<lparr>line_sender := signal (line_sender s)\<rparr>)"
    and "line_rank (s\<lparr>line_sender := signal (line_sender s)\<rparr>) \<le> line_rank s"
    and "line_waits t (s\<lparr>line_sender := signal (line_sender s)\<rparr>) = line_waits t s"
proof -
  have c: "sound (signal (line_sender s))" "holds (signal (line_sender s)) = holds (line_sender s)"
      "left (signal (line_sender s)) \<le> left (line_sender s)" "left (signal (line_sender s)) = 0 \<longleftrightarrow> left (line_sender s) = 0"
      "sent (signal (line_sender s)) = sent (line_sender s)"
    using assms signal_keeps by (auto simp: line_inv_def)
  have "line_cells bits (left (signal (line_sender s))) (s\<lparr>line_sender := signal (line_sender s)\<rparr>)"
    using assms c(3) by (auto simp: line_inv_def line_cells_simps)
  moreover have "in_line (s\<lparr>line_sender := signal (line_sender s)\<rparr>) = in_line s" by (simp add: in_line_def taken_cells_def)
  moreover have "line_flow sentinel (left (signal (line_sender s))) (line_over s) (in_line s)"
    using assms c(4) by (simp add: line_inv_def line_flow_def)
  ultimately show "line_inv cells process u0 bits (s\<lparr>line_sender := signal (line_sender s)\<rparr>)"
    using assms c by (auto simp: line_inv_def split: option.splits)
  show "line_rank (s\<lparr>line_sender := signal (line_sender s)\<rparr>) \<le> line_rank s"
    using c(3) by (auto simp: line_rank_def taken_cells_def)
  show "line_waits t (s\<lparr>line_sender := signal (line_sender s)\<rparr>) = line_waits t s"
    using c(4) by (simp add: line_waits_def)
qed

lemma line_start_inv:
  assumes "sound c" "holds c = None" "sent c = []" "0 < left c" "left c \<le> cells" "cells \<le> 0xFFFFFFFF" "left c < slots" "slots < 2 ^ 64"
  shows "\<exists>s. line_start cells slots junk c u0 = Done s \<and> line_inv cells process u0 bits s \<and> line_rank s = 4 * left c"
proof -
  let ?q = "conduit_init (map junk [0..<slots])"
  have q: "conduit_inv ?q" "conduit_items ?q = []" "conduit_room ?q = slots - 1"
    using conduit_fresh [of "map junk [0..<slots]"] assms(7,8) by simp_all
  obtain p where p: "pool_ctor cells = Done p" "cell_ledger bits {0} {#} p (\<lambda>_. ?q)" "length (memory p) = cells"
    using ledger_start [of cells "{0}" "\<lambda>_. ?q" bits] assms(4-6) q by auto
  let ?s = "\<lparr>line_pool = p, line_pipe = ?q, line_sender = c, line_hand = None, line_taken = None, line_state = u0, line_over = False\<rparr>"
  have "line_cells bits (left c) ?s"
    using p(2,3) assms(5,7) q by (simp add: line_cells_simps)
  moreover have "in_line ?s = []" by (simp add: in_line_def taken_cells_def q(2))
  ultimately have "line_inv cells process u0 bits ?s"
    using assms p(3) by (simp add: line_inv_def line_flow_def)
  moreover have "line_rank ?s = 4 * left c" by (simp add: line_rank_def taken_cells_def q(2))
  ultimately show ?thesis using p by (simp add: line_start_def)
qed

text \<open>When the rank is used up, both threads have ended.\<close>

lemma line_end:
  assumes "line_inv cells process u0 bits s" "line_rank s = 0"
  shows "line_over s" "left (line_sender s) = 0" "line_hand s = None"
    "line_state s = fold process (filter (\<lambda>v. \<not> sentinel v) (sent (line_sender s))) u0"
    "distinct (pool_free_cells bits (line_pool s))" "set (pool_free_cells bits (line_pool s)) = {..<cells}"
    "sound (line_sender s)"
proof -
  have "line_hand s \<noteq> None \<Longrightarrow> 0 < left (line_sender s)"
    using assms(1) left_holds by (auto simp: line_inv_def split: option.splits)
  then have s: "left (line_sender s) = 0" "line_hand s = None" "conduit_items (line_pipe s) = []" "taken_cells s = []"
    using assms(2) by (auto simp: line_rank_def split: if_splits)
  then have i: "in_line s = []" by (simp add: in_line_def)
  show "left (line_sender s) = 0" "line_hand s = None" using s by simp_all
  show "line_over s" using assms(1) s(1) i by (auto simp: line_inv_def line_flow_def split: if_splits)
  show "line_state s = fold process (filter (\<lambda>v. \<not> sentinel v) (sent (line_sender s))) u0"
    using assms(1) i by (auto simp: line_inv_def)
  have "cell_ledger bits {0} {#} (line_pool s) (\<lambda>_. line_pipe s)"
    using assms(1) s(2,4) by (simp add: line_inv_def line_cells_def hand_cells_def)
  from ledger_idle [OF this] s(3)
  show "distinct (pool_free_cells bits (line_pool s))" "set (pool_free_cells bits (line_pool s)) = {..<cells}"
    using assms(1) by (simp_all add: queued_def line_inv_def)
  show "sound (line_sender s)" using assms(1) by (simp add: line_inv_def)
qed

end

sublocale sender \<subseteq> ln: fair_system "line_step nxt made pushed signal sentinel process bits (lets_succeed ws)"
    "line_inv cells process u0 bits" line_waits line_rank "{0, 1}"
  for cells and process :: "'a \<Rightarrow> 'u \<Rightarrow> 'u" and bits ws u0
proof unfold_locales
  fix s :: "('a, 'c, 'u) line" and t :: nat
  assume inv: "line_inv cells process u0 bits s"
  show "\<exists>s'. line_step nxt made pushed signal sentinel process bits (lets_succeed ws) t s = Done s' \<and> line_inv cells process u0 bits s' \<and>
      line_rank s' \<le> line_rank s \<and> (\<not> line_waits t s \<longrightarrow> line_rank s' < line_rank s) \<and>
      (line_rank s' = line_rank s \<longrightarrow> (\<forall>u. line_waits u s' = line_waits u s))"
  proof -
    consider "t = 0" | "t = 1" | "1 < t" by linarith
    then show ?thesis
    proof cases
      case 1
      then show ?thesis using send_progress [OF inv lets_succeed [of ws]] by (cases "line_waits 0 s") (auto simp: line_step_def progress_def)
    next
      case 2
      then show ?thesis using recv_progress [OF inv lets_succeed [of ws]] by (cases "line_waits 1 s") (auto simp: line_step_def progress_def)
    next
      case 3
      then have "line_waits t s" by (simp add: line_waits_def)
      then show ?thesis using 3 signal_progress [OF inv] by (simp add: line_step_def)
    qed
  qed
  show "\<exists>t \<in> {0, 1}. \<not> line_waits t s" if "line_rank s \<noteq> 0"
    using that inv by (auto simp: line_waits_def line_rank_def taken_cells_def line_inv_def line_flow_def in_line_def
        split: if_splits option.splits)
qed

context sender
begin

text \<open>In a schedule that is fair to the two threads the line comes to its end, signals or not: every event
  that was sent has been processed in order, and all cells are free.\<close>

lemma line_completes:
  fixes process :: "'a \<Rightarrow> 'u \<Rightarrow> 'u"
  assumes "sound c" "holds c = None" "sent c = []" "0 < left c" "left c \<le> cells" "cells \<le> 0xFFFFFFFF" "left c < slots" "slots < 2 ^ 64"
    and "False \<in> set ws" "\<forall>turn \<in> set turns. {0, 1} \<subseteq> set turn" "4 * left c \<le> length turns"
  shows "\<exists>s s'. line_start cells slots junk c u0 = Done s \<and>
    run_threads (line_step nxt made pushed signal sentinel process bits ws) (concat turns) s = Done s' \<and>
    line_over s' \<and> left (line_sender s') = 0 \<and> sound (line_sender s') \<and> line_hand s' = None \<and>
    line_state s' = fold process (filter (\<lambda>v. \<not> sentinel v) (sent (line_sender s'))) u0 \<and>
    distinct (pool_free_cells bits (line_pool s')) \<and> set (pool_free_cells bits (line_pool s')) = {..<cells}"
proof -
  obtain s where s: "line_start cells slots junk c u0 = Done s" "line_inv cells process u0 bits s" "line_rank s = 4 * left c"
    using line_start_inv [OF assms(1-8), of junk u0 process bits] by blast
  obtain s' where s': "run_threads (line_step nxt made pushed signal sentinel process bits (lets_succeed ws)) (concat turns) s = Done s'"
      "line_inv cells process u0 bits s'" "line_rank s' = 0"
    using ln.fair_run [OF assms(10) s(2)] s(3) assms(11) by auto
  have "lets_succeed ws = ws" using assms(9) by (simp add: lets_succeed_def)
  then show ?thesis using s(1) s'(1) line_end [OF s'(2,3)] by auto
qed

end

end
