(* ===== verification/Graceful_Drain.thy ===== *)
theory Graceful_Drain
  imports Event_Line
begin

text \<open>
  \<open>examples/03_resilience_and_control/03_graceful_drain.cpp\<close>, an event line whose main thread sends work until it
  is told to stop and then a poison pill. The domain has one event type, so that its only pool
  is the pool of the line. Sleeping leaves the schedule open; the constant output is left out.
\<close>

section \<open>Graceful drain\<close>

record work_event =
  work_id :: int
  is_poison_pill :: bool

definition traffic_event :: "nat \<Rightarrow> work_event" where
  "traffic_event n = \<lparr>work_id = int n, is_poison_pill = False\<rparr>"

definition poison_pill :: work_event where
  "poison_pill = \<lparr>work_id = - 1, is_poison_pill = True\<rparr>"

text \<open>Where the main thread is: at the condition of its loop, with an event to push, at the loop that
  sends the pill, with a pill to push, or in \<open>join\<close>.\<close>

datatype drain_pc = Traffic | Sending | Drain | Sending_Pill | Join

record drain =
  event_counter :: nat
  shutdown_requested :: bool
  drain_pc :: drain_pc

definition drain_start :: drain where
  "drain_start = \<lparr>event_counter = 0, shutdown_requested = False, drain_pc = Traffic\<rparr>"

definition drain_next :: "drain \<Rightarrow> work_event option" where
  "drain_next c =
     (case drain_pc c of
        Traffic \<Rightarrow> Some (if shutdown_requested c then poison_pill else traffic_event (event_counter c))
      | Drain \<Rightarrow> Some poison_pill
      | _ \<Rightarrow> None)"

definition drain_made :: "drain \<Rightarrow> drain" where
  "drain_made c =
     (case drain_pc c of
        Traffic \<Rightarrow>
          if shutdown_requested c then c\<lparr>drain_pc := Sending_Pill\<rparr>
          else c\<lparr>event_counter := event_counter c + 1, drain_pc := Sending\<rparr>
      | Drain \<Rightarrow> c\<lparr>drain_pc := Sending_Pill\<rparr>
      | _ \<Rightarrow> c)"

definition drain_pushed :: "bool \<Rightarrow> drain \<Rightarrow> drain" where
  "drain_pushed ok c =
     (case drain_pc c of
        Sending \<Rightarrow> c\<lparr>shutdown_requested := shutdown_requested c \<or> event_counter c = 50, drain_pc := Traffic\<rparr>
      | Sending_Pill \<Rightarrow> c\<lparr>drain_pc := if ok then Join else Drain\<rparr>
      | _ \<Rightarrow> c)"

definition signal_handler :: "drain \<Rightarrow> drain" where
  "signal_handler c = c\<lparr>shutdown_requested := True\<rparr>"

text \<open>The worker counts what it processes.\<close>

definition process_work :: "work_event \<Rightarrow> int \<Rightarrow> int" where
  "process_work ev processed = processed + 1"

abbreviation drain_run ::
  "(work_event \<Rightarrow> u64) \<Rightarrow> bool list \<Rightarrow> nat list \<Rightarrow> (work_event, drain, int) line \<Rightarrow> (work_event, drain, int) line outcome" where
  "drain_run bits ws \<equiv>
     run_threads (line_step drain_next drain_made drain_pushed signal_handler is_poison_pill process_work bits ws)"

definition drain_holds :: "drain \<Rightarrow> work_event option" where
  "drain_holds c =
     (case drain_pc c of Sending \<Rightarrow> Some (traffic_event (event_counter c - 1)) | Sending_Pill \<Rightarrow> Some poison_pill | _ \<Rightarrow> None)"

definition drain_left :: "drain \<Rightarrow> nat" where
  "drain_left c =
     (case drain_pc c of
        Traffic \<Rightarrow> if shutdown_requested c then 1 else 51 - event_counter c
      | Sending \<Rightarrow> if shutdown_requested c then 2 else 52 - event_counter c
      | Join \<Rightarrow> 0
      | _ \<Rightarrow> 1)"

definition drain_sent :: "drain \<Rightarrow> work_event list" where
  "drain_sent c =
     map traffic_event [0..<event_counter c - of_bool (drain_pc c = Sending)] @ (if drain_pc c = Join then [poison_pill] else [])"

definition drain_sound :: "drain \<Rightarrow> bool" where
  "drain_sound c \<longleftrightarrow>
     event_counter c \<le> 50 \<and>
     (case drain_pc c of
        Traffic \<Rightarrow> shutdown_requested c \<or> event_counter c < 50
      | Sending \<Rightarrow> 0 < event_counter c
      | _ \<Rightarrow> True)"

interpretation gd: sender drain_next drain_made drain_pushed signal_handler is_poison_pill drain_holds drain_left drain_sent drain_sound
proof unfold_locales
  fix c v
  assume sound: "drain_sound c"
  note defs = drain_sound_def drain_holds_def drain_left_def drain_sent_def drain_next_def drain_made_def drain_pushed_def
    signal_handler_def traffic_event_def poison_pill_def
  show "drain_holds c = None \<Longrightarrow> (drain_next c = None) = (drain_left c = 0)"
    using sound by (cases "drain_pc c") (auto simp: defs)
  show "drain_holds c \<noteq> None \<Longrightarrow> 0 < drain_left c"
    using sound by (cases "drain_pc c") (auto simp: defs)
  show "drain_holds c = None \<Longrightarrow> drain_next c = Some v \<Longrightarrow> drain_sound (drain_made c) \<and> drain_holds (drain_made c) = Some v \<and>
      drain_left (drain_made c) = drain_left c \<and> drain_sent (drain_made c) = drain_sent c"
    using sound by (cases "drain_pc c") (auto simp: defs)
  show "drain_holds c = Some v \<Longrightarrow> drain_sound (drain_pushed True c) \<and> drain_holds (drain_pushed True c) = None \<and>
      drain_left (drain_pushed True c) < drain_left c \<and> (drain_left (drain_pushed True c) = 0) = is_poison_pill v \<and>
      drain_sent (drain_pushed True c) = drain_sent c @ [v]"
    using sound by (cases "drain_pc c"; cases "event_counter c") (auto simp: defs)
  show "drain_sound (signal_handler c) \<and> drain_holds (signal_handler c) = drain_holds c \<and>
      drain_left (signal_handler c) \<le> drain_left c \<and> (drain_left (signal_handler c) = 0) = (drain_left c = 0) \<and>
      drain_sent (signal_handler c) = drain_sent c"
    using sound by (cases "drain_pc c") (auto simp: defs)
qed

lemma drain_processed: "fold process_work vs n = n + int (length vs)"
  by (induction vs arbitrary: n) (simp_all add: process_work_def)

lemma drain_sent_traffic: "drain_pc c \<noteq> Sending \<Longrightarrow> length (filter (\<lambda>v. \<not> is_poison_pill v) (drain_sent c)) = event_counter c"
  by (simp add: drain_sent_def traffic_event_def poison_pill_def filter_map comp_def)

text \<open>C12: The drain is graceful: in every schedule that keeps giving turns to both threads, with shutdown signals
  at any moments, the program ends; the worker has left its loop by the poison pill after
  processing every event the main thread counted, at most 50, and all 1024 cells are free.\<close>

theorem graceful_drain_completes:
  assumes "False \<in> set ws" "\<forall>turn \<in> set turns. {0, 1} \<subseteq> set turn" "204 \<le> length turns"
  shows "\<exists>s s'. line_start 1024 1024 junk drain_start 0 = Done s \<and> drain_run bits ws (concat turns) s = Done s' \<and>
    line_over s' \<and> drain_pc (line_sender s') = Join \<and> line_state s' = int (event_counter (line_sender s')) \<and>
    event_counter (line_sender s') \<le> 50 \<and>
    distinct (pool_free_cells bits (line_pool s')) \<and> set (pool_free_cells bits (line_pool s')) = {..<1024}"
proof -
  have start: "drain_sound drain_start" "drain_holds drain_start = None" "drain_sent drain_start = []" "drain_left drain_start = 51"
    by (simp_all add: drain_start_def drain_sound_def drain_holds_def drain_sent_def drain_left_def)
  obtain s s' where s: "line_start 1024 1024 junk drain_start 0 = Done s" "drain_run bits ws (concat turns) s = Done s'"
      "line_over s'" "drain_left (line_sender s') = 0" "drain_sound (line_sender s')"
      "line_state s' = fold process_work (filter (\<lambda>v. \<not> is_poison_pill v) (drain_sent (line_sender s'))) 0"
      "distinct (pool_free_cells bits (line_pool s'))" "set (pool_free_cells bits (line_pool s')) = {..<1024}"
    using gd.line_completes [OF start(1-3) _ _ _ _ _ assms(1,2), of 1024 1024 junk 0 process_work bits] start(4) assms(3) by auto
  have join: "drain_pc (line_sender s') = Join"
    using s(4,5) by (auto simp: drain_left_def drain_sound_def split: drain_pc.splits if_splits)
  then show ?thesis using s by (auto simp: drain_processed drain_sent_traffic drain_sound_def)
qed

theorem graceful_drain_completes_witness:
  "\<exists>s s'. line_start 1024 1024 (\<lambda>_. None) drain_start 0 = Done s \<and>
     drain_run (\<lambda>_. 0) [True, False] (concat (replicate 100 [0, 1] @ [0, 1, 2] # replicate 200 [1, 0])) s = Done s' \<and>
     line_over s' \<and> line_state s' = int (event_counter (line_sender s'))"
  using graceful_drain_completes [of "[True, False]" "replicate 100 [0, 1] @ [0, 1, 2] # replicate 200 [1, 0]" "\<lambda>_. None" "\<lambda>_. 0"]
  by auto

text \<open>A pointer that finds the conduit full is gone: its cell is neither free nor queued nor held.\<close>

lemma refused_push_leaks:
  assumes "line_cells bits n s" "line_hand s = Some (Some x)"
    and "length (conduit_items (line_pipe s)) = conduit_room (line_pipe s)"
  shows "\<exists>s'. send_step nxt made pushed bits ws s = Done s' \<and> line_hand s' = None \<and> line_sender s' = pushed False (line_sender s) \<and>
    x \<notin> set (pool_free_cells bits (line_pool s')) \<and> x \<notin> set (conduit_items (line_pipe s')) \<and> x \<notin> set (taken_cells s')"
proof -
  have l: "cell_ledger bits {0} (add_mset x (mset (taken_cells s))) (line_pool s) (\<lambda>_. line_pipe s)"
    using assms(1,2) by (simp add: line_cells_simps)
  have "conduit_inv (line_pipe s)" using l by (simp add: cell_ledger_def)
  then have "conduit_push (Some x) (line_pipe s) = (False, line_pipe s)" using conduit_push_refused [of "line_pipe s" "Some x"] assms(3) by simp
  then show ?thesis
    using ledger_cell [OF l] assms(2) by (auto simp: send_step_def queued_def taken_cells_def)
qed

end
