(* ===== verification/Script_Line.thy ===== *)
theory Script_Line
  imports Event_Line Console
begin

text \<open>
  Event lines that send a fixed sequence of events: \<open>examples/02_concurrency_and_routing/01_lockfree_spsc_bus.cpp\<close>
  and \<open>examples/03_resilience_and_control/02_heartbeat_timeouts.cpp\<close>. Sleeping and yielding leave the schedule
  open, and the readings of the clock are a parameter.
\<close>

section \<open>A fixed sequence of events\<close>

text \<open>The events a thread sends one after another; \<open>True\<close> marks those it sends in a loop until the conduit
  has room.\<close>

record 'a script =
  script_sends :: "(bool \<times> 'a) list"
  script_index :: nat
  script_holding :: bool

definition script_next :: "'a script \<Rightarrow> 'a option" where
  "script_next c = (if script_index c < length (script_sends c) then Some (snd (script_sends c ! script_index c)) else None)"

definition script_made :: "'a script \<Rightarrow> 'a script" where
  "script_made c = c\<lparr>script_holding := True\<rparr>"

definition script_pushed :: "bool \<Rightarrow> 'a script \<Rightarrow> 'a script" where
  "script_pushed ok c =
     c\<lparr>script_index := if ok \<or> \<not> fst (script_sends c ! script_index c) then script_index c + 1 else script_index c,
       script_holding := False\<rparr>"

definition script_start :: "(bool \<times> 'a) list \<Rightarrow> 'a script" where
  "script_start sends = \<lparr>script_sends = sends, script_index = 0, script_holding = False\<rparr>"

definition script_holds :: "'a script \<Rightarrow> 'a option" where
  "script_holds c = (if script_holding c then Some (snd (script_sends c ! script_index c)) else None)"

definition script_left :: "'a script \<Rightarrow> nat" where
  "script_left c = length (script_sends c) - script_index c"

definition script_sent :: "'a script \<Rightarrow> 'a list" where
  "script_sent c = map snd (take (script_index c) (script_sends c))"

text \<open>The script is followed, and its last event is the only sentinel.\<close>

definition script_sound :: "('a \<Rightarrow> bool) \<Rightarrow> (bool \<times> 'a) list \<Rightarrow> 'a script \<Rightarrow> bool" where
  "script_sound sentinel sends c \<longleftrightarrow>
     script_sends c = sends \<and> script_index c \<le> length sends \<and> (script_holding c \<longrightarrow> script_index c < length sends) \<and>
     (\<forall>i < length sends. sentinel (snd (sends ! i)) \<longleftrightarrow> Suc i = length sends)"

interpretation sc: sender script_next script_made script_pushed id sentinel script_holds script_left script_sent "script_sound sentinel sends"
  for sentinel :: "'a \<Rightarrow> bool" and sends
proof unfold_locales
  fix c v
  assume sound: "script_sound sentinel sends c"
  note defs = script_sound_def script_holds_def script_left_def script_sent_def script_next_def script_made_def script_pushed_def
  show "script_holds c = None \<Longrightarrow> (script_next c = None) = (script_left c = 0)" using sound by (simp add: defs)
  show "script_holds c \<noteq> None \<Longrightarrow> 0 < script_left c" using sound by (simp add: defs split: if_splits)
  show "script_holds c = None \<Longrightarrow> script_next c = Some v \<Longrightarrow> script_sound sentinel sends (script_made c) \<and>
      script_holds (script_made c) = Some v \<and> script_left (script_made c) = script_left c \<and> script_sent (script_made c) = script_sent c"
    using sound by (auto simp: defs split: if_splits)
  show "script_holds c = Some v \<Longrightarrow> script_sound sentinel sends (script_pushed True c) \<and> script_holds (script_pushed True c) = None \<and>
      script_left (script_pushed True c) < script_left c \<and> (script_left (script_pushed True c) = 0) = sentinel v \<and>
      script_sent (script_pushed True c) = script_sent c @ [v]"
    using sound by (auto simp: defs take_Suc_conv_app_nth split: if_splits)
  show "script_sound sentinel sends (id c) \<and> script_holds (id c) = script_holds c \<and> script_left (id c) \<le> script_left c \<and>
      (script_left (id c) = 0) = (script_left c = 0) \<and> script_sent (id c) = script_sent c"
    using sound by simp
qed

lemma butlast_sends:
  assumes "\<forall>i < length sends. sentinel (snd (sends ! i)) \<longleftrightarrow> Suc i = length sends" "sends \<noteq> []"
  shows "filter (\<lambda>v. \<not> sentinel v) (map snd sends) = map snd (butlast sends)"
proof -
  obtain vs w where sends: "sends = vs @ [w]" using assms(2) by (cases sends rule: rev_cases) auto
  have "\<not> sentinel (snd v)" if "v \<in> set vs" for v
    using that assms(1) by (auto simp: sends in_set_conv_nth nth_append split: if_splits)
  moreover have "sentinel (snd w)" using assms(1) by (auto simp: sends nth_append)
  ultimately show ?thesis by (simp add: sends filter_id_conv)
qed

abbreviation script_run ::
  "('a \<Rightarrow> bool) \<Rightarrow> ('a \<Rightarrow> 'u \<Rightarrow> 'u) \<Rightarrow> ('a \<Rightarrow> u64) \<Rightarrow> bool list \<Rightarrow> nat list \<Rightarrow> ('a, 'a script, 'u) line \<Rightarrow> ('a, 'a script, 'u) line outcome" where
  "script_run sentinel process bits ws \<equiv>
     run_threads (line_step script_next script_made script_pushed id sentinel process bits ws)"

lemma script_completes:
  fixes process :: "'a \<Rightarrow> 'u \<Rightarrow> 'u"
  assumes "\<forall>i < length sends. sentinel (snd (sends ! i)) \<longleftrightarrow> Suc i = length sends" "sends \<noteq> []"
    and "length sends \<le> cells" "cells \<le> 0xFFFFFFFF" "length sends < slots" "slots < 2 ^ 64"
    and "False \<in> set ws" "\<forall>turn \<in> set turns. {0, 1} \<subseteq> set turn" "4 * length sends \<le> length turns"
  shows "\<exists>s s'. line_start cells slots junk (script_start sends) u = Done s \<and>
    script_run sentinel process bits ws (concat turns) s = Done s' \<and> line_over s' \<and>
    line_state s' = fold process (map snd (butlast sends)) u \<and>
    distinct (pool_free_cells bits (line_pool s')) \<and> set (pool_free_cells bits (line_pool s')) = {..<cells}"
proof -
  have start: "script_sound sentinel sends (script_start sends)" "script_holds (script_start sends) = None"
      "script_sent (script_start sends) = []" "script_left (script_start sends) = length sends"
    using assms(1) by (simp_all add: script_start_def script_sound_def script_holds_def script_sent_def script_left_def)
  obtain s s' where s: "line_start cells slots junk (script_start sends) u = Done s"
      "script_run sentinel process bits ws (concat turns) s = Done s'" "line_over s'"
      "script_left (line_sender s') = 0" "script_sound sentinel sends (line_sender s')"
      "line_state s' = fold process (filter (\<lambda>v. \<not> sentinel v) (script_sent (line_sender s'))) u"
      "distinct (pool_free_cells bits (line_pool s'))" "set (pool_free_cells bits (line_pool s')) = {..<cells}"
    using sc.line_completes [OF start(1-3) _ _ assms(4) _ assms(6-8), of junk u process bits] start(4) assms(2,3,5,9) by auto
  have "script_sent (line_sender s') = map snd sends"
    using s(4,5) by (auto simp: script_left_def script_sound_def script_sent_def)
  moreover have "filter (\<lambda>v. \<not> sentinel v) (map snd sends) = map snd (butlast sends)"
    using assms(1,2) by (rule butlast_sends)
  ultimately show ?thesis using s by auto
qed

section \<open>The telemetry bus\<close>

record telemetry_event =
  sensor_id :: int
  sensor_value :: double

definition termination_sentinel :: "telemetry_event \<Rightarrow> bool" where
  "termination_sentinel ev \<longleftrightarrow> sensor_id ev = - 1"

definition background_processor :: "telemetry_event \<Rightarrow> console \<Rightarrow> console" where
  "background_processor ev out =
     out @ [[Text ''[Thread] Processed sensor '', Num (sensor_id ev), Text '' value: '', Real (sensor_value ev), Newline]]"

definition hardware_bus_sends :: "(bool \<times> telemetry_event) list" where
  "hardware_bus_sends =
     [(False, \<lparr>sensor_id = 1, sensor_value = dbl_lit 425 1\<rparr>), (False, \<lparr>sensor_id = 2, sensor_value = dbl_lit 999 1\<rparr>),
      (False, \<lparr>sensor_id = - 1, sensor_value = dbl_lit 0 1\<rparr>)]"

lemma hardware_bus_prints:
  assumes "False \<in> set ws" "\<forall>turn \<in> set turns. {0, 1} \<subseteq> set turn" "12 \<le> length turns"
  shows "\<exists>s s'. line_start 1024 1024 junk (script_start hardware_bus_sends) [[Text ''[Main] Generating telemetry...'', Newline]] = Done s \<and>
    script_run termination_sentinel background_processor bits ws (concat turns) s = Done s' \<and> line_over s' \<and>
    line_state s' = [[Text ''[Main] Generating telemetry...'', Newline],
      [Text ''[Thread] Processed sensor '', Num 1, Text '' value: '', Real (dbl_lit 425 1), Newline],
      [Text ''[Thread] Processed sensor '', Num 2, Text '' value: '', Real (dbl_lit 999 1), Newline]] \<and>
    distinct (pool_free_cells bits (line_pool s')) \<and> set (pool_free_cells bits (line_pool s')) = {..<1024}"
proof -
  have "\<forall>i < length hardware_bus_sends. termination_sentinel (snd (hardware_bus_sends ! i)) \<longleftrightarrow> Suc i = length hardware_bus_sends"
    by (auto simp: hardware_bus_sends_def termination_sentinel_def less_Suc_eq)
  note run = script_completes [OF this _ _ _ _ _ assms(1,2), of 1024 1024 junk "[[Text ''[Main] Generating telemetry...'', Newline]]"
      background_processor bits]
  show ?thesis using run assms(3) by (simp add: hardware_bus_sends_def background_processor_def)
qed

section \<open>Heartbeats\<close>

record heartbeat_tick =
  timestamp_ms :: u64

record connection_monitor =
  last_activity_ms :: u64
  monitor_out :: console

definition update_activity :: "u64 \<Rightarrow> connection_monitor \<Rightarrow> connection_monitor" where
  "update_activity current_time m = m\<lparr>last_activity_ms := current_time\<rparr>"

definition connection_monitor_on :: "heartbeat_tick \<Rightarrow> connection_monitor \<Rightarrow> connection_monitor" where
  "connection_monitor_on ev m =
     (let idle_time = timestamp_ms ev - last_activity_ms m;
          m = m\<lparr>monitor_out := monitor_out m @
            [[Text ''[Monitor] Heartbeat received. Idle for: '', Num (uint idle_time), Text ''ms.'', Newline]]\<rparr>
      in if 2000 < idle_time
         then m\<lparr>monitor_out := monitor_out m @ [[Text ''[Monitor] WARNING: Connection Timeout! Dropping session.'', Newline]]\<rparr>
         else m)"

definition exit_tick :: "heartbeat_tick \<Rightarrow> bool" where
  "exit_tick ev \<longleftrightarrow> timestamp_ms ev = 0"

text \<open>Three readings of the clock, each sent until there is room, and the exit signal, sent once.\<close>

definition chronos_sends :: "u64 list \<Rightarrow> (bool \<times> heartbeat_tick) list" where
  "chronos_sends nows = map (\<lambda>now. (True, \<lparr>timestamp_ms = now\<rparr>)) nows @ [(False, \<lparr>timestamp_ms = 0\<rparr>)]"

definition monitor_start :: "u64 \<Rightarrow> connection_monitor" where
  "monitor_start now = update_activity now \<lparr>last_activity_ms = 0, monitor_out = []\<rparr>"

definition report :: "u64 \<Rightarrow> u64 \<Rightarrow> console" where
  "report now0 now =
     [Text ''[Monitor] Heartbeat received. Idle for: '', Num (uint (now - now0)), Text ''ms.'', Newline] #
     (if 2000 < now - now0 then [[Text ''[Monitor] WARNING: Connection Timeout! Dropping session.'', Newline]] else [])"

lemma monitor_reports:
  "fold connection_monitor_on (map (\<lambda>now. \<lparr>timestamp_ms = now\<rparr>) nows) m =
     m\<lparr>monitor_out := monitor_out m @ concat (map (report (last_activity_ms m)) nows)\<rparr>"
  by (induction nows arbitrary: m) (simp_all add: connection_monitor_on_def report_def Let_def)

text \<open>The heartbeat program ends in every schedule that keeps giving turns to both threads, provided the
  clock never reads zero; every heartbeat is reported once, in order, with the time since the
  start and a timeout warning exactly when that is more than two seconds; all cells are free.\<close>

theorem heartbeats_reported:
  assumes "length nows = 3" "0 \<notin> set nows"
    and "False \<in> set ws" "\<forall>turn \<in> set turns. {0, 1} \<subseteq> set turn" "16 \<le> length turns"
  shows "\<exists>s s'. line_start 1024 1024 junk (script_start (chronos_sends nows)) (monitor_start now0) = Done s \<and>
    script_run exit_tick connection_monitor_on bits ws (concat turns) s = Done s' \<and> line_over s' \<and>
    monitor_out (line_state s') = concat (map (report now0) nows) \<and>
    distinct (pool_free_cells bits (line_pool s')) \<and> set (pool_free_cells bits (line_pool s')) = {..<1024}"
proof -
  have "\<forall>i < length (chronos_sends nows). exit_tick (snd (chronos_sends nows ! i)) \<longleftrightarrow> Suc i = length (chronos_sends nows)"
    using assms(2) by (auto simp: chronos_sends_def exit_tick_def nth_append) (metis nth_mem)
  note run = script_completes [OF this _ _ _ _ _ assms(3,4), of 1024 1024 junk "monitor_start now0" connection_monitor_on bits]
  have "map snd (butlast (chronos_sends nows)) = map (\<lambda>now. \<lparr>timestamp_ms = now\<rparr>) nows"
    by (simp add: chronos_sends_def comp_def)
  moreover have "length (chronos_sends nows) = 4" "chronos_sends nows \<noteq> []" using assms(1) by (simp_all add: chronos_sends_def)
  ultimately show ?thesis
    using run assms(5) by (fastforce simp: monitor_reports monitor_start_def update_activity_def)
qed

theorem heartbeats_reported_witness:
  "\<exists>s s'. line_start 1024 1024 (\<lambda>_. None) (script_start (chronos_sends [2000, 3001, 4002])) (monitor_start 1000) = Done s \<and>
     script_run exit_tick connection_monitor_on (\<lambda>_. 0) [False] (concat (replicate 16 [0, 1])) s = Done s' \<and> line_over s' \<and>
     monitor_out (line_state s') = report 1000 2000 @ report 1000 3001 @ report 1000 4002"
  using heartbeats_reported [of "[2000, 3001, 4002]" "[False]" "replicate 16 [0, 1]" "\<lambda>_. None" 1000 "\<lambda>_. 0"] by auto

text \<open>The subtraction wraps: a clock set back by one millisecond is reported as a timeout.\<close>

lemma clock_set_back_warns: "now0 \<noteq> 0 \<Longrightarrow> length (report now0 (now0 - 1)) = 2"
  by (simp add: report_def)

end
