(* ===== verification/Double_Bounds.thy ===== *)
theory Double_Bounds
  imports Double Complex_Main
begin

text \<open>
  Rounding and order: the number a finite double stands for, and that rounding, conversion, division
  and multiplication never pass a double they should not pass.
\<close>

fun dbl_val :: "double \<Rightarrow> real" where
  "dbl_val (Dbl m e) = of_int m * 2 powi e"
| "dbl_val _ = 0"

lemma powi_split: "(2 :: real) powi (e + int k) = 2 powi e * 2 ^ k"
  by (simp add: power_int_add)

lemma powi_diff: "e \<le> f \<Longrightarrow> (2 :: real) powi f = 2 powi e * 2 ^ nat (f - e)"
  using powi_split [of e "nat (f - e)"] by simp

lemma dbl_less_val: "dbl_less (Dbl a e) (Dbl b f) \<longleftrightarrow> dbl_val (Dbl a e) < dbl_val (Dbl b f)"
proof -
  define g where "g = min e f"
  have "(2 :: real) powi e = 2 powi g * 2 ^ nat (e - g)" "(2 :: real) powi f = 2 powi g * 2 ^ nat (f - g)"
    using powi_diff [of g e] powi_diff [of g f] by (simp_all add: g_def)
  then have "dbl_val (Dbl a e) = 2 powi g * of_int (a * 2 ^ nat (e - g))" "dbl_val (Dbl b f) = 2 powi g * of_int (b * 2 ^ nat (f - g))"
    by simp_all
  moreover have "(2 :: real) powi g > 0" by (simp add: zero_less_power_int)
  ultimately have "dbl_val (Dbl a e) < dbl_val (Dbl b f) \<longleftrightarrow> a * 2 ^ nat (e - g) < b * 2 ^ nat (f - g)"
    by (simp only: mult_less_cancel_left_pos of_int_less_iff)
  then show ?thesis by (simp add: g_def Let_def)
qed

lemma bit_count_lower: "0 < n \<Longrightarrow> 2 ^ (bit_count n - 1) \<le> n"
proof (induction n rule: bit_count.induct)
  case (1 n)
  show ?case
  proof (cases "n = 1")
    case False
    then have "0 < n div 2" using 1 by auto
    then have "2 ^ (bit_count (n div 2) - 1) \<le> n div 2" using 1 by auto
    moreover have "0 < bit_count (n div 2)" using \<open>0 < n div 2\<close> by (subst bit_count.simps) simp
    ultimately have "2 ^ bit_count (n div 2) \<le> 2 * (n div 2)" by (cases "bit_count (n div 2)") auto
    then show ?thesis using 1(2) by (subst bit_count.simps) auto
  qed simp
qed

lemma round_even_mono: "m \<le> n \<Longrightarrow> round_even m k \<le> round_even n k"
proof -
  assume le: "m \<le> n"
  define P :: int where "P = 2 ^ k"
  have P: "0 < P" by (simp add: P_def)
  have q: "m div P \<le> n div P" using le P by (rule zdiv_mono1)
  have near: "round_even x k = x div P \<or> round_even x k = x div P + 1" for x
    by (simp add: round_even_def P_def Let_def)
  show ?thesis
  proof (cases "m div P = n div P")
    case True
    then have "m mod P \<le> n mod P" using le by (simp add: minus_mult_div_eq_mod [symmetric])
    then show ?thesis using True by (auto simp: round_even_def P_def [symmetric] Let_def)
  next
    case False
    then show ?thesis using q near [of m] near [of n] by linarith
  qed
qed

lemma round_even_ge: "B * 2 ^ k \<le> m \<Longrightarrow> B \<le> round_even m k"
proof -
  assume "B * 2 ^ k \<le> m"
  then have "B \<le> m div 2 ^ k" using zdiv_mono1 [of "B * 2 ^ k" m "2 ^ k"] by simp
  then show ?thesis by (auto simp: round_even_def Let_def)
qed

lemma round_even_le: "0 \<le> m \<Longrightarrow> m \<le> B * 2 ^ k \<Longrightarrow> round_even m k \<le> B"
  using round_even_mono [of m "B * 2 ^ k" k] by (simp add: round_even_def)

section \<open>What rounding gives\<close>

definition shift_of :: "int \<Rightarrow> int \<Rightarrow> nat" where
  "shift_of m e = max (bit_count (nat \<bar>m\<bar>) - 53) (nat (- 1074 - e))"

definition scaled :: "int \<Rightarrow> int \<Rightarrow> real" where
  "scaled m e = of_int (round_even m (shift_of m e)) * 2 powi (e + int (shift_of m e))"

lemma powi_pos [simp]: "0 < (2 :: real) powi e"
  by (simp add: zero_less_power_int)

text \<open>A number of at most 53 bits is never passed.\<close>

lemma scaled_le:
  assumes "0 \<le> m" "0 \<le> B" "B < 2 ^ 53" "- 1074 \<le> g" "of_int m * 2 powi e \<le> (of_int B * 2 powi g :: real)"
  shows "scaled m e \<le> of_int B * 2 powi g"
proof -
  define k where "k = shift_of m e"
  show ?thesis
  proof (cases "e + int k \<le> g")
    case True
    define n where "n = nat (g - (e + int k))"
    have g: "2 powi g = 2 powi e * 2 ^ k * (2 :: real) ^ n"
      using powi_diff [OF True] by (simp add: n_def powi_split)
    have "2 powi e * of_int m \<le> 2 powi e * (of_int (B * 2 ^ n * 2 ^ k) :: real)"
      using assms(5) by (simp add: g mult.commute mult.left_commute)
    then have "m \<le> B * 2 ^ n * 2 ^ k" by (simp only: mult_le_cancel_left_pos [OF powi_pos] of_int_le_iff)
    then have "round_even m k \<le> B * 2 ^ n" using assms(1) by (intro round_even_le)
    then have "of_int (round_even m k) * 2 powi (e + int k) \<le> of_int (B * 2 ^ n) * (2 :: real) powi (e + int k)"
      by (intro mult_right_mono) (simp_all only: of_int_le_iff powi_pos less_imp_le)
    then show ?thesis by (simp add: scaled_def k_def [symmetric] g powi_split mult.commute mult.left_commute)
  next
    case False
    show ?thesis
    proof (cases "k = 0")
      case True
      then show ?thesis using assms(5) by (simp add: scaled_def k_def [symmetric])
    next
      case k: False
      have kb: "k = bit_count (nat m) - 53"
        using False k assms(1,4) by (auto simp: k_def shift_of_def max_def split: if_splits)
      then have "2 ^ (52 + k) \<le> nat m" using bit_count_lower [of "nat m"] k by (cases "nat m = 0") auto
      then have "2 ^ (52 + k) \<le> m" using assms(1) by (simp add: le_nat_iff)
      then have "(2 :: real) ^ (52 + k) \<le> of_int m" by (metis of_int_le_iff of_int_numeral of_int_power)
      then have "2 powi e * 2 ^ (52 + k) \<le> 2 powi e * (of_int m :: real)"
        by (intro mult_left_mono) (simp_all add: less_imp_le)
      also have "\<dots> \<le> of_int B * 2 powi g" using assms(5) by (simp only: mult.commute)
      also have "\<dots> < of_int (2 ^ 53) * (2 :: real) powi g"
        using assms(3) by (intro mult_strict_right_mono) (simp_all only: of_int_less_iff powi_pos)
      also have "\<dots> = 2 ^ 53 * 2 powi g" by simp
      also have "\<dots> \<le> 2 ^ 53 * 2 powi (e + int k - 1)"
        using False by (intro mult_left_mono power_int_increasing) auto
      also have "\<dots> = 2 powi e * 2 ^ (52 + k)"
        using k powi_split [of e "k - 1"] by (cases k) (simp_all add: power_add algebra_simps)
      finally show ?thesis by simp
    qed
  qed
qed

text \<open>Below a double the result is finite, and it is what rounding gives.\<close>

lemma round_even_shift_le: "0 \<le> m \<Longrightarrow> 0 \<le> round_even m (shift_of m e) \<and> round_even m (shift_of m e) \<le> 2 ^ 53"
proof -
  assume m: "0 \<le> m"
  have "bit_count (nat m) \<le> 53 + shift_of m e" using m by (auto simp: shift_of_def)
  then have "nat m < 2 ^ (53 + shift_of m e)"
    by (intro less_le_trans [OF bit_count_bound power_increasing]) simp_all
  then have "m \<le> 2 ^ 53 * 2 ^ shift_of m e" using m by (simp add: power_add nat_less_iff)
  then show ?thesis using m round_even_le [of m "2 ^ 53" "shift_of m e"] round_even_ge [of 0 "shift_of m e" m] by simp
qed

lemma too_large:
  assumes "2 ^ 53 \<le> q" "971 \<le> f" "B < 2 ^ 53" "0 \<le> B" "g \<le> 971"
  shows "(of_int B * 2 powi g :: real) < of_int q * 2 powi f"
proof -
  have "of_int B * 2 powi g \<le> of_int B * (2 :: real) powi 971"
    using assms(4,5) by (intro mult_left_mono power_int_increasing) simp_all
  also have "\<dots> < of_int q * 2 powi 971"
    using assms(1,3) by (intro mult_strict_right_mono) (simp_all only: of_int_less_iff powi_pos)
  also have "\<dots> \<le> of_int q * 2 powi f"
    using assms(1,2) by (intro mult_left_mono power_int_increasing) simp_all
  finally show ?thesis .
qed

lemma round_double_upto:
  assumes "0 \<le> m" "0 \<le> B" "B < 2 ^ 53" "- 1074 \<le> g" "g \<le> 971" "of_int m * 2 powi e \<le> (of_int B * 2 powi g :: real)"
  obtains q f where "round_double m e = Dbl q f" "0 \<le> q" "q < 2 ^ 53" "dbl_val (Dbl q f) = scaled m e"
proof -
  define k where "k = shift_of m e"
  define Q where "Q = round_even m k"
  define F where "F = e + int k"
  have Q: "0 \<le> Q" "Q \<le> 2 ^ 53" using round_even_shift_le [OF assms(1), of e] by (simp_all add: Q_def k_def)
  have val: "scaled m e = of_int Q * 2 powi F" by (simp add: scaled_def Q_def F_def k_def)
  have le: "of_int Q * 2 powi F \<le> (of_int B * 2 powi g :: real)" using scaled_le [OF assms(1-4,6)] by (simp add: val)
  have rd: "round_double m e = (if Q = 0 then Dbl 0 0 else if F \<le> 971 then
      if \<bar>Q\<bar> < 2 ^ 53 then Dbl Q F else if F = 971 then Dbl_Inf (Q < 0) else Dbl (Q div 2) (F + 1)
      else let q' = Q * 2 ^ nat (F - 971) in if \<bar>q'\<bar> < 2 ^ 53 then Dbl q' 971 else Dbl_Inf (Q < 0))"
    by (simp add: round_double_def Let_def shift_of_def [symmetric] k_def [symmetric] Q_def [symmetric] F_def [symmetric])
  consider "Q = 0" | "0 < Q" "F \<le> 971" "Q < 2 ^ 53" | "Q = 2 ^ 53" "F < 971" | "Q = 2 ^ 53" "F = 971" | "0 < Q" "971 < F"
    using Q by linarith
  then show thesis
  proof cases
    case 1
    then show thesis using that [of 0 0] rd val by simp
  next
    case 2
    then show thesis using that [of Q F] rd val by simp
  next
    case 3
    have "(2 :: real) powi (F + 1) = 2 * 2 powi F" by (simp add: power_int_add)
    then show thesis using that [of "Q div 2" "F + 1"] rd val 3 by simp
  next
    case 4
    then show thesis using too_large [of Q F B g] assms(2,3,5) le by simp
  next
    case 5
    have shifted: "of_int Q * 2 powi F = (of_int (Q * 2 ^ nat (F - 971)) * 2 powi 971 :: real)"
      using powi_diff [of 971 F] 5(2) by simp
    then have "\<not> 2 ^ 53 \<le> Q * 2 ^ nat (F - 971)" using too_large [of _ 971 B g] assms(2,3,5) le by fastforce
    then have small: "Q * 2 ^ nat (F - 971) < 2 ^ 53" by linarith
    have pos: "0 \<le> Q * 2 ^ nat (F - 971)" using 5(1) by simp
    show thesis
    proof (rule that [OF _ pos small])
      show "round_double m e = Dbl (Q * 2 ^ nat (F - 971)) 971" using rd 5 small pos by (simp add: Let_def)
      show "dbl_val (Dbl (Q * 2 ^ nat (F - 971)) 971) = scaled m e" using shifted val by (simp only: dbl_val.simps)
    qed
  qed
qed

lemma round_double_below:
  assumes "0 \<le> m" "0 \<le> B" "B < 2 ^ 53" "of_int m * 2 powi e \<le> (of_int B :: real)"
  shows "\<exists>q f. round_double m e = Dbl q f \<and> 0 \<le> q \<and> q < 2 ^ 53 \<and> dbl_val (Dbl q f) \<le> of_int B"
proof -
  have le: "of_int m * 2 powi e \<le> (of_int B * 2 powi 0 :: real)" using assms(4) by simp
  have sc: "scaled m e \<le> of_int B" using scaled_le [OF assms(1-3) _ le] by simp
  obtain q f where "round_double m e = Dbl q f" "0 \<le> q" "q < 2 ^ 53" "dbl_val (Dbl q f) = scaled m e"
    by (rule round_double_upto [OF assms(1-3) _ _ le]) simp_all
  then show ?thesis using sc by metis
qed

section \<open>Conversion, quotient and percentage\<close>

lemma dbl_of_nat_val:
  assumes "n < 2 ^ 64"
  obtains q f where "dbl_of_nat n = Dbl q f" "0 \<le> q" "q < 2 ^ 53" "dbl_val (Dbl q f) = scaled (int n) 0"
proof -
  have "real n \<le> 2 ^ 64" using assms by (metis less_imp_le of_nat_le_iff of_nat_numeral of_nat_power)
  then show thesis
    using that round_double_upto [of "int n" 1 64 0] by (auto simp: dbl_of_nat_def)
qed

lemma scaled_nat_ge: "0 < n \<Longrightarrow> 2 ^ (bit_count n - 1) \<le> scaled (int n) 0"
proof -
  assume n: "0 < n"
  define k where "k = bit_count n - 53"
  have sh: "shift_of (int n) 0 = k" by (simp add: shift_of_def k_def)
  have lower: "2 ^ (bit_count n - 1) \<le> int n" using bit_count_lower [OF n] by (metis of_nat_le_iff of_nat_numeral of_nat_power)
  show ?thesis
  proof (cases "k = 0")
    case True
    then show ?thesis using lower by (simp add: scaled_def sh)
  next
    case False
    then have b: "bit_count n - 1 = 52 + k" by (simp add: k_def)
    then have "2 ^ 52 * 2 ^ k \<le> int n" using lower by (simp add: power_add)
    then have "(2 :: int) ^ 52 \<le> round_even (int n) k" by (rule round_even_ge)
    then have "(2 :: real) ^ 52 \<le> of_int (round_even (int n) k)" by (metis of_int_le_iff of_int_numeral of_int_power)
    then have "(2 :: real) ^ 52 * 2 ^ k \<le> of_int (round_even (int n) k) * 2 ^ k" by (intro mult_right_mono) simp_all
    moreover have "scaled (int n) 0 = of_int (round_even (int n) k) * 2 ^ k" by (simp add: scaled_def sh)
    ultimately show ?thesis unfolding b power_add by linarith
  qed
qed

lemma scaled_nat_mono:
  assumes "m \<le> n" "0 < n" "n < 2 ^ 64"
  shows "scaled (int m) 0 \<le> scaled (int n) 0"
proof (cases "bit_count m = bit_count n")
  case True
  then have "shift_of (int m) 0 = shift_of (int n) 0" by (simp add: shift_of_def)
  then show ?thesis using round_even_mono [of "int m" "int n" "shift_of (int n) 0"] assms(1) by (simp add: scaled_def)
next
  case False
  have "bit_count m \<le> bit_count n"
    using bit_count_bound [of n] assms(1) by (intro bit_count_small) linarith
  then have "bit_count m \<le> bit_count n - 1" using False by simp
  then have "m < 2 ^ (bit_count n - 1)" using bit_count_bound [of m] power_increasing [of "bit_count m" "bit_count n - 1" "2 :: nat"] by linarith
  then have "real m \<le> 2 ^ (bit_count n - 1)" by (metis less_imp_le of_nat_le_iff of_nat_numeral of_nat_power)
  then have "scaled (int m) 0 \<le> 2 ^ (bit_count n - 1)"
    using scaled_le [of "int m" 1 "int (bit_count n - 1)" 0] by simp
  then show ?thesis using scaled_nat_ge [OF assms(2)] by linarith
qed

text \<open>A quotient of at most one: the integer that is rounded, with its extra bit, stands for at most one.\<close>

lemma ratio_le_one:
  assumes "0 \<le> a" "0 < b" "a < 2 ^ 53" "b < 2 ^ 53" "of_int a * 2 powi d \<le> (of_int b :: real)"
  defines "s \<equiv> bit_count (nat b) + 56 - bit_count (nat \<bar>a\<bar>)"
  defines "M \<equiv> 2 * (a * 2 ^ s div b) + (if a * 2 ^ s mod b = 0 then 0 else 1)"
  shows "0 \<le> M" "of_int M * 2 powi (d - int s - 1) \<le> (1 :: real)"
proof -
  define q r where "q = a * 2 ^ s div b" and "r = a * 2 ^ s mod b"
  have qr: "a * 2 ^ s = q * b + r" "0 \<le> q" "0 \<le> r" "r < b"
    using assms(1,2) by (simp_all add: q_def r_def pos_imp_zdiv_nonneg_iff)
  show "0 \<le> M" using qr(2) by (simp add: M_def q_def)
  have b0: "(0 :: real) < of_int b" using assms(2) by simp
  have "of_int (a * 2 ^ s) * 2 powi (d - int s) = (of_int a * 2 powi d :: real)"
    using powi_split [of "d - int s" s] by simp
  then have sum: "of_int (q * b + r) * 2 powi (d - int s) \<le> (of_int b :: real)" using assms(5) qr(1) by simp
  have half: "(2 :: real) powi (d - int s - 1) = 2 powi (d - int s) / 2" by (simp add: power_int_diff)
  show "of_int M * 2 powi (d - int s - 1) \<le> (1 :: real)"
  proof (cases "r = 0")
    case True
    then have "of_int b * (of_int q * 2 powi (d - int s)) \<le> of_int b * (1 :: real)" using sum by (simp add: algebra_simps)
    then show ?thesis using True b0 by (simp add: M_def q_def [symmetric] r_def [symmetric] half)
  next
    case False
    have "a \<noteq> 0" using False by (auto simp: r_def)
    then have a: "0 < nat a" using assms(1) by linarith
    have "b < 2 ^ bit_count (nat b)"
      using bit_count_bound [of "nat b"] assms(2) by (simp add: nat_less_iff)
    also have "(2 :: int) ^ bit_count (nat b) \<le> 2 ^ (bit_count (nat a) - 1 + s)"
      using assms(1) by (intro power_increasing) (auto simp: s_def)
    also have "\<dots> \<le> a * 2 ^ s" using bit_count_lower [OF a] assms(1) by (simp add: power_add le_nat_iff)
    finally have q: "1 \<le> q" using qr by (cases "q = 0") auto
    define P :: real where "P = 2 powi (d - int s)"
    have P: "0 < P" by (simp add: P_def)
    have "of_int (q * b) * P < of_int (q * b + r) * P" using P qr(3) False by (intro mult_strict_right_mono) simp_all
    also have "\<dots> \<le> of_int b" using sum by (simp only: P_def)
    finally have "of_int b * (of_int q * P) < of_int b * 1" by (simp add: mult.commute mult.left_commute)
    then have qP: "of_int q * P < 1" using b0 by (simp only: mult_less_cancel_left_pos)
    have Pq: "P \<le> of_int q * P" using P q by simp
    have "\<not> 0 \<le> d - int s"
    proof
      assume "0 \<le> d - int s"
      then have "1 \<le> P" unfolding P_def by (intro one_le_power_int) simp_all
      then show False using Pq qP by linarith
    qed
    then have inv: "P * 2 ^ nat (int s - d) = 1" using powi_split [of "d - int s" "nat (int s - d)"] by (simp add: P_def)
    have "P * of_int q < P * of_int (2 ^ nat (int s - d))" using qP inv by (simp add: mult.commute)
    then have "q < 2 ^ nat (int s - d)" using P by (simp only: mult_less_cancel_left_pos of_int_less_iff)
    then have "2 * q + 1 \<le> 2 * 2 ^ nat (int s - d)" by linarith
    then have "of_int (2 * q + 1) * P \<le> of_int (2 * 2 ^ nat (int s - d)) * P" using P by (intro mult_right_mono) (simp_all only: of_int_le_iff less_imp_le)
    also have "\<dots> = 2" using inv by (simp add: mult.commute mult.left_commute)
    finally show ?thesis using False by (simp add: M_def q_def [symmetric] r_def [symmetric] half P_def [symmetric])
  qed
qed

lemma dbl_div_le_one:
  assumes "0 \<le> a" "0 < b" "a < 2 ^ 53" "b < 2 ^ 53" "dbl_val (Dbl a e) \<le> dbl_val (Dbl b f)"
  obtains q g where "dbl_div (Dbl a e) (Dbl b f) = Dbl q g" "0 \<le> q" "q < 2 ^ 53" "dbl_val (Dbl q g) \<le> 1"
proof -
  have "of_int a * 2 powi (e - f) * 2 powi f \<le> of_int b * (2 :: real) powi f"
    using assms(5) power_int_add [of "2 :: real" "e - f" f] by (simp add: mult.assoc)
  then have "of_int a * 2 powi (e - f) \<le> (of_int b :: real)" by (simp only: mult_le_cancel_right_pos [OF powi_pos])
  note M = ratio_le_one [OF assms(1-4) this]
  let ?s = "bit_count (nat b) + 56 - bit_count (nat \<bar>a\<bar>)"
  let ?M = "2 * (a * 2 ^ ?s div b) + (if a * 2 ^ ?s mod b = 0 then 0 else 1)"
  have div: "dbl_div (Dbl a e) (Dbl b f) = round_double ?M (e - f - int ?s - 1)"
    using assms(2) by (simp add: dbl_ratio_def Let_def)
  have le: "of_int ?M * 2 powi (e - f - int ?s - 1) \<le> (of_int 1 :: real)" using M(2) by (simp only: of_int_1)
  have one: "0 \<le> (1 :: int)" "(1 :: int) < 2 ^ 53" by simp_all
  from round_double_below [OF M(1) one le] obtain q g where
      "round_double ?M (e - f - int ?s - 1) = Dbl q g" "0 \<le> q" "q < 2 ^ 53" "dbl_val (Dbl q g) \<le> of_int 1"
    by blast
  then show thesis by (intro that [OF trans [OF div]]) (simp_all only: of_int_1)
qed

lemma dbl_hundred: "dbl_lit 1000 1 = Dbl 7036874417766400 (- 46)"
  by (simp add: dbl_eval cong: let_weak_cong)

lemma val_hundred: "dbl_val (Dbl 7036874417766400 (- 46)) = 100"
  by (simp add: power_int_minus)

lemma dbl_mul_hundred:
  assumes "0 \<le> a" "dbl_val (Dbl a e) \<le> 1"
  obtains q g where "dbl_mul (Dbl a e) (dbl_lit 1000 1) = Dbl q g" "0 \<le> q" "dbl_val (Dbl q g) \<le> 100"
proof -
  have "of_int (a * 7036874417766400) * 2 powi (e - 46) = dbl_val (Dbl a e) * 100"
    by (simp add: power_int_diff)
  with assms(2) have le: "of_int (a * 7036874417766400) * 2 powi (e - 46) \<le> (of_int 100 :: real)"
    by (simp only:)
  have "0 \<le> a * 7036874417766400" using assms(1) by simp
  from round_double_below [OF this _ _ le] obtain q g where
      "round_double (a * 7036874417766400) (e - 46) = Dbl q g" "0 \<le> q" "dbl_val (Dbl q g) \<le> 100"
    by auto
  then show thesis using that unfolding dbl_hundred by simp
qed

lemma dbl_hundred_sub:
  assumes "0 \<le> a" "dbl_val (Dbl a e) \<le> 100"
  obtains q g where "dbl_sub (dbl_lit 1000 1) (Dbl a e) = Dbl q g" "0 \<le> q" "dbl_val (Dbl q g) \<le> 100"
proof -
  define g where "g = min (- 46) e"
  define m where "m = 7036874417766400 * 2 ^ nat (- 46 - g) + - a * 2 ^ nat (e - g)"
  have "of_int (7036874417766400 * 2 ^ nat (- 46 - g)) * 2 powi g = dbl_val (Dbl 7036874417766400 (- 46))"
    using powi_diff [of g "- 46"] by (simp add: g_def)
  moreover have "of_int (a * 2 ^ nat (e - g)) * 2 powi g = dbl_val (Dbl a e)"
    using powi_diff [of g e] by (simp add: g_def)
  moreover have "of_int m * (2 :: real) powi g =
      of_int (7036874417766400 * 2 ^ nat (- 46 - g)) * 2 powi g - of_int (a * 2 ^ nat (e - g)) * 2 powi g"
    by (simp add: m_def algebra_simps)
  ultimately have m: "of_int m * 2 powi g = 100 - dbl_val (Dbl a e)" by (simp only: val_hundred)
  have "0 \<le> of_int m * (2 :: real) powi g" using m assms(2) by simp
  then have m0: "0 \<le> m" by (simp add: zero_le_mult_iff not_less less_imp_le) (metis powi_pos not_le)
  have "0 \<le> dbl_val (Dbl a e)" using assms(1) by (simp add: less_imp_le)
  then have le: "of_int m * 2 powi g \<le> (of_int 100 :: real)" using m by simp
  from round_double_below [OF m0 _ _ le] obtain q h where "round_double m g = Dbl q h" "0 \<le> q" "dbl_val (Dbl q h) \<le> 100"
    by auto
  then show thesis using that unfolding dbl_sub_def dbl_hundred by (simp add: m_def g_def Let_def)
qed

end
