(* ===== verification/Telemetry_Gateway.thy ===== *)
theory Telemetry_Gateway
  imports Prometheus_Exporter Double_Bounds Console
begin

text \<open>
  \<open>telemetry_gateway\<close> of \<open>include/conduit/pending/supplemental/telemetry_gateway.hpp\<close>: a detached thread that answers
  every connection with a JSON text of samples from the memory pool, the conduit and the timing
  wheel. The three components are template parameters: what their methods return when they are
  sampled is input, like the clock and the answers of the kernel.
\<close>

section \<open>The text\<close>

record sample =
  sampled_ns :: nat
  free_blocks :: u64
  total_blocks :: u64
  conduit_size :: u64
  current_tick :: u64

definition utilization :: "u64 \<Rightarrow> u64 \<Rightarrow> double" where
  "utilization free all =
     dbl_sub (dbl_lit 1000 1) (dbl_mul (dbl_div (dbl_of_nat (unat free)) (dbl_of_nat (unat all))) (dbl_lit 1000 1))"

definition telemetry_json :: "nat \<Rightarrow> sample \<Rightarrow> string" where
  "telemetry_json start_time smp =
     (let uptime_sec = (sampled_ns smp - start_time) div 1000000000
      in ''{'' @ [newline] @
         ''  \"system\": \"CONDUIT Event Engine\",'' @ [newline] @
         ''  \"uptime_seconds\": '' @ to_string uptime_sec @ '','' @ [newline] @
         ''  \"memory_pool\": {'' @ [newline] @
         ''    \"total_blocks\": '' @ to_string (unat (total_blocks smp)) @ '','' @ [newline] @
         ''    \"free_blocks\": '' @ to_string (unat (free_blocks smp)) @ '','' @ [newline] @
         ''    \"utilization_percent\": '' @ dbl_to_string (utilization (free_blocks smp) (total_blocks smp)) @ [newline] @
         ''  },'' @ [newline] @
         ''  \"hot_conduit\": {'' @ [newline] @
         ''    \"approximate_queue_depth\": '' @ to_string (unat (conduit_size smp)) @ [newline] @
         ''  },'' @ [newline] @
         ''  \"timing_wheel\": {'' @ [newline] @
         ''    \"current_tick\": '' @ to_string (unat (current_tick smp)) @ [newline] @
         ''  }'' @ [newline] @
         ''}'' @ [newline])"

definition telemetry_response :: "nat \<Rightarrow> sample \<Rightarrow> string" where
  "telemetry_response start_time smp =
     (let json = telemetry_json start_time smp
      in ''HTTP/1.1 200 OK'' @ crlf @ ''Content-Type: application/json'' @ crlf @ ''Connection: close'' @ crlf @
         ''Content-Length: '' @ to_string (length json) @ crlf @ crlf @ json)"

section \<open>The gateway\<close>

text \<open>\<open>tg_alive\<close> ends with the destructor; the thread is detached, so nothing waits for it.\<close>

record telemetry_gateway =
  tg_port :: u16
  tg_server_fd :: int
  tg_running :: bool
  tg_start_time :: nat
  tg_alive :: bool
  tg_out :: console
  tg_sent :: "(int \<times> string) list"
  tg_closed :: "int list"

definition telemetry_gateway_init :: "u16 \<Rightarrow> telemetry_gateway" where
  "telemetry_gateway_init port =
     \<lparr>tg_port = port, tg_server_fd = -1, tg_running = False, tg_start_time = 0, tg_alive = True, tg_out = [], tg_sent = [], tg_closed = []\<rparr>"

text \<open>\<open>start\<close> throws when one of the calls fails; otherwise the thread is launched.\<close>

definition telemetry_start :: "nat \<Rightarrow> int \<Rightarrow> int \<Rightarrow> int \<Rightarrow> telemetry_gateway \<Rightarrow> string option \<times> telemetry_gateway" where
  "telemetry_start now socket_result bind_result listen_result g =
     (let g1 = g\<lparr>tg_start_time := now, tg_server_fd := socket_result\<rparr>
      in if socket_result < 0 then (Some ''CONDUIT: Telemetry socket creation failed'', g1)
         else if bind_result < 0 then (Some (''CONDUIT: Telemetry bind failed on port '' @ to_string (unat (tg_port g1))), g1)
         else if listen_result < 0 then (Some ''CONDUIT: Telemetry listen failed'', g1)
         else (None, g1\<lparr>tg_running := True, tg_out := tg_out g1 @
           [[Text ''[CONDUIT Control Plane] Telemetry Dashboard listening on http://localhost:'', Num (uint (tg_port g1)), Text ''/metrics'', Newline]]\<rparr>))"

definition telemetry_stop :: "telemetry_gateway \<Rightarrow> telemetry_gateway" where
  "telemetry_stop g =
     (let g1 = g\<lparr>tg_running := False\<rparr>
      in if tg_server_fd g1 \<ge> 0 then g1\<lparr>tg_closed := tg_closed g1 @ [tg_server_fd g1]\<rparr> else g1)"

definition telemetry_dtor :: "telemetry_gateway \<Rightarrow> telemetry_gateway" where
  "telemetry_dtor g = (telemetry_stop g)\<lparr>tg_alive := False\<rparr>"

text \<open>One connection. What \<open>recv\<close> reads is not looked at.\<close>

definition serve_sample :: "int \<Rightarrow> sample \<Rightarrow> telemetry_gateway \<Rightarrow> telemetry_gateway" where
  "serve_sample client_fd smp g =
     g\<lparr>tg_sent := tg_sent g @ [(client_fd, telemetry_response (tg_start_time g) smp)], tg_closed := tg_closed g @ [client_fd]\<rparr>"

text \<open>What other threads do to the gateway: before the flag is checked, and while \<open>accept\<close> blocks. After the
  destructor the thread reads members that are gone.\<close>

datatype owner_act = Owner_Stop | Owner_Destroy

fun owner :: "owner_act \<Rightarrow> telemetry_gateway \<Rightarrow> telemetry_gateway" where
  "owner Owner_Stop g = telemetry_stop g"
| "owner Owner_Destroy g = telemetry_dtor g"

type_synonym scrape = "owner_act list \<times> owner_act list \<times> int \<times> sample"

fun worker_loop :: "scrape list \<Rightarrow> telemetry_gateway \<Rightarrow> telemetry_gateway outcome" where
  "worker_loop [] g = Pending"
| "worker_loop ((before, blocked, client_fd, smp) # rest) g =
     (let g1 = fold owner before g; g2 = fold owner blocked g1
      in if \<not> tg_alive g1 then Fault
         else if \<not> tg_running g1 then Done g1
         else if client_fd < 0 then worker_loop rest g2
         else if \<not> tg_alive g2 then Fault
         else worker_loop rest (serve_sample client_fd smp g2))"

section \<open>Reading the text back\<close>

abbreviation quote :: char where "quote \<equiv> CHR 0x22"

text \<open>A member of an object on a line of its own: the name between quotes, and the value up to a comma.\<close>

definition json_member :: "string \<Rightarrow> (string \<times> string) option" where
  "json_member l =
     (case dropWhile (\<lambda>c. c \<noteq> quote) l of
        [] \<Rightarrow> None
      | _ # s \<Rightarrow> Some (takeWhile (\<lambda>c. c \<noteq> quote) s, takeWhile (\<lambda>c. c \<noteq> CHR '','') (drop 3 (dropWhile (\<lambda>c. c \<noteq> quote) s))))"

definition json_members :: "string \<Rightarrow> (string \<times> string) list" where
  "json_members body = List.map_filter json_member (text_lines body)"

definition plain :: "string \<Rightarrow> bool" where
  "plain v \<longleftrightarrow> set v \<inter> {CHR '','', newline} = {}"

lemma plain_to_string [simp]: "plain (to_string n)"
  using to_string_digits [of "CHR '',''" n] to_string_digits [of newline n] by (auto simp: plain_def is_digit_def)

lemma plain_append [simp]: "plain (a @ b) \<longleftrightarrow> plain a \<and> plain b"
  by (auto simp: plain_def)

lemma plain_Cons [simp]: "plain (c # s) \<longleftrightarrow> c \<noteq> CHR '','' \<and> c \<noteq> newline \<and> plain s"
  by (auto simp: plain_def)

lemma plain_Nil [simp]: "plain []"
  by (simp add: plain_def)

lemma plain_replicate: "plain (replicate n (CHR ''0''))"
  by (induction n) simp_all

lemma plain_dbl [simp]: "plain (dbl_to_string d)"
  by (cases d) (simp_all add: Let_def six_digits_def plain_replicate)

lemma json_members_line:
  assumes "newline \<notin> set l"
  shows "json_members (l @ newline # s) = (case json_member l of None \<Rightarrow> json_members s | Some m \<Rightarrow> m # json_members s)"
  using text_lines_line [OF assms, of s] by (auto simp: json_members_def map_filter_def split: option.split)

lemma takeWhile_plain: "plain v \<Longrightarrow> takeWhile (\<lambda>c. c \<noteq> CHR '','') v = v" "plain v \<Longrightarrow> takeWhile (\<lambda>c. c \<noteq> CHR '','') (v @ CHR '','' # r) = v"
  by (auto simp: plain_def takeWhile_eq_all_conv)

lemma json_members_lines:
  "\<forall>l \<in> set ls. newline \<notin> set l \<Longrightarrow> json_members (concat (map (\<lambda>l. l @ [newline]) ls)) = List.map_filter json_member ls"
proof (induction ls)
  case (Cons l ls)
  then show ?case by (simp add: json_members_line map_filter_def split: option.split)
qed (simp add: json_members_def map_filter_def)

definition telemetry_header :: "string \<Rightarrow> string" where
  "telemetry_header len =
     ''HTTP/1.1 200 OK'' @ crlf @ ''Content-Type: application/json'' @ crlf @ ''Connection: close'' @ crlf @
     ''Content-Length: '' @ len @ crlf @ crlf"

definition shown :: "nat \<Rightarrow> sample \<Rightarrow> (string \<times> string) list" where
  "shown start_time smp =
     [(''system'', quote # ''CONDUIT Event Engine'' @ [quote]),
      (''uptime_seconds'', to_string ((sampled_ns smp - start_time) div 1000000000)),
      (''memory_pool'', ''{''),
      (''total_blocks'', to_string (unat (total_blocks smp))),
      (''free_blocks'', to_string (unat (free_blocks smp))),
      (''utilization_percent'', dbl_to_string (utilization (free_blocks smp) (total_blocks smp))),
      (''hot_conduit'', ''{''),
      (''approximate_queue_depth'', to_string (unat (conduit_size smp))),
      (''timing_wheel'', ''{''),
      (''current_tick'', to_string (unat (current_tick smp)))]"

lemma no_newline: "plain v \<Longrightarrow> newline \<notin> set v"
  by (auto simp: plain_def)

definition json_lines :: "nat \<Rightarrow> sample \<Rightarrow> string list" where
  "json_lines start_time smp =
     [''{'', ''  \"system\": \"CONDUIT Event Engine\",'',
      ''  \"uptime_seconds\": '' @ to_string ((sampled_ns smp - start_time) div 1000000000) @ '','', ''  \"memory_pool\": {'',
      ''    \"total_blocks\": '' @ to_string (unat (total_blocks smp)) @ '','',
      ''    \"free_blocks\": '' @ to_string (unat (free_blocks smp)) @ '','',
      ''    \"utilization_percent\": '' @ dbl_to_string (utilization (free_blocks smp) (total_blocks smp)), ''  },'',
      ''  \"hot_conduit\": {'', ''    \"approximate_queue_depth\": '' @ to_string (unat (conduit_size smp)), ''  },'',
      ''  \"timing_wheel\": {'', ''    \"current_tick\": '' @ to_string (unat (current_tick smp)), ''  }'', ''}'']"

lemma json_members_shown: "json_members (telemetry_json start_time smp) = shown start_time smp"
proof -
  have "telemetry_json start_time smp = concat (map (\<lambda>l. l @ [newline]) (json_lines start_time smp))"
    by (simp add: telemetry_json_def json_lines_def Let_def)
  moreover have "\<forall>l \<in> set (json_lines start_time smp). newline \<notin> set l"
    by (simp add: json_lines_def no_newline)
  moreover have "List.map_filter json_member (json_lines start_time smp) = shown start_time smp"
    by (simp add: json_lines_def shown_def map_filter_def json_member_def takeWhile_plain)
  ultimately show ?thesis using json_members_lines by simp
qed

section \<open>Serving\<close>

abbreviation quiet :: "(int \<times> sample) list \<Rightarrow> scrape list" where
  "quiet conns \<equiv> map (\<lambda>(fd, smp). ([], [], fd, smp)) conns"

definition served :: "(int \<times> sample) list \<Rightarrow> telemetry_gateway \<Rightarrow> telemetry_gateway" where
  "served conns g = fold (\<lambda>(fd, smp) g. if fd < 0 then g else serve_sample fd smp g) conns g"

lemma worker_loop_quiet:
  "tg_alive g \<Longrightarrow> tg_running g \<Longrightarrow> worker_loop (quiet conns @ rest) g = worker_loop rest (served conns g)"
  by (induction conns arbitrary: g) (auto simp: served_def serve_sample_def split: if_splits)

lemma served_keeps [simp]:
  "tg_alive (served conns g) = tg_alive g" "tg_running (served conns g) = tg_running g"
  "tg_start_time (served conns g) = tg_start_time g" "tg_server_fd (served conns g) = tg_server_fd g"
  by (induction conns arbitrary: g) (auto simp: served_def serve_sample_def split: if_splits)

lemma served_log:
  "tg_sent (served conns g) =
     tg_sent g @ map (\<lambda>(fd, smp). (fd, telemetry_response (tg_start_time g) smp)) (filter (\<lambda>(fd, smp). 0 \<le> fd) conns)"
  "tg_closed (served conns g) = tg_closed g @ map fst (filter (\<lambda>(fd, smp). 0 \<le> fd) conns)"
  by (induction conns arbitrary: g) (auto simp: served_def serve_sample_def split: if_splits)

lemma owner_dead: "\<not> tg_alive g \<Longrightarrow> \<not> tg_alive (fold owner acts g)"
proof (induction acts arbitrary: g)
  case (Cons a acts)
  then show ?case by (cases a) (simp_all add: telemetry_dtor_def telemetry_stop_def Let_def)
qed simp

lemma owner_destroyed: "Owner_Destroy \<in> set acts \<Longrightarrow> \<not> tg_alive (fold owner acts g)"
proof (induction acts arbitrary: g)
  case (Cons a acts)
  then show ?case by (cases a) (auto simp: telemetry_dtor_def owner_dead)
qed simp

text \<open>Told to stop, the thread ends; until then every connection was answered and closed once, in order.\<close>

lemma worker_loop_stops:
  assumes "tg_alive g" "tg_running g"
  shows "worker_loop (quiet conns @ ([Owner_Stop], blocked, fd, smp) # rest) g = Done (telemetry_stop (served conns g))"
  using assms by (simp add: worker_loop_quiet) (simp add: telemetry_stop_def Let_def)

lemma telemetry_stop_then_dtor:
  "tg_server_fd g \<ge> 0 \<Longrightarrow> tg_closed (telemetry_dtor (telemetry_stop g)) = tg_closed g @ [tg_server_fd g, tg_server_fd g]"
  by (simp add: telemetry_dtor_def telemetry_stop_def Let_def)

section \<open>Properties\<close>

text \<open>C36: The utilization a client is shown lies between 0 and 100: when no more blocks are free than there are, and
  there is one, the floating-point result of the formula is finite, not negative and not above
  100, whatever the roundings of the two conversions, the quotient, the product and the difference.\<close>

theorem utilization_in_range:
  assumes "free \<le> all" "0 < all"
  shows "\<exists>m e. utilization free all = Dbl m e \<and> 0 \<le> m \<and> \<not> dbl_less (dbl_lit 1000 1) (Dbl m e)"
proof -
  have n: "unat free \<le> unat all" "0 < unat all" "unat all < 2 ^ 64" "unat free < 2 ^ 64"
    using assms unsigned_less [of all] unsigned_less [of free] by (simp_all add: word_le_nat_alt word_less_nat_alt)
  obtain a e where a: "dbl_of_nat (unat free) = Dbl a e" "0 \<le> a" "a < 2 ^ 53" "dbl_val (Dbl a e) = scaled (int (unat free)) 0"
    by (rule dbl_of_nat_val [OF n(4)])
  obtain b f where b: "dbl_of_nat (unat all) = Dbl b f" "0 \<le> b" "b < 2 ^ 53" "dbl_val (Dbl b f) = scaled (int (unat all)) 0"
    by (rule dbl_of_nat_val [OF n(3)])
  have "0 < dbl_val (Dbl b f)" unfolding b(4) by (rule less_le_trans [OF _ scaled_nat_ge [OF n(2)]]) simp
  then have b0: "0 < b" using b(2) by (cases "b = 0") simp_all
  have "dbl_val (Dbl a e) \<le> dbl_val (Dbl b f)" using scaled_nat_mono [OF n(1-3)] a(4) b(4) by simp
  then obtain q g where q: "dbl_div (Dbl a e) (Dbl b f) = Dbl q g" "0 \<le> q" "dbl_val (Dbl q g) \<le> 1"
    using dbl_div_le_one [OF a(2) b0 a(3) b(3)] by metis
  obtain r h where r: "dbl_mul (Dbl q g) (dbl_lit 1000 1) = Dbl r h" "0 \<le> r" "dbl_val (Dbl r h) \<le> 100"
    by (rule dbl_mul_hundred [OF q(2,3)])
  obtain m k where m: "dbl_sub (dbl_lit 1000 1) (Dbl r h) = Dbl m k" "0 \<le> m" "dbl_val (Dbl m k) \<le> 100"
    by (rule dbl_hundred_sub [OF r(2,3)])
  have "utilization free all = Dbl m k" unfolding utilization_def a(1) b(1) q(1) r(1) m(1) ..
  moreover have "\<not> dbl_less (dbl_lit 1000 1) (Dbl m k)" unfolding dbl_hundred dbl_less_val val_hundred using m(3) by simp
  ultimately show ?thesis using m(2) by blast
qed

theorem utilization_in_range_witness:
  "\<exists>m e. utilization 18446744073709551614 18446744073709551615 = Dbl m e \<and> 0 \<le> m \<and> \<not> dbl_less (dbl_lit 1000 1) (Dbl m e)"
  using utilization_in_range [of 18446744073709551614 18446744073709551615] by (simp add: word_le_nat_alt word_less_nat_alt)

text \<open>What a client of the dashboard reads is what was sampled: the response is the header followed by a body of
  exactly the announced length, and reading the members of the JSON text gives the seconds since
  the start, the counts of blocks, the depth of the conduit, the tick and the utilization.\<close>

theorem telemetry_roundtrip:
  "\<exists>len body. telemetry_response start_time smp = telemetry_header len @ body \<and> read_decimal len = length body \<and>
     map (\<lambda>k. map_option read_decimal (map_of (json_members body) k))
       [''uptime_seconds'', ''total_blocks'', ''free_blocks'', ''approximate_queue_depth'', ''current_tick''] =
     map Some [(sampled_ns smp - start_time) div 1000000000, unat (total_blocks smp), unat (free_blocks smp),
       unat (conduit_size smp), unat (current_tick smp)] \<and>
     map_of (json_members body) ''utilization_percent'' = Some (dbl_to_string (utilization (free_blocks smp) (total_blocks smp)))"
proof -
  let ?body = "telemetry_json start_time smp"
  have "telemetry_response start_time smp = telemetry_header (to_string (length ?body)) @ ?body"
    by (simp add: telemetry_response_def telemetry_header_def Let_def)
  moreover have "read_decimal (to_string (length ?body)) = length ?body" by simp
  ultimately show ?thesis by (intro exI conjI) (assumption, assumption, simp_all add: json_members_shown shown_def)
qed

text \<open>Destroying the gateway is never safe while its thread runs: the destructor clears the flag and closes the
  socket but nothing waits for the detached thread, so if the owner destroys the gateway before
  the thread has seen the flag, also directly after a call of \<open>stop\<close>, the thread's next look at the
  flag reads an object that is gone.\<close>

theorem destroyed_under_thread:
  assumes "tg_alive g" "tg_running g" "Owner_Destroy \<in> set acts"
  shows "worker_loop (quiet conns @ (acts, blocked, fd, smp) # rest) g = Fault"
  using assms by (simp add: worker_loop_quiet owner_destroyed Let_def)

theorem destroyed_under_thread_witness:
  "worker_loop (quiet [] @ ([Owner_Stop, Owner_Destroy], [], 7, \<lparr>sampled_ns = 0, free_blocks = 1, total_blocks = 1, conduit_size = 0, current_tick = 0\<rparr>) # [])
     (snd (telemetry_start 0 3 0 0 (telemetry_gateway_init 8080))) = Fault"
  using destroyed_under_thread [of "snd (telemetry_start 0 3 0 0 (telemetry_gateway_init 8080))" "[Owner_Stop, Owner_Destroy]" "[]" "[]" 7
      "\<lparr>sampled_ns = 0, free_blocks = 1, total_blocks = 1, conduit_size = 0, current_tick = 0\<rparr>" "[]"]
  by (simp add: telemetry_start_def telemetry_gateway_init_def)

end
