(* ===== verification/Simulation.thy ===== *)
theory Simulation
  imports Main
begin

text \<open>
  Reachable states of a transition system, and forward simulation between two of them: what a
  concurrent component does step by step is matched by steps of another one whose properties are
  known. \<open>Slab_Concurrent\<close> and \<open>Spsc_Ring_Concurrent\<close> interpret the locale on their threads.
\<close>

inductive reaches :: "('s \<Rightarrow> bool) \<Rightarrow> ('s \<Rightarrow> 's \<Rightarrow> bool) \<Rightarrow> 's \<Rightarrow> bool" for init step where
  reaches_init: "init s \<Longrightarrow> reaches init step s"
| reaches_step: "reaches init step s \<Longrightarrow> step s s' \<Longrightarrow> reaches init step s'"

lemma reaches_steps: "step\<^sup>*\<^sup>* s s' \<Longrightarrow> reaches init step s \<Longrightarrow> reaches init step s'"
  by (induction rule: rtranclp_induct) (auto intro: reaches_step)

locale simulation =
  fixes c_init :: "'c \<Rightarrow> bool" and c_step :: "'c \<Rightarrow> 'c \<Rightarrow> bool"
    and a_init :: "'a \<Rightarrow> bool" and a_step :: "'a \<Rightarrow> 'a \<Rightarrow> bool"
    and rel :: "'c \<Rightarrow> 'a \<Rightarrow> bool"
  assumes init_sim: "c_init c \<Longrightarrow> \<exists>a. a_init a \<and> rel c a"
    and step_sim: "reaches c_init c_step c \<Longrightarrow> reaches a_init a_step a \<Longrightarrow> rel c a \<Longrightarrow> c_step c c' \<Longrightarrow>
      \<exists>a'. a_step\<^sup>*\<^sup>* a a' \<and> rel c' a'"
begin

lemma reach_sim:
  assumes "reaches c_init c_step c"
  shows "\<exists>a. reaches a_init a_step a \<and> rel c a"
  using assms
proof (induction rule: reaches.induct)
  case (reaches_init c)
  with init_sim obtain a where "a_init a" "rel c a" by auto
  then show ?case by (auto intro: reaches.reaches_init)
next
  case (reaches_step c c')
  then obtain a where a: "reaches a_init a_step a" "rel c a" by auto
  obtain a' where "a_step\<^sup>*\<^sup>* a a'" "rel c' a'"
    using step_sim [OF reaches_step.hyps(1) a reaches_step.hyps(2)] by auto
  then show ?case using reaches_steps [OF _ a(1)] by auto
qed

text \<open>A property of the reachable abstract states holds of the related concrete ones.\<close>

lemma invariant_sim:
  assumes "reaches c_init c_step c" "\<And>a. reaches a_init a_step a \<Longrightarrow> rel c a \<Longrightarrow> P c"
  shows "P c"
  using reach_sim [OF assms(1)] assms(2) by blast

end

end
