(* ===== verification/Slab_Concurrent.thy ===== *)
theory Slab_Concurrent
  imports Slab_Allocator Pool_Concurrent Simulation
begin

text \<open>
  Any number of threads run \<open>allocate\<close> and \<open>deallocate\<close> of \<open>include/conduit/pending/core/slab_allocator.hpp\<close> at once.
  Every access to the shared head or to a slot is one step, on sequentially consistent memory. A
  simulation by the threads of \<open>Pool_Concurrent\<close> carries over what is known of the pool; what is
  new here is that a slot is returned under the number its object carries. As there, the count of
  swaps and the stamps are ghosts.
\<close>

section \<open>Threads and steps\<close>

datatype 'a slab_pc =
    S_Idle
  | Alloc_Top 'a u64 nat
  | Alloc_Cas 'a u64 u32 nat
  | Alloc_New 'a u32
  | Alloc_Index u32
  | Dealloc_Read nat
  | Dealloc_Load u32
  | Dealloc_Top u32 u64 nat
  | Dealloc_Cas u32 u64 nat

record 'a slab_sys =
  slab_shared :: "'a slab_allocator"
  slab_pcs :: "nat \<Rightarrow> 'a slab_pc"
  slab_held :: "nat \<Rightarrow> nat set"
  slab_swaps :: nat

definition put_slot :: "nat \<Rightarrow> ('a slot \<Rightarrow> 'a slot) \<Rightarrow> 'a slab_allocator \<Rightarrow> 'a slab_allocator" where
  "put_slot x f a = a\<lparr>slots := (slots a)[x := f (slots a ! x)]\<rparr>"

text \<open>\<open>allocate\<close>: load the head; return null at the end of the list; read \<open>next_free\<close>; swap the head or reload it;
  construct the object, whose own \<open>internal_index\<close> is whatever its constructor leaves; store the index.
  \<open>deallocate\<close>: destroy the object; read its index; load the head; link the slot; swap the head or
  reload it. A thread may also write its objects and hand one to another thread.\<close>

inductive slab_step :: "'a slab_sys \<Rightarrow> 'a slab_sys \<Rightarrow> bool" where
  alloc_begin: "slab_pcs s t = S_Idle \<Longrightarrow>
    slab_step s (s\<lparr>slab_pcs := (slab_pcs s)(t := Alloc_Top v (slab_head (slab_shared s)) (slab_swaps s))\<rparr>)"
| alloc_empty: "slab_pcs s t = Alloc_Top v h c \<Longrightarrow> snd (unpack h) = end_of_list \<Longrightarrow>
    slab_step s (s\<lparr>slab_pcs := (slab_pcs s)(t := S_Idle)\<rparr>)"
| alloc_read: "slab_pcs s t = Alloc_Top v h c \<Longrightarrow> snd (unpack h) \<noteq> end_of_list \<Longrightarrow>
    slab_step s (s\<lparr>slab_pcs := (slab_pcs s)(t := Alloc_Cas v h (next_free (slots (slab_shared s) ! unat (snd (unpack h)))) c)\<rparr>)"
| alloc_swap: "slab_pcs s t = Alloc_Cas v h next_index c \<Longrightarrow> slab_head (slab_shared s) = h \<Longrightarrow>
    slab_step s (s\<lparr>slab_shared := (slab_shared s)\<lparr>slab_head := pack (fst (unpack h) + 1) next_index\<rparr>,
      slab_pcs := (slab_pcs s)(t := Alloc_New v (snd (unpack h))), slab_swaps := Suc (slab_swaps s)\<rparr>)"
| alloc_retry: "slab_pcs s t = Alloc_Cas v h next_index c \<Longrightarrow>
    slab_step s (s\<lparr>slab_pcs := (slab_pcs s)(t := Alloc_Top v (slab_head (slab_shared s)) (slab_swaps s))\<rparr>)"
| alloc_construct: "slab_pcs s t = Alloc_New v index \<Longrightarrow>
    slab_step s (s\<lparr>slab_shared := put_slot (unat index) (\<lambda>g. g\<lparr>storage := Some v, internal_index := j\<rparr>) (slab_shared s),
      slab_pcs := (slab_pcs s)(t := Alloc_Index index)\<rparr>)"
| alloc_index: "slab_pcs s t = Alloc_Index index \<Longrightarrow>
    slab_step s (s\<lparr>slab_shared := put_slot (unat index) (\<lambda>g. g\<lparr>internal_index := index\<rparr>) (slab_shared s),
      slab_pcs := (slab_pcs s)(t := S_Idle), slab_held := (slab_held s)(t := insert (unat index) (slab_held s t))\<rparr>)"
| dealloc_begin: "slab_pcs s t = S_Idle \<Longrightarrow> x \<in> slab_held s t \<Longrightarrow>
    slab_step s (s\<lparr>slab_shared := put_slot x (\<lambda>g. g\<lparr>storage := None\<rparr>) (slab_shared s),
      slab_pcs := (slab_pcs s)(t := Dealloc_Read x), slab_held := (slab_held s)(t := slab_held s t - {x})\<rparr>)"
| dealloc_read: "slab_pcs s t = Dealloc_Read x \<Longrightarrow>
    slab_step s (s\<lparr>slab_pcs := (slab_pcs s)(t := Dealloc_Load (internal_index (slots (slab_shared s) ! x)))\<rparr>)"
| dealloc_load: "slab_pcs s t = Dealloc_Load index \<Longrightarrow>
    slab_step s (s\<lparr>slab_pcs := (slab_pcs s)(t := Dealloc_Top index (slab_head (slab_shared s)) (slab_swaps s))\<rparr>)"
| dealloc_link: "slab_pcs s t = Dealloc_Top index h c \<Longrightarrow>
    slab_step s (s\<lparr>slab_shared := put_slot (unat index) (\<lambda>g. g\<lparr>next_free := snd (unpack h)\<rparr>) (slab_shared s),
      slab_pcs := (slab_pcs s)(t := Dealloc_Cas index h c)\<rparr>)"
| dealloc_swap: "slab_pcs s t = Dealloc_Cas index h c \<Longrightarrow> slab_head (slab_shared s) = h \<Longrightarrow>
    slab_step s (s\<lparr>slab_shared := (slab_shared s)\<lparr>slab_head := pack (fst (unpack h) + 1) index\<rparr>,
      slab_pcs := (slab_pcs s)(t := S_Idle), slab_swaps := Suc (slab_swaps s)\<rparr>)"
| dealloc_retry: "slab_pcs s t = Dealloc_Cas index h c \<Longrightarrow>
    slab_step s (s\<lparr>slab_pcs := (slab_pcs s)(t := Dealloc_Top index (slab_head (slab_shared s)) (slab_swaps s))\<rparr>)"
| slab_write: "slab_pcs s t = S_Idle \<Longrightarrow> x \<in> slab_held s t \<Longrightarrow>
    slab_step s (s\<lparr>slab_shared := put_slot x (\<lambda>g. g\<lparr>storage := Some v\<rparr>) (slab_shared s)\<rparr>)"
| slab_hand_over: "x \<in> slab_held s t \<Longrightarrow> t \<noteq> u \<Longrightarrow>
    slab_step s (s\<lparr>slab_held := (slab_held s)(t := slab_held s t - {x}, u := insert x (slab_held s u))\<rparr>)"

text \<open>The stamp of a program counter is that of the pool's program counter it stands for.\<close>

fun pool_pc :: "'a slab_pc \<Rightarrow> u64 pc" where
  "pool_pc S_Idle = Idle"
| "pool_pc (Alloc_Top v h c) = Make_Top 0 h c"
| "pool_pc (Alloc_Cas v h k c) = Make_Cas 0 h (ucast k) c"
| "pool_pc (Alloc_New v i) = Make_New 0 (unat i)"
| "pool_pc (Alloc_Index i) = Make_New 0 (unat i)"
| "pool_pc (Dealloc_Read x) = Free_Load x"
| "pool_pc (Dealloc_Load i) = Free_Load (unat i)"
| "pool_pc (Dealloc_Top i h c) = Free_Top (unat i) h c"
| "pool_pc (Dealloc_Cas i h c) = Free_Cas (unat i) h c"

definition slab_fresh :: "'a slab_sys \<Rightarrow> bool" where
  "slab_fresh s \<longleftrightarrow> (\<forall>t c. stamp (pool_pc (slab_pcs s t)) = Some c \<longrightarrow> slab_swaps s < c + 2 ^ 32)"

definition slab_start :: "'a slab_allocator \<Rightarrow> 'a slab_sys" where
  "slab_start a = \<lparr>slab_shared = a, slab_pcs = (\<lambda>_. S_Idle), slab_held = (\<lambda>_. {}), slab_swaps = 0\<rparr>"

text \<open>A new allocator of \<open>n\<close> slots, a 32-bit number, and the steps that no tag has outrun.\<close>

definition slab_new :: "nat \<Rightarrow> 'a slab_sys \<Rightarrow> bool" where
  "slab_new n s \<longleftrightarrow> n < 2 ^ 32 \<and> (\<exists>garbage a. length garbage = n \<and> slab_ctor garbage = Inr a \<and> s = slab_start a)"

definition slab_move :: "'a slab_sys \<Rightarrow> 'a slab_sys \<Rightarrow> bool" where
  "slab_move s s' \<longleftrightarrow> slab_fresh s \<and> slab_step s s'"

definition slab_claimed :: "'a slab_sys \<Rightarrow> nat \<Rightarrow> nat set" where
  "slab_claimed s t = slab_held s t \<union> working_on (pool_pc (slab_pcs s t))"

section \<open>The pool's threads simulate the slab's\<close>

definition pool_new :: "nat \<Rightarrow> u64 pool_sys \<Rightarrow> bool" where
  "pool_new n s \<longleftrightarrow> (\<exists>p. pool_ctor n = Done p \<and> s = pool_start p)"

definition pool_advance :: "u64 pool_sys \<Rightarrow> u64 pool_sys \<Rightarrow> bool" where
  "pool_advance s s' \<longleftrightarrow> tags_fresh s \<and> pool_step id s s'"

lemma reaches_pool: "reaches (pool_new n) pool_advance s \<Longrightarrow> pool_reach id n s"
proof (induction rule: reaches.induct)
  case (reaches_step s s')
  then show ?case unfolding pool_advance_def using reach_step [of id n s s'] by blast
qed (auto simp: pool_new_def intro: reach_start)

text \<open>The links and the head agree, the program counters correspond, and an object that a thread holds or is about to
  return carries the number of its slot.\<close>

definition carries_index :: "'a slab_sys \<Rightarrow> nat \<Rightarrow> bool" where
  "carries_index s x \<longleftrightarrow> internal_index (slots (slab_shared s) ! x) = word_of_nat x"

definition live :: "'a slab_sys \<Rightarrow> nat \<Rightarrow> nat \<Rightarrow> bool" where
  "live s t x \<longleftrightarrow> x \<in> slab_held s t \<or> slab_pcs s t = Dealloc_Read x"

definition slab_matches :: "nat \<Rightarrow> 'a slab_sys \<Rightarrow> u64 pool_sys \<Rightarrow> bool" where
  "slab_matches n s p \<longleftrightarrow>
     length (slots (slab_shared s)) = n \<and> length (memory (shared p)) = n \<and>
     free_head (shared p) = slab_head (slab_shared s) \<and> swaps p = slab_swaps s \<and> held p = slab_held s \<and>
     pcs p = pool_pc \<circ> slab_pcs s \<and>
     (\<forall>i < n. read_next id (memory (shared p) ! i) = ucast (next_free (slots (slab_shared s) ! i))) \<and>
     (\<forall>t x. live s t x \<longrightarrow> carries_index s x)"

lemma slab_matchesD:
  assumes "slab_matches n s p"
  shows "length (slots (slab_shared s)) = n" "length (memory (shared p)) = n"
    "free_head (shared p) = slab_head (slab_shared s)" "swaps p = slab_swaps s" "held p = slab_held s"
    "pcs p t = pool_pc (slab_pcs s t)"
    "i < n \<Longrightarrow> read_next id (memory (shared p) ! i) = ucast (next_free (slots (slab_shared s) ! i))"
    "live s t x \<Longrightarrow> carries_index s x"
  using assms by (auto simp: slab_matches_def)

lemma unpack_index: "snd (unpack h) = head_idx h"
  by (simp add: unpack_def head_idx_def)

lemma link_word: "ucast (head_idx h) = h AND 0xFFFFFFFF"
  by (rule bit_word_eqI) (auto simp: head_idx_alt low_mask_eq bit_simps)

lemma narrow_widen: "(ucast (ucast i :: u64) :: u32) = i"
  by (rule bit_word_eqI) (simp add: bit_simps)

lemma mod_dvd_Suc: "b dvd a \<Longrightarrow> (x mod a + 1) mod b = (x + 1) mod (b :: int)"
  by (metis mod_add_left_eq mod_mod_cancel)

lemma narrow_Suc: "(ucast (w + 1 :: u64) :: u32) = ucast w + 1"
  by transfer (simp add: take_bit_eq_mod mod_mod_cancel mod_dvd_Suc mod_simps)

lemma pack_next: "pack (fst (unpack h) + 1) i = mk_head (head_tag h + 1) (ucast i AND 0xFFFFFFFF)"
proof (rule head_eqI)
  have "take_bit 32 (head_tag h + 1) = ucast (ucast (head_tag h + 1) :: u32)"
    by (rule bit_word_eqI) (auto simp: bit_simps)
  also have "(ucast (head_tag h + 1) :: u32) = fst (unpack h) + 1"
    by (simp add: unpack_def head_tag_def narrow_Suc)
  finally show "head_tag (pack (fst (unpack h) + 1) i) = head_tag (mk_head (head_tag h + 1) (ucast i AND 0xFFFFFFFF))"
    by (simp add: head_simps) (rule bit_word_eqI, auto simp: head_tag_def pack_def bit_simps add.commute dest: bit_imp_le_length)
  show "head_idx (pack (fst (unpack h) + 1) i) = head_idx (mk_head (head_tag h + 1) (ucast i AND 0xFFFFFFFF))"
    using unpack_pack [of "fst (unpack h) + 1" i] unpack_index [of "pack (fst (unpack h) + 1) i"]
    by (simp add: head_simps) (rule bit_word_eqI, auto simp: low_mask_eq bit_simps)
qed

lemma put_slot_simps [simp]:
  "slab_head (put_slot x f a) = slab_head a" "length (slots (put_slot x f a)) = length (slots a)"
  "i < length (slots a) \<Longrightarrow> slots (put_slot x f a) ! i = (if i = x then f (slots a ! x) else slots a ! i)"
  by (simp_all add: put_slot_def nth_list_update)

text \<open>A step that moves a program counter only.\<close>

lemma matches_local:
  assumes "slab_matches n s p" "\<And>x. pc \<noteq> Dealloc_Read x"
  shows "slab_matches n (s\<lparr>slab_pcs := (slab_pcs s)(t := pc)\<rparr>) (p\<lparr>pcs := (pcs p)(t := pool_pc pc)\<rparr>)"
  using assms by (auto simp: slab_matches_def live_def carries_index_def fun_eq_iff split: if_splits)

text \<open>A slot in a thread's operation is not live for anyone, unless the operation is about to read its number.\<close>

lemma working_not_live:
  assumes "conc_inv id n fl p" "slab_matches n s p" "x \<in> working_on (pool_pc (slab_pcs s t))"
    and "slab_pcs s t \<noteq> Dealloc_Read x"
  shows "\<not> live s u x" "x < n"
proof -
  note claims = conc_invD(5) [OF assms(1)]
  have t: "x \<in> claimed p t" using assms(3) slab_matchesD(6) [OF assms(2), of t] by (simp add: claimed_def)
  then show "x < n" using claimed_cell_bounded [OF claims] by blast
  show "\<not> live s u x"
  proof
    assume l: "live s u x"
    then have "x \<in> claimed p u" using slab_matchesD(5,6) [OF assms(2)] by (auto simp: live_def claimed_def)
    then have "u = t" using claims_okD(2) [OF claims] t by blast
    then have "x \<in> held p t" using l assms(4) slab_matchesD(5) [OF assms(2)] by (auto simp: live_def)
    with claims_okD(1) [OF claims, of t] assms(3) slab_matchesD(6) [OF assms(2), of t] show False by auto
  qed
qed

text \<open>A write to a slot, matched by a pool whose cell has the new link; what is live afterwards was live before or carries
  its number now.\<close>

lemma matches_put:
  assumes m: "slab_matches n s p"
    and live: "\<And>u y. live (s\<lparr>slab_pcs := (slab_pcs s)(t := pc), slab_held := H\<rparr>) u y \<Longrightarrow>
      y < n \<and> (if y = x then internal_index (f (slots (slab_shared s) ! x)) = word_of_nat x else \<exists>v. live s v y)"
    and p: "length (memory (shared p')) = n" "free_head (shared p') = free_head (shared p)" "swaps p' = swaps p"
      "held p' = H" "pcs p' = (pcs p)(t := pool_pc pc)"
    and links: "\<And>i. i < n \<Longrightarrow> read_next id (memory (shared p') ! i) =
      (if i = x then ucast (next_free (f (slots (slab_shared s) ! x))) else read_next id (memory (shared p) ! i))"
  shows "slab_matches n (s\<lparr>slab_shared := put_slot x f (slab_shared s), slab_pcs := (slab_pcs s)(t := pc), slab_held := H\<rparr>) p'"
    (is "slab_matches n ?s p'")
proof -
  note D = slab_matchesD [OF m]
  have "carries_index ?s y" if "live ?s u y" for u y
  proof -
    have "live (s\<lparr>slab_pcs := (slab_pcs s)(t := pc), slab_held := H\<rparr>) u y" using that by (simp add: live_def)
    from live [OF this] D(1,8) show ?thesis by (auto simp: carries_index_def split: if_splits)
  qed
  moreover have "read_next id (memory (shared p') ! i) = ucast (next_free (slots (slab_shared ?s) ! i))" if "i < n" for i
    using that D(1,7) links by simp
  ultimately show ?thesis
    using D p by (simp add: slab_matches_def fun_eq_iff)
qed

lemma live_bounded:
  assumes "conc_inv id n fl p" "slab_matches n s p" "live s u y"
  shows "y < n"
proof -
  have "y \<in> claimed p u" using slab_matchesD(5,6) [OF assms(2)] assms(3) by (auto simp: live_def claimed_def)
  then show ?thesis using claimed_cell_bounded [OF conc_invD(5) [OF assms(1)]] by blast
qed

section \<open>Every step is matched\<close>

lemma fresh_matches: "slab_matches n s p \<Longrightarrow> tags_fresh p \<longleftrightarrow> slab_fresh s"
  by (simp add: tags_fresh_def slab_fresh_def slab_matches_def)

lemma pool_advance_once: "pool_step id p p' \<Longrightarrow> tags_fresh p \<Longrightarrow> pool_advance\<^sup>*\<^sup>* p p'"
  by (simp add: pool_advance_def r_into_rtranclp)

lemma sim_local:
  assumes "slab_matches n s p" "slab_fresh s" "pool_step id p (p\<lparr>pcs := (pcs p)(t := pool_pc pc)\<rparr>)" "\<And>x. pc \<noteq> Dealloc_Read x"
  shows "\<exists>p'. pool_advance\<^sup>*\<^sup>* p p' \<and> slab_matches n (s\<lparr>slab_pcs := (slab_pcs s)(t := pc)\<rparr>) p'"
  using matches_local [OF assms(1), of pc t] pool_advance_once [OF assms(3)] fresh_matches [OF assms(1)] assms(2,4) by blast

text \<open>The swap of the head, by either operation.\<close>

lemma sim_swap:
  assumes m: "slab_matches n s p" and fresh: "slab_fresh s" and pc: "\<And>x. pc \<noteq> Dealloc_Read x"
    and step: "pool_step id p (p\<lparr>shared := (shared p)\<lparr>free_head := h\<rparr>, pcs := (pcs p)(t := pool_pc pc), swaps := Suc (swaps p)\<rparr>)"
  shows "\<exists>p'. pool_advance\<^sup>*\<^sup>* p p' \<and> slab_matches n (s\<lparr>slab_shared := (slab_shared s)\<lparr>slab_head := h\<rparr>,
    slab_pcs := (slab_pcs s)(t := pc), slab_swaps := Suc (slab_swaps s)\<rparr>) p'"
proof -
  have "slab_matches n (s\<lparr>slab_shared := (slab_shared s)\<lparr>slab_head := h\<rparr>, slab_pcs := (slab_pcs s)(t := pc), slab_swaps := Suc (slab_swaps s)\<rparr>)
      (p\<lparr>shared := (shared p)\<lparr>free_head := h\<rparr>, pcs := (pcs p)(t := pool_pc pc), swaps := Suc (swaps p)\<rparr>)"
    using m pc by (auto simp: slab_matches_def live_def carries_index_def fun_eq_iff split: if_splits)
  with pool_advance_once [OF step] fresh_matches [OF m] fresh show ?thesis by blast
qed

lemma sim_construct:
  assumes m: "slab_matches n s p" and inv: "conc_inv id n fl p" and pc: "slab_pcs s t = Alloc_New v index"
  shows "slab_matches n (s\<lparr>slab_shared := put_slot (unat index) (\<lambda>g. g\<lparr>storage := Some v, internal_index := j\<rparr>) (slab_shared s),
    slab_pcs := (slab_pcs s)(t := Alloc_Index index), slab_held := slab_held s\<rparr>) p"
proof (rule matches_put [OF m])
  note D = slab_matchesD [OF m]
  fix u y
  assume "live (s\<lparr>slab_pcs := (slab_pcs s)(t := Alloc_Index index), slab_held := slab_held s\<rparr>) u y"
  then have "live s u y" by (auto simp: live_def split: if_splits)
  then show "y < n \<and> (if y = unat index then internal_index ((slots (slab_shared s) ! unat index)\<lparr>storage := Some v, internal_index := j\<rparr>) =
      word_of_nat (unat index) else \<exists>v. live s v y)"
    using live_bounded [OF inv m] working_not_live(1) [OF inv m, of "unat index" t u] pc by auto
qed (use slab_matchesD [OF m] pc in \<open>auto simp: fun_eq_iff\<close>)

lemma sim_index:
  assumes m: "slab_matches n s p" and inv: "conc_inv id n fl p" and fresh: "slab_fresh s" and pc: "slab_pcs s t = Alloc_Index index"
  shows "\<exists>p'. pool_advance\<^sup>*\<^sup>* p p' \<and> slab_matches n (s\<lparr>slab_shared := put_slot (unat index) (\<lambda>g. g\<lparr>internal_index := index\<rparr>) (slab_shared s),
    slab_pcs := (slab_pcs s)(t := S_Idle), slab_held := (slab_held s)(t := insert (unat index) (slab_held s t))\<rparr>) p'"
proof -
  note D = slab_matchesD [OF m]
  let ?x = "unat index" and ?w = "ucast (next_free (slots (slab_shared s) ! unat index)) :: u64"
  let ?p1 = "p\<lparr>shared := (shared p)\<lparr>memory := (memory (shared p))[?x := Data 0]\<rparr>, pcs := (pcs p)(t := Idle),
    held := (held p)(t := insert ?x (held p t))\<rparr>"
  let ?p2 = "?p1\<lparr>shared := (shared ?p1)\<lparr>memory := (memory (shared ?p1))[?x := Data ?w]\<rparr>\<rparr>"
  have x: "?x < n" using working_not_live(2) [OF inv m, of ?x t] pc by simp
  have "pool_step id p ?p1" using make_construct [of p t 0 ?x id] D(6) [of t] pc by simp
  moreover have "tags_fresh p" using fresh_matches [OF m] fresh by simp
  ultimately have 1: "pool_advance p ?p1" by (simp add: pool_advance_def)
  have "tags_fresh ?p1" using \<open>tags_fresh p\<close> by (auto simp: tags_fresh_def)
  then have 2: "pool_advance ?p1 ?p2" using write_object [of ?p1 t ?x id ?w] by (simp add: pool_advance_def)
  have "slab_matches n (s\<lparr>slab_shared := put_slot ?x (\<lambda>g. g\<lparr>internal_index := index\<rparr>) (slab_shared s),
    slab_pcs := (slab_pcs s)(t := S_Idle), slab_held := (slab_held s)(t := insert ?x (slab_held s t))\<rparr>) ?p2"
  proof (rule matches_put [OF m])
    fix u y
    assume "live (s\<lparr>slab_pcs := (slab_pcs s)(t := S_Idle), slab_held := (slab_held s)(t := insert ?x (slab_held s t))\<rparr>) u y"
    then have "y = ?x \<or> live s u y" by (auto simp: live_def split: if_splits)
    then show "y < n \<and> (if y = ?x then internal_index ((slots (slab_shared s) ! ?x)\<lparr>internal_index := index\<rparr>) = word_of_nat ?x
        else \<exists>v. live s v y)"
      using live_bounded [OF inv m, of u y] x by auto
  qed (use D x in \<open>auto simp: fun_eq_iff nth_list_update\<close>)
  with 1 2 show ?thesis by (meson rtranclp.rtrancl_into_rtrancl rtranclp.rtrancl_refl)
qed

lemma sim_begin:
  assumes m: "slab_matches n s p" and inv: "conc_inv id n fl p" and fresh: "slab_fresh s"
    and pc: "slab_pcs s t = S_Idle" "x \<in> slab_held s t"
  shows "\<exists>p'. pool_advance\<^sup>*\<^sup>* p p' \<and> slab_matches n (s\<lparr>slab_shared := put_slot x (\<lambda>g. g\<lparr>storage := None\<rparr>) (slab_shared s),
    slab_pcs := (slab_pcs s)(t := Dealloc_Read x), slab_held := (slab_held s)(t := slab_held s t - {x})\<rparr>) p'"
proof -
  note D = slab_matchesD [OF m]
  let ?p = "p\<lparr>pcs := (pcs p)(t := Free_Load x), held := (held p)(t := held p t - {x})\<rparr>"
  have x: "live s t x" using pc by (simp add: live_def)
  have "pool_step id p ?p" using free_begin [of p t x id] D(5,6) pc by simp
  then have "pool_advance\<^sup>*\<^sup>* p ?p" using pool_advance_once fresh_matches [OF m] fresh by blast
  moreover have "slab_matches n (s\<lparr>slab_shared := put_slot x (\<lambda>g. g\<lparr>storage := None\<rparr>) (slab_shared s),
    slab_pcs := (slab_pcs s)(t := Dealloc_Read x), slab_held := (slab_held s)(t := slab_held s t - {x})\<rparr>) ?p"
  proof (rule matches_put [OF m])
    fix u y
    assume "live (s\<lparr>slab_pcs := (slab_pcs s)(t := Dealloc_Read x), slab_held := (slab_held s)(t := slab_held s t - {x})\<rparr>) u y"
    then have "y = x \<or> live s u y" by (auto simp: live_def split: if_splits)
    then show "y < n \<and> (if y = x then internal_index ((slots (slab_shared s) ! x)\<lparr>storage := None\<rparr>) = word_of_nat x else \<exists>v. live s v y)"
      using live_bounded [OF inv m] x D(8) [OF x] by (auto simp: carries_index_def)
  qed (use D in \<open>auto simp: fun_eq_iff\<close>)
  ultimately show ?thesis by blast
qed

lemma sim_link:
  assumes m: "slab_matches n s p" and inv: "conc_inv id n fl p" and fresh: "slab_fresh s" and pc: "slab_pcs s t = Dealloc_Top index h c"
  shows "\<exists>p'. pool_advance\<^sup>*\<^sup>* p p' \<and> slab_matches n (s\<lparr>slab_shared := put_slot (unat index) (\<lambda>g. g\<lparr>next_free := snd (unpack h)\<rparr>) (slab_shared s),
    slab_pcs := (slab_pcs s)(t := Dealloc_Cas index h c), slab_held := slab_held s\<rparr>) p'"
proof -
  note D = slab_matchesD [OF m]
  let ?x = "unat index"
  let ?p = "p\<lparr>shared := (shared p)\<lparr>memory := (memory (shared p))[?x := Next (h AND 0xFFFFFFFF)]\<rparr>, pcs := (pcs p)(t := Free_Cas ?x h c)\<rparr>"
  have "pool_step id p ?p" using free_link [of p t ?x h c id] D(6) [of t] pc by simp
  then have "pool_advance\<^sup>*\<^sup>* p ?p" using pool_advance_once fresh_matches [OF m] fresh by blast
  moreover have "slab_matches n (s\<lparr>slab_shared := put_slot ?x (\<lambda>g. g\<lparr>next_free := snd (unpack h)\<rparr>) (slab_shared s),
    slab_pcs := (slab_pcs s)(t := Dealloc_Cas index h c), slab_held := slab_held s\<rparr>) ?p"
  proof (rule matches_put [OF m])
    fix u y
    assume "live (s\<lparr>slab_pcs := (slab_pcs s)(t := Dealloc_Cas index h c), slab_held := slab_held s\<rparr>) u y"
    then have "live s u y" by (auto simp: live_def split: if_splits)
    then show "y < n \<and> (if y = ?x then internal_index ((slots (slab_shared s) ! ?x)\<lparr>next_free := snd (unpack h)\<rparr>) = word_of_nat ?x
        else \<exists>v. live s v y)"
      using live_bounded [OF inv m] working_not_live(1) [OF inv m, of ?x t u] pc by auto
  qed (use D in \<open>auto simp: fun_eq_iff nth_list_update unpack_index link_word\<close>)
  ultimately show ?thesis by blast
qed

text \<open>Reading the number of an object and writing an object are no steps of the pool.\<close>

lemma sim_read:
  assumes m: "slab_matches n s p" and inv: "conc_inv id n fl p" and pc: "slab_pcs s t = Dealloc_Read x"
  shows "slab_matches n (s\<lparr>slab_pcs := (slab_pcs s)(t := Dealloc_Load (internal_index (slots (slab_shared s) ! x)))\<rparr>) p"
proof -
  let ?pc = "Dealloc_Load (internal_index (slots (slab_shared s) ! x))"
  have x: "live s t x" using pc by (simp add: live_def)
  have "x < 0xFFFFFFFF" using live_bounded [OF inv m x] conc_invD(2) [OF inv] by linarith
  moreover have "internal_index (slots (slab_shared s) ! x) = word_of_nat x"
    using slab_matchesD(8) [OF m x] by (simp add: carries_index_def)
  ultimately have "pool_pc ?pc = pcs p t" using slab_matchesD(6) [OF m, of t] pc by (simp add: unat_word_of_nat_below)
  then have "p\<lparr>pcs := (pcs p)(t := pool_pc ?pc)\<rparr> = p" by (simp add: fun_upd_idem)
  with matches_local [OF m, of ?pc t] show ?thesis by simp
qed

lemma sim_write:
  assumes m: "slab_matches n s p" and inv: "conc_inv id n fl p" and pc: "slab_pcs s t = S_Idle"
  shows "slab_matches n (s\<lparr>slab_shared := put_slot x (\<lambda>g. g\<lparr>storage := Some v\<rparr>) (slab_shared s)\<rparr>) p"
proof -
  note D = slab_matchesD [OF m]
  have same: "(slab_pcs s)(t := S_Idle) = slab_pcs s" "(pcs p)(t := Idle) = pcs p"
    using pc D(6) [of t] by (simp_all add: fun_upd_idem)
  have "slab_matches n (s\<lparr>slab_shared := put_slot x (\<lambda>g. g\<lparr>storage := Some v\<rparr>) (slab_shared s),
      slab_pcs := (slab_pcs s)(t := S_Idle), slab_held := slab_held s\<rparr>) p"
    using D live_bounded [OF inv m] by (intro matches_put [OF m]) (auto simp: same carries_index_def)
  then show ?thesis by (simp add: same)
qed

lemma sim_hand_over:
  assumes m: "slab_matches n s p" and fresh: "slab_fresh s" and x: "x \<in> slab_held s t" "t \<noteq> u"
  shows "\<exists>p'. pool_advance\<^sup>*\<^sup>* p p' \<and> slab_matches n (s\<lparr>slab_held := (slab_held s)(t := slab_held s t - {x}, u := insert x (slab_held s u))\<rparr>) p'"
proof -
  note D = slab_matchesD [OF m]
  let ?H = "(slab_held s)(t := slab_held s t - {x}, u := insert x (slab_held s u))"
  have "pool_step id p (p\<lparr>held := ?H\<rparr>)" using hand_over [of x p t u id] x D(5) by simp
  then have "pool_advance\<^sup>*\<^sup>* p (p\<lparr>held := ?H\<rparr>)" using pool_advance_once fresh_matches [OF m] fresh by blast
  moreover have "carries_index s y" if "live (s\<lparr>slab_held := ?H\<rparr>) v y" for v y
  proof -
    have "live s v y \<or> live s t y" using that x by (auto simp: live_def split: if_splits)
    then show ?thesis using D(8) by blast
  qed
  then have "slab_matches n (s\<lparr>slab_held := ?H\<rparr>) (p\<lparr>held := ?H\<rparr>)"
    using m by (simp add: slab_matches_def carries_index_def)
  ultimately show ?thesis by blast
qed

lemma slab_step_sim:
  assumes "slab_step s s'" "slab_fresh s" "slab_matches n s p" "conc_inv id n fl p"
  shows "\<exists>p'. pool_advance\<^sup>*\<^sup>* p p' \<and> slab_matches n s' p'"
proof -
  note D = slab_matchesD [OF assms(3)] and local = sim_local [OF assms(3,2)] and swap = sim_swap [OF assms(3,2)]
  show ?thesis
    using assms(1)
  proof (cases rule: slab_step.cases)
    case (alloc_begin t v)
    then show ?thesis using local [of t "Alloc_Top v _ _"] make_begin [of p t id 0] D(3,4,6) by simp
  next
    case (alloc_empty t v h c)
    then show ?thesis using local [of t S_Idle] make_empty [of p t 0 h c id] D(6) by (simp add: unpack_index)
  next
    case (alloc_read t v h c)
    have "unat (head_idx h) < n"
      using conc_invD(6) [OF assms(4), of t] D(6) [of t] alloc_read(2,3) by (auto simp: loaded_ok_def unpack_index)
    then show ?thesis
      using alloc_read local [of t "Alloc_Cas v h _ c"] make_read [of p t 0 h c id] D(6,7) by (simp add: unpack_index)
  next
    case (alloc_swap t v h k c)
    then show ?thesis
      using swap [where pc = "Alloc_New v (snd (unpack h))" and h = "pack (fst (unpack h) + 1) k" and t = t] make_swap [of p t 0 h "ucast k" c id] D(3,6)
      by (simp add: pack_next unpack_index)
  next
    case (alloc_retry t v h k c)
    then show ?thesis using local [of t "Alloc_Top v _ _"] make_retry [of p t 0 h "ucast k" c id] D(3,4,6) by simp
  next
    case (alloc_construct t v index j)
    then show ?thesis using sim_construct [OF assms(3,4), of t v index j] by auto
  next
    case (alloc_index t index)
    then show ?thesis using sim_index [OF assms(3,4,2), of t index] by simp
  next
    case (dealloc_begin t x)
    then show ?thesis using sim_begin [OF assms(3,4,2), of t x] by simp
  next
    case (dealloc_read t x)
    then show ?thesis using sim_read [OF assms(3,4), of t x] by auto
  next
    case (dealloc_load t index)
    then show ?thesis using local [of t "Dealloc_Top index _ _"] free_load [of p t "unat index" id] D(3,4,6) by simp
  next
    case (dealloc_link t index h c)
    then show ?thesis using sim_link [OF assms(3,4,2), of t index h c] by simp
  next
    case (dealloc_swap t index h c)
    then show ?thesis
      using swap [where pc = S_Idle and h = "pack (fst (unpack h) + 1) index" and t = t] free_swap [of p t "unat index" h c id] D(3,6)
      by (simp add: pack_next)
  next
    case (dealloc_retry t index h c)
    then show ?thesis using local [of t "Dealloc_Top index _ _"] free_retry [of p t "unat index" h c id] D(3,4,6) by simp
  next
    case (slab_write t x v)
    then show ?thesis using sim_write [OF assms(3,4), of t x v] by auto
  next
    case (slab_hand_over x t u)
    then show ?thesis using sim_hand_over [OF assms(3,2), of x t u] by simp
  qed
qed

lemma slab_ctor_links:
  assumes "slab_ctor garbage = Inr a"
  shows "0 < length garbage" "length (slots a) = length garbage" "slab_head a = 0"
    "i < length garbage \<Longrightarrow> next_free (slots a ! i) = (if Suc i < length garbage then word_of_nat (Suc i) else end_of_list)"
proof -
  show n: "0 < length garbage" using assms by (auto simp: slab_ctor_def split: if_splits)
  obtain s where s: "slab_ctor garbage = Inr s" "length (slots s) = length garbage" "slab_head s = 0"
      "\<forall>i < length garbage. slots s ! i = (garbage ! i)\<lparr>next_free := (if Suc i < length garbage then word_of_nat (Suc i) else end_of_list)\<rparr>"
    by (rule slab_ctor_slots [OF n])
  have "a = s" using assms s(1) by simp
  with s show "length (slots a) = length garbage" "slab_head a = 0"
    "i < length garbage \<Longrightarrow> next_free (slots a ! i) = (if Suc i < length garbage then word_of_nat (Suc i) else end_of_list)"
    by simp_all
qed

lemma widen_nat: "k < 2 ^ 32 \<Longrightarrow> (word_of_nat k :: u64) = ucast (word_of_nat k :: u32)"
  by (intro unsigned_word_eqI) (simp add: unsigned_ucast_eq unsigned_of_nat take_bit_nat_eq_self)

lemma slab_new_matches:
  assumes "slab_new n s"
  shows "\<exists>p. pool_new n p \<and> slab_matches n s p"
proof -
  obtain garbage a where a: "n < 2 ^ 32" "length garbage = n" "slab_ctor garbage = Inr a" "s = slab_start a"
    using assms by (auto simp: slab_new_def)
  note A = slab_ctor_links [OF a(3)]
  obtain p :: "u64 pool" where p: "pool_ctor n = Done p" "length (memory p) = n" "free_head p = 0"
      "\<forall>i < n. memory p ! i = Next (if Suc i < n then word_of_nat (Suc i) else 0xFFFFFFFF)"
    using pool_ctor_memory [of n] A(1) a(2) by auto
  have "read_next id (memory p ! i) = ucast (next_free (slots a ! i))" if "i < n" for i
  proof -
    have "(word_of_nat (Suc i) :: u64) = ucast (word_of_nat (Suc i) :: u32)" if "Suc i < n"
      using that a(1) by (intro widen_nat) linarith
    with that p(4) A(4) [of i] a(2) show ?thesis by simp
  qed
  then have "slab_matches n s (pool_start p)"
    using p A(2,3) a by (simp add: slab_matches_def slab_start_def pool_start_def live_def fun_eq_iff)
  with p(1) show ?thesis by (auto simp: pool_new_def)
qed

lemma pool_new_size: "pool_reach id n p \<Longrightarrow> 0 < n"
  by (induction rule: pool_reach.induct) (auto simp: pool_ctor_def split: if_splits)

lemma slab_new_size: "reaches (slab_new n) slab_move s \<Longrightarrow> n \<le> 0xFFFFFFFF"
  by (induction rule: reaches.induct) (auto simp: slab_new_def)

interpretation sp: simulation "slab_new n" slab_move "pool_new n" pool_advance "slab_matches n" for n
proof unfold_locales
  show "\<exists>p. pool_new n p \<and> slab_matches n s p" if "slab_new n s" for s :: "'a slab_sys" using that by (rule slab_new_matches)
  show "\<exists>p'. pool_advance\<^sup>*\<^sup>* p p' \<and> slab_matches n s' p'"
    if s: "reaches (slab_new n) slab_move s" "slab_move s s'" and p: "reaches (pool_new n) pool_advance p" and m: "slab_matches n s p"
    for s s' :: "'a slab_sys" and p
  proof -
    have r: "pool_reach id n p" using p by (rule reaches_pool)
    obtain fl where inv: "conc_inv id n fl p" using pool_reach_inv [OF pool_new_size [OF r] slab_new_size [OF s(1)] r] by auto
    have "slab_step s s'" "slab_fresh s" using s(2) by (simp_all add: slab_move_def)
    from slab_step_sim [OF this m inv] show ?thesis .
  qed
qed

section \<open>A run\<close>

lemma slab_move_unswapped:
  "reaches (slab_new n) slab_move s \<Longrightarrow> slab_step s s' \<Longrightarrow> slab_swaps s = 0 \<Longrightarrow> reaches (slab_new n) slab_move s'"
  using reaches_step [of "slab_new n" slab_move s s'] by (simp add: slab_move_def slab_fresh_def)

lemma slab_example:
  "\<exists>s :: nat slab_sys. reaches (slab_new 2) slab_move s \<and> slab_pcs s 0 = Alloc_New 5 0"
proof -
  let ?g = "replicate 2 \<lparr>storage = None, internal_index = 9, next_free = 9\<rparr> :: nat slot list"
  obtain a where a: "slab_ctor ?g = Inr a" by (auto simp: slab_ctor_def Let_def)
  note A = slab_ctor_links [OF a]
  have link: "next_free (slots a ! 0) = 1" using A(4) [of 0] by simp
  let ?s0 = "slab_start a"
  let ?s1 = "?s0\<lparr>slab_pcs := (slab_pcs ?s0)(0 := Alloc_Top 5 0 0)\<rparr>"
  let ?s2 = "?s1\<lparr>slab_pcs := (slab_pcs ?s1)(0 := Alloc_Cas 5 0 1 0)\<rparr>"
  let ?s3 = "?s2\<lparr>slab_shared := (slab_shared ?s2)\<lparr>slab_head := pack (fst (unpack 0) + 1) 1\<rparr>,
    slab_pcs := (slab_pcs ?s2)(0 := Alloc_New 5 (snd (unpack 0))), slab_swaps := Suc (slab_swaps ?s2)\<rparr>"
  have idx: "snd (unpack 0) = 0" by (simp add: unpack_def)
  have r0: "reaches (slab_new 2) slab_move ?s0"
    using a by (intro reaches_init) (auto simp: slab_new_def intro!: exI [of _ ?g])
  have "slab_step ?s0 ?s1" using alloc_begin [of ?s0 0 5] A(3) by (simp add: slab_start_def)
  with r0 have r1: "reaches (slab_new 2) slab_move ?s1" by (rule slab_move_unswapped) (simp add: slab_start_def)
  have "slab_step ?s1 ?s2" using alloc_read [of ?s1 0 5 0 0] link by (simp add: slab_start_def idx)
  with r1 have r2: "reaches (slab_new 2) slab_move ?s2" by (rule slab_move_unswapped) (simp add: slab_start_def)
  have "slab_step ?s2 ?s3" using A(3) by (intro alloc_swap) (simp_all add: slab_start_def)
  with r2 have "reaches (slab_new 2) slab_move ?s3" by (rule slab_move_unswapped) (simp add: slab_start_def)
  then show ?thesis by (intro exI [of _ ?s3]) (simp add: idx)
qed

section \<open>Properties\<close>

text \<open>C5: However the loads, reads, swaps and writes of threads in \<open>allocate\<close> and \<open>deallocate\<close> interleave, two threads
  never have the same slot in their hands, no such slot is on the free list, the free list is well
  formed, free and claimed slots together are all slots, and every object in a thread's hands carries
  the number of its own slot, so that it is returned where it came from. The tag gives this as long
  as no thread sleeps through \<open>2 ^ 32\<close> swaps between its load and its compare-and-swap.\<close>

theorem slab_threads_exclusive:
  assumes "reaches (slab_new n) slab_move s"
  shows "\<exists>fl. chain (slab_next (slab_shared s)) n (snd (unpack (slab_head (slab_shared s)))) fl \<and>
    (\<forall>t u. t \<noteq> u \<longrightarrow> slab_claimed s t \<inter> slab_claimed s u = {}) \<and>
    (\<forall>t. slab_claimed s t \<inter> set fl = {}) \<and> set fl \<union> (\<Union>t. slab_claimed s t) = {..<n} \<and>
    (\<forall>t x. x \<in> slab_held s t \<longrightarrow> internal_index (slots (slab_shared s) ! x) = word_of_nat x)"
proof (rule sp.invariant_sim [OF assms])
  fix p
  assume p: "reaches (pool_new n) pool_advance p" and m: "slab_matches n s p"
  note D = slab_matchesD [OF m]
  have r: "pool_reach id n p" using p by (rule reaches_pool)
  obtain fl where inv: "conc_inv id n fl p" using pool_reach_inv [OF pool_new_size [OF r] slab_new_size [OF assms] r] by auto
  note claims = conc_invD(5) [OF inv]
  have cl: "claimed p = slab_claimed s" using D(5,6) by (simp add: claimed_def slab_claimed_def fun_eq_iff)
  have "pool_next id (shared p) y = slab_next (slab_shared s) y" if "y \<in> set fl" for y
  proof -
    have "y < n" using chain_bounded [OF conc_invD(3) [OF inv]] that by auto
    then show ?thesis using D(7) [of y] by (simp add: pool_next_def slab_next_def narrow_widen)
  qed
  then have "chain (slab_next (slab_shared s)) n (snd (unpack (slab_head (slab_shared s)))) fl"
    using conc_invD(3) [OF inv] D(3) chain_cong [of fl "pool_next id (shared p)"] by (simp add: unpack_index)
  moreover have "slab_claimed s t \<inter> slab_claimed s u = {}" if "t \<noteq> u" for t u
    using claims_okD(2) [OF claims, of _ t u] that by (auto simp: cl)
  moreover have "internal_index (slots (slab_shared s) ! x) = word_of_nat x" if "x \<in> slab_held s t" for t x
    using D(8) [of t x] that by (simp add: live_def carries_index_def)
  ultimately show "\<exists>fl. chain (slab_next (slab_shared s)) n (snd (unpack (slab_head (slab_shared s)))) fl \<and>
    (\<forall>t u. t \<noteq> u \<longrightarrow> slab_claimed s t \<inter> slab_claimed s u = {}) \<and>
    (\<forall>t. slab_claimed s t \<inter> set fl = {}) \<and> set fl \<union> (\<Union>t. slab_claimed s t) = {..<n} \<and>
    (\<forall>t x. x \<in> slab_held s t \<longrightarrow> internal_index (slots (slab_shared s) ! x) = word_of_nat x)"
    using claims_okD(3,4) [OF claims] by (auto simp: cl)
qed

theorem slab_threads_exclusive_witness:
  "\<exists>s :: nat slab_sys. reaches (slab_new 2) slab_move s \<and> 0 \<in> slab_claimed s 0 \<and> 0 \<notin> slab_claimed s 1"
proof -
  obtain s :: "nat slab_sys" where s: "reaches (slab_new 2) slab_move s" "slab_pcs s 0 = Alloc_New 5 0"
    using slab_example by blast
  then have "0 \<in> slab_claimed s 0" by (simp add: slab_claimed_def)
  moreover have "slab_claimed s 0 \<inter> slab_claimed s 1 = {}" using slab_threads_exclusive [OF s(1)] by auto
  ultimately show ?thesis using s(1) by blast
qed

end
