(* ===== verification/Spsc_Ring_Concurrent.thy ===== *)
theory Spsc_Ring_Concurrent
  imports Spsc_Ring Conduit_Concurrent Simulation
begin

text \<open>
  The compute thread in \<open>push\<close> and the I/O thread in \<open>pop\<close> of \<open>spsc_ring_buffer\<close>
  (\<open>include/conduit/core/networked_conduit.hpp\<close>), each load and store one step, in any interleaving, on sequentially
  consistent memory. The abstraction of the masked 32-bit indices to the positions of a conduit
  turns every step into a step of \<open>Conduit_Concurrent\<close>.
\<close>

section \<open>The two threads\<close>

datatype 'p ring_producer =
    RP_Idle
  | RP_Start 'p u32
  | RP_Room 'p u32
  | RP_Written 'p u32

datatype 'p ring_consumer =
    RC_Idle
  | RC_Start u32
  | RC_Some u32
  | RC_Got u32 "'p option"

record 'p ring_sys =
  ring_shared :: "'p spsc_ring"
  ring_prod :: "'p ring_producer"
  ring_cons :: "'p ring_consumer"
  ring_sent :: "'p list"
  ring_received :: "'p option list"

inductive ring_step :: "'p ring_sys \<Rightarrow> 'p ring_sys \<Rightarrow> bool" where
  ring_push_begin: "ring_prod s = RP_Idle \<Longrightarrow> ring_step s (s\<lparr>ring_prod := RP_Start x (rb_write (ring_shared s))\<rparr>)"
| ring_push_full: "ring_prod s = RP_Start x w \<Longrightarrow> rb_advance (ring_shared s) w = rb_read (ring_shared s) \<Longrightarrow>
    ring_step s (s\<lparr>ring_prod := RP_Idle\<rparr>)"
| ring_push_room: "ring_prod s = RP_Start x w \<Longrightarrow> rb_advance (ring_shared s) w \<noteq> rb_read (ring_shared s) \<Longrightarrow>
    ring_step s (s\<lparr>ring_prod := RP_Room x w\<rparr>)"
| ring_push_write: "ring_prod s = RP_Room x w \<Longrightarrow>
    ring_step s (s\<lparr>ring_shared := (ring_shared s)\<lparr>rb_buffer := (rb_buffer (ring_shared s))[unat w := Some x]\<rparr>,
      ring_prod := RP_Written x w\<rparr>)"
| ring_push_publish: "ring_prod s = RP_Written x w \<Longrightarrow>
    ring_step s (s\<lparr>ring_shared := (ring_shared s)\<lparr>rb_write := rb_advance (ring_shared s) w\<rparr>,
      ring_prod := RP_Idle, ring_sent := ring_sent s @ [x]\<rparr>)"
| ring_pop_begin: "ring_cons s = RC_Idle \<Longrightarrow> ring_step s (s\<lparr>ring_cons := RC_Start (rb_read (ring_shared s))\<rparr>)"
| ring_pop_empty: "ring_cons s = RC_Start r \<Longrightarrow> r = rb_write (ring_shared s) \<Longrightarrow> ring_step s (s\<lparr>ring_cons := RC_Idle\<rparr>)"
| ring_pop_some: "ring_cons s = RC_Start r \<Longrightarrow> r \<noteq> rb_write (ring_shared s) \<Longrightarrow> ring_step s (s\<lparr>ring_cons := RC_Some r\<rparr>)"
| ring_pop_read: "ring_cons s = RC_Some r \<Longrightarrow>
    ring_step s (s\<lparr>ring_cons := RC_Got r (rb_buffer (ring_shared s) ! unat r)\<rparr>)"
| ring_pop_publish: "ring_cons s = RC_Got r v \<Longrightarrow>
    ring_step s (s\<lparr>ring_shared := (ring_shared s)\<lparr>rb_read := rb_advance (ring_shared s) r\<rparr>,
      ring_cons := RC_Idle, ring_received := ring_received s @ [v]\<rparr>)"

text \<open>The capacity is a power of two.\<close>

definition ring_start :: "nat \<Rightarrow> 'p ring_sys" where
  "ring_start capacity =
     \<lparr>ring_shared = rb_init capacity, ring_prod = RP_Idle, ring_cons = RC_Idle, ring_sent = [], ring_received = []\<rparr>"

definition ring_new :: "nat \<Rightarrow> 'p ring_sys \<Rightarrow> bool" where
  "ring_new k s \<longleftrightarrow> k < 32 \<and> s = ring_start (2 ^ k)"

section \<open>The conduit's threads simulate the ring's\<close>

fun conduit_producer :: "'p ring_producer \<Rightarrow> 'p producer" where
  "conduit_producer RP_Idle = P_Idle"
| "conduit_producer (RP_Start x w) = P_Start x (unat w)"
| "conduit_producer (RP_Room x w) = P_Room x (unat w)"
| "conduit_producer (RP_Written x w) = P_Written x (unat w)"

fun conduit_consumer :: "'p ring_consumer \<Rightarrow> 'p consumer" where
  "conduit_consumer RC_Idle = C_Idle"
| "conduit_consumer (RC_Start r) = C_Start (unat r)"
| "conduit_consumer (RC_Some r) = C_Some (unat r)"
| "conduit_consumer (RC_Got r v) = C_Got (unat r) v"

definition conduit_sys :: "'p ring_sys \<Rightarrow> 'p spsc" where
  "conduit_sys s = \<lparr>chan = rb_conduit (ring_shared s), prod = conduit_producer (ring_prod s),
     cons = conduit_consumer (ring_cons s), sent = ring_sent s, received = ring_received s\<rparr>"

fun prod_index :: "'p ring_producer \<Rightarrow> u32" where
  "prod_index RP_Idle = 0"
| "prod_index (RP_Start x w) = w"
| "prod_index (RP_Room x w) = w"
| "prod_index (RP_Written x w) = w"

fun cons_index :: "'p ring_consumer \<Rightarrow> u32" where
  "cons_index RC_Idle = 0"
| "cons_index (RC_Start r) = r"
| "cons_index (RC_Some r) = r"
| "cons_index (RC_Got r v) = r"

text \<open>The indices in memory and in the threads' registers are positions of the array.\<close>

definition ring_matches :: "nat \<Rightarrow> 'p ring_sys \<Rightarrow> 'p spsc \<Rightarrow> bool" where
  "ring_matches k s c \<longleftrightarrow> c = conduit_sys s \<and> rb_wf k (ring_shared s) \<and>
     unat (prod_index (ring_prod s)) < 2 ^ k \<and> unat (cons_index (ring_cons s)) < 2 ^ k"

definition conduit_new :: "nat \<Rightarrow> 'p spsc \<Rightarrow> bool" where
  "conduit_new n c \<longleftrightarrow> (\<exists>g. length g = n \<and> c = spsc_start g)"

lemma reaches_conduit: "reaches (conduit_new n) spsc_step c \<Longrightarrow> spsc_reach n c"
proof (induction rule: reaches.induct)
  case (reaches_step c c')
  then show ?case using spsc_next [of n c c'] by blast
qed (auto simp: conduit_new_def intro: spsc_init)

lemma ring_advance:
  assumes "rb_wf k r" "unat i < 2 ^ k"
  shows "unat (rb_advance r i) = next_index (conduit_size (rb_conduit r)) (unat i)" "unat (rb_advance r i) < 2 ^ k"
  using rb_advance_mod [OF assms] rb_advance_less [OF assms] by (simp_all add: conduit_size_def rb_conduit_def)

lemma rb_wf_update [simp]:
  "rb_wf k r \<Longrightarrow> unat w < 2 ^ k \<Longrightarrow> rb_wf k (r\<lparr>rb_write := w\<rparr>)" "rb_wf k r \<Longrightarrow> unat w < 2 ^ k \<Longrightarrow> rb_wf k (r\<lparr>rb_read := w\<rparr>)"
  "rb_wf k r \<Longrightarrow> rb_wf k (r\<lparr>rb_buffer := (rb_buffer r)[i := x]\<rparr>)"
  "rb_wf k r \<Longrightarrow> unat (rb_write r) < 2 ^ k" "rb_wf k r \<Longrightarrow> unat (rb_read r) < 2 ^ k"
  by (simp_all add: rb_wf_def)

lemma rb_conduit_simps [simp]:
  "ring (rb_conduit r) = rb_buffer r" "write_idx (rb_conduit r) = unat (rb_write r)" "read_idx (rb_conduit r) = unat (rb_read r)"
  "(rb_conduit r)\<lparr>ring := b\<rparr> = rb_conduit (r\<lparr>rb_buffer := b\<rparr>)"
  by (simp_all add: rb_conduit_def)

lemma rb_conduit_index:
  "rb_conduit (r\<lparr>rb_write := w\<rparr>) = (rb_conduit r)\<lparr>write_idx := unat w\<rparr>"
  "rb_conduit (r\<lparr>rb_read := w\<rparr>) = (rb_conduit r)\<lparr>read_idx := unat w\<rparr>"
  by (simp_all add: rb_conduit_def)

lemma ring_step_matches:
  assumes "ring_step s s'" "rb_wf k (ring_shared s)" "unat (prod_index (ring_prod s)) < 2 ^ k" "unat (cons_index (ring_cons s)) < 2 ^ k"
  shows "spsc_step (conduit_sys s) (conduit_sys s') \<and> ring_matches k s' (conduit_sys s')"
  using assms
proof (induction rule: ring_step.induct)
  case (ring_push_begin s x)
  then show ?case using push_begin [of "conduit_sys s" x] by (simp add: conduit_sys_def ring_matches_def)
next
  case (ring_push_full s x w)
  then show ?case using push_full [of "conduit_sys s" x "unat w"] ring_advance [of k "ring_shared s" w]
    by (simp add: conduit_sys_def ring_matches_def)
next
  case (ring_push_room s x w)
  then have "unat (rb_advance (ring_shared s) w) \<noteq> unat (rb_read (ring_shared s))" by (simp add: unat_inject)
  with ring_push_room show ?case using push_room [of "conduit_sys s" x "unat w"] ring_advance [of k "ring_shared s" w]
    by (simp add: conduit_sys_def ring_matches_def)
next
  case (ring_push_write s x w)
  then show ?case using push_write [of "conduit_sys s" x "unat w"] by (simp add: conduit_sys_def ring_matches_def)
next
  case (ring_push_publish s x w)
  then show ?case using push_publish [of "conduit_sys s" x "unat w"] ring_advance [of k "ring_shared s" w]
    by (simp add: conduit_sys_def ring_matches_def rb_conduit_index)
next
  case (ring_pop_begin s)
  then show ?case using pop_begin [of "conduit_sys s"] by (simp add: conduit_sys_def ring_matches_def)
next
  case (ring_pop_empty s r)
  then show ?case using pop_empty [of "conduit_sys s" "unat r"] by (simp add: conduit_sys_def ring_matches_def)
next
  case (ring_pop_some s r)
  then show ?case using pop_some [of "conduit_sys s" "unat r"] by (simp add: conduit_sys_def ring_matches_def unat_inject)
next
  case (ring_pop_read s r)
  then show ?case using pop_read [of "conduit_sys s" "unat r"] by (simp add: conduit_sys_def ring_matches_def)
next
  case (ring_pop_publish s r v)
  then show ?case using pop_publish [of "conduit_sys s" "unat r" v] ring_advance [of k "ring_shared s" r]
    by (simp add: conduit_sys_def ring_matches_def rb_conduit_index)
qed

lemma ring_new_matches: "ring_new k s \<Longrightarrow> conduit_new (2 ^ k) (conduit_sys s) \<and> ring_matches k s (conduit_sys s)"
  by (auto simp: ring_new_def ring_start_def conduit_new_def conduit_sys_def spsc_start_def conduit_init_def rb_conduit_def rb_init_def
      ring_matches_def rb_wf_def intro!: exI [of _ "replicate (2 ^ k) None"])

interpretation rc: simulation "ring_new k" ring_step "conduit_new (2 ^ k)" spsc_step "ring_matches k" for k
proof unfold_locales
  show "\<exists>c. conduit_new (2 ^ k) c \<and> ring_matches k s c" if "ring_new k s" for s :: "'p ring_sys"
    using ring_new_matches [OF that] by blast
  show "\<exists>c'. spsc_step\<^sup>*\<^sup>* c c' \<and> ring_matches k s' c'" if "ring_matches k s c" "ring_step s s'" for s s' :: "'p ring_sys" and c
    using ring_step_matches [OF that(2), of k] that(1) by (auto simp: ring_matches_def)
qed

section \<open>A run in which both threads are inside the ring\<close>

definition ring_mid :: "nat ring_sys" where
  "ring_mid = \<lparr>ring_shared = \<lparr>rb_buffer = [Some 7, None], rb_write = 1, rb_read = 0\<rparr>,
     ring_prod = RP_Start 8 1, ring_cons = RC_Some 0, ring_sent = [7], ring_received = []\<rparr>"

lemma ring_mid_reach: "reaches (ring_new 1) ring_step ring_mid"
proof -
  let ?st = "\<lambda>b w p c out. \<lparr>ring_shared = \<lparr>rb_buffer = b, rb_write = w, rb_read = 0\<rparr>, ring_prod = p, ring_cons = c,
    ring_sent = out, ring_received = []\<rparr> :: nat ring_sys"
  have "reaches (ring_new 1) ring_step (?st [None, None] 0 RP_Idle RC_Idle [])"
    by (rule reaches_init) (simp add: ring_new_def ring_start_def rb_init_def eval_nat_numeral)
  then have "reaches (ring_new 1) ring_step (?st [None, None] 0 (RP_Start 7 0) RC_Idle [])"
    by (rule reaches_step) (use ring_push_begin [of "?st [None, None] 0 RP_Idle RC_Idle []" 7] in simp)
  then have "reaches (ring_new 1) ring_step (?st [None, None] 0 (RP_Room 7 0) RC_Idle [])"
    by (rule reaches_step) (use ring_push_room [of "?st [None, None] 0 (RP_Start 7 0) RC_Idle []" 7 0] in \<open>simp add: rb_advance_def\<close>)
  then have "reaches (ring_new 1) ring_step (?st [Some 7, None] 0 (RP_Written 7 0) RC_Idle [])"
    by (rule reaches_step) (use ring_push_write [of "?st [None, None] 0 (RP_Room 7 0) RC_Idle []" 7 0] in simp)
  then have "reaches (ring_new 1) ring_step (?st [Some 7, None] 1 RP_Idle RC_Idle [7])"
    by (rule reaches_step) (use ring_push_publish [of "?st [Some 7, None] 0 (RP_Written 7 0) RC_Idle []" 7 0] in \<open>simp add: rb_advance_def\<close>)
  then have "reaches (ring_new 1) ring_step (?st [Some 7, None] 1 (RP_Start 8 1) RC_Idle [7])"
    by (rule reaches_step) (use ring_push_begin [of "?st [Some 7, None] 1 RP_Idle RC_Idle [7]" 8] in simp)
  then have "reaches (ring_new 1) ring_step (?st [Some 7, None] 1 (RP_Start 8 1) (RC_Start 0) [7])"
    by (rule reaches_step) (use ring_pop_begin [of "?st [Some 7, None] 1 (RP_Start 8 1) RC_Idle [7]"] in simp)
  then show ?thesis unfolding ring_mid_def
    by (rule reaches_step) (use ring_pop_some [of "?st [Some 7, None] 1 (RP_Start 8 1) (RC_Start 0) [7]" 0] in simp)
qed

section \<open>Properties\<close>

text \<open>C7: In every interleaving of the compute thread and the I/O thread, the events popped so far, followed by those in the
  ring, are exactly the events pushed, in order; never more than \<open>Capacity - 1\<close> are in the ring; and
  while one thread is about to write a slot and the other about to read one, the slots differ.\<close>

theorem ring_threads_fifo:
  assumes "reaches (ring_new k) ring_step s"
  shows "ring_received s @ conduit_ptrs (rb_conduit (ring_shared s)) = map Some (ring_sent s) \<and>
    length (ring_sent s) - length (ring_received s) \<le> 2 ^ k - 1 \<and>
    (\<forall>x w r. ring_prod s = RP_Room x w \<longrightarrow> ring_cons s = RC_Some r \<longrightarrow> w \<noteq> r)"
proof (rule rc.invariant_sim [OF assms])
  fix c
  assume c: "reaches (conduit_new (2 ^ k)) spsc_step c" and m: "ring_matches k s c"
  have "rb_wf k (ring_shared s)" using m unfolding ring_matches_def by blast
  then have "k < 32" unfolding rb_wf_def by blast
  then have k: "0 < (2 :: nat) ^ k" "(2 :: nat) ^ k < 2 ^ 64" using power_strict_increasing [of k 64 "2 :: nat"] by simp_all
  have inv: "spsc_inv (2 ^ k) c" using k reaches_conduit [OF c] by (rule spsc_reach_inv)
  have eq: "ring_received s @ conduit_ptrs (rb_conduit (ring_shared s)) = map Some (ring_sent s)"
    using inv m by (simp add: spsc_inv_def ring_matches_def conduit_sys_def)
  have "length (ring_received s) + length (conduit_ptrs (rb_conduit (ring_shared s))) = length (ring_sent s)"
    using arg_cong [OF eq, of length] by simp
  moreover have "length (conduit_ptrs (rb_conduit (ring_shared s))) \<le> 2 ^ k - 1"
    using inv m length_conduit_ptrs [of "chan c"] by (simp add: spsc_inv_def ring_matches_def conduit_sys_def conduit_room_def)
  moreover have "w \<noteq> r" if "ring_prod s = RP_Room x w" "ring_cons s = RC_Some r" for x w r
    using inv m that empty_iff [of "chan c"] by (auto simp: spsc_inv_def ring_matches_def conduit_sys_def)
  ultimately show "ring_received s @ conduit_ptrs (rb_conduit (ring_shared s)) = map Some (ring_sent s) \<and>
    length (ring_sent s) - length (ring_received s) \<le> 2 ^ k - 1 \<and>
    (\<forall>x w r. ring_prod s = RP_Room x w \<longrightarrow> ring_cons s = RC_Some r \<longrightarrow> w \<noteq> r)"
    using eq by simp
qed

theorem ring_threads_fifo_witness:
  "conduit_ptrs (rb_conduit (ring_shared ring_mid)) = [Some 7] \<and> length (ring_sent ring_mid) = 1"
  using ring_threads_fifo [OF ring_mid_reach] by (simp add: ring_mid_def)

end
