(* ===== verification/Release_Acquire.thy ===== *)
theory Release_Acquire
  imports Conduit_Prelude
begin

text \<open>
  The part of the C++ memory model that the sources rely on: atomic objects with relaxed, acquire and release
  accesses, and plain objects, on which unordered accesses are a data race and so undefined. An
  atomic object is the list of the values stored to it, in modification order. A thread may read any
  of them that is not older than one it knows of; which those are is its view, together with the
  actions of every thread that happen before what it does next. A release store publishes the view of
  its thread with the value; an acquire load that reads the value joins that view to its own. A
  read-modify-write reads the last value and continues the release sequence of what it read. The
  actions of a thread between two release stores share an epoch, and a thread knows of an action if
  its clock has reached the epoch. Threads are numbers.
\<close>

section \<open>Views\<close>

record 'l thread_view =
  clock :: "nat \<Rightarrow> nat"
  known :: "'l \<Rightarrow> nat"

definition no_view :: "'l thread_view" where
  "no_view = \<lparr>clock = (\<lambda>_. 0), known = (\<lambda>_. 0)\<rparr>"

definition join :: "'l thread_view \<Rightarrow> 'l thread_view \<Rightarrow> 'l thread_view" where
  "join v w = \<lparr>clock = (\<lambda>t. max (clock v t) (clock w t)), known = (\<lambda>l. max (known v l) (known w l))\<rparr>"

lemma join_simps [simp]:
  "clock (join v w) t = max (clock v t) (clock w t)" "known (join v w) l = max (known v l) (known w l)"
  by (simp_all add: join_def)

section \<open>Memory\<close>

text \<open>For each plain object, the thread and the epoch of its last write, and the epoch in which each thread last read
  it. \<open>crew\<close> are the threads there are; \<open>raced\<close> says that a data race has happened.\<close>

record ('l, 'v, 'n, 'd) ra_memory =
  history :: "'l \<Rightarrow> ('v \<times> 'l thread_view) list"
  views :: "nat \<Rightarrow> 'l thread_view"
  objects :: "'n \<Rightarrow> 'd"
  last_write :: "'n \<Rightarrow> nat \<times> nat"
  last_read :: "'n \<Rightarrow> nat \<Rightarrow> nat"
  crew :: "nat list"
  raced :: bool

text \<open>Memory when the threads start: what happened before then happens before everything they do.\<close>

definition fresh_memory :: "nat list \<Rightarrow> ('l \<Rightarrow> 'v) \<Rightarrow> ('n \<Rightarrow> 'd) \<Rightarrow> ('l, 'v, 'n, 'd) ra_memory" where
  "fresh_memory ts atoms cells = \<lparr>history = (\<lambda>l. [(atoms l, no_view)]),
     views = (\<lambda>t. no_view\<lparr>clock := (\<lambda>u. if u = t then 1 else 0)\<rparr>), objects = cells, last_write = (\<lambda>_. (0, 0)),
     last_read = (\<lambda>_ _. 0), crew = ts, raced = False\<rparr>"

definition readable :: "nat \<Rightarrow> 'l \<Rightarrow> nat \<Rightarrow> ('l, 'v, 'n, 'd) ra_memory \<Rightarrow> bool" where
  "readable t l j m \<longleftrightarrow> known (views m t) l \<le> j \<and> j < length (history m l)"

datatype load_order = Relaxed | Acquire

definition put_view :: "nat \<Rightarrow> 'l thread_view \<Rightarrow> ('l, 'v, 'n, 'd) ra_memory \<Rightarrow> ('l, 'v, 'n, 'd) ra_memory" where
  "put_view t v m = m\<lparr>views := (views m)(t := v)\<rparr>"

text \<open>A load of the \<open>j\<close>-th value.\<close>

definition atomic_load :: "load_order \<Rightarrow> nat \<Rightarrow> 'l \<Rightarrow> nat \<Rightarrow> ('l, 'v, 'n, 'd) ra_memory \<Rightarrow> 'v \<times> ('l, 'v, 'n, 'd) ra_memory" where
  "atomic_load ord t l j m =
     (let (x, w) = history m l ! j; v = (views m t)\<lparr>known := (known (views m t))(l := j)\<rparr>
      in (x, put_view t (if ord = Acquire then join v w else v) m))"

text \<open>Appending a value to the modification order; \<open>w\<close> is the view that travels with it besides the thread's own. The
  thread enters its next epoch.\<close>

definition publish :: "nat \<Rightarrow> 'l \<Rightarrow> 'v \<Rightarrow> 'l thread_view \<Rightarrow> ('l, 'v, 'n, 'd) ra_memory \<Rightarrow> ('l, 'v, 'n, 'd) ra_memory" where
  "publish t l x w m =
     (let v = (views m t)\<lparr>known := (known (views m t))(l := length (history m l))\<rparr>
      in put_view t (v\<lparr>clock := (clock v)(t := Suc (clock v t))\<rparr>)
           (m\<lparr>history := (history m)(l := history m l @ [(x, join v w)])\<rparr>))"

definition release_store :: "nat \<Rightarrow> 'l \<Rightarrow> 'v \<Rightarrow> ('l, 'v, 'n, 'd) ra_memory \<Rightarrow> ('l, 'v, 'n, 'd) ra_memory" where
  "release_store t l x m = publish t l x no_view m"

text \<open>\<open>compare_exchange_weak\<close> with release order on success: it succeeds on the last value
  only, and reads any readable one when it fails, spuriously or not.\<close>

definition cas_success :: "nat \<Rightarrow> 'l \<Rightarrow> 'v \<Rightarrow> ('l, 'v, 'n, 'd) ra_memory \<Rightarrow> ('l, 'v, 'n, 'd) ra_memory" where
  "cas_success t l x m = publish t l x (snd (last (history m l))) m"

text \<open>Plain accesses.\<close>

definition write_unseen :: "nat \<Rightarrow> 'n \<Rightarrow> ('l, 'v, 'n, 'd) ra_memory \<Rightarrow> bool" where
  "write_unseen t n m \<longleftrightarrow> (case last_write m n of (u, e) \<Rightarrow> u \<noteq> t \<and> clock (views m t) u < e)"

definition read_unseen :: "nat \<Rightarrow> 'n \<Rightarrow> ('l, 'v, 'n, 'd) ra_memory \<Rightarrow> bool" where
  "read_unseen t n m \<longleftrightarrow> (\<exists>u \<in> set (crew m). u \<noteq> t \<and> clock (views m t) u < last_read m n u)"

definition plain_read :: "nat \<Rightarrow> 'n \<Rightarrow> ('l, 'v, 'n, 'd) ra_memory \<Rightarrow> 'd \<times> ('l, 'v, 'n, 'd) ra_memory" where
  "plain_read t n m =
     (objects m n, m\<lparr>last_read := (last_read m)(n := (last_read m n)(t := clock (views m t) t)),
        raced := raced m \<or> write_unseen t n m\<rparr>)"

definition plain_write :: "nat \<Rightarrow> 'n \<Rightarrow> 'd \<Rightarrow> ('l, 'v, 'n, 'd) ra_memory \<Rightarrow> ('l, 'v, 'n, 'd) ra_memory" where
  "plain_write t n x m =
     m\<lparr>objects := (objects m)(n := x), last_write := (last_write m)(n := (t, clock (views m t) t)),
       raced := raced m \<or> write_unseen t n m \<or> read_unseen t n m\<rparr>"

lemmas memory_defs = put_view_def atomic_load_def publish_def release_store_def cas_success_def plain_read_def plain_write_def

lemma atomic_load_frame [simp]:
  "history (snd (atomic_load ord t l j m)) = history m" "objects (snd (atomic_load ord t l j m)) = objects m"
  "fst (atomic_load ord t l j m) = fst (history m l ! j)"
  "known (views (snd (atomic_load ord t l j m)) t) l' =
     max (if l' = l then j else known (views m t) l') (if ord = Acquire then known (snd (history m l ! j)) l' else 0)"
  by (simp_all add: atomic_load_def put_view_def split_beta Let_def)

end
