(* ===== verification/Conduit_Memory_Order.thy ===== *)
theory Conduit_Memory_Order
  imports Conduit_Concurrent Release_Acquire
begin

text \<open>
  \<open>conduit::push\<close> and \<open>conduit::pop\<close> of \<open>include/conduit/core.hpp\<close> under the memory orders they name: each thread loads
  its own index relaxed and the other's with acquire, and stores its own with release; the slots are
  plain memory. The producer is thread 0, the consumer thread 1. Unlike in \<open>Conduit_Concurrent\<close> a load
  may find an old index. \<open>ra_sent\<close> lists the events pushed with the epoch of the producer in which
  each was pushed; it and \<open>ra_received\<close> are ghosts.
\<close>

section \<open>The two threads\<close>

datatype conduit_index = Write_Idx | Read_Idx

record 'p ra_spsc =
  ra_mem :: "(conduit_index, nat, nat, 'p option) ra_memory"
  ra_prod :: "'p producer"
  ra_cons :: "'p consumer"
  ra_sent :: "('p \<times> nat) list"
  ra_received :: "'p option list"

inductive ra_step :: "nat \<Rightarrow> 'p ra_spsc \<Rightarrow> 'p ra_spsc \<Rightarrow> bool" for N where
  ra_push_begin: "ra_prod s = P_Idle \<Longrightarrow> readable 0 Write_Idx j (ra_mem s) \<Longrightarrow> atomic_load Relaxed 0 Write_Idx j (ra_mem s) = (w, m) \<Longrightarrow>
    ra_step N s (s\<lparr>ra_mem := m, ra_prod := P_Start x w\<rparr>)"
| ra_push_full: "ra_prod s = P_Start x w \<Longrightarrow> readable 0 Read_Idx j (ra_mem s) \<Longrightarrow> atomic_load Acquire 0 Read_Idx j (ra_mem s) = (r, m) \<Longrightarrow>
    next_index N w = r \<Longrightarrow> ra_step N s (s\<lparr>ra_mem := m, ra_prod := P_Idle\<rparr>)"
| ra_push_room: "ra_prod s = P_Start x w \<Longrightarrow> readable 0 Read_Idx j (ra_mem s) \<Longrightarrow> atomic_load Acquire 0 Read_Idx j (ra_mem s) = (r, m) \<Longrightarrow>
    next_index N w \<noteq> r \<Longrightarrow> ra_step N s (s\<lparr>ra_mem := m, ra_prod := P_Room x w\<rparr>)"
| ra_push_write: "ra_prod s = P_Room x w \<Longrightarrow>
    ra_step N s (s\<lparr>ra_mem := plain_write 0 w (Some x) (ra_mem s), ra_prod := P_Written x w\<rparr>)"
| ra_push_publish: "ra_prod s = P_Written x w \<Longrightarrow>
    ra_step N s (s\<lparr>ra_mem := release_store 0 Write_Idx (next_index N w) (ra_mem s), ra_prod := P_Idle,
      ra_sent := ra_sent s @ [(x, clock (views (ra_mem s) 0) 0)]\<rparr>)"
| ra_pop_begin: "ra_cons s = C_Idle \<Longrightarrow> readable 1 Read_Idx j (ra_mem s) \<Longrightarrow> atomic_load Relaxed 1 Read_Idx j (ra_mem s) = (r, m) \<Longrightarrow>
    ra_step N s (s\<lparr>ra_mem := m, ra_cons := C_Start r\<rparr>)"
| ra_pop_empty: "ra_cons s = C_Start r \<Longrightarrow> readable 1 Write_Idx j (ra_mem s) \<Longrightarrow> atomic_load Acquire 1 Write_Idx j (ra_mem s) = (w, m) \<Longrightarrow>
    r = w \<Longrightarrow> ra_step N s (s\<lparr>ra_mem := m, ra_cons := C_Idle\<rparr>)"
| ra_pop_some: "ra_cons s = C_Start r \<Longrightarrow> readable 1 Write_Idx j (ra_mem s) \<Longrightarrow> atomic_load Acquire 1 Write_Idx j (ra_mem s) = (w, m) \<Longrightarrow>
    r \<noteq> w \<Longrightarrow> ra_step N s (s\<lparr>ra_mem := m, ra_cons := C_Some r\<rparr>)"
| ra_pop_read: "ra_cons s = C_Some r \<Longrightarrow> plain_read 1 r (ra_mem s) = (v, m) \<Longrightarrow>
    ra_step N s (s\<lparr>ra_mem := m, ra_cons := C_Got r v\<rparr>)"
| ra_pop_publish: "ra_cons s = C_Got r v \<Longrightarrow>
    ra_step N s (s\<lparr>ra_mem := release_store 1 Read_Idx (next_index N r) (ra_mem s), ra_cons := C_Idle,
      ra_received := ra_received s @ [v]\<rparr>)"

definition ra_start :: "(nat \<Rightarrow> 'p option) \<Rightarrow> 'p ra_spsc" where
  "ra_start garbage = \<lparr>ra_mem = fresh_memory [0, 1] (\<lambda>_. 0) garbage, ra_prod = P_Idle, ra_cons = C_Idle, ra_sent = [], ra_received = []\<rparr>"

inductive ra_reach :: "nat \<Rightarrow> 'p ra_spsc \<Rightarrow> bool" for N where
  ra_init: "ra_reach N (ra_start garbage)"
| ra_next: "ra_reach N s \<Longrightarrow> ra_step N s s' \<Longrightarrow> ra_reach N s'"

section \<open>The invariant\<close>

text \<open>The \<open>j\<close>-th value of an index is \<open>j\<close> modulo the size, and its view has the storing thread's clock at \<open>j\<close>; the other
  components lag behind what the other thread has done.\<close>

definition messages_ok :: "nat \<Rightarrow> nat \<Rightarrow> conduit_index \<Rightarrow> nat \<Rightarrow> conduit_index \<Rightarrow> nat \<Rightarrow> nat \<Rightarrow> (nat \<times> conduit_index thread_view) list \<Rightarrow> bool" where
  "messages_ok N t l u l' k k' h \<longleftrightarrow> length h = Suc k \<and>
     (\<forall>j \<le> k. fst (h ! j) = j mod N \<and> clock (snd (h ! j)) t = j \<and> known (snd (h ! j)) l = j \<and>
        clock (snd (h ! j)) u \<le> k' \<and> known (snd (h ! j)) l' \<le> k')"

text \<open>The view of a thread that has stored its index \<open>k\<close> times and knows of \<open>j\<close> stores of the other's.\<close>

definition ring_view_ok :: "nat \<Rightarrow> conduit_index \<Rightarrow> nat \<Rightarrow> conduit_index \<Rightarrow> nat \<Rightarrow> nat \<Rightarrow> conduit_index thread_view \<Rightarrow> bool" where
  "ring_view_ok t l u l' k j v \<longleftrightarrow> clock v t = Suc k \<and> known v l = k \<and> clock v u = j \<and> known v l' = j"

abbreviation known_reads :: "'p ra_spsc \<Rightarrow> nat" where
  "known_reads s \<equiv> known (views (ra_mem s) 0) Read_Idx"

abbreviation known_writes :: "'p ra_spsc \<Rightarrow> nat" where
  "known_writes s \<equiv> known (views (ra_mem s) 1) Write_Idx"

fun ra_prod_ok :: "nat \<Rightarrow> nat \<Rightarrow> 'p ra_spsc \<Rightarrow> 'p producer \<Rightarrow> bool" where
  "ra_prod_ok N W s P_Idle \<longleftrightarrow> True"
| "ra_prod_ok N W s (P_Start x w) \<longleftrightarrow> w = W mod N"
| "ra_prod_ok N W s (P_Room x w) \<longleftrightarrow> w = W mod N \<and> W + 2 \<le> known_reads s + N"
| "ra_prod_ok N W s (P_Written x w) \<longleftrightarrow> w = W mod N \<and> W + 2 \<le> known_reads s + N \<and>
     objects (ra_mem s) w = Some x \<and> last_write (ra_mem s) w = (0, Suc W)"

fun ra_cons_ok :: "nat \<Rightarrow> nat \<Rightarrow> 'p ra_spsc \<Rightarrow> 'p consumer \<Rightarrow> bool" where
  "ra_cons_ok N R s C_Idle \<longleftrightarrow> True"
| "ra_cons_ok N R s (C_Start r) \<longleftrightarrow> r = R mod N"
| "ra_cons_ok N R s (C_Some r) \<longleftrightarrow> r = R mod N \<and> R < known_writes s"
| "ra_cons_ok N R s (C_Got r v) \<longleftrightarrow> r = R mod N \<and> R < known_writes s \<and> v = Some (fst (ra_sent s ! R)) \<and>
     last_read (ra_mem s) r 1 = Suc R"

text \<open>The slots between the indices hold the events in flight, written in their epochs; the others were last read long
  enough ago.\<close>

definition slots_ok :: "nat \<Rightarrow> nat \<Rightarrow> nat \<Rightarrow> 'p ra_spsc \<Rightarrow> bool" where
  "slots_ok N W R s \<longleftrightarrow>
     (\<forall>k. R \<le> k \<and> k < W \<longrightarrow> objects (ra_mem s) (k mod N) = Some (fst (ra_sent s ! k)) \<and> last_write (ra_mem s) (k mod N) = (0, Suc k)) \<and>
     (\<forall>k. W \<le> k \<and> k < R + N \<longrightarrow> last_read (ra_mem s) (k mod N) 1 = 0 \<or> last_read (ra_mem s) (k mod N) 1 + N \<le> Suc k) \<and>
     (\<forall>n. fst (last_write (ra_mem s) n) = 0) \<and> (\<forall>n. last_read (ra_mem s) n 0 = 0)"

definition ra_inv :: "nat \<Rightarrow> nat \<Rightarrow> nat \<Rightarrow> 'p ra_spsc \<Rightarrow> bool" where
  "ra_inv N W R s \<longleftrightarrow>
     \<not> raced (ra_mem s) \<and> crew (ra_mem s) = [0, 1] \<and> length (ra_sent s) = W \<and> length (ra_received s) = R \<and>
     messages_ok N 0 Write_Idx 1 Read_Idx W R (history (ra_mem s) Write_Idx) \<and>
     messages_ok N 1 Read_Idx 0 Write_Idx R W (history (ra_mem s) Read_Idx) \<and>
     ring_view_ok 0 Write_Idx 1 Read_Idx W (known_reads s) (views (ra_mem s) 0) \<and>
     ring_view_ok 1 Read_Idx 0 Write_Idx R (known_writes s) (views (ra_mem s) 1) \<and>
     known_reads s \<le> R \<and> R \<le> known_writes s \<and> known_writes s \<le> W \<and> W < known_reads s + N \<and>
     slots_ok N W R s \<and> ra_prod_ok N W s (ra_prod s) \<and> ra_cons_ok N R s (ra_cons s) \<and>
     ra_received s = map (\<lambda>e. Some (fst e)) (take R (ra_sent s)) \<and> map snd (ra_sent s) = map Suc [0..<W]"

lemma messages_okD:
  assumes "messages_ok N t l u l' k k' h"
  shows "length h = Suc k" "j \<le> k \<Longrightarrow> fst (h ! j) = j mod N" "j \<le> k \<Longrightarrow> clock (snd (h ! j)) t = j"
    "j \<le> k \<Longrightarrow> known (snd (h ! j)) l = j" "j \<le> k \<Longrightarrow> clock (snd (h ! j)) u \<le> k'" "j \<le> k \<Longrightarrow> known (snd (h ! j)) l' \<le> k'"
  using assms by (auto simp: messages_ok_def)

text \<open>An acquire load of the other's index, and a release store of the own.\<close>

lemma ring_view_ok_acquire:
  assumes "ring_view_ok t l u l' k i v" "messages_ok N u l' t l k' k h" "i \<le> j" "j \<le> k'" "l \<noteq> l'" "t \<noteq> u"
  shows "ring_view_ok t l u l' k j (join (v\<lparr>known := (known v)(l' := j)\<rparr>) (snd (h ! j)))"
  using assms(1,3,5,6) messages_okD(3-6) [OF assms(2,4)] by (auto simp: ring_view_ok_def max_def)

lemma ring_view_ok_publish:
  assumes "ring_view_ok t l u l' k j v" "l \<noteq> l'" "t \<noteq> u"
  shows "ring_view_ok t l u l' (Suc k) j (v\<lparr>known := (known v)(l := Suc k), clock := (clock v)(t := Suc (clock v t))\<rparr>)"
  using assms by (auto simp: ring_view_ok_def)

lemma messages_ok_publish:
  assumes "messages_ok N t l u l' k k' h" "ring_view_ok t l u l' k j v" "j \<le> k'" "l \<noteq> l'"
  shows "messages_ok N t l u l' (Suc k) k' (h @ [(Suc k mod N, join (v\<lparr>known := (known v)(l := Suc k)\<rparr>) no_view)])"
  using assms by (auto simp: messages_ok_def ring_view_ok_def no_view_def nth_append le_Suc_eq)

lemma messages_ok_mono: "messages_ok N t l u l' k k' h \<Longrightarrow> k' \<le> k'' \<Longrightarrow> messages_ok N t l u l' k k'' h"
  unfolding messages_ok_def by (meson order_trans)

lemma next_index_pos: "0 < N \<Longrightarrow> N < 2 ^ 64 \<Longrightarrow> next_index N (k mod N) = Suc k mod N"
proof -
  assume N: "0 < N" "N < 2 ^ 64"
  then have "k mod N < N" by simp
  then have "k mod N + 1 < 2 ^ 64" using N(2) by linarith
  then show ?thesis by (simp add: next_index_def mod_Suc_eq)
qed

lemma ra_invD:
  assumes "ra_inv N W R s"
  shows "\<not> raced (ra_mem s)" "crew (ra_mem s) = [0, 1]" "length (ra_sent s) = W" "length (ra_received s) = R"
    "messages_ok N 0 Write_Idx 1 Read_Idx W R (history (ra_mem s) Write_Idx)"
    "messages_ok N 1 Read_Idx 0 Write_Idx R W (history (ra_mem s) Read_Idx)"
    "ring_view_ok 0 Write_Idx 1 Read_Idx W (known_reads s) (views (ra_mem s) 0)"
    "ring_view_ok 1 Read_Idx 0 Write_Idx R (known_writes s) (views (ra_mem s) 1)"
    "known_reads s \<le> R" "R \<le> known_writes s" "known_writes s \<le> W" "W < known_reads s + N"
    "slots_ok N W R s" "ra_prod_ok N W s (ra_prod s)" "ra_cons_ok N R s (ra_cons s)"
    "ra_received s = map (\<lambda>e. Some (fst e)) (take R (ra_sent s))" "map snd (ra_sent s) = map Suc [0..<W]"
  using assms by (auto simp: ra_inv_def)

text \<open>What the loads find: the own index as it was last stored, the other's as it was at some time.\<close>

lemma own_load:
  assumes "messages_ok N t l u l' k k' (history m l)" "ring_view_ok t l u l' k i (views m t)" "readable t l j m"
  shows "atomic_load Relaxed t l j m = (k mod N, m)"
proof -
  have "j = k" using assms messages_okD(1) [OF assms(1)] by (simp add: readable_def ring_view_ok_def)
  moreover have "(known (views m t))(l := k) = known (views m t)" using assms(2) by (simp add: ring_view_ok_def fun_upd_idem)
  ultimately show ?thesis
    using messages_okD(2) [OF assms(1), of k] by (simp add: atomic_load_def put_view_def split_beta)
qed

lemma other_load:
  assumes "messages_ok N u l' t l k' k (history m l')" "ring_view_ok t l u l' k i (views m t)" "readable t l' j m" "l \<noteq> l'" "t \<noteq> u"
  shows "\<exists>v. atomic_load Acquire t l' j m = (j mod N, put_view t v m) \<and> ring_view_ok t l u l' k j v \<and> i \<le> j \<and> j \<le> k'"
proof -
  have j: "i \<le> j" "j \<le> k'" using assms messages_okD(1) [OF assms(1)] by (simp_all add: readable_def ring_view_ok_def)
  with ring_view_ok_acquire [OF assms(2,1) j assms(4,5)] messages_okD(2) [OF assms(1), of j] show ?thesis
    by (auto simp: atomic_load_def split_beta)
qed

lemma slots_ok_frame:
  "slots_ok N W R s \<Longrightarrow> objects (ra_mem s') = objects (ra_mem s) \<Longrightarrow> last_write (ra_mem s') = last_write (ra_mem s) \<Longrightarrow>
   last_read (ra_mem s') = last_read (ra_mem s) \<Longrightarrow> ra_sent s' = ra_sent s \<Longrightarrow> slots_ok N W R s'"
  by (simp add: slots_ok_def)

lemma ra_cons_ok_frame:
  "ra_cons_ok N R s c \<Longrightarrow> known_writes s \<le> known_writes s' \<Longrightarrow> (R < known_writes s \<Longrightarrow> fst (ra_sent s' ! R) = fst (ra_sent s ! R)) \<Longrightarrow>
   (\<And>n. last_read (ra_mem s') n 1 = last_read (ra_mem s) n 1) \<Longrightarrow> ra_cons_ok N R s' c"
  by (cases c) auto

lemma ra_prod_ok_frame:
  "ra_prod_ok N W s p \<Longrightarrow> known_reads s \<le> known_reads s' \<Longrightarrow> objects (ra_mem s') = objects (ra_mem s) \<Longrightarrow>
   last_write (ra_mem s') = last_write (ra_mem s) \<Longrightarrow> ra_prod_ok N W s' p"
  by (cases p) auto

text \<open>A thread has loaded the other's index.\<close>

lemma inv_prod_view:
  assumes inv: "ra_inv N W R s" and v: "ring_view_ok 0 Write_Idx 1 Read_Idx W j v" "known_reads s \<le> j" "j \<le> R"
    and pc: "pc = P_Idle \<or> pc = P_Room x (W mod N) \<and> W + 2 \<le> j + N"
  shows "ra_inv N W R (s\<lparr>ra_mem := put_view 0 v (ra_mem s), ra_prod := pc\<rparr>)" (is "ra_inv N W R ?s")
proof -
  note D = ra_invD [OF inv]
  have "slots_ok N W R ?s" using D(13) by (rule slots_ok_frame) (simp_all add: put_view_def)
  moreover have "ra_cons_ok N R ?s (ra_cons s)" using D(15) by (rule ra_cons_ok_frame) (simp_all add: put_view_def)
  moreover have "known v Read_Idx = j" using v(1) by (simp add: ring_view_ok_def)
  ultimately show ?thesis using D v pc by (auto simp: ra_inv_def put_view_def)
qed

lemma inv_cons_view:
  assumes inv: "ra_inv N W R s" and v: "ring_view_ok 1 Read_Idx 0 Write_Idx R j v" "known_writes s \<le> j" "j \<le> W"
    and pc: "pc = C_Idle \<or> pc = C_Some (R mod N) \<and> R < j"
  shows "ra_inv N W R (s\<lparr>ra_mem := put_view 1 v (ra_mem s), ra_cons := pc\<rparr>)" (is "ra_inv N W R ?s")
proof -
  note D = ra_invD [OF inv]
  have "slots_ok N W R ?s" using D(13) by (rule slots_ok_frame) (simp_all add: put_view_def)
  moreover have "ra_prod_ok N W ?s (ra_prod s)" using D(14) by (rule ra_prod_ok_frame) (simp_all add: put_view_def)
  moreover have "known v Write_Idx = j" using v(1) by (simp add: ring_view_ok_def)
  ultimately show ?thesis using D v pc by (auto simp: ra_inv_def put_view_def)
qed

lemma mod_apart: "a < b \<Longrightarrow> b < a + N \<Longrightarrow> a mod N \<noteq> b mod (N :: nat)"
proof
  assume less: "a < b" "b < a + N" and "a mod N = b mod N"
  then have "N dvd b - a" using mod_eq_dvd_iff_nat [of a b N] by simp
  with less show False by (auto dest!: dvd_imp_le)
qed

text \<open>The accesses to the slots are ordered after those of the other thread to the same slot.\<close>

lemma inv_write:
  assumes inv: "ra_inv N W R s" and pc: "ra_prod s = P_Room x w"
  shows "ra_inv N W R (s\<lparr>ra_mem := plain_write 0 w (Some x) (ra_mem s), ra_prod := P_Written x w\<rparr>)" (is "ra_inv N W R ?s")
proof -
  note D = ra_invD [OF inv]
  have w: "w = W mod N" "W + 2 \<le> known_reads s + N" using D(14) pc by simp_all
  have "last_read (ra_mem s) w 1 \<le> known_reads s"
    using D(9,13) w unfolding slots_ok_def by (elim conjE allE [of _ W]) auto
  then have "\<not> write_unseen 0 w (ra_mem s)" "\<not> read_unseen 0 w (ra_mem s)"
    using D(2,7,13) by (auto simp: write_unseen_def read_unseen_def slots_ok_def ring_view_ok_def split_beta)
  moreover have "slots_ok N W R ?s"
  proof -
    have "k mod N \<noteq> w" if "R \<le> k" "k < W" for k using mod_apart [of k W N] that D(9) w by simp
    with D(13) show ?thesis by (auto simp: slots_ok_def plain_write_def)
  qed
  moreover have "ra_cons_ok N R ?s (ra_cons s)" using D(15) by (rule ra_cons_ok_frame) (simp_all add: plain_write_def)
  ultimately show ?thesis using D w by (auto simp: ra_inv_def plain_write_def ring_view_ok_def)
qed

lemma inv_read:
  assumes inv: "ra_inv N W R s" and pc: "ra_cons s = C_Some r" and read: "plain_read 1 r (ra_mem s) = (v, m)"
  shows "ra_inv N W R (s\<lparr>ra_mem := m, ra_cons := C_Got r v\<rparr>)" (is "ra_inv N W R ?s")
proof -
  note D = ra_invD [OF inv]
  have r: "r = R mod N" "R < known_writes s" using D(15) pc by simp_all
  then have R: "R < W" using D(11) by simp
  have slot: "objects (ra_mem s) r = Some (fst (ra_sent s ! R))" "last_write (ra_mem s) r = (0, Suc R)"
    using D(13) R r(1) by (auto simp: slots_ok_def)
  then have "\<not> write_unseen 1 r (ra_mem s)" using D(8) r(2) by (simp add: write_unseen_def ring_view_ok_def)
  moreover have m: "v = objects (ra_mem s) r" "m = snd (plain_read 1 r (ra_mem s))" using read by (simp_all add: plain_read_def)
  moreover have "slots_ok N W R ?s"
  proof -
    have "k mod N \<noteq> r" if "W \<le> k" "k < R + N" for k using mod_apart [of R k N] that R r(1) by auto
    with D(13) show ?thesis by (auto simp: slots_ok_def m plain_read_def)
  qed
  moreover have "ra_prod_ok N W ?s (ra_prod s)" using D(14) by (rule ra_prod_ok_frame) (simp_all add: m plain_read_def)
  ultimately show ?thesis using D r slot(1) by (auto simp: ra_inv_def plain_read_def ring_view_ok_def)
qed

text \<open>The stores of the indices.\<close>

lemma inv_push_publish:
  assumes inv: "ra_inv N W R s" and pc: "ra_prod s = P_Written x w" and N: "0 < N" "N < 2 ^ 64"
  shows "ra_inv N (Suc W) R (s\<lparr>ra_mem := release_store 0 Write_Idx (next_index N w) (ra_mem s), ra_prod := P_Idle,
    ra_sent := ra_sent s @ [(x, clock (views (ra_mem s) 0) 0)]\<rparr>)" (is "ra_inv N _ R ?s")
proof -
  note D = ra_invD [OF inv]
  have w: "w = W mod N" "W + 2 \<le> known_reads s + N" "objects (ra_mem s) w = Some x" "last_write (ra_mem s) w = (0, Suc W)"
    using D(14) pc by auto
  let ?m = "release_store 0 Write_Idx (next_index N w) (ra_mem s)"
  note len = messages_okD(1) [OF D(5)]
  have "messages_ok N 0 Write_Idx 1 Read_Idx (Suc W) R (history ?m Write_Idx)"
    using messages_ok_publish [OF D(5,7,9)] next_index_pos [OF N, of W] len w(1)
    by (simp add: memory_defs Let_def)
  moreover have "ring_view_ok 0 Write_Idx 1 Read_Idx (Suc W) (known_reads s) (views ?m 0)"
    using ring_view_ok_publish [OF D(7)] len by (simp add: memory_defs Let_def)
  moreover have "messages_ok N 1 Read_Idx 0 Write_Idx R (Suc W) (history ?m Read_Idx)"
    using messages_ok_mono [OF D(6), of "Suc W"] by (simp add: memory_defs Let_def)
  moreover have "slots_ok N (Suc W) R ?s"
    using D(3,13) w by (auto simp: slots_ok_def memory_defs Let_def nth_append less_Suc_eq)
  moreover have "ra_cons_ok N R ?s (ra_cons s)"
    using D(15) by (rule ra_cons_ok_frame) (use D(3,11) in \<open>simp_all add: memory_defs Let_def nth_append\<close>)
  moreover have "clock (views (ra_mem s) 0) 0 = Suc W" using D(7) by (simp add: ring_view_ok_def)
  ultimately show ?thesis using D w(2) by (auto simp: ra_inv_def memory_defs Let_def)
qed

lemma inv_pop_publish:
  assumes inv: "ra_inv N W R s" and pc: "ra_cons s = C_Got r v" and N: "0 < N" "N < 2 ^ 64"
  shows "ra_inv N W (Suc R) (s\<lparr>ra_mem := release_store 1 Read_Idx (next_index N r) (ra_mem s), ra_cons := C_Idle,
    ra_received := ra_received s @ [v]\<rparr>)" (is "ra_inv N W _ ?s")
proof -
  note D = ra_invD [OF inv]
  have r: "r = R mod N" "R < known_writes s" "v = Some (fst (ra_sent s ! R))" "last_read (ra_mem s) r 1 = Suc R"
    using D(15) pc by auto
  let ?m = "release_store 1 Read_Idx (next_index N r) (ra_mem s)"
  note len = messages_okD(1) [OF D(6)]
  have "messages_ok N 1 Read_Idx 0 Write_Idx (Suc R) W (history ?m Read_Idx)"
    using messages_ok_publish [OF D(6,8,11)] next_index_pos [OF N, of R] len r(1)
    by (simp add: memory_defs Let_def)
  moreover have "ring_view_ok 1 Read_Idx 0 Write_Idx (Suc R) (known_writes s) (views ?m 1)"
    using ring_view_ok_publish [OF D(8)] len by (simp add: memory_defs Let_def)
  moreover have "messages_ok N 0 Write_Idx 1 Read_Idx W (Suc R) (history ?m Write_Idx)"
    using messages_ok_mono [OF D(5), of "Suc R"] by (simp add: memory_defs Let_def)
  moreover have "slots_ok N W (Suc R) ?s"
    using D(13) r by (auto simp: slots_ok_def memory_defs Let_def less_Suc_eq)
  moreover have "ra_prod_ok N W ?s (ra_prod s)"
    using D(14) by (rule ra_prod_ok_frame) (simp_all add: memory_defs Let_def)
  moreover have "take (Suc R) (ra_sent s) = take R (ra_sent s) @ [ra_sent s ! R]"
    using D(3,11) r(2) by (intro take_Suc_conv_app_nth) simp
  ultimately show ?thesis using D r(2,3) by (auto simp: ra_inv_def memory_defs Let_def)
qed

section \<open>Every step keeps it\<close>

text \<open>The tests for room and for an event decide on an index that may be old, and err on the safe side.\<close>

lemma inv_push_load:
  assumes inv: "ra_inv N W R s" and N: "0 < N" "N < 2 ^ 64" and pc: "ra_prod s = P_Start x w"
    and load: "readable 0 Read_Idx j (ra_mem s)" "atomic_load Acquire 0 Read_Idx j (ra_mem s) = (r, m)"
  shows "ra_inv N W R (s\<lparr>ra_mem := m, ra_prod := if next_index N w = r then P_Idle else P_Room x w\<rparr>)"
proof -
  note D = ra_invD [OF inv]
  obtain v where v: "r = j mod N" "m = put_view 0 v (ra_mem s)" "ring_view_ok 0 Write_Idx 1 Read_Idx W j v" "known_reads s \<le> j" "j \<le> R"
    using other_load [OF D(6,7) load(1)] load(2) by auto
  have w: "w = W mod N" using D(14) pc by simp
  have "W + 2 \<le> j + N" if "next_index N w \<noteq> r"
  proof (rule ccontr)
    assume "\<not> W + 2 \<le> j + N"
    then have "Suc W = j + N" using D(12) v(4) by simp
    then have "next_index N w = r" using next_index_pos [OF N, of W] w v(1) by simp
    with that show False by simp
  qed
  then show ?thesis unfolding v(2) using w by (intro inv_prod_view [OF inv v(3-5), of _ x]) auto
qed

lemma inv_pop_load:
  assumes inv: "ra_inv N W R s" and pc: "ra_cons s = C_Start r"
    and load: "readable 1 Write_Idx j (ra_mem s)" "atomic_load Acquire 1 Write_Idx j (ra_mem s) = (w, m)"
  shows "ra_inv N W R (s\<lparr>ra_mem := m, ra_cons := if r = w then C_Idle else C_Some r\<rparr>)"
proof -
  note D = ra_invD [OF inv]
  obtain v where v: "w = j mod N" "m = put_view 1 v (ra_mem s)" "ring_view_ok 1 Read_Idx 0 Write_Idx R j v" "known_writes s \<le> j" "j \<le> W"
    using other_load [OF D(5,8) load(1)] load(2) by auto
  have r: "r = R mod N" using D(15) pc by simp
  have "R < j" if "r \<noteq> w"
  proof -
    have "R \<noteq> j" using that r v(1) by auto
    then show ?thesis using D(10) v(4) by simp
  qed
  then show ?thesis unfolding v(2) using r by (intro inv_cons_view [OF inv v(3-5)]) auto
qed

lemma inv_push_begin:
  assumes inv: "ra_inv N W R s" and pc: "ra_prod s = P_Idle"
    and load: "readable 0 Write_Idx j (ra_mem s)" "atomic_load Relaxed 0 Write_Idx j (ra_mem s) = (w, m)"
  shows "ra_inv N W R (s\<lparr>ra_mem := m, ra_prod := P_Start x w\<rparr>)" (is "ra_inv N W R ?s")
proof -
  note D = ra_invD [OF inv]
  have m: "w = W mod N" "m = ra_mem s" using own_load [OF D(5,7) load(1)] load(2) by simp_all
  then have "slots_ok N W R ?s" "ra_cons_ok N R ?s (ra_cons s)"
    using slots_ok_frame [OF D(13), of ?s] ra_cons_ok_frame [OF D(15), of ?s] by simp_all
  with D m show ?thesis by (simp add: ra_inv_def)
qed

lemma inv_pop_begin:
  assumes inv: "ra_inv N W R s" and pc: "ra_cons s = C_Idle"
    and load: "readable 1 Read_Idx j (ra_mem s)" "atomic_load Relaxed 1 Read_Idx j (ra_mem s) = (r, m)"
  shows "ra_inv N W R (s\<lparr>ra_mem := m, ra_cons := C_Start r\<rparr>)" (is "ra_inv N W R ?s")
proof -
  note D = ra_invD [OF inv]
  have m: "r = R mod N" "m = ra_mem s" using own_load [OF D(6,8) load(1)] load(2) by simp_all
  then have "slots_ok N W R ?s" "ra_prod_ok N W ?s (ra_prod s)"
    using slots_ok_frame [OF D(13), of ?s] ra_prod_ok_frame [OF D(14), of ?s] by simp_all
  with D m show ?thesis by (simp add: ra_inv_def)
qed

lemma ra_step_inv:
  assumes "ra_step N s s'" "ra_inv N W R s" "0 < N" "N < 2 ^ 64"
  shows "\<exists>W R. ra_inv N W R s'"
  using assms(1)
proof (cases rule: ra_step.cases)
  case (ra_push_begin j w m x)
  then show ?thesis using inv_push_begin [OF assms(2), of j w m x] by auto
next
  case (ra_push_full x w j r m)
  then show ?thesis using inv_push_load [OF assms(2-4), of x w j r m] by auto
next
  case (ra_push_room x w j r m)
  then show ?thesis using inv_push_load [OF assms(2-4), of x w j r m] by auto
next
  case (ra_push_write x w)
  then show ?thesis using inv_write [OF assms(2), of x w] by auto
next
  case (ra_push_publish x w)
  then show ?thesis using inv_push_publish [OF assms(2) _ assms(3,4), of x w] by auto
next
  case (ra_pop_begin j r m)
  then show ?thesis using inv_pop_begin [OF assms(2), of j r m] by auto
next
  case (ra_pop_empty r j w m)
  then show ?thesis using inv_pop_load [OF assms(2), of r j w m] by auto
next
  case (ra_pop_some r j w m)
  then show ?thesis using inv_pop_load [OF assms(2), of r j w m] by auto
next
  case (ra_pop_read r v m)
  then show ?thesis using inv_read [OF assms(2), of r v m] by auto
next
  case (ra_pop_publish r v)
  then show ?thesis using inv_pop_publish [OF assms(2) _ assms(3,4), of r v] by auto
qed

lemma ra_reach_inv: "ra_reach N s \<Longrightarrow> 0 < N \<Longrightarrow> N < 2 ^ 64 \<Longrightarrow> \<exists>W R. ra_inv N W R s"
proof (induction rule: ra_reach.induct)
  case (ra_init garbage)
  then have "ra_inv N 0 0 (ra_start garbage)"
    by (simp add: ra_inv_def ra_start_def fresh_memory_def messages_ok_def ring_view_ok_def slots_ok_def no_view_def)
  then show ?case by blast
next
  case (ra_next s s')
  then show ?case using ra_step_inv by blast
qed

section \<open>A run with a stale load\<close>

text \<open>An event is pushed; the consumer finds the index from before, then the new one, and reads the slot.\<close>

definition one_pushed :: "nat ra_spsc" where
  "one_pushed = (let m = release_store 0 Write_Idx 1 (plain_write 0 0 (Some 7) (snd (atomic_load Acquire 0 Read_Idx 0
       (snd (atomic_load Relaxed 0 Write_Idx 0 (ra_mem (ra_start (\<lambda>_. None))))))))
     in (ra_start (\<lambda>_. None))\<lparr>ra_mem := m, ra_sent := [(7, 1)]\<rparr>)"

lemma one_pushed_reach: "ra_reach 2 one_pushed"
proof -
  let ?s = "ra_start (\<lambda>_. None) :: nat ra_spsc"
  obtain m1 where m1: "atomic_load Relaxed 0 Write_Idx 0 (ra_mem ?s) = (0, m1)"
    by (simp add: atomic_load_def ra_start_def fresh_memory_def)
  obtain m2 where m2: "atomic_load Acquire 0 Read_Idx 0 m1 = (0, m2)"
    using m1 by (auto simp: memory_defs ra_start_def fresh_memory_def)
  have ok: "readable 0 Write_Idx 0 (ra_mem ?s)" "readable 0 Read_Idx 0 m1" "clock (views (plain_write 0 0 (Some 7) m2) 0) 0 = 1"
    using m1 m2 by (auto simp: readable_def memory_defs ra_start_def fresh_memory_def no_view_def)
  have "ra_reach 2 (?s\<lparr>ra_mem := m1, ra_prod := P_Start 7 0\<rparr>)"
    using ra_init by (rule ra_next) (rule ra_push_begin, use m1 ok in \<open>simp_all add: ra_start_def\<close>)
  then have "ra_reach 2 (?s\<lparr>ra_mem := m2, ra_prod := P_Room 7 0\<rparr>)"
    by (rule ra_next) (use ra_push_room [of "?s\<lparr>ra_mem := m1, ra_prod := P_Start 7 0\<rparr>" 7 0 0 0 m2 2] m2 ok in \<open>simp add: next_index_def\<close>)
  then have "ra_reach 2 (?s\<lparr>ra_mem := plain_write 0 0 (Some 7) m2, ra_prod := P_Written 7 0\<rparr>)"
    by (rule ra_next) (use ra_push_write [of "?s\<lparr>ra_mem := m2, ra_prod := P_Room 7 0\<rparr>" 7 0 2] in simp)
  then have "ra_reach 2 (?s\<lparr>ra_mem := release_store 0 Write_Idx 1 (plain_write 0 0 (Some 7) m2), ra_prod := P_Idle, ra_sent := [(7, 1)]\<rparr>)"
    by (rule ra_next) (use ra_push_publish [of "?s\<lparr>ra_mem := plain_write 0 0 (Some 7) m2, ra_prod := P_Written 7 0\<rparr>" 7 0 2] ok in
      \<open>simp add: next_index_def ra_start_def\<close>)
  then show ?thesis using m1 m2 by (simp add: one_pushed_def ra_start_def)
qed

lemma one_pushed_popped:
  "\<exists>s. ra_reach 2 s \<and> ra_sent s = [(7, 1)] \<and> ra_received s = [] \<and> ra_cons s = C_Got 0 (Some (7 :: nat))"
proof -
  let ?m = "ra_mem one_pushed"
  have m: "known (views ?m 1) l = 0" "history ?m Read_Idx = [(0, no_view)]" "length (history ?m Write_Idx) = 2"
      "history ?m Write_Idx ! 0 = (0, no_view)" "fst (history ?m Write_Idx ! 1) = 1" "objects ?m 0 = Some 7"
      "ra_cons one_pushed = C_Idle" "ra_sent one_pushed = [(7, 1)]" "ra_received one_pushed = []" for l
    by (simp_all add: one_pushed_def memory_defs ra_start_def fresh_memory_def no_view_def Let_def)
  let ?m1 = "snd (atomic_load Relaxed 1 Read_Idx 0 ?m)"
  let ?m2 = "snd (atomic_load Acquire 1 Write_Idx 0 ?m1)"
  let ?m3 = "snd (atomic_load Relaxed 1 Read_Idx 0 ?m2)"
  let ?m4 = "snd (atomic_load Acquire 1 Write_Idx 1 ?m3)"
  have pair: "atomic_load ord t l j m' = (fst (history m' l ! j), snd (atomic_load ord t l j m'))"
    for ord t l j and m' :: "(conduit_index, nat, nat, nat option) ra_memory"
    by (rule prod_eqI) simp_all
  have ok: "readable 1 Read_Idx 0 ?m" "readable 1 Write_Idx 0 ?m1" "readable 1 Read_Idx 0 ?m2" "readable 1 Write_Idx 1 ?m3"
    using m by (simp_all add: readable_def no_view_def)
  have "ra_reach 2 (one_pushed\<lparr>ra_mem := ?m1, ra_cons := C_Start 0\<rparr>)"
    using one_pushed_reach by (rule ra_next) (rule ra_pop_begin [OF m(7) ok(1)], use pair [of Relaxed 1 Read_Idx 0 ?m] m(2) in simp)
  then have "ra_reach 2 (one_pushed\<lparr>ra_mem := ?m2, ra_cons := C_Idle\<rparr>)"
    by (rule ra_next) (use ra_pop_empty [of "one_pushed\<lparr>ra_mem := ?m1, ra_cons := C_Start 0\<rparr>" 0 0 0 ?m2 2] ok(2) pair [of Acquire 1 Write_Idx 0 ?m1] m(4) in simp)
  then have "ra_reach 2 (one_pushed\<lparr>ra_mem := ?m3, ra_cons := C_Start 0\<rparr>)"
    by (rule ra_next) (use ra_pop_begin [of "one_pushed\<lparr>ra_mem := ?m2, ra_cons := C_Idle\<rparr>" 0 0 ?m3 2] ok(3) pair [of Relaxed 1 Read_Idx 0 ?m2] m(2) in simp)
  then have "ra_reach 2 (one_pushed\<lparr>ra_mem := ?m4, ra_cons := C_Some 0\<rparr>)"
    by (rule ra_next) (use ra_pop_some [of "one_pushed\<lparr>ra_mem := ?m3, ra_cons := C_Start 0\<rparr>" 0 1 1 ?m4 2] ok(4) pair [of Acquire 1 Write_Idx 1 ?m3] m(5) in simp)
  then have "ra_reach 2 (one_pushed\<lparr>ra_mem := snd (plain_read 1 0 ?m4), ra_cons := C_Got 0 (Some 7)\<rparr>)"
    by (rule ra_next) (use ra_pop_read [of "one_pushed\<lparr>ra_mem := ?m4, ra_cons := C_Some 0\<rparr>" 0 "Some 7" "snd (plain_read 1 0 ?m4)" 2] m(6) in \<open>simp add: plain_read_def\<close>)
  then show ?thesis using m(8,9) by (intro exI) auto
qed

section \<open>Properties\<close>

text \<open>C4: Under the memory orders that the code names, with loads that may find old values of the indices, a producer and a
  consumer on a conduit never race: every access to a slot is ordered with the other thread's accesses
  to it. The events received are the first of those sent, in order, at most \<open>Size - 1\<close> are in flight,
  every slot accessed lies in the array, and when the consumer has read an event everything that the
  producer did up to its push happens before.\<close>

theorem conduit_race_free:
  assumes "0 < N" "N < 2 ^ 64" "ra_reach N s"
  shows "\<not> raced (ra_mem s) \<and> length (ra_received s) \<le> length (ra_sent s) \<and> length (ra_sent s) - length (ra_received s) \<le> N - 1 \<and>
    ra_received s = map (\<lambda>e. Some (fst e)) (take (length (ra_received s)) (ra_sent s)) \<and>
    (\<forall>x w. ra_prod s = P_Room x w \<longrightarrow> w < N) \<and> (\<forall>r. ra_cons s = C_Some r \<longrightarrow> r < N) \<and>
    (\<forall>r v. ra_cons s = C_Got r v \<longrightarrow> (case ra_sent s ! length (ra_received s) of (x, e) \<Rightarrow> v = Some x \<and> e \<le> clock (views (ra_mem s) 1) 0))"
proof -
  obtain W R where inv: "ra_inv N W R s" using ra_reach_inv [OF assms(3,1,2)] by blast
  note D = ra_invD [OF inv]
  have epoch: "snd (ra_sent s ! R) = Suc R" if "R < W" using D(3,17) that by (metis nth_map nth_upt add_0 length_map length_upt diff_zero)
  have "case ra_sent s ! R of (x, e) \<Rightarrow> v = Some x \<and> e \<le> clock (views (ra_mem s) 1) 0" if "ra_cons s = C_Got r v" for r v
    using D(8,11,15) epoch that by (auto simp: ring_view_ok_def split: prod.split)
  moreover have "w < N" if "ra_prod s = P_Room x w" for x w using D(14) that assms(1) by auto
  moreover have "r < N" if "ra_cons s = C_Some r" for r using D(15) that assms(1) by auto
  ultimately show ?thesis using D by auto
qed

theorem conduit_race_free_witness:
  "\<exists>s :: nat ra_spsc. ra_reach 2 s \<and> ra_cons s = C_Got 0 (Some 7) \<and> \<not> raced (ra_mem s) \<and> 1 \<le> clock (views (ra_mem s) 1) 0"
proof -
  obtain s :: "nat ra_spsc" where s: "ra_reach 2 s" "ra_sent s = [(7, 1)]" "ra_received s = []" "ra_cons s = C_Got 0 (Some 7)"
    using one_pushed_popped by blast
  with conduit_race_free [OF _ _ s(1)] show ?thesis by auto
qed

end
