(* ===== verification/Pool_Memory_Order.thy ===== *)
theory Pool_Memory_Order
  imports Pool_Concurrent Release_Acquire
begin

text \<open>
  \<open>pool::make\<close> and \<open>pool::free\<close> of \<open>include/conduit/core.hpp\<close> under the memory orders they name: the head is loaded with
  acquire, the compare-and-swap is a release when it succeeds and relaxed when it fails, and the
  cells are plain memory. The order of a failed compare-and-swap is a parameter, so that the code
  (relaxed) can be compared with a variant of it that has acquire there. The
  stamp of a program counter is the place of the loaded head in the modification order; \<open>blind\<close> says
  of each thread whether its last read of a \<open>next\<close> field was not ordered after the write of it.
\<close>

section \<open>Threads and steps\<close>

record 'a ra_pool =
  rp_mem :: "(unit, u64, nat, 'a cell) ra_memory"
  rp_pcs :: "nat \<Rightarrow> 'a pc"
  rp_held :: "nat \<Rightarrow> nat set"
  blind :: "nat \<Rightarrow> bool"

abbreviation heads :: "'a ra_pool \<Rightarrow> (u64 \<times> unit thread_view) list" where
  "heads s \<equiv> history (rp_mem s) ()"

text \<open>An event that changes hands takes the giver's view along, as it does through a conduit.\<close>

definition pass_view :: "nat \<Rightarrow> nat \<Rightarrow> ('l, 'v, 'n, 'd) ra_memory \<Rightarrow> ('l, 'v, 'n, 'd) ra_memory" where
  "pass_view t u m = put_view u (join (views m u) (views m t))
     (put_view t ((views m t)\<lparr>clock := (clock (views m t))(t := Suc (clock (views m t) t))\<rparr>) m)"

inductive ra_pool_step :: "load_order \<Rightarrow> ('a \<Rightarrow> u64) \<Rightarrow> 'a ra_pool \<Rightarrow> 'a ra_pool \<Rightarrow> bool" for fail_order bits where
  rp_make_begin: "rp_pcs s t = Idle \<Longrightarrow> readable t () j (rp_mem s) \<Longrightarrow> atomic_load Acquire t () j (rp_mem s) = (h, m) \<Longrightarrow>
    ra_pool_step fail_order bits s (s\<lparr>rp_mem := m, rp_pcs := (rp_pcs s)(t := Make_Top v h j)\<rparr>)"
| rp_make_empty: "rp_pcs s t = Make_Top v h c \<Longrightarrow> head_idx h = 0xFFFFFFFF \<Longrightarrow>
    ra_pool_step fail_order bits s (s\<lparr>rp_pcs := (rp_pcs s)(t := Idle)\<rparr>)"
| rp_make_read: "rp_pcs s t = Make_Top v h c \<Longrightarrow> head_idx h \<noteq> 0xFFFFFFFF \<Longrightarrow> plain_read t (unat (head_idx h)) (rp_mem s) = (cl, m) \<Longrightarrow>
    ra_pool_step fail_order bits s (s\<lparr>rp_mem := m, rp_pcs := (rp_pcs s)(t := Make_Cas v h (read_next bits cl) c),
      blind := (blind s)(t := write_unseen t (unat (head_idx h)) (rp_mem s))\<rparr>)"
| rp_make_swap: "rp_pcs s t = Make_Cas v h k c \<Longrightarrow> fst (last (heads s)) = h \<Longrightarrow>
    ra_pool_step fail_order bits s (s\<lparr>rp_mem := cas_success t () (mk_head (head_tag h + 1) (k AND 0xFFFFFFFF)) (rp_mem s),
      rp_pcs := (rp_pcs s)(t := Make_New v (unat (head_idx h)))\<rparr>)"
| rp_make_retry: "rp_pcs s t = Make_Cas v h k c \<Longrightarrow> readable t () j (rp_mem s) \<Longrightarrow> atomic_load fail_order t () j (rp_mem s) = (h', m) \<Longrightarrow>
    ra_pool_step fail_order bits s (s\<lparr>rp_mem := m, rp_pcs := (rp_pcs s)(t := Make_Top v h' j)\<rparr>)"
| rp_make_construct: "rp_pcs s t = Make_New v x \<Longrightarrow>
    ra_pool_step fail_order bits s (s\<lparr>rp_mem := plain_write t x (Data v) (rp_mem s),
      rp_pcs := (rp_pcs s)(t := Idle), rp_held := (rp_held s)(t := insert x (rp_held s t))\<rparr>)"
| rp_free_begin: "rp_pcs s t = Idle \<Longrightarrow> x \<in> rp_held s t \<Longrightarrow>
    ra_pool_step fail_order bits s (s\<lparr>rp_pcs := (rp_pcs s)(t := Free_Load x), rp_held := (rp_held s)(t := rp_held s t - {x})\<rparr>)"
| rp_free_load: "rp_pcs s t = Free_Load x \<Longrightarrow> readable t () j (rp_mem s) \<Longrightarrow> atomic_load Acquire t () j (rp_mem s) = (h, m) \<Longrightarrow>
    ra_pool_step fail_order bits s (s\<lparr>rp_mem := m, rp_pcs := (rp_pcs s)(t := Free_Top x h j)\<rparr>)"
| rp_free_link: "rp_pcs s t = Free_Top x h c \<Longrightarrow>
    ra_pool_step fail_order bits s (s\<lparr>rp_mem := plain_write t x (Next (h AND 0xFFFFFFFF)) (rp_mem s),
      rp_pcs := (rp_pcs s)(t := Free_Cas x h c)\<rparr>)"
| rp_free_swap: "rp_pcs s t = Free_Cas x h c \<Longrightarrow> fst (last (heads s)) = h \<Longrightarrow>
    ra_pool_step fail_order bits s (s\<lparr>rp_mem := cas_success t () (mk_head (head_tag h + 1) (word_of_nat x AND 0xFFFFFFFF)) (rp_mem s),
      rp_pcs := (rp_pcs s)(t := Idle)\<rparr>)"
| rp_free_retry: "rp_pcs s t = Free_Cas x h c \<Longrightarrow> readable t () j (rp_mem s) \<Longrightarrow> atomic_load fail_order t () j (rp_mem s) = (h', m) \<Longrightarrow>
    ra_pool_step fail_order bits s (s\<lparr>rp_mem := m, rp_pcs := (rp_pcs s)(t := Free_Top x h' j)\<rparr>)"
| rp_write_object: "rp_pcs s t = Idle \<Longrightarrow> x \<in> rp_held s t \<Longrightarrow>
    ra_pool_step fail_order bits s (s\<lparr>rp_mem := plain_write t x (Data v) (rp_mem s)\<rparr>)"
| rp_hand_over: "x \<in> rp_held s t \<Longrightarrow> t \<noteq> u \<Longrightarrow>
    ra_pool_step fail_order bits s (s\<lparr>rp_mem := pass_view t u (rp_mem s),
      rp_held := (rp_held s)(t := rp_held s t - {x}, u := insert x (rp_held s u))\<rparr>)"

definition rp_swaps :: "'a ra_pool \<Rightarrow> nat" where
  "rp_swaps s = length (heads s) - 1"

definition rp_fresh :: "'a ra_pool \<Rightarrow> bool" where
  "rp_fresh s \<longleftrightarrow> (\<forall>t c. stamp (rp_pcs s t) = Some c \<longrightarrow> rp_swaps s < c + 2 ^ 32)"

definition rp_start :: "nat list \<Rightarrow> 'a pool \<Rightarrow> 'a ra_pool" where
  "rp_start ts p = \<lparr>rp_mem = fresh_memory ts (\<lambda>_. free_head p) (\<lambda>i. memory p ! i), rp_pcs = (\<lambda>_. Idle), rp_held = (\<lambda>_. {}),
     blind = (\<lambda>_. False)\<rparr>"

inductive rp_reach :: "load_order \<Rightarrow> ('a \<Rightarrow> u64) \<Rightarrow> nat list \<Rightarrow> nat \<Rightarrow> 'a ra_pool \<Rightarrow> bool" for fail_order bits ts n where
  rp_init: "pool_ctor n = Done p \<Longrightarrow> rp_reach fail_order bits ts n (rp_start ts p)"
| rp_next: "rp_reach fail_order bits ts n s \<Longrightarrow> rp_fresh s \<Longrightarrow> ra_pool_step fail_order bits s s' \<Longrightarrow> rp_reach fail_order bits ts n s'"

section \<open>The invariant\<close>

text \<open>The values in memory are a state of the pool of \<open>Pool_Concurrent\<close>, in which a load may also find an old head.\<close>

definition rp_pool :: "nat \<Rightarrow> 'a ra_pool \<Rightarrow> 'a pool_sys" where
  "rp_pool n s = \<lparr>shared = \<lparr>memory = map (objects (rp_mem s)) [0..<n], free_head = fst (last (heads s))\<rparr>,
     pcs = rp_pcs s, held = rp_held s, swaps = rp_swaps s\<rparr>"

definition view_le :: "'l thread_view \<Rightarrow> 'l thread_view \<Rightarrow> bool" where
  "view_le v w \<longleftrightarrow> (\<forall>t. clock v t \<le> clock w t)"

definition knows :: "'l thread_view \<Rightarrow> nat \<times> nat \<Rightarrow> bool" where
  "knows v ue \<longleftrightarrow> snd ue \<le> clock v (fst ue)"

text \<open>The heads carry their place in the tag and grow in what they know.\<close>

definition heads_ok :: "nat \<Rightarrow> (u64 \<times> unit thread_view) list \<Rightarrow> bool" where
  "heads_ok n hs \<longleftrightarrow> hs \<noteq> [] \<and>
     (\<forall>j < length hs. unat (head_tag (fst (hs ! j))) = j mod 2 ^ 32 \<and>
        (head_idx (fst (hs ! j)) = end_of_list \<or> unat (head_idx (fst (hs ! j))) < n)) \<and>
     (\<forall>i j. i \<le> j \<and> j < length hs \<longrightarrow> view_le (snd (hs ! i)) (snd (hs ! j)))"

text \<open>The last write of a free cell is known to the last head, that of a claimed cell to its owner; a thread knows what
  the head it loaded knows; and a read that a successful swap will rely on was ordered.\<close>

definition known_ok :: "nat \<Rightarrow> nat list \<Rightarrow> 'a ra_pool \<Rightarrow> bool" where
  "known_ok n fl s \<longleftrightarrow>
     (\<forall>x \<in> set fl. knows (snd (last (heads s))) (last_write (rp_mem s) x)) \<and>
     (\<forall>t. \<forall>x \<in> claimed (rp_pool n s) t. knows (views (rp_mem s) t) (last_write (rp_mem s) x)) \<and>
     (\<forall>t c. stamp (rp_pcs s t) = Some c \<longrightarrow> view_le (snd (heads s ! c)) (views (rp_mem s) t)) \<and>
     (\<forall>t v h k c. rp_pcs s t = Make_Cas v h k c \<longrightarrow> c = rp_swaps s \<longrightarrow> \<not> blind s t)"

definition rp_inv :: "('a \<Rightarrow> u64) \<Rightarrow> nat \<Rightarrow> nat list \<Rightarrow> 'a ra_pool \<Rightarrow> bool" where
  "rp_inv bits n fl s \<longleftrightarrow> conc_inv bits n fl (rp_pool n s) \<and> heads_ok n (heads s) \<and> known_ok n fl s"

lemma view_le_refl [simp]: "view_le v v"
  by (simp add: view_le_def)

lemma view_le_trans: "view_le u v \<Longrightarrow> view_le v w \<Longrightarrow> view_le u w"
  unfolding view_le_def using le_trans by blast

lemma knows_mono: "knows v e \<Longrightarrow> view_le v w \<Longrightarrow> knows w e"
  unfolding knows_def view_le_def using le_trans by blast

lemma write_unseen_knows: "knows (views m t) (last_write m x) \<Longrightarrow> \<not> write_unseen t x m"
  by (auto simp: write_unseen_def knows_def split: prod.split)

section \<open>Every step keeps the invariant\<close>

text \<open>A load finds one of the heads; with acquire the thread then knows what that head knows.\<close>

lemma load_effect:
  assumes "atomic_load ord t l j m = (h, m')"
  obtains v where "h = fst (history m l ! j)" "m' = put_view t v m" "view_le (views m t) v"
    "ord = Acquire \<Longrightarrow> view_le (snd (history m l ! j)) v"
  using assms by (auto simp: atomic_load_def Let_def split_beta view_le_def)

lemma load_ok:
  assumes "heads_ok n (heads s)" "j < length (heads s)"
  shows "loaded_ok n (rp_pool n s) (fst (heads s ! j)) j"
  using assms by (auto simp: heads_ok_def loaded_ok_def rp_pool_def rp_swaps_def last_conv_nth)

text \<open>A step of thread \<open>t\<close> that stores no head.\<close>

lemma known_ok_step:
  assumes known: "known_ok n fl s" and claims: "claims_ok n fl (rp_pool n s)"
    and heads: "heads s' = heads s" and same: "claimed (rp_pool n s') = claimed (rp_pool n s)"
    and views: "\<And>u. view_le (views (rp_mem s) u) (views (rp_mem s') u)"
    and wr: "\<And>x. last_write (rp_mem s') x \<noteq> last_write (rp_mem s) x \<Longrightarrow>
      x \<in> claimed (rp_pool n s) t \<and> knows (views (rp_mem s') t) (last_write (rp_mem s') x)"
    and pcs: "rp_pcs s' = (rp_pcs s)(t := pc')" "\<And>c. stamp pc' = Some c \<Longrightarrow> view_le (snd (heads s ! c)) (views (rp_mem s') t)"
    and blind: "\<And>u. u \<noteq> t \<Longrightarrow> blind s' u = blind s u" "\<And>v h k c. pc' = Make_Cas v h k c \<Longrightarrow> c = rp_swaps s \<Longrightarrow> \<not> blind s' t"
  shows "known_ok n fl s'"
  unfolding known_ok_def
proof (intro conjI allI ballI impI)
  fix x assume x: "x \<in> set fl"
  then have "x \<notin> claimed (rp_pool n s) t" using claims_okD(3) [OF claims, of t] by auto
  with wr have "last_write (rp_mem s') x = last_write (rp_mem s) x" by blast
  with known x show "knows (snd (last (heads s'))) (last_write (rp_mem s') x)" by (simp add: known_ok_def heads)
next
  fix u x assume x: "x \<in> claimed (rp_pool n s') u"
  show "knows (views (rp_mem s') u) (last_write (rp_mem s') x)"
  proof (cases "last_write (rp_mem s') x = last_write (rp_mem s) x")
    case True
    with known x knows_mono [OF _ views] show ?thesis by (simp add: known_ok_def same)
  next
    case False
    with wr claims_okD(2) [OF claims] x show ?thesis unfolding same by metis
  qed
next
  fix u c assume "stamp (rp_pcs s' u) = Some c"
  with known pcs view_le_trans [OF _ views] show "view_le (snd (heads s' ! c)) (views (rp_mem s') u)"
    by (cases "u = t") (auto simp: known_ok_def heads)
next
  fix u v h k c assume "rp_pcs s' u = Make_Cas v h k c" "c = rp_swaps s'"
  with known pcs(1) blind show "\<not> blind s' u"
    by (cases "u = t") (auto simp: known_ok_def heads rp_swaps_def)
qed

text \<open>A successful compare-and-swap of thread \<open>t\<close>: its head knows all that the previous head and the thread knew.\<close>

lemma swap_effect:
  assumes "m = cas_success t () x (rp_mem s)"
  obtains w where "history m () = heads s @ [(x, w)]" "view_le (snd (last (heads s))) w" "view_le (views (rp_mem s) t) w"
    "\<And>u. view_le (views (rp_mem s) u) (views m u)" "objects m = objects (rp_mem s)" "last_write m = last_write (rp_mem s)"
proof -
  let ?v = "(views (rp_mem s) t)\<lparr>known := (known (views (rp_mem s) t))(() := length (heads s))\<rparr>"
  let ?w = "join ?v (snd (last (heads s)))"
  show ?thesis
    by (rule that [of ?w]) (auto simp: assms cas_success_def publish_def put_view_def Let_def view_le_def)
qed

lemma heads_ok_swap:
  assumes ok: "heads_ok n hs" and w: "view_le (snd (last hs)) w"
    and x: "unat (head_tag x) = length hs mod 2 ^ 32" "head_idx x = end_of_list \<or> unat (head_idx x) < n"
  shows "heads_ok n (hs @ [(x, w)])"
proof -
  have "view_le (snd (hs ! i)) w" if "i < length hs" for i
  proof (rule view_le_trans [OF _ w])
    have "i \<le> length hs - 1" "length hs - 1 < length hs" "hs \<noteq> []" using that by auto
    with ok show "view_le (snd (hs ! i)) (snd (last hs))" by (simp add: heads_ok_def last_conv_nth)
  qed
  with ok x show ?thesis by (auto simp: heads_ok_def nth_append less_Suc_eq)
qed

lemma known_ok_swap:
  assumes known: "known_ok n fl s" and hs: "heads s \<noteq> []" and inv: "conc_inv bits n fl (rp_pool n s)"
    and h: "heads s' = heads s @ [(x, w)]" "view_le (snd (last (heads s))) w"
    and views: "\<And>u. view_le (views (rp_mem s) u) (views (rp_mem s') u)"
    and writes: "last_write (rp_mem s') = last_write (rp_mem s)"
    and free: "\<And>y. y \<in> set fl' \<Longrightarrow> y \<in> set fl \<or> knows w (last_write (rp_mem s) y)"
    and claims: "\<And>u y. y \<in> claimed (rp_pool n s') u \<Longrightarrow> y \<in> claimed (rp_pool n s) u \<or> knows (views (rp_mem s') u) (last_write (rp_mem s) y)"
    and pcs: "rp_pcs s' = (rp_pcs s)(t := pc')" "stamp pc' = None"
  shows "known_ok n fl' s'"
  unfolding known_ok_def
proof (intro conjI allI ballI impI)
  fix y assume "y \<in> set fl'"
  with free known knows_mono [OF _ h(2), of "last_write (rp_mem s) y"] show "knows (snd (last (heads s'))) (last_write (rp_mem s') y)"
    by (auto simp: known_ok_def h(1) writes)
next
  fix u y assume "y \<in> claimed (rp_pool n s') u"
  with claims [of y u] known knows_mono [OF _ views, of u "last_write (rp_mem s) y"] show "knows (views (rp_mem s') u) (last_write (rp_mem s') y)"
    by (auto simp: known_ok_def writes)
next
  fix u c assume "stamp (rp_pcs s' u) = Some c"
  then have c: "stamp (rp_pcs s u) = Some c" using pcs by (auto split: if_splits)
  have "pc_ok bits n (rp_pool n s) (rp_pcs s u)" using conc_invD(6) [OF inv, of u] by (simp add: rp_pool_def)
  with c have "c \<le> rp_swaps s" by (cases "rp_pcs s u") (auto simp: loaded_ok_def rp_pool_def)
  with hs have "c < length (heads s)" by (cases "heads s") (auto simp: rp_swaps_def)
  with known c view_le_trans [OF _ views] show "view_le (snd (heads s' ! c)) (views (rp_mem s') u)"
    by (auto simp: known_ok_def h(1) nth_append)
next
  fix u v h0 k c assume u: "rp_pcs s' u = Make_Cas v h0 k c" "c = rp_swaps s'"
  have "u \<noteq> t" using u(1) pcs by auto
  with u pcs have "rp_pcs s u = Make_Cas v h0 k c" by simp
  with conc_invD(6) [OF inv, of u] have "c \<le> rp_swaps s" by (simp add: rp_pool_def loaded_ok_def)
  with u(2) hs show "\<not> blind s' u" by (cases "heads s") (auto simp: rp_swaps_def h(1))
qed

lemma rp_invD:
  assumes "rp_inv bits n fl s"
  shows "conc_inv bits n fl (rp_pool n s)" "claims_ok n fl (rp_pool n s)" "heads_ok n (heads s)" "heads s \<noteq> []" "known_ok n fl s"
    "pc_ok bits n (rp_pool n s) (rp_pcs s t)"
  using assms conc_invD(5) conc_invD(6) [of bits n fl "rp_pool n s" t] by (auto simp: rp_inv_def heads_ok_def rp_pool_def)

text \<open>The program counter of a thread moves, by a load or not.\<close>

lemma rp_inv_load:
  assumes inv: "rp_inv bits n fl s" and j: "readable t () j (rp_mem s)"
    and load: "atomic_load Acquire t () j (rp_mem s) = (h, m)"
    and pc': "working_on pc' = working_on (rp_pcs s t)" "stamp pc' = Some j" "\<nexists>v h k c. pc' = Make_Cas v h k c"
    and ok: "loaded_ok n (rp_pool n s) h j \<Longrightarrow> pc_ok bits n (rp_pool n s) pc'"
  shows "rp_inv bits n fl (s\<lparr>rp_mem := m, rp_pcs := (rp_pcs s)(t := pc')\<rparr>)" (is "rp_inv bits n fl ?s'")
proof -
  note D = rp_invD [OF inv]
  obtain v where v: "h = fst (heads s ! j)" "m = put_view t v (rp_mem s)" "view_le (views (rp_mem s) t) v"
    "view_le (snd (heads s ! j)) v"
    using load_effect [OF load] by metis
  have "j < length (heads s)" using j by (simp add: readable_def)
  then have "pc_ok bits n (rp_pool n s) pc'" using load_ok [OF D(3)] ok v(1) by simp
  moreover have eq: "rp_pool n ?s' = (rp_pool n s)\<lparr>pcs := (pcs (rp_pool n s))(t := pc')\<rparr>"
    by (simp add: rp_pool_def rp_swaps_def v(2) put_view_def)
  ultimately have "conc_inv bits n fl (rp_pool n ?s')"
    unfolding eq using pc'(1) by (intro inv_local [OF D(1)]) (simp_all add: rp_pool_def)
  moreover have "known_ok n fl ?s'"
    using pc' v(3,4)
    by (intro known_ok_step [OF D(5,2), where t = t and pc' = pc'])
       (auto simp: v(2) put_view_def claimed_def rp_pool_def fun_eq_iff)
  ultimately show ?thesis using D(3) by (simp add: rp_inv_def v(2) put_view_def)
qed

lemma rp_inv_move:
  assumes inv: "rp_inv bits n fl s" and H: "H \<union> working_on pc' = claimed (rp_pool n s) t" and pc': "stamp pc' = None"
    and conc: "conc_inv bits n fl ((rp_pool n s)\<lparr>pcs := (pcs (rp_pool n s))(t := pc'), held := (held (rp_pool n s))(t := H)\<rparr>)"
  shows "rp_inv bits n fl (s\<lparr>rp_pcs := (rp_pcs s)(t := pc'), rp_held := (rp_held s)(t := H)\<rparr>)" (is "rp_inv _ _ _ ?s'")
proof -
  note D = rp_invD [OF inv]
  have "conc_inv bits n fl (rp_pool n ?s')" using conc by (simp add: rp_pool_def rp_swaps_def)
  moreover have "known_ok n fl ?s'"
    using H pc'
    by (intro known_ok_step [OF D(5,2), where t = t and pc' = pc']) (auto simp: claimed_def rp_pool_def fun_eq_iff)
  ultimately show ?thesis using D(3) by (simp add: rp_inv_def)
qed

lemma rp_inv_read:
  assumes inv: "rp_inv bits n fl s" and pc: "rp_pcs s t = Make_Top v h c" and some: "head_idx h \<noteq> 0xFFFFFFFF"
    and read: "plain_read t (unat (head_idx h)) (rp_mem s) = (cl, m)"
  shows "rp_inv bits n fl (s\<lparr>rp_mem := m, rp_pcs := (rp_pcs s)(t := Make_Cas v h (read_next bits cl) c),
      blind := (blind s)(t := write_unseen t (unat (head_idx h)) (rp_mem s))\<rparr>)" (is "rp_inv bits n fl ?s'")
proof -
  note D = rp_invD [OF inv] and I = conc_invD [OF rp_invD(1) [OF inv]]
  have load: "loaded_ok n (rp_pool n s) h c" using D(6) [of t] pc by simp
  have x: "unat (head_idx h) < n" using load some by (simp add: loaded_ok_def)
  have cl: "cl = objects (rp_mem s) (unat (head_idx h))" "history m () = heads s" "objects m = objects (rp_mem s)"
    "views m = views (rp_mem s)" "last_write m = last_write (rp_mem s)"
    using read by (auto simp: plain_read_def)
  have seen: "view_le (snd (heads s ! c)) (views (rp_mem s) t)" using D(5) pc by (simp add: known_ok_def)
  have "\<not> write_unseen t (unat (head_idx h)) (rp_mem s)" if "c = rp_swaps s"
  proof (rule write_unseen_knows)
    have "h = free_head (shared (rp_pool n s))" using load that by (simp add: loaded_ok_def rp_pool_def)
    then have "unat (head_idx h) \<in> set fl" using I(3) some by (auto simp: chain_cons_iff)
    then have "knows (snd (last (heads s))) (last_write (rp_mem s) (unat (head_idx h)))"
      using D(5) by (simp add: known_ok_def)
    moreover have "heads s ! c = last (heads s)" using D(4) that by (simp add: rp_swaps_def last_conv_nth)
    ultimately show "knows (views (rp_mem s) t) (last_write (rp_mem s) (unat (head_idx h)))"
      using knows_mono [OF _ seen] by simp
  qed
  then have "known_ok n fl ?s'"
    using pc seen
    by (intro known_ok_step [OF D(5,2), where t = t and pc' = "Make_Cas v h (read_next bits cl) c"])
       (auto simp: cl(2,4,5) claimed_def rp_pool_def fun_eq_iff)
  moreover have eq: "rp_pool n ?s' = (rp_pool n s)\<lparr>pcs := (pcs (rp_pool n s))(t := Make_Cas v h (read_next bits cl) c)\<rparr>"
    using cl(2,3) by (simp add: rp_pool_def rp_swaps_def)
  moreover have "conc_inv bits n fl (rp_pool n ?s')"
    unfolding eq using load some x pc
    by (intro inv_local [OF D(1)]) (simp_all add: rp_pool_def pool_next_def cl(1))
  ultimately show ?thesis using D(3) cl(2) by (simp add: rp_inv_def)
qed

text \<open>A thread writes a cell it has in its hands.\<close>

lemma rp_inv_write:
  assumes inv: "rp_inv bits n fl s" and x: "x \<in> claimed (rp_pool n s) t"
    and H: "H \<union> working_on pc' = claimed (rp_pool n s) t" "H \<inter> working_on pc' = {}"
    and pc': "stamp pc' = None \<or> stamp pc' = stamp (rp_pcs s t)" "\<nexists>v h k c. pc' = Make_Cas v h k c"
    and ok: "pc_ok bits n ((rp_pool n s)\<lparr>shared := (shared (rp_pool n s))\<lparr>memory := (memory (shared (rp_pool n s)))[x := cl]\<rparr>\<rparr>) pc'"
  shows "rp_inv bits n fl (s\<lparr>rp_mem := plain_write t x cl (rp_mem s), rp_pcs := (rp_pcs s)(t := pc'),
      rp_held := (rp_held s)(t := H)\<rparr>)" (is "rp_inv bits n fl ?s'")
proof -
  note D = rp_invD [OF inv]
  have "x < n" using claimed_cell_bounded [OF D(2) x] by simp
  then have eq: "rp_pool n ?s' = (rp_pool n s)\<lparr>shared := (shared (rp_pool n s))\<lparr>memory := (memory (shared (rp_pool n s)))[x := cl]\<rparr>,
      pcs := (pcs (rp_pool n s))(t := pc'), held := (held (rp_pool n s))(t := H)\<rparr>"
    by (auto simp: rp_pool_def rp_swaps_def plain_write_def list_eq_iff_nth_eq nth_list_update)
  then have "conc_inv bits n fl (rp_pool n ?s')"
    using inv_own [OF D(1) x H ok] by simp
  moreover have "known_ok n fl ?s'"
  proof (rule known_ok_step [OF D(5,2), where t = t and pc' = pc'])
    show "claimed (rp_pool n ?s') = claimed (rp_pool n s)"
      using H(1) by (auto simp: eq claimed_def fun_eq_iff)
    show "view_le (snd (heads s ! c)) (views (rp_mem ?s') t)" if "stamp pc' = Some c" for c
      using D(5) pc'(1) that by (auto simp: known_ok_def plain_write_def)
  qed (use x pc'(2) in \<open>auto simp: plain_write_def knows_def split: if_splits\<close>)
  ultimately show ?thesis using D(3) by (simp add: rp_inv_def plain_write_def)
qed

text \<open>The compare-and-swaps that succeed: one takes the first free cell, the other puts a cell back.\<close>

lemma rp_pool_swap:
  assumes "heads s \<noteq> []" "heads s' = heads s @ [(x, w)]" "objects (rp_mem s') = objects (rp_mem s)"
    "rp_pcs s' = (rp_pcs s)(t := pc')" "rp_held s' = rp_held s"
  shows "rp_pool n s' = (rp_pool n s)\<lparr>shared := (shared (rp_pool n s))\<lparr>free_head := x\<rparr>,
     pcs := (pcs (rp_pool n s))(t := pc'), swaps := Suc (swaps (rp_pool n s))\<rparr>"
  using assms by (cases "heads s") (simp_all add: rp_pool_def rp_swaps_def)

lemma rp_inv_swap:
  assumes inv: "rp_inv bits n fl s" and pc: "stamp pc' = None"
    and conc: "conc_inv bits n fl' ((rp_pool n s)\<lparr>shared := (shared (rp_pool n s))\<lparr>free_head := x\<rparr>,
      pcs := (pcs (rp_pool n s))(t := pc'), swaps := Suc (swaps (rp_pool n s))\<rparr>)"
    and free: "\<And>y. y \<in> set fl' \<Longrightarrow> y \<in> set fl \<or> y \<in> claimed (rp_pool n s) t"
    and claims: "\<And>y. y \<in> working_on pc' \<Longrightarrow> knows (views (rp_mem s) t) (last_write (rp_mem s) y)"
  shows "rp_inv bits n fl' (s\<lparr>rp_mem := cas_success t () x (rp_mem s), rp_pcs := (rp_pcs s)(t := pc')\<rparr>)" (is "rp_inv _ _ _ ?s'")
proof -
  note D = rp_invD [OF inv]
  obtain w where w: "history (cas_success t () x (rp_mem s)) () = heads s @ [(x, w)]" "view_le (snd (last (heads s))) w"
    "view_le (views (rp_mem s) t) w" "\<And>u. view_le (views (rp_mem s) u) (views (cas_success t () x (rp_mem s)) u)"
    "objects (cas_success t () x (rp_mem s)) = objects (rp_mem s)"
    "last_write (cas_success t () x (rp_mem s)) = last_write (rp_mem s)"
    using swap_effect [OF refl, of t x s] by metis
  have eq: "rp_pool n ?s' = (rp_pool n s)\<lparr>shared := (shared (rp_pool n s))\<lparr>free_head := x\<rparr>,
      pcs := (pcs (rp_pool n s))(t := pc'), swaps := Suc (swaps (rp_pool n s))\<rparr>"
    using D(4) w by (intro rp_pool_swap) simp_all
  note I = conc_invD [OF conc]
  have "unat (head_tag x) = length (heads s) mod 2 ^ 32"
    using I(4) D(4) by (cases "heads s") (simp_all add: rp_pool_def rp_swaps_def)
  moreover have "head_idx x = end_of_list \<or> unat (head_idx x) < n" using head_bounded [OF I(3)] by simp
  ultimately have "heads_ok n (heads ?s')" using heads_ok_swap [OF D(3) w(2)] by (simp add: w(1))
  moreover have "known_ok n fl' ?s'"
  proof (rule known_ok_swap [OF D(5,4,1), where t = t and pc' = pc'])
    fix u y assume "y \<in> claimed (rp_pool n ?s') u"
    then show "y \<in> claimed (rp_pool n s) u \<or> knows (views (rp_mem ?s') u) (last_write (rp_mem s) y)"
      using claims [of y] knows_mono [OF _ w(4) [of t], of "last_write (rp_mem s) y"]
      by (cases "u = t") (auto simp: eq claimed_def)
  next
    fix y assume "y \<in> set fl'"
    with free [of y] D(5) knows_mono [OF _ w(3), of "last_write (rp_mem s) y"]
    show "y \<in> set fl \<or> knows w (last_write (rp_mem s) y)" by (auto simp: known_ok_def)
  qed (use w pc in simp_all)
  ultimately show ?thesis using conc eq by (simp add: rp_inv_def)
qed

lemma rp_inv_make_swap:
  assumes inv: "rp_inv bits n fl s" and fresh: "rp_fresh s"
    and pc: "rp_pcs s t = Make_Cas v h k c" and h: "fst (last (heads s)) = h"
  shows "\<exists>fl'. rp_inv bits n fl' (s\<lparr>rp_mem := cas_success t () (mk_head (head_tag h + 1) (k AND 0xFFFFFFFF)) (rp_mem s),
      rp_pcs := (rp_pcs s)(t := Make_New v (unat (head_idx h)))\<rparr>)"
proof -
  note D = rp_invD [OF inv]
  have top: "free_head (shared (rp_pool n s)) = h" "swaps (rp_pool n s) = rp_swaps s" "pcs (rp_pool n s) = rp_pcs s"
    using h by (simp_all add: rp_pool_def)
  have "stamp (rp_pcs s t) = Some c" using pc by simp
  with fresh D(5) have c: "rp_swaps s < c + 2 ^ 32" "view_le (snd (heads s ! c)) (views (rp_mem s) t)"
    by (auto simp: rp_fresh_def known_ok_def)
  obtain fl' where fl': "fl = unat (head_idx h) # fl'" "conc_inv bits n fl' ((rp_pool n s)\<lparr>shared := (shared (rp_pool n s))\<lparr>free_head :=
      mk_head (head_tag h + 1) (k AND 0xFFFFFFFF)\<rparr>, pcs := (pcs (rp_pool n s))(t := Make_New v (unat (head_idx h))),
      swaps := Suc (swaps (rp_pool n s))\<rparr>)"
    using inv_make_swap [OF D(1), of t v k c] pc c(1) unfolding top by auto
  have "loaded_ok n (rp_pool n s) h c" using D(6) [of t] pc by simp
  then have "c = rp_swaps s" using stamp_current [OF D(1), of c] c(1) top by simp
  then have "view_le (snd (last (heads s))) (views (rp_mem s) t)" using c(2) D(4) by (simp add: rp_swaps_def last_conv_nth)
  then have "knows (views (rp_mem s) t) (last_write (rp_mem s) (unat (head_idx h)))"
    using D(5) fl'(1) knows_mono [of _ "last_write (rp_mem s) (unat (head_idx h))"] by (auto simp: known_ok_def)
  then have "rp_inv bits n fl' (s\<lparr>rp_mem := cas_success t () (mk_head (head_tag h + 1) (k AND 0xFFFFFFFF)) (rp_mem s),
      rp_pcs := (rp_pcs s)(t := Make_New v (unat (head_idx h)))\<rparr>)"
    using fl' by (intro rp_inv_swap [OF inv]) auto
  then show ?thesis by blast
qed

lemma rp_inv_free_swap:
  assumes inv: "rp_inv bits n fl s" and pc: "rp_pcs s t = Free_Cas x h c" and h: "fst (last (heads s)) = h"
  shows "rp_inv bits n (x # fl) (s\<lparr>rp_mem := cas_success t () (mk_head (head_tag h + 1) (word_of_nat x AND 0xFFFFFFFF)) (rp_mem s),
      rp_pcs := (rp_pcs s)(t := Idle)\<rparr>)"
proof (rule rp_inv_swap [OF inv])
  have "free_head (shared (rp_pool n s)) = h" "pcs (rp_pool n s) t = Free_Cas x h c" using h pc by (simp_all add: rp_pool_def)
  then show "conc_inv bits n (x # fl) ((rp_pool n s)\<lparr>shared := (shared (rp_pool n s))\<lparr>free_head :=
      mk_head (head_tag h + 1) (word_of_nat x AND 0xFFFFFFFF)\<rparr>, pcs := (pcs (rp_pool n s))(t := Idle),
      swaps := Suc (swaps (rp_pool n s))\<rparr>)"
    using inv_free_swap [OF rp_invD(1) [OF inv], of t x c] by simp
qed (use pc in \<open>auto simp: claimed_def rp_pool_def\<close>)

text \<open>Handing a cell over.\<close>

lemma rp_inv_hand_over:
  assumes inv: "rp_inv bits n fl s" and x: "x \<in> rp_held s t" and tu: "t \<noteq> u"
  shows "rp_inv bits n fl (s\<lparr>rp_mem := pass_view t u (rp_mem s),
      rp_held := (rp_held s)(t := rp_held s t - {x}, u := insert x (rp_held s u))\<rparr>)" (is "rp_inv _ _ _ ?s'")
proof -
  note D = rp_invD [OF inv]
  have eq: "rp_pool n ?s' = (rp_pool n s)\<lparr>held := (held (rp_pool n s))(t := held (rp_pool n s) t - {x}, u := insert x (held (rp_pool n s) u))\<rparr>"
    by (simp add: rp_pool_def rp_swaps_def pass_view_def put_view_def)
  have frame: "history (pass_view t u (rp_mem s)) = history (rp_mem s)" "last_write (pass_view t u (rp_mem s)) = last_write (rp_mem s)"
    by (simp_all add: pass_view_def put_view_def)
  have "x \<in> held (rp_pool n s) t" using x by (simp add: rp_pool_def)
  then have "conc_inv bits n fl (rp_pool n ?s')" unfolding eq by (rule inv_hand_over [OF D(1) _ tu])
  moreover have "known_ok n fl ?s'"
    unfolding known_ok_def
  proof (intro conjI allI ballI impI)
    have views: "view_le (views (rp_mem s) w) (views (rp_mem ?s') w)" "view_le (views (rp_mem s) t) (views (rp_mem ?s') u)" for w
      using tu by (auto simp: pass_view_def put_view_def view_le_def)
    fix w y assume y: "y \<in> claimed (rp_pool n ?s') w"
    have "y \<in> claimed (rp_pool n s) w \<or> w = u \<and> y \<in> claimed (rp_pool n s) t"
      using y x by (auto simp: eq claimed_def rp_pool_def split: if_splits)
    with D(5) views knows_mono [of _ "last_write (rp_mem s) y" "views (rp_mem ?s') w"]
    have "knows (views (rp_mem ?s') w) (last_write (rp_mem s) y)" unfolding known_ok_def by blast
    then show "knows (views (rp_mem ?s') w) (last_write (rp_mem ?s') y)" by (simp add: frame)
  next
    fix w c assume "stamp (rp_pcs ?s' w) = Some c"
    with D(5) have "view_le (snd (heads s ! c)) (views (rp_mem s) w)" by (simp add: known_ok_def)
    also have "view_le (views (rp_mem s) w) (views (rp_mem ?s') w)"
      using tu by (auto simp: pass_view_def put_view_def view_le_def)
    finally (view_le_trans) show "view_le (snd (heads ?s' ! c)) (views (rp_mem ?s') w)" by (simp add: frame)
  qed (use D(5) in \<open>auto simp: known_ok_def rp_swaps_def frame\<close>)
  ultimately show ?thesis using D(3) by (simp add: rp_inv_def frame)
qed

lemma rp_step_inv:
  assumes "ra_pool_step Acquire bits s s'" "rp_inv bits n fl s" "rp_fresh s"
  shows "\<exists>fl'. rp_inv bits n fl' s'"
  using assms
proof (induction rule: ra_pool_step.induct)
  case (rp_make_begin s t j h m v)
  then show ?case by (intro exI [of _ fl] rp_inv_load) auto
next
  case (rp_make_empty s t v h c)
  have "conc_inv bits n fl ((rp_pool n s)\<lparr>pcs := (pcs (rp_pool n s))(t := Idle)\<rparr>)"
    using rp_make_empty by (intro inv_local rp_invD(1)) (auto simp: rp_pool_def)
  then have "rp_inv bits n fl (s\<lparr>rp_pcs := (rp_pcs s)(t := Idle), rp_held := (rp_held s)(t := rp_held s t)\<rparr>)"
    using rp_make_empty by (intro rp_inv_move) (auto simp: claimed_def rp_pool_def)
  then show ?case by auto
next
  case (rp_make_read s t v h c cl m)
  show ?case using rp_inv_read [OF rp_make_read.prems(1) rp_make_read.hyps] by blast
next
  case (rp_make_swap s t v h k c)
  show ?case by (rule rp_inv_make_swap [OF rp_make_swap.prems rp_make_swap.hyps])
next
  case (rp_make_retry s t v h k c j h' m)
  then show ?case by (intro exI [of _ fl] rp_inv_load) auto
next
  case (rp_make_construct s t v x)
  then show ?case
    using claims_okD(1) [OF rp_invD(2) [OF rp_make_construct.prems(1)], of t]
    by (intro exI [of _ fl] rp_inv_write) (auto simp: claimed_def rp_pool_def)
next
  case (rp_free_begin s t x)
  have "conc_inv bits n fl ((rp_pool n s)\<lparr>shared := (shared (rp_pool n s))\<lparr>memory := (memory (shared (rp_pool n s)))[x := memory (shared (rp_pool n s)) ! x]\<rparr>,
      pcs := (pcs (rp_pool n s))(t := Free_Load x), held := (held (rp_pool n s))(t := held (rp_pool n s) t - {x})\<rparr>)"
    using rp_free_begin by (intro inv_own rp_invD(1)) (auto simp: claimed_def rp_pool_def)
  then have "rp_inv bits n fl (s\<lparr>rp_pcs := (rp_pcs s)(t := Free_Load x), rp_held := (rp_held s)(t := rp_held s t - {x})\<rparr>)"
    using rp_free_begin by (intro rp_inv_move) (auto simp: claimed_def rp_pool_def)
  then show ?case by blast
next
  case (rp_free_load s t x j h m)
  then show ?case by (intro exI [of _ fl] rp_inv_load) auto
next
  case (rp_free_link s t x h c)
  note D = rp_invD [OF rp_free_link.prems(1)]
  have x: "x \<in> claimed (rp_pool n s) t" "x < n"
    using claimed_cell_bounded [OF D(2), of x t] rp_free_link.hyps by (auto simp: claimed_def rp_pool_def)
  have "loaded_ok n (rp_pool n s) h c" using D(6) [of t] rp_free_link.hyps by simp
  then have "rp_inv bits n fl (s\<lparr>rp_mem := plain_write t x (Next (h AND 0xFFFFFFFF)) (rp_mem s),
      rp_pcs := (rp_pcs s)(t := Free_Cas x h c), rp_held := (rp_held s)(t := rp_held s t)\<rparr>)"
    using rp_free_link x claims_okD(1) [OF D(2), of t]
    by (intro rp_inv_write) (auto simp: claimed_def rp_pool_def loaded_ok_def)
  then show ?case by auto
next
  case (rp_free_swap s t x h c)
  show ?case by (rule exI) (rule rp_inv_free_swap [OF rp_free_swap.prems(1) rp_free_swap.hyps])
next
  case (rp_free_retry s t x h c j h' m)
  then show ?case by (intro exI [of _ fl] rp_inv_load) auto
next
  case (rp_write_object s t x v)
  then have "rp_inv bits n fl (s\<lparr>rp_mem := plain_write t x (Data v) (rp_mem s),
      rp_pcs := (rp_pcs s)(t := Idle), rp_held := (rp_held s)(t := rp_held s t)\<rparr>)"
    by (intro rp_inv_write) (auto simp: claimed_def rp_pool_def)
  moreover have "(rp_pcs s)(t := Idle) = rp_pcs s" using rp_write_object.hyps(1) by (rule fun_upd_idem)
  ultimately show ?case by auto
next
  case (rp_hand_over x s t u)
  show ?case by (rule exI) (rule rp_inv_hand_over [OF rp_hand_over.prems(1) rp_hand_over.hyps])
qed

lemma rp_start_inv:
  assumes "0 < n" "n \<le> 0xFFFFFFFF" "pool_ctor n = Done p"
  shows "rp_inv bits n [0..<n] (rp_start ts p)"
proof -
  have n: "length (memory p) = n" and h: "free_head p = 0"
    using pool_ctor_inv [OF assms(1,2), of bits] assms(1,3) by (auto simp: pool_ctor_def Let_def)
  then have eq: "rp_pool n (rp_start ts p) = pool_start p"
    by (auto simp: rp_pool_def rp_start_def rp_swaps_def pool_start_def fresh_memory_def list_eq_iff_nth_eq intro!: pool.equality)
  have "conc_inv bits n [0..<n] (rp_pool n (rp_start ts p))"
    unfolding eq by (rule pool_start_inv [OF assms])
  then show ?thesis
    using assms(1) h
    by (auto simp: rp_inv_def heads_ok_def known_ok_def eq rp_start_def fresh_memory_def knows_def pool_start_def claimed_def
        head_tag_def head_idx_def no_view_def)
qed

lemma rp_reach_inv:
  assumes "0 < n" "n \<le> 0xFFFFFFFF" "rp_reach Acquire bits ts n s"
  shows "\<exists>fl. rp_inv bits n fl s"
  using assms(3)
proof (induction rule: rp_reach.induct)
  case (rp_init p)
  with assms(1,2) show ?case using rp_start_inv by blast
next
  case (rp_next s s')
  then show ?case using rp_step_inv by blast
qed

section \<open>Scheduled runs\<close>

text \<open>A schedule names the thread that moves, what it starts and which head a load finds.\<close>

datatype 'a rp_act = Start_Make 'a nat | Start_Free nat | Go | Look nat

definition rp_load :: "load_order \<Rightarrow> nat \<Rightarrow> nat \<Rightarrow> (u64 \<Rightarrow> nat \<Rightarrow> 'a pc) \<Rightarrow> 'a ra_pool \<Rightarrow> 'a ra_pool option" where
  "rp_load ord t j pc s = (if readable t () j (rp_mem s) then
     (case atomic_load ord t () j (rp_mem s) of (h, m) \<Rightarrow> Some (s\<lparr>rp_mem := m, rp_pcs := (rp_pcs s)(t := pc h j)\<rparr>)) else None)"

definition rp_swap :: "nat \<Rightarrow> u64 \<Rightarrow> u64 \<Rightarrow> 'a pc \<Rightarrow> 'a ra_pool \<Rightarrow> 'a ra_pool option" where
  "rp_swap t h h' pc s = (if fst (last (heads s)) = h then
     Some (s\<lparr>rp_mem := cas_success t () h' (rp_mem s), rp_pcs := (rp_pcs s)(t := pc)\<rparr>) else None)"

fun rp_exec :: "load_order \<Rightarrow> ('a \<Rightarrow> u64) \<Rightarrow> nat \<Rightarrow> 'a ra_pool \<Rightarrow> 'a pc \<Rightarrow> 'a rp_act \<Rightarrow> 'a ra_pool option" where
  "rp_exec F bits t s Idle (Start_Make v j) = rp_load Acquire t j (Make_Top v) s"
| "rp_exec F bits t s (Make_Top v h c) Go = (if head_idx h = 0xFFFFFFFF then Some (s\<lparr>rp_pcs := (rp_pcs s)(t := Idle)\<rparr>) else
     (case plain_read t (unat (head_idx h)) (rp_mem s) of (cl, m) \<Rightarrow>
        Some (s\<lparr>rp_mem := m, rp_pcs := (rp_pcs s)(t := Make_Cas v h (read_next bits cl) c),
          blind := (blind s)(t := write_unseen t (unat (head_idx h)) (rp_mem s))\<rparr>)))"
| "rp_exec F bits t s (Make_Cas v h k c) Go =
     rp_swap t h (mk_head (head_tag h + 1) (k AND 0xFFFFFFFF)) (Make_New v (unat (head_idx h))) s"
| "rp_exec F bits t s (Make_Cas v h k c) (Look j) = rp_load F t j (Make_Top v) s"
| "rp_exec F bits t s (Make_New v x) Go = Some (s\<lparr>rp_mem := plain_write t x (Data v) (rp_mem s),
     rp_pcs := (rp_pcs s)(t := Idle), rp_held := (rp_held s)(t := insert x (rp_held s t))\<rparr>)"
| "rp_exec F bits t s Idle (Start_Free x) = (if x \<in> rp_held s t then
     Some (s\<lparr>rp_pcs := (rp_pcs s)(t := Free_Load x), rp_held := (rp_held s)(t := rp_held s t - {x})\<rparr>) else None)"
| "rp_exec F bits t s (Free_Load x) (Look j) = rp_load Acquire t j (Free_Top x) s"
| "rp_exec F bits t s (Free_Top x h c) Go = Some (s\<lparr>rp_mem := plain_write t x (Next (h AND 0xFFFFFFFF)) (rp_mem s),
     rp_pcs := (rp_pcs s)(t := Free_Cas x h c)\<rparr>)"
| "rp_exec F bits t s (Free_Cas x h c) Go =
     rp_swap t h (mk_head (head_tag h + 1) (word_of_nat x AND 0xFFFFFFFF)) Idle s"
| "rp_exec F bits t s (Free_Cas x h c) (Look j) = rp_load F t j (Free_Top x) s"
| "rp_exec F bits t s _ _ = None"

primrec rp_run :: "load_order \<Rightarrow> ('a \<Rightarrow> u64) \<Rightarrow> (nat \<times> 'a rp_act) list \<Rightarrow> 'a ra_pool \<Rightarrow> 'a ra_pool option" where
  "rp_run F bits [] s = Some s"
| "rp_run F bits (ta # as) s =
     (case rp_exec F bits (fst ta) s (rp_pcs s (fst ta)) (snd ta) of None \<Rightarrow> None | Some s' \<Rightarrow> rp_run F bits as s')"

lemma rp_exec_step:
  assumes "rp_exec F bits t s pc a = Some s'" "rp_pcs s t = pc"
  shows "ra_pool_step F bits s s'"
  using assms
  by (cases "(F, bits, t, s, pc, a)" rule: rp_exec.cases)
     (auto simp: rp_load_def rp_swap_def intro: ra_pool_step.intros split: if_splits prod.splits)

lemma rp_step_heads: "ra_pool_step F bits s s' \<Longrightarrow> length (heads s') \<le> Suc (length (heads s))"
  by (induction rule: ra_pool_step.induct) (auto simp: memory_defs pass_view_def Let_def split_beta)

lemma rp_fresh_short: "length (heads s) \<le> 2 ^ 32 \<Longrightarrow> rp_fresh s"
  by (auto simp: rp_fresh_def rp_swaps_def)

lemma rp_run_reach:
  assumes "rp_run F bits as s = Some s'" "rp_reach F bits ts n s" "length (heads s) + length as \<le> 2 ^ 32"
  shows "rp_reach F bits ts n s' \<and> rp_fresh s'"
  using assms
proof (induction as arbitrary: s)
  case (Cons ta as)
  then obtain s1 where s1: "rp_exec F bits (fst ta) s (rp_pcs s (fst ta)) (snd ta) = Some s1" "rp_run F bits as s1 = Some s'"
    by (auto split: option.splits)
  have step: "ra_pool_step F bits s s1" using rp_exec_step [OF s1(1)] by simp
  have "rp_fresh s" using Cons.prems(3) by (simp add: rp_fresh_short)
  then have "rp_reach F bits ts n s1" by (rule rp_next [OF Cons.prems(2) _ step])
  with Cons.IH [OF s1(2)] rp_step_heads [OF step] Cons.prems(3) show ?case by simp
qed (simp add: rp_fresh_short)

lemma rp_start_two: "rp_reach F bits ts 2 (rp_start ts \<lparr>memory = [Next 1, Next 0xFFFFFFFF], free_head = 0\<rparr>)"
  by (rule rp_init) (simp add: pool_ctor_def Let_def numeral_2_eq_2)

text \<open>Thread 1 makes an event in cell 0. Thread 0 has read the head (cell 1) and its \<open>next\<close> field when thread 1 frees
  cell 0.\<close>

definition refill_schedule :: "(nat \<times> u64 rp_act) list" where
  "refill_schedule = [(1, Start_Make 7 0), (1, Go), (1, Go), (1, Go), (0, Start_Make 5 1), (0, Go),
     (1, Start_Free 0), (1, Look 1), (1, Go), (1, Go)]"

definition refill_run :: "load_order \<Rightarrow> (nat \<times> u64 rp_act) list \<Rightarrow> u64 ra_pool option" where
  "refill_run F as = rp_run F id as (rp_start [0, 1] \<lparr>memory = [Next 1, Next 0xFFFFFFFF], free_head = 0\<rparr>)"

lemma rp_run_append:
  "rp_run F bits (as @ bs) s = (case rp_run F bits as s of None \<Rightarrow> None | Some s' \<Rightarrow> rp_run F bits bs s')"
  by (induction as arbitrary: s) (simp_all split: option.split)

lemma refill_reach:
  assumes "refill_run F as = Some s" "length as < 2 ^ 32"
  shows "rp_reach F id [0, 1] 2 s" "rp_fresh s"
  using rp_run_reach [OF assms(1) [unfolded refill_run_def] rp_start_two] assms(2)
  by (simp_all add: rp_start_def fresh_memory_def)

text \<open>Then thread 0 goes on alone: its compare-and-swap fails and finds the new head, it reads the \<open>next\<close> field of
  the cell there, and its second compare-and-swap succeeds.\<close>

lemma rp_run_snoc:
  "rp_run F bits (as @ [(t, a)]) s =
     (case rp_run F bits as s of None \<Rightarrow> None | Some s' \<Rightarrow> rp_exec F bits t s' (rp_pcs s' t) a)"
  by (simp add: rp_run_append split: option.split)

lemma retry_run_eq:
  "refill_run F (refill_schedule @ [(0, Look 2)]) =
     (case refill_run F refill_schedule of None \<Rightarrow> None | Some s \<Rightarrow> rp_exec F id 0 s (rp_pcs s 0) (Look 2))"
  "refill_run F ((refill_schedule @ [(0, Look 2)]) @ [(0, Go)]) =
     (case refill_run F (refill_schedule @ [(0, Look 2)]) of None \<Rightarrow> None | Some s \<Rightarrow> rp_exec F id 0 s (rp_pcs s 0) Go)"
  "refill_run F (((refill_schedule @ [(0, Look 2)]) @ [(0, Go)]) @ [(0, Go)]) =
     (case refill_run F ((refill_schedule @ [(0, Look 2)]) @ [(0, Go)]) of None \<Rightarrow> None | Some s \<Rightarrow> rp_exec F id 0 s (rp_pcs s 0) Go)"
  unfolding refill_run_def by (rule rp_run_snoc)+

lemma retry_run_values:
  "map_option (\<lambda>s. (rp_pcs s 0, fst (last (heads s)), raced (rp_mem s))) (refill_run Relaxed refill_schedule) =
     Some (Make_Cas 5 0x100000001 0xFFFFFFFF 1, 0x200000000, False)"
  "map_option (\<lambda>s. (rp_pcs s 0, fst (last_write (rp_mem s) 0), write_unseen 0 0 (rp_mem s), raced (rp_mem s)))
     (refill_run Relaxed (refill_schedule @ [(0, Look 2)])) = Some (Make_Top 5 0x200000000 2, 1, True, False)"
  "map_option (\<lambda>s. (rp_pcs s 0, raced (rp_mem s))) (refill_run Relaxed ((refill_schedule @ [(0, Look 2)]) @ [(0, Go)])) =
     Some (Make_Cas 5 0x200000000 1 2, True)"
  "map_option (\<lambda>s. rp_pcs s 0) (refill_run Relaxed (((refill_schedule @ [(0, Look 2)]) @ [(0, Go)]) @ [(0, Go)])) = Some (Make_New 5 0)"
  "map_option (\<lambda>s. (rp_pcs s 0, fst (last (heads s)), raced (rp_mem s)))
     (refill_run Acquire ((refill_schedule @ [(0, Look 2)]) @ [(0, Go)])) =
     Some (Make_Cas 5 0x200000000 1 2, 0x200000000, False)"
  by code_simp+

text \<open>C6: Data race of \<open>pool::make\<close>. There is a run of two threads, without any race so far, in which thread 0 holds an
  outdated head and is about to compare and swap, and goes on as follows. The compare-and-swap fails and reloads the
  head with relaxed order: it finds cell 0, which thread 1 has freed, but not the write of its \<open>next\<close> field by thread 1,
  which does not happen before what thread 0 does next. Thread 0 reads that field: this is the first data race of the run.
  The compare-and-swap that relies on the value then succeeds, and thread 0 takes the cell.\<close>

theorem pool_relaxed_retry_races:
  "\<exists>s0 s1 s2 s3. rp_reach Relaxed id [0, 1] 2 s0 \<and> \<not> raced (rp_mem s0) \<and>
     rp_pcs s0 0 = Make_Cas (5 :: u64) 0x100000001 0xFFFFFFFF 1 \<and> fst (last (heads s0)) = 0x200000000 \<and>
     rp_exec Relaxed id 0 s0 (rp_pcs s0 0) (Look 2) = Some s1 \<and> rp_pcs s1 0 = Make_Top 5 0x200000000 2 \<and>
     fst (last_write (rp_mem s1) 0) = 1 \<and> write_unseen 0 0 (rp_mem s1) \<and> \<not> raced (rp_mem s1) \<and>
     rp_exec Relaxed id 0 s1 (rp_pcs s1 0) Go = Some s2 \<and> rp_pcs s2 0 = Make_Cas 5 0x200000000 1 2 \<and> raced (rp_mem s2) \<and>
     rp_exec Relaxed id 0 s2 (rp_pcs s2 0) Go = Some s3 \<and> rp_pcs s3 0 = Make_New 5 0"
proof -
  note V = retry_run_values and E = retry_run_eq [of Relaxed]
  obtain s0 where s0: "refill_run Relaxed refill_schedule = Some s0" using V(1) by auto
  obtain s1 where s1: "refill_run Relaxed (refill_schedule @ [(0, Look 2)]) = Some s1" using V(2) by auto
  obtain s2 where s2: "refill_run Relaxed ((refill_schedule @ [(0, Look 2)]) @ [(0, Go)]) = Some s2" using V(3) by blast
  obtain s3 where s3: "refill_run Relaxed (((refill_schedule @ [(0, Look 2)]) @ [(0, Go)]) @ [(0, Go)]) = Some s3" using V(4) by blast
  have "rp_reach Relaxed id [0, 1] 2 s0" using refill_reach(1) [OF s0] by (simp add: refill_schedule_def)
  moreover have "rp_exec Relaxed id 0 s0 (rp_pcs s0 0) (Look 2) = Some s1" "rp_exec Relaxed id 0 s1 (rp_pcs s1 0) Go = Some s2"
    "rp_exec Relaxed id 0 s2 (rp_pcs s2 0) Go = Some s3"
    using E unfolding s0 s1 s2 s3 option.case by simp_all
  ultimately show ?thesis
    using V(1-4) unfolding s0 s1 s2 s3 option.map option.inject prod.inject by blast
qed

text \<open>Whatever the order on failure, a thread that has loaded the head may read \<open>next\<close> while the thread that took the
  cell constructs its object there: the read of the plain field is a race, although the compare-and-swap that
  follows it fails.\<close>

lemma pool_stale_read_races: "\<exists>s :: u64 ra_pool. rp_reach F id [0, 1] 2 s \<and> raced (rp_mem s)"
proof -
  let ?as = "[(0, Start_Make 5 0), (1, Start_Make 7 0), (1, Go), (1, Go), (1, Go), (0, Go)] :: (nat \<times> u64 rp_act) list"
  have "map_option (\<lambda>s. raced (rp_mem s)) (refill_run F ?as) = Some True" by (cases F; code_simp)
  then obtain s where s: "refill_run F ?as = Some s" "raced (rp_mem s)" by auto
  then show ?thesis using refill_reach(1) [OF s(1)] by auto
qed

text \<open>The relaxed order on failure is what the race depends on. In every run in which a failed compare-and-swap reloads the head with acquire
  order and the 32-bit tag has not come round, the \<open>next\<close> field that a succeeding compare-and-swap of
  \<open>make\<close> relies on was read after the write of it; no two threads hold the same cell, and the last write of a
  held cell happens before whatever its holder does with it.\<close>

lemma pool_acquire_retry_ordered:
  assumes "0 < n" "n \<le> 0xFFFFFFFF" "rp_reach Acquire bits ts n s" "rp_fresh s"
  shows "(rp_pcs s t = Make_Cas v h k c \<longrightarrow> fst (last (heads s)) = h \<longrightarrow> \<not> blind s t) \<and>
    (x \<in> rp_held s t \<longrightarrow> \<not> write_unseen t x (rp_mem s) \<and> (x \<in> rp_held s u \<longrightarrow> u = t))"
proof (intro conjI impI)
  obtain fl where inv: "rp_inv bits n fl s" using rp_reach_inv [OF assms(1-3)] by blast
  note D = rp_invD [OF inv]
  show "\<not> blind s t" if pc: "rp_pcs s t = Make_Cas v h k c" and h: "fst (last (heads s)) = h"
  proof -
    have "loaded_ok n (rp_pool n s) h c" using D(6) [of t] pc by simp
    moreover have "stamp (rp_pcs s t) = Some c" using pc by simp
    then have "rp_swaps s < c + 2 ^ 32" using assms(4) by (simp add: rp_fresh_def)
    ultimately have "c = rp_swaps s" using stamp_current [OF D(1), of c] h by (simp add: rp_pool_def)
    with D(5) pc show ?thesis by (simp add: known_ok_def)
  qed
  assume x: "x \<in> rp_held s t"
  then have c: "x \<in> claimed (rp_pool n s) t" by (simp add: claimed_def rp_pool_def)
  with D(5) show "\<not> write_unseen t x (rp_mem s)" by (simp add: known_ok_def write_unseen_knows)
  show "u = t" if "x \<in> rp_held s u"
    using claims_okD(2) [OF D(2) c, of u] that by (simp add: claimed_def rp_pool_def)
qed

lemma retry_acquire_no_race:
  "\<exists>s. rp_reach Acquire id [0, 1] 2 s \<and> rp_pcs s 0 = Make_Cas (5 :: u64) 0x200000000 1 2 \<and>
     fst (last (heads s)) = 0x200000000 \<and> \<not> raced (rp_mem s) \<and> \<not> blind s 0"
proof -
  obtain s where s: "refill_run Acquire ((refill_schedule @ [(0, Look 2)]) @ [(0, Go)]) = Some s" "rp_pcs s 0 = Make_Cas 5 0x200000000 1 2"
    "fst (last (heads s)) = 0x200000000" "\<not> raced (rp_mem s)"
    using retry_run_values(5) by auto
  have reach: "rp_reach Acquire id [0, 1] 2 s" "rp_fresh s" using refill_reach [OF s(1)] by (simp_all add: refill_schedule_def)
  show ?thesis
    using pool_acquire_retry_ordered [OF _ _ reach, of 0 5 "0x200000000" 1 2] reach s by auto
qed

end
