(* ===== verification/Physical_Layout.thy ===== *)
theory Physical_Layout
  imports Conduit_Prelude
begin

text \<open>
  \<open>include/conduit/pending/core/physical_layout.hpp\<close> and the places of members that the \<open>alignas\<close> of the other headers fix. A
  member is its size and its alignment; the compiler puts the members of a class one after the
  other, each at the next multiple of its alignment, and rounds the size of the class up to its own
  alignment, the largest of its members' and of its \<open>alignas\<close>. Two members share a cache line if some line
  holds a byte of each.
\<close>

section \<open>Layout of a class\<close>

type_synonym member_shape = "nat \<times> nat"

definition CACHE_LINE_SIZE :: nat where
  "CACHE_LINE_SIZE = 64"

definition align_up :: "nat \<Rightarrow> nat \<Rightarrow> nat" where
  "align_up a x = (x + a - 1) div a * a"

primrec offsets :: "nat \<Rightarrow> member_shape list \<Rightarrow> nat list" where
  "offsets x [] = []"
| "offsets x (m # ms) = align_up (snd m) x # offsets (align_up (snd m) x + fst m) ms"

definition class_align :: "nat \<Rightarrow> member_shape list \<Rightarrow> nat" where
  "class_align a ms = fold (max \<circ> snd) ms a"

definition members_end :: "member_shape list \<Rightarrow> nat" where
  "members_end ms = fold (\<lambda>m x. align_up (snd m) x + fst m) ms 0"

definition class_size :: "nat \<Rightarrow> member_shape list \<Rightarrow> nat" where
  "class_size a ms = align_up (class_align a ms) (max 1 (members_end ms))"

text \<open>The cache lines of \<open>k\<close> bytes at address \<open>x\<close>.\<close>

definition lines_of :: "nat \<Rightarrow> nat \<Rightarrow> nat set" where
  "lines_of x k = (\<lambda>b. b div CACHE_LINE_SIZE) ` {x..<x + k}"

section \<open>The classes\<close>

text \<open>\<open>padded_wrapper\<close>, with the size and the alignment of \<open>T\<close>.\<close>

definition padded_wrapper :: "member_shape \<Rightarrow> member_shape" where
  "padded_wrapper T = (class_size CACHE_LINE_SIZE [T], class_align CACHE_LINE_SIZE [T])"

text \<open>\<open>conduit\<close>: the ring of pointers, \<open>write_idx_\<close> and \<open>read_idx_\<close>.\<close>

definition conduit_members :: "nat \<Rightarrow> member_shape list" where
  "conduit_members n = [(8 * n, 8), (8, CACHE_LINE_SIZE), (8, CACHE_LINE_SIZE)]"

text \<open>\<open>slab_allocator\<close>: a slot, and the array of slots with \<open>free_head_\<close>.\<close>

definition slot_shape :: "member_shape \<Rightarrow> member_shape" where
  "slot_shape T = (let ms = [T, (4, 4)] in (class_size CACHE_LINE_SIZE ms, class_align CACHE_LINE_SIZE ms))"

definition slab_members :: "member_shape \<Rightarrow> nat \<Rightarrow> member_shape list" where
  "slab_members T n = [(n * fst (slot_shape T), snd (slot_shape T)), (8, CACHE_LINE_SIZE)]"

text \<open>\<open>numa_allocator\<close>: the node is not used. \<open>op_new\<close> and \<open>op_delete\<close> are the global operators, on a heap \<open>'h\<close>.\<close>

definition numa_allocate :: "(nat \<Rightarrow> 'h \<Rightarrow> 'p \<times> 'h) \<Rightarrow> nat \<Rightarrow> int \<Rightarrow> 'h \<Rightarrow> 'p \<times> 'h" where
  "numa_allocate op_new sz node_id h = op_new sz h"

definition numa_deallocate :: "('p \<Rightarrow> 'h \<Rightarrow> 'h) \<Rightarrow> 'p \<Rightarrow> nat \<Rightarrow> 'h \<Rightarrow> 'h" where
  "numa_deallocate op_delete ptr sz h = op_delete ptr h"

section \<open>Alignment\<close>

lemma align_up_ge: "0 < a \<Longrightarrow> x \<le> align_up a x"
proof -
  assume a: "0 < a"
  have "(x + a - 1) div a * a + (x + a - 1) mod a = x + a - 1" by simp
  moreover have "(x + a - 1) mod a \<le> a - 1" using a by (simp add: less_Suc_eq_le [symmetric])
  ultimately show ?thesis using a unfolding align_up_def by linarith
qed

lemma align_up_dvd [simp]: "a dvd align_up a x"
  by (simp add: align_up_def)

text \<open>What ends before a multiple of the line size shares no line with what starts there.\<close>

lemma lines_apart:
  assumes "x + k \<le> y" "CACHE_LINE_SIZE dvd y"
  shows "lines_of x k \<inter> lines_of y l = {}"
proof -
  have "b div CACHE_LINE_SIZE < c div CACHE_LINE_SIZE" if "b < x + k" "y \<le> c" for b c
  proof -
    obtain q where q: "y = CACHE_LINE_SIZE * q" using assms(2) by (rule dvdE)
    have "b < CACHE_LINE_SIZE * q" using that(1) assms(1) q by simp
    then have "b div CACHE_LINE_SIZE < q" by (simp add: CACHE_LINE_SIZE_def div_less_iff_less_mult mult.commute)
    moreover have "q \<le> c div CACHE_LINE_SIZE" using that(2) q by (simp add: CACHE_LINE_SIZE_def less_eq_div_iff_mult_less_eq mult.commute)
    ultimately show ?thesis by simp
  qed
  then show ?thesis by (fastforce simp: lines_of_def)
qed

lemma array_apart:
  assumes "CACHE_LINE_SIZE dvd base" "CACHE_LINE_SIZE dvd sz" "k \<le> sz" "i < j"
  shows "lines_of (base + i * sz) k \<inter> lines_of (base + j * sz) k = {}"
proof (rule lines_apart)
  have "Suc i * sz \<le> j * sz" using assms(4) by (intro mult_right_mono) simp_all
  then show "base + i * sz + k \<le> base + j * sz" using assms(3) by simp
qed (use assms in simp)

lemma offsets_length [simp]: "length (offsets x ms) = length ms"
  by (induction ms arbitrary: x) simp_all

lemma offsets_start:
  assumes "\<forall>m \<in> set ms. 0 < snd m" "j < length ms"
  shows "x \<le> offsets x ms ! j \<and> snd (ms ! j) dvd offsets x ms ! j"
  using assms
proof (induction ms arbitrary: x j)
  case (Cons m ms)
  have "x \<le> align_up (snd m) x" using Cons.prems(1) align_up_ge by simp
  show ?case
  proof (cases j)
    case (Suc k)
    with Cons.prems Cons.IH [of k "align_up (snd m) x + fst m"] \<open>x \<le> align_up (snd m) x\<close> show ?thesis by simp
  qed (simp add: \<open>x \<le> align_up (snd m) x\<close>)
qed simp

lemma offsets_apart:
  assumes "\<forall>m \<in> set ms. 0 < snd m" "i < j" "j < length ms"
  shows "offsets x ms ! i + fst (ms ! i) \<le> offsets x ms ! j"
  using assms
proof (induction ms arbitrary: x i j)
  case (Cons m ms)
  then obtain k where j: "j = Suc k" by (cases j) auto
  show ?case
  proof (cases i)
    case 0
    with Cons.prems j offsets_start [of ms k] show ?thesis by simp
  next
    case (Suc i')
    with Cons.prems j Cons.IH [of i' k] show ?thesis by simp
  qed
qed simp

lemma members_apart:
  assumes "\<forall>m \<in> set ms. 0 < snd m" "i < j" "j < length ms" "CACHE_LINE_SIZE dvd snd (ms ! j)" "CACHE_LINE_SIZE dvd base"
  shows "lines_of (base + offsets 0 ms ! i) (fst (ms ! i)) \<inter> lines_of (base + offsets 0 ms ! j) (fst (ms ! j)) = {}"
proof (rule lines_apart)
  show "base + offsets 0 ms ! i + fst (ms ! i) \<le> base + offsets 0 ms ! j"
    using offsets_apart [OF assms(1-3)] by simp
  have "CACHE_LINE_SIZE dvd offsets 0 ms ! j"
    using offsets_start [OF assms(1,3)] assms(4) dvd_trans by blast
  with assms(5) show "CACHE_LINE_SIZE dvd base + offsets 0 ms ! j" by simp
qed

text \<open>Alignments are powers of two, so one of at least 64 is a multiple of 64.\<close>

lemma line_dvd_max: "CACHE_LINE_SIZE dvd max CACHE_LINE_SIZE (2 ^ p)"
proof (cases "6 \<le> p")
  case True
  then have "(2::nat) ^ 6 dvd 2 ^ p" by (rule le_imp_power_dvd)
  moreover have "(2::nat) ^ 6 \<le> 2 ^ p" using True by (intro power_increasing) simp_all
  ultimately show ?thesis by (simp add: CACHE_LINE_SIZE_def max_def)
next
  case False
  then have "(2::nat) ^ p \<le> 2 ^ 6" by (intro power_increasing) simp_all
  then show ?thesis by (simp add: CACHE_LINE_SIZE_def max_def)
qed

lemma padded_wrapper_size:
  assumes "snd T = 2 ^ p"
  shows "CACHE_LINE_SIZE dvd fst (padded_wrapper T)" "fst T \<le> fst (padded_wrapper T)"
proof -
  let ?a = "max CACHE_LINE_SIZE (2 ^ p)"
  have sz: "fst (padded_wrapper T) = align_up ?a (max 1 (align_up (2 ^ p) 0 + fst T))"
    by (simp add: padded_wrapper_def class_size_def class_align_def members_end_def assms max.commute)
  show "CACHE_LINE_SIZE dvd fst (padded_wrapper T)"
    unfolding sz using line_dvd_max align_up_dvd dvd_trans by blast
  have "max 1 (align_up (2 ^ p) 0 + fst T) \<le> fst (padded_wrapper T)" unfolding sz by (rule align_up_ge) (simp add: max_def)
  then show "fst T \<le> fst (padded_wrapper T)" by simp
qed

lemma slot_shape_size:
  assumes "snd T = 2 ^ p"
  shows "CACHE_LINE_SIZE dvd fst (slot_shape T)" "CACHE_LINE_SIZE dvd snd (slot_shape T)" "0 < snd (slot_shape T)"
proof -
  let ?a = "max CACHE_LINE_SIZE (2 ^ p)"
  have al: "class_align CACHE_LINE_SIZE [T, (4, 4)] = ?a"
    by (simp add: class_align_def assms CACHE_LINE_SIZE_def max_def)
  show "CACHE_LINE_SIZE dvd snd (slot_shape T)" "0 < snd (slot_shape T)"
    using line_dvd_max by (simp_all add: slot_shape_def Let_def al max_def)
  show "CACHE_LINE_SIZE dvd fst (slot_shape T)"
    unfolding slot_shape_def Let_def class_size_def al fst_conv using line_dvd_max align_up_dvd dvd_trans by blast
qed

section \<open>No false sharing\<close>

text \<open>C37: Cache-line isolation. At an address that is a multiple of 64, the ring, the write index and the read index of a conduit are
  pairwise on different cache lines, so that producer and consumer never write the same line; the slots of a slab
  allocator are pairwise on different lines, and none shares one with the head of the free list.\<close>

theorem cache_lines_isolated:
  assumes "CACHE_LINE_SIZE dvd base" "snd T = 2 ^ p" "i < j"
  shows "(j < 3 \<longrightarrow> lines_of (base + offsets 0 (conduit_members n) ! i) (fst (conduit_members n ! i)) \<inter>
        lines_of (base + offsets 0 (conduit_members n) ! j) (fst (conduit_members n ! j)) = {}) \<and>
    lines_of (base + i * fst (slot_shape T)) (fst (slot_shape T)) \<inter> lines_of (base + j * fst (slot_shape T)) (fst (slot_shape T)) = {} \<and>
    lines_of base (k * fst (slot_shape T)) \<inter> lines_of (base + offsets 0 (slab_members T k) ! 1) 8 = {}"
proof (intro conjI impI)
  assume "j < 3"
  then have j: "j < length (conduit_members n)" by (simp add: conduit_members_def)
  have "j = 1 \<or> j = 2" using \<open>j < 3\<close> assms(3) by arith
  then have "CACHE_LINE_SIZE dvd snd (conduit_members n ! j)" by (auto simp: conduit_members_def)
  moreover have "\<forall>m \<in> set (conduit_members n). 0 < snd m" by (simp add: conduit_members_def CACHE_LINE_SIZE_def)
  ultimately show "lines_of (base + offsets 0 (conduit_members n) ! i) (fst (conduit_members n ! i)) \<inter>
      lines_of (base + offsets 0 (conduit_members n) ! j) (fst (conduit_members n ! j)) = {}"
    using members_apart [OF _ assms(3) j] assms(1) by blast
next
  show "lines_of (base + i * fst (slot_shape T)) (fst (slot_shape T)) \<inter> lines_of (base + j * fst (slot_shape T)) (fst (slot_shape T)) = {}"
    using array_apart [OF assms(1) slot_shape_size(1) [OF assms(2)] order_refl assms(3)] .
  have "\<forall>m \<in> set (slab_members T k). 0 < snd m"
    using slot_shape_size(3) [OF assms(2)] by (simp add: slab_members_def CACHE_LINE_SIZE_def)
  from members_apart [OF this, of 0 1 base] assms(1)
  show "lines_of base (k * fst (slot_shape T)) \<inter> lines_of (base + offsets 0 (slab_members T k) ! 1) 8 = {}"
    using slot_shape_size(3) [OF assms(2)] by (simp add: slab_members_def align_up_def)
qed

theorem cache_lines_isolated_witness:
  "CACHE_LINE_SIZE dvd 128 \<and> offsets 0 (conduit_members 4) = [0, 64, 128] \<and> lines_of (128 + 64) 8 \<inter> lines_of (128 + 128) 8 = {}"
proof -
  have "CACHE_LINE_SIZE dvd 128" by (simp add: CACHE_LINE_SIZE_def)
  moreover have "offsets 0 (conduit_members 4) = [0, 64, 128]" "fst (conduit_members 4 ! 1) = 8" "fst (conduit_members 4 ! 2) = 8"
    by (simp_all add: conduit_members_def align_up_def CACHE_LINE_SIZE_def)
  ultimately show ?thesis
    using cache_lines_isolated [of 128 "(16, 8)" 3 1 2 4 0] by simp
qed

text \<open>Wrapped values of an array are on different lines as well.\<close>

lemma padded_array_apart:
  assumes "CACHE_LINE_SIZE dvd base" "snd T = 2 ^ p" "i < j"
  shows "lines_of (base + i * fst (padded_wrapper T)) (fst T) \<inter> lines_of (base + j * fst (padded_wrapper T)) (fst T) = {}"
  using assms padded_wrapper_size by (intro array_apart) auto

end
