(* ===== verification/Spec2Isabelle.thy ===== *)
theory Spec2Isabelle
  imports Pool_Concurrent Conduit_Concurrent Pipeline Round_Robin Node_Runtime Http_Parser Slab_Allocator
    Pinned_Slab Spsc_Ring Timing_Wheel
    Http_Gateway Durable_Storage Saga Mesh_Router Clock_Node Environment Async_Logger
    Load_Generator Prometheus_Exporter Moe_Dispatcher
    Event_Flow Network_Routing Sharding
    Runtime_Domain Stage_Pipeline Flight_Controller Market_Orders Pipeline_Examples
    Graceful_Drain Script_Line Telemetry_Gateway
    Slab_Concurrent Spsc_Ring_Concurrent Conduit_Memory_Order Pool_Memory_Order Physical_Layout
begin

text \<open>
  A verification of the Conduit Runtime Environment, a header-only C++20 library for
  event processing without locks and without allocation on the hot path.

  \<^bold>\<open>The program.\<close> Events live in the cells of a \<open>pool\<close>, a free list threaded through a fixed
  array and updated by compare-and-swap. An \<open>event_ptr\<close> owns a cell and gives it back when it
  is destroyed. Events travel between threads through a \<open>conduit\<close>, a ring with one producer
  and one consumer; a \<open>round_robin_switch\<close> spreads them over several conduits and a
  \<open>round_robin_poller\<close> collects them. A \<open>pipeline\<close> dispatches an event to its handlers, base
  types first. These are in \<open>include/conduit/core.hpp\<close>. Around them stand a networked conduit
  and its polling runtime (\<open>net\<close>, \<open>runtime\<close>), an HTTP parser (\<open>transport\<close>), and the
  components under \<open>pending\<close>: two more allocators, a timing wheel, an HTTP gateway, a log
  with replay, a saga engine, a router, a clock, a thread environment, a logger, a load
  generator, telemetry with a Prometheus exporter and a dashboard gateway, and a dispatcher with
  timeouts. The programs
  under \<open>examples\<close> put the parts together.

  \<^bold>\<open>How it is modelled.\<close> A class is a record, a method a function on it with the same name,
  or one prefixed with the class where the name is taken. Machine integers keep their width
  wherever they can wrap. The result of an operation on raw memory is an \<open>outcome\<close>: \<open>Done\<close> with
  the result, \<open>Fault\<close> if the code leaves an array, \<open>Pending\<close> if it has used up what it was given.
  What the code gets from outside is an argument: the answers of \<open>send\<close>, \<open>recv\<close>, \<open>accept\<close>,
  \<open>write\<close> and of the clock are lists, the object representation of an event type is a function
  \<open>bits\<close>, handlers and callbacks are functions, the moment at which another thread clears a
  flag is a schedule. A compare-and-swap loop gets the list of its spurious failures; the
  hypothesis \<open>False \<in> set ws\<close> says that some attempt is not one of them. Loops that wait for
  another thread are functions on a schedule, and the fuel of the router loop is one more than
  the number of waiting ticks. Threads interleave at the granularity of single memory accesses
  for the pool, the conduit, the SPSC ring and the two slabs, and of calls in \<open>Environment\<close>, \<open>Sharding\<close> and
  \<open>Event_Line\<close>. Memory is sequentially consistent except in \<open>Conduit_Memory_Order\<close> and \<open>Pool_Memory_Order\<close>, which
  give each atomic access the order the code names and count unordered accesses to plain memory as
  data races. A \<open>double\<close> is computed exactly and rounded to 53
  bits, to even, as IEEE 754 has it; console output is the list of what was put into the stream.

  \<^bold>\<open>Shared theories.\<close> \<open>Conduit_Prelude\<close>: integer types, outcomes, tagged heads.
  \<open>Ring_Index\<close>: index arithmetic of rings. \<open>Decimal\<close>: \<open>std::to_string\<close> and its inverse.
  \<open>Queue_Interface\<close>: the locale \<open>bounded_fifo\<close>, the contract of a bounded queue, with the proof
  that every implementation answers any sequence of operations as a list does; interpreted on the
  conduit (\<open>cq\<close>) and on the SPSC ring (\<open>rq\<close>). \<open>Free_List\<close>: chains of indices and the locale
  \<open>slab\<close>, the contract of a fixed-size allocator, with the proof that no sequence of operations
  loses a cell or hands one out twice; interpreted on the pool (\<open>pl\<close>), the slab allocator (\<open>sl\<close>)
  and the pinned slab (\<open>ps\<close>). \<open>Fair_Scheduling\<close>: threads under a schedule and the locale
  \<open>fair_system\<close>, by which a falling rank without deadlock ends every fair schedule; interpreted on
  the sharding program (\<open>fs\<close>) and, as a sublocale, on every line of one sender and one receiver.
  \<open>Simulation\<close>: the locale \<open>simulation\<close>, by which an invariant of one system of threads holds of another;
  interpreted between the slab allocator and the pool (\<open>sp\<close>) and between the SPSC ring and the conduit (\<open>rc\<close>).
  \<open>Release_Acquire\<close>: relaxed, acquire and release accesses with the view of each thread, and plain
  accesses with what makes them race.
  \<open>Double\<close>, \<open>Double_Bounds\<close>: \<open>double\<close> arithmetic and the order it keeps under rounding. \<open>Console\<close>:
  output. \<open>Cpu_Affinity\<close>: the processor set of a thread and the answer of the scheduler to it.

  \<^bold>\<open>The core.\<close>
  \<^item> \<open>Event_Ptr\<close> (\<open>event_ptr\<close>): every program over pointers keeps each cell with exactly one owner
    or in the list of deleter calls.
  \<^item> \<open>Pool\<close>, \<open>Pool_Concurrent\<close> (\<open>pool\<close>): cells are partitioned into free and held; for any number
    of threads no cell is held twice, all accesses are in bounds, and the calls and returns of \<open>make\<close> and \<open>free\<close> are a
    history of a stack whose operations each take effect at once (linearizability), as long
    as fewer than \<open>2 ^ 32\<close> swaps fall between a load of the head and the swap that uses it.
  \<^item> \<open>Conduit\<close>, \<open>Conduit_Concurrent\<close> (\<open>conduit\<close>): a first-in first-out queue with one slot less
    than its array, for every interleaving of the two threads. \<open>Conduit_Memory_Order\<close>: the same under the
    memory orders of the code, without any data race on the slots, and a received event is seen with all that was
    written before it was sent.
  \<^item> \<open>Pool_Memory_Order\<close> (\<open>pool\<close> under memory orders): the relaxed reload of a failed compare-and-swap leads to a
    data race on \<open>next\<close> before a compare-and-swap that succeeds; in a variant of the code with an acquire there, every such
    read is ordered.
  \<^item> \<open>Pipeline\<close> (\<open>pipeline\<close>, \<open>bound_sink\<close>): the order of handler calls, and that an event given to
    the pipeline is returned to the pool once, unless a handler for a base type resets it.
  \<^item> \<open>Stage_Pipeline\<close> (handlers that read and write their event): dispatching fresh events is the
    same as running the handlers one after the other on the value, up to the first that answers
    false, and leaves the pool as it was.
  \<^item> \<open>Runtime_Domain\<close> (\<open>runtime_domain\<close>, \<open>trivial_serializer\<close>): every event lives in and returns to the
    pool of its type; a decoded event is the encoded one.
  \<^item> \<open>Round_Robin\<close> (\<open>round_robin_switch\<close>, \<open>round_robin_poller\<close>): dealing in turn over whatever is bound,
    and no starvation.
  \<^item> \<open>Net_Conduit\<close>, \<open>Node_Runtime\<close> (\<open>networked_conduit\<close>, \<open>node_runtime\<close>): the sink is
    given the objects that were sent, complete and in order, over any splitting of the byte stream; the polling loop ends
    after a stop if the kernel's answers to each poll come to an end, pinned to its core or not.
  \<^item> \<open>Http_Parser\<close> (\<open>http_parser\<close>): no read leaves the buffer or the array of
    headers, views stay inside the buffer, and a printed request is read back.

  \<^bold>\<open>The pending components.\<close>
  \<^item> \<open>Slab_Allocator\<close>, \<open>Pinned_Slab\<close>, \<open>Spsc_Ring\<close>: the same contracts as pool and conduit; the pinned
    slab is shown unsafe for two threads.
  \<^item> \<open>Slab_Concurrent\<close>, \<open>Spsc_Ring_Concurrent\<close>: the threads of the slab allocator and of the SPSC ring, by simulation
    from those of the pool and the conduit: no slot is held twice, and the ring delivers in order.
  \<^item> \<open>Physical_Layout\<close>: the places of members under \<open>alignas\<close>; the indices of a conduit, the slots of a slab and its
    head never share a cache line.
  \<^item> \<open>Timing_Wheel\<close>, \<open>Moe_Dispatcher\<close>: the intrusive lists refine a map from timers to due times, and
    a request that gets no answer is reported at its deadline; a timer cancelled after it has fired takes the
    pending timers of its bucket with it.
  \<^item> \<open>Http_Gateway\<close>: every accepted connection is answered or queued, and no block is lost; a queued event is
    overwritten by the next packet. The accept loop serves one client per step, and the core pops and releases
    blocks between two such steps.
  \<^item> \<open>Durable_Storage\<close>: a replayed log delivers the events that were logged.
  \<^item> \<open>Environment\<close>: workers handle the events of their conduit in order, the threads must be waited
    for before the environment is destroyed, and an I/O node that does not return keeps it waiting.
  \<^item> \<open>Telemetry_Gateway\<close>: the utilization is between 0 and 100, a client reads back what was sampled,
    and the detached thread outlives a gateway that is destroyed too early.
  \<^item> \<open>Telemetry\<close>, \<open>Prometheus_Exporter\<close>: the rates and the metrics that are printed and served are the numbers
    of events that the wrapped nodes have handled.
  \<^item> \<open>Saga\<close>, \<open>Mesh_Router\<close>, \<open>Clock_Node\<close>, \<open>Async_Logger\<close>, \<open>Load_Generator\<close>: the behaviour of each operation
    and loop, and where it falls short of its comments.

  \<^bold>\<open>Composition.\<close> \<open>Event_Flow\<close> keeps a ledger of the cells over pool, conduits, switch, poller and
  the pointers in the hands of threads. On it rest \<open>Network_Routing\<close>
  (\<open>examples/04_showcase/02_deterministic_network_routing.cpp\<close>) and \<open>Sharding\<close>
  (\<open>examples/02_concurrency_and_routing/02_fan_in_polling.cpp\<close> and \<open>03_sharding.cpp\<close>), with all
  threads, up to termination under every fair schedule. \<open>Event_Line\<close> is a pool, a conduit, a thread that
  sends and one that receives up to a sentinel; its locale \<open>sender\<close> is the contract of the sending
  program and gives termination and delivery in order. \<open>Graceful_Drain\<close>
  (\<open>examples/03_resilience_and_control/03_graceful_drain.cpp\<close>, interpretation \<open>gd\<close>) and \<open>Script_Line\<close>
  (\<open>02_heartbeat_timeouts.cpp\<close> and \<open>02_concurrency_and_routing/01_lockfree_spsc_bus.cpp\<close>,
  interpretation \<open>sc\<close>) rest on it. The remaining examples run a pipeline: \<open>Flight_Controller\<close>
  (\<open>04_showcase/01_autonomous_drone_ecs.cpp\<close>) starts the motors for sound and slow vectors only,
  \<open>Market_Orders\<close> (\<open>04_showcase/04_ultimate_logic_synthetis.cpp\<close>) routes the accepted orders with
  their fee, and \<open>Pipeline_Examples\<close> has the programs under \<open>01_core_patterns\<close>, \<open>01_backpressure_drops.cpp\<close>,
  \<open>04_cache_line_isolation.cpp\<close> and \<open>03_zero_allocation_hotpath.cpp\<close> with what they print.

  \<^bold>\<open>Bounds and fuel.\<close> A program of threads takes its schedule as a list and the theorems ask for
  a number of fair rounds: a rank counts the steps left, each round lowers it, and the number asked for
  is its value at the start. For the drain that is the 51 events it makes with four steps each, for the
  scripts four steps for each event; more rounds change nothing.

  \<^bold>\<open>Not modelled.\<close> \<open>supplemental/telemetry.hpp\<close> (empty), the stubs \<open>cluster\<close>, \<open>router\<close> and \<open>bind_route\<close> of \<open>core.hpp\<close> (empty
  bodies), the Windows branches, the memory orders of classes other than
  \<open>conduit\<close> and \<open>pool\<close>, console output of the threaded programs that
  no result depends on, sleeping and yielding, the tests and the benchmarks.
\<close>

end
